(* ===== verification/Prelude.thy ===== *)
theory Prelude
  imports Main "HOL-Library.Word"
begin

unbundle bit_operations_syntax

text \<open>
  Shared vocabulary of the development: the C integer types and the error codes the drivers
  return, 32-bit arithmetic on natural numbers with its wrap-around written out, word-addressed
  memory (a total map from word indices to 32-bit words, as the SoC's SRAM and register blocks
  are), the block copies the drivers make in it, cached and uncached addresses, the order of bytes in a
  word, and the generic lemmas on these that the
  component theories use.  The named collections gather the defining equations that a group of
  proofs unfolds together.
\<close>

named_theorems mps_defs \<open>defining equations of the mailbox FIFO primitives\<close>
named_theorems mem_simps \<open>reads of word-addressed memory after writes\<close>
named_theorems frame_simps \<open>what an operation leaves unchanged\<close>

section \<open>Integer types and result codes\<close>

type_synonym u8 = "8 word"
type_synonym u16 = "16 word"
type_synonym u32 = "32 word"
type_synonym s32 = int

text \<open>\<open>OK\<close> and \<open>ERROR\<close> are those of \<open>ifx_types.h\<close>; the error numbers are those of
  \<open>asm-mips/errno.h\<close> and \<open>linux/errno.h\<close>.\<close>

abbreviation (input) OK :: s32 where "OK \<equiv> 0"
abbreviation (input) ERROR :: s32 where "ERROR \<equiv> - 1"
abbreviation (input) EPERM :: s32 where "EPERM \<equiv> 1"
abbreviation (input) EIO :: s32 where "EIO \<equiv> 5"
abbreviation (input) EAGAIN :: s32 where "EAGAIN \<equiv> 11"
abbreviation (input) ENOMEM :: s32 where "ENOMEM \<equiv> 12"
abbreviation (input) EFAULT :: s32 where "EFAULT \<equiv> 14"
abbreviation (input) EBUSY :: s32 where "EBUSY \<equiv> 16"
abbreviation (input) EEXIST :: s32 where "EEXIST \<equiv> 17"
abbreviation (input) ENODEV :: s32 where "ENODEV \<equiv> 19"
abbreviation (input) EINVAL :: s32 where "EINVAL \<equiv> 22"
abbreviation (input) EMFILE :: s32 where "EMFILE \<equiv> 24"
abbreviation (input) ENOTTY :: s32 where "ENOTTY \<equiv> 25"
abbreviation (input) ENOMSG :: s32 where "ENOMSG \<equiv> 35"
abbreviation (input) ENOIOCTLCMD :: s32 where "ENOIOCTLCMD \<equiv> 515"

section \<open>Unsigned 32-bit arithmetic on naturals\<close>

definition u32_add :: "nat \<Rightarrow> nat \<Rightarrow> nat" where
  "u32_add a b = (a + b) mod 2 ^ 32"

definition u32_sub :: "nat \<Rightarrow> nat \<Rightarrow> nat" where
  "u32_sub a b = (a + (2 ^ 32 - b mod 2 ^ 32)) mod 2 ^ 32"

definition u32_shl :: "nat \<Rightarrow> nat \<Rightarrow> nat" where
  "u32_shl a n = (a * 2 ^ n) mod 2 ^ 32"

lemma u32_add_exact [simp]: "a + b < 2 ^ 32 \<Longrightarrow> u32_add a b = a + b"
  by (simp add: u32_add_def)

lemma u32_sub_exact [simp]: "b \<le> a \<Longrightarrow> a < 2 ^ 32 \<Longrightarrow> u32_sub a b = a - b"
proof -
  assume "b \<le> a" "a < 2 ^ 32"
  then have "a + (2 ^ 32 - b mod 2 ^ 32) = (a - b) + 2 ^ 32" by simp
  moreover have "a - b < 2 ^ 32" using \<open>a < 2 ^ 32\<close> by simp
  ultimately show ?thesis by (simp add: u32_sub_def)
qed

lemma u32_shl_exact [simp]: "a * 2 ^ n < 2 ^ 32 \<Longrightarrow> u32_shl a n = a * 2 ^ n"
  by (simp add: u32_shl_def)

lemma u32_add_less: "u32_add a b < 2 ^ 32"
  by (simp add: u32_add_def)

lemma unat_of_nat_u32 [simp]: "n < 2 ^ 32 \<Longrightarrow> unat (of_nat n :: u32) = n"
  by (simp add: unat_of_nat take_bit_nat_eq_self)

lemma of_nat_eq_0_iff_u32: "n < 2 ^ 32 \<Longrightarrow> (of_nat n :: u32) = 0 \<longleftrightarrow> n = 0"
  by (drule unat_of_nat_u32) auto

lemma unat_add_u32:
  "unat a + n < 2 ^ 32 \<Longrightarrow> unat (a + of_nat n :: u32) = unat a + n"
  by (simp add: unat_word_ariths unat_of_nat take_bit_nat_eq_self)

section \<open>Addresses\<close>

text \<open>\<open>CPHYSADDR\<close> and \<open>KSEG1ADDR\<close> of \<open>asm-mips/addrspace.h\<close>: the uncached alias \<open>_MU\<close> of an
  address.\<close>

definition PHYSADDR :: "u32 \<Rightarrow> u32" where
  "PHYSADDR a = a AND 0x1FFFFFFF"

definition KSEG1ADDR :: "u32 \<Rightarrow> u32" where
  "KSEG1ADDR a = PHYSADDR a OR 0xA0000000"

section \<open>Byte order\<close>

text \<open>\<open>___swab32\<close> of \<open>linux/byteorder/swab.h\<close>.\<close>

definition swab32 :: "u32 \<Rightarrow> u32" where
  "swab32 x = push_bit 24 (x AND 0x000000FF) OR push_bit 8 (x AND 0x0000FF00)
     OR drop_bit 8 (x AND 0x00FF0000) OR drop_bit 24 (x AND 0xFF000000)"

lemma byte_masks:
  "(0xFF :: u32) = mask 8" "(0xFF00 :: u32) = push_bit 8 (mask 8)" "(0xFF0000 :: u32) = push_bit 16 (mask 8)"
  "(0xFF000000 :: u32) = push_bit 24 (mask 8)" "(0xFFFF :: u32) = mask 16" "(0xFC :: u32) = push_bit 2 (mask 6)" "(3 :: u32) = mask 2"
  by (simp_all add: mask_eq_exp_minus_1)

lemma bit_swab32:
  "bit (swab32 x) n \<longleftrightarrow> (if n < 8 then bit x (24 + n) else if n < 16 then bit x (8 + n) else if n < 24 then bit x (n - 8)
     else n < 32 \<and> bit x (n - 24))"
  unfolding swab32_def byte_masks by (auto simp: bit_simps)

lemma swab32_swab32 [simp]: "swab32 (swab32 x) = x"
proof (rule bit_word_eqI)
  fix n assume "n < LENGTH(32)"
  then consider "n < 8" | "8 \<le> n" "n < 16" | "16 \<le> n" "n < 24" | "24 \<le> n" "n < 32" by fastforce
  then show "bit (swab32 (swab32 x)) n = bit x n" by cases (auto simp: bit_swab32)
qed

lemma swab32_eq_iff [simp]: "swab32 x = swab32 y \<longleftrightarrow> x = y"
  by (metis swab32_swab32)

section \<open>Word-addressed memory\<close>

type_synonym mem = "nat \<Rightarrow> u32"

text \<open>The \<open>for (i = 0; i < n; i++) *pNew++ = *pRead++\<close> loops of the drivers, from a buffer.\<close>

fun copy_words :: "mem \<Rightarrow> nat \<Rightarrow> u32 list \<Rightarrow> mem" where
  "copy_words m a [] = m"
| "copy_words m a (x # xs) = copy_words (m(a := x)) (Suc a) xs"

text \<open>\<open>n\<close> consecutive words from address \<open>a\<close> on.\<close>

definition words_at :: "mem \<Rightarrow> nat \<Rightarrow> nat \<Rightarrow> u32 list" where
  "words_at m a n = map m [a..<a + n]"

lemma copy_words_outside [mem_simps]:
  "x < a \<or> a + length ws \<le> x \<Longrightarrow> copy_words m a ws x = m x"
  by (induction ws arbitrary: m a) auto

lemma copy_words_nth:
  "i < length ws \<Longrightarrow> copy_words m a ws (a + i) = ws ! i"
proof (induction ws arbitrary: m a i)
  case (Cons w ws)
  show ?case
  proof (cases i)
    case 0
    then show ?thesis by (simp add: copy_words_outside)
  next
    case (Suc j)
    with Cons.prems have "copy_words (m(a := w)) (Suc a) ws (Suc a + j) = ws ! j"
      by (intro Cons.IH) simp
    with Suc show ?thesis by simp
  qed
qed simp

lemma copy_words_inside:
  "a \<le> x \<Longrightarrow> x < a + length ws \<Longrightarrow> copy_words m a ws x = ws ! (x - a)"
  using copy_words_nth [of "x - a" ws m a] by simp

lemma length_words_at [simp]: "length (words_at m a n) = n"
  by (simp add: words_at_def)

lemma words_at_nth [simp]: "i < n \<Longrightarrow> words_at m a n ! i = m (a + i)"
  by (simp add: words_at_def)

lemma words_at_cong:
  "(\<And>x. a \<le> x \<Longrightarrow> x < a + n \<Longrightarrow> m x = m' x) \<Longrightarrow> words_at m a n = words_at m' a n"
  by (simp add: words_at_def)

lemma words_at_copy_words: "words_at (copy_words m a ws) a (length ws) = ws"
  by (rule nth_equalityI) (simp_all add: copy_words_nth)

lemma words_at_upd_outside [mem_simps]:
  "x < a \<or> a + n \<le> x \<Longrightarrow> words_at (m(x := v)) a n = words_at m a n"
  by (rule words_at_cong) auto

section \<open>Numbers of device calls\<close>

text \<open>A call number holds a direction, a size, the letter of the driver and a number; the direction is 1 for none, 2 for data
  to the caller, 4 for data from it.\<close>

definition IOC_TYPE :: "u32 \<Rightarrow> u32" where "IOC_TYPE cmd = drop_bit 8 cmd AND 0xFF"
definition IOC_DIR :: "u32 \<Rightarrow> u32" where "IOC_DIR cmd = drop_bit 29 cmd AND 7"
definition IOC_NR :: "u32 \<Rightarrow> u32" where "IOC_NR cmd = cmd AND 0xFF"
definition IO :: "u32 \<Rightarrow> u32 \<Rightarrow> u32" where
  "IO type nr = push_bit 29 1 OR push_bit 8 type OR nr"
definition IOR :: "u32 \<Rightarrow> u32 \<Rightarrow> u32 \<Rightarrow> u32" where
  "IOR type nr sz = push_bit 29 2 OR push_bit 8 type OR nr OR push_bit 16 sz"
definition IOW :: "u32 \<Rightarrow> u32 \<Rightarrow> u32 \<Rightarrow> u32" where
  "IOW type nr sz = push_bit 29 4 OR push_bit 8 type OR nr OR push_bit 16 sz"
definition IOWR :: "u32 \<Rightarrow> u32 \<Rightarrow> u32 \<Rightarrow> u32" where
  "IOWR type nr sz = push_bit 29 6 OR push_bit 8 type OR nr OR push_bit 16 sz"

end
