(* ===== verification/Deu_Hash.thy ===== *)
theory Deu_Hash
  imports Prelude
begin

text \<open>
  The SHA-1 and MD5 drivers of the data encryption unit (\<open>drivers/crypto/ifxdeu-sha1.c\<close> and \<open>ifxdeu-md5.c\<close>, without the DMA variant):
  they collect a message that arrives in pieces into blocks of 64 bytes, write the blocks to the one hash engine
  of the chip as sixteen words each, pad the message and read the digest from the engine's registers.  The engine is
  modelled by the words it has been given since its initialisation; the digest registers are a function of these, a parameter.
  The core is big-endian, so a word of a byte array is its four bytes with the first one on top.  The kernel's interface passes at most
  a page of a message at a time, so the sums of indices in the loops do not wrap.
\<close>

section \<open>Bytes and words\<close>

definition be_word :: "u8 \<Rightarrow> u8 \<Rightarrow> u8 \<Rightarrow> u8 \<Rightarrow> u32" where
  "be_word a b c d = push_bit 24 (ucast a) OR push_bit 16 (ucast b) OR push_bit 8 (ucast c) OR ucast d"

fun be_words :: "u8 list \<Rightarrow> u32 list" where
  "be_words (a # b # c # d # r) = be_word a b c d # be_words r"
| "be_words _ = []"

definition be_bytes :: "u32 \<Rightarrow> u8 list" where
  "be_bytes w = [ucast (drop_bit 24 w), ucast (drop_bit 16 w), ucast (drop_bit 8 w), ucast w]"

text \<open>\<open>memcpy\<close> into an array; a copy past its end has no result.\<close>

datatype hash_fault = Overrun

definition memcpy_at :: "nat \<Rightarrow> u8 list \<Rightarrow> u8 list \<Rightarrow> hash_fault + u8 list" where
  "memcpy_at j xs buf =
     (if j + length xs \<le> length buf then Inr (take j buf @ xs @ drop (j + length xs) buf) else Inl Overrun)"

section \<open>The engine\<close>

record hash_engine =
  h_sm :: bool
  h_algo :: nat
  h_mr :: "u32 list"
  irqs_off :: bool

definition init_engine :: "nat \<Rightarrow> hash_engine \<Rightarrow> hash_engine" where
  "init_engine algo e = e\<lparr>h_sm := True, h_algo := algo, h_mr := []\<rparr>"

section \<open>SHA-1\<close>

record sha1_hw_ctx =
  count :: "64 word"
  state :: "u32 list"
  buffer :: "u8 list"

text \<open>The sixteen words at the given place are written to the message register.\<close>

definition sha1_transform :: "u8 list \<Rightarrow> hash_engine \<Rightarrow> hash_engine" where
  "sha1_transform inp e = e\<lparr>h_mr := h_mr e @ be_words (take 64 inp)\<rparr>"

text \<open>The source clears a fresh context and forgets it, so the caller's keeps its contents.  Where the allocation fails, it returns
  with the interrupts off.\<close>

definition sha1_init :: "bool \<Rightarrow> sha1_hw_ctx \<Rightarrow> hash_engine \<Rightarrow> sha1_hw_ctx \<times> hash_engine" where
  "sha1_init mem ctx e = (ctx, if mem then init_engine 0 e else (init_engine 0 e)\<lparr>irqs_off := True\<rparr>)"

function sha1_blocks :: "u8 list \<Rightarrow> nat \<Rightarrow> hash_engine \<Rightarrow> nat \<times> hash_engine" where
  "sha1_blocks data i e =
     (if i + 63 < length data then sha1_blocks data (i + 64) (sha1_transform (drop i data) e) else (i, e))"
  by pat_completeness auto
termination
  by (relation "measure (\<lambda>(data, i, e). length data - i)") auto

declare sha1_blocks.simps [simp del]

definition sha1_update :: "u8 list \<Rightarrow> sha1_hw_ctx \<times> hash_engine \<Rightarrow> hash_fault + sha1_hw_ctx \<times> hash_engine" where
  "sha1_update data s =
     (let sctx = fst s; e = snd s; len = of_nat (length data) :: u32;
          j = unat (drop_bit 3 (count sctx) AND 0x3F);
          sctx1 = sctx\<lparr>count := count sctx + ucast (push_bit 3 len)\<rparr>
      in case
           (if (of_nat j + len :: u32) > 63 then
              case memcpy_at j (take (64 - j) data) (buffer sctx1) of
                Inl f \<Rightarrow> Inl f
              | Inr b \<Rightarrow>
                  (case sha1_blocks data (64 - j) (sha1_transform b e) of (i, e1) \<Rightarrow> Inr (b, 0, i, e1))
            else Inr (buffer sctx1, j, 0, e))
         of Inl f \<Rightarrow> Inl f
          | Inr (b, j1, i, e1) \<Rightarrow> map_sum id (\<lambda>b1. (sctx1\<lparr>buffer := b1\<rparr>, e1)) (memcpy_at j1 (drop i data) b))"

definition sha1_padding :: "u8 list" where
  "sha1_padding = 0x80 # replicate 63 0"

definition count_bytes :: "64 word \<Rightarrow> u8 list" where
  "count_bytes t = map (\<lambda>k. ucast (drop_bit (56 - 8 * k) t)) [0..<8]"

text \<open>\<open>dregs\<close> gives the digest registers for an algorithm and the words written since the initialisation.\<close>

definition sha1_final ::
  "(nat \<Rightarrow> u32 list \<Rightarrow> u32 list) \<Rightarrow> sha1_hw_ctx \<times> hash_engine \<Rightarrow> hash_fault + u32 list \<times> sha1_hw_ctx \<times> hash_engine" where
  "sha1_final dregs s =
     (let bits = count_bytes (count (fst s));
          index = unat (drop_bit 3 (count (fst s)) AND 0x3F);
          padlen = (if index < 56 then 56 - index else 64 + 56 - index)
      in case sha1_update (take padlen sha1_padding) s of
           Inl f \<Rightarrow> Inl f
         | Inr s1 \<Rightarrow>
             (case sha1_update bits s1 of
                Inl f \<Rightarrow> Inl f
              | Inr (ctx2, e2) \<Rightarrow>
                  Inr (take 5 (dregs (h_algo e2) (h_mr e2)),
                       ctx2\<lparr>count := 0, state := replicate 5 0, buffer := replicate 64 0\<rparr>, e2\<lparr>h_sm := False\<rparr>)))"

section \<open>MD5\<close>

record md5_ctx =
  hash :: "u32 list"
  block :: "u8 list"
  byte_count :: "64 word"

definition md5_transform :: "u8 list \<Rightarrow> hash_engine \<Rightarrow> hash_engine" where
  "md5_transform inp e = e\<lparr>h_mr := h_mr e @ map swab32 (be_words (take 64 inp))\<rparr>"

definition md5_transform_helper :: "md5_ctx \<Rightarrow> hash_engine \<Rightarrow> hash_engine" where
  "md5_transform_helper ctx e = md5_transform (block ctx) e"

definition md5_init :: "md5_ctx \<Rightarrow> hash_engine \<Rightarrow> md5_ctx \<times> hash_engine" where
  "md5_init mctx e = (mctx\<lparr>byte_count := 0\<rparr>, init_engine 1 e)"

text \<open>The loop over whole blocks and the copy of the rest.\<close>

function md5_blocks :: "u8 list \<Rightarrow> md5_ctx \<times> hash_engine \<Rightarrow> hash_fault + md5_ctx \<times> hash_engine" where
  "md5_blocks data s =
     (if length data \<ge> 64 then
        case memcpy_at 0 (take 64 data) (block (fst s)) of
          Inl f \<Rightarrow> Inl f
        | Inr b \<Rightarrow> let c = (fst s)\<lparr>block := b\<rparr> in md5_blocks (drop 64 data) (c, md5_transform_helper c (snd s))
      else map_sum id (\<lambda>b. ((fst s)\<lparr>block := b\<rparr>, snd s)) (memcpy_at 0 data (block (fst s))))"
  by pat_completeness auto
termination
  by (relation "measure (\<lambda>(data, s). length data)") auto

declare md5_blocks.simps [simp del]

definition md5_update :: "u8 list \<Rightarrow> md5_ctx \<times> hash_engine \<Rightarrow> hash_fault + md5_ctx \<times> hash_engine" where
  "md5_update data s =
     (let mctx = fst s; avail = 64 - unat (byte_count mctx AND 0x3F);
          c1 = mctx\<lparr>byte_count := byte_count mctx + of_nat (length data)\<rparr>
      in if avail > length data then
           map_sum id (\<lambda>b. (c1\<lparr>block := b\<rparr>, snd s)) (memcpy_at (64 - avail) data (block c1))
         else
           (case memcpy_at (64 - avail) (take avail data) (block c1) of
              Inl f \<Rightarrow> Inl f
            | Inr b \<Rightarrow> let c2 = c1\<lparr>block := b\<rparr> in md5_blocks (drop avail data) (c2, md5_transform_helper c2 (snd s))))"

text \<open>Words 14 and 15 of the block are stored in the byte order of the core.\<close>

definition md5_final ::
  "(nat \<Rightarrow> u32 list \<Rightarrow> u32 list) \<Rightarrow> md5_ctx \<times> hash_engine \<Rightarrow> hash_fault + u32 list \<times> md5_ctx \<times> hash_engine" where
  "md5_final dregs s =
     (let mctx = fst s; offset = unat (byte_count mctx AND 0x3F); padding = 56 - (int offset + 1)
      in case memcpy_at offset [0x80] (block mctx) of
           Inl f \<Rightarrow> Inl f
         | Inr b1 \<Rightarrow>
             (case (if padding < 0 then
                      map_sum id (\<lambda>b. (b, 0, 56, md5_transform_helper (mctx\<lparr>block := b\<rparr>) (snd s)))
                        (memcpy_at (offset + 1) (replicate (nat (padding + 8)) 0) b1)
                    else Inr (b1, offset + 1, nat padding, snd s))
              of Inl f \<Rightarrow> Inl f
               | Inr (b2, p, pad, e1) \<Rightarrow>
                   (case memcpy_at p (replicate pad 0) b2 of
                      Inl f \<Rightarrow> Inl f
                    | Inr b3 \<Rightarrow>
                        let b4 = take 56 b3 @ be_bytes (swab32 (ucast (push_bit 3 (byte_count mctx))))
                                   @ be_bytes (swab32 (ucast (drop_bit 29 (byte_count mctx))));
                            e2 = md5_transform b4 e1
                        in Inr (map swab32 (take 4 (dregs (h_algo e2) (h_mr e2))),
                                mctx\<lparr>hash := replicate 4 0, block := replicate 64 0, byte_count := 0\<rparr>, e2\<lparr>h_sm := False\<rparr>))))"

section \<open>Words and arrays\<close>

lemma be_words_append: "4 dvd length a \<Longrightarrow> be_words (a @ b) = be_words a @ be_words b"
proof (induction a rule: be_words.induct)
  case (1 a b c d r)
  then have "4 dvd length r" by simp presburger
  then show ?case using 1 by simp
qed (auto dest: dvd_imp_le)

lemma be_words_append_64: "64 dvd length a \<Longrightarrow> be_words (a @ b) = be_words a @ be_words b"
  by (rule be_words_append) (erule dvd_trans [rotated], simp)

lemma unat_low6: "unat (x AND 0x3F :: 64 word) = unat x mod 64"
proof -
  have "(0x3F :: 64 word) = mask 6" by (simp add: mask_eq_exp_minus_1)
  then have "x AND 0x3F = take_bit 6 x" by (simp add: take_bit_eq_mask)
  then show ?thesis by (simp add: unsigned_take_bit_eq take_bit_nat_def)
qed

lemma unat_lt_64: "unat (x :: 64 word) < 2 ^ 64"
  using unsigned_less [of x] by simp

lemma of_nat_unat_64: "of_nat (unat x) = (x :: 64 word)"
  by simp

lemma unat_drop_64: "unat (drop_bit n x :: 64 word) = unat x div 2 ^ n"
  using unat_lt_64 [of x] by (simp add: unsigned_drop_bit_eq drop_bit_nat_def take_bit_nat_eq_self)

lemma memcpy_at_ok: "j + length xs \<le> length buf \<Longrightarrow> memcpy_at j xs buf = Inr (take j buf @ xs @ drop (j + length xs) buf)"
  by (simp add: memcpy_at_def)

section \<open>Collecting a message in blocks\<close>

text \<open>A sequence of updates.\<close>

fun feed :: "(u8 list \<Rightarrow> 's \<Rightarrow> hash_fault + 's) \<Rightarrow> u8 list list \<Rightarrow> 's \<Rightarrow> hash_fault + 's" where
  "feed upd [] s = Inr s"
| "feed upd (d # ds) s = (case upd d s of Inl f \<Rightarrow> Inl f | Inr s1 \<Rightarrow> feed upd ds s1)"

definition whole :: "nat \<Rightarrow> nat" where
  "whole n = n div 64 * 64"

lemma whole_le: "whole n \<le> n"
  by (simp add: whole_def)

lemma whole_add: "whole n = a \<Longrightarrow> whole (n + k) = a + whole (n - a + k)"
proof -
  assume a: "whole n = a"
  have "(n mod 64 + k + n div 64 * 64) div 64 = n div 64 + (n mod 64 + k) div 64" by (rule div_mult_self1) simp
  moreover have "n mod 64 + k + n div 64 * 64 = n + k" using div_mult_mod_eq [of n 64] by linarith
  ultimately have "(n + k) div 64 = n div 64 + (n mod 64 + k) div 64" by simp
  moreover have "n - a = n mod 64" using a by (auto simp: whole_def minus_div_mult_eq_mod)
  ultimately show ?thesis using a by (simp add: whole_def algebra_simps)
qed

lemma whole_64: "whole (64 + n) = 64 + whole n"
  unfolding whole_def by (subst div_add_self1) simp_all

text \<open>The contract of an update: the pending bytes and the new ones are given to the engine block by block, and what is left is pending.\<close>

locale block_stream =
  fixes upd :: "u8 list \<Rightarrow> 's \<Rightarrow> hash_fault + 's" and inv :: "'s \<Rightarrow> bool" and cnt :: "'s \<Rightarrow> nat" and pend :: "'s \<Rightarrow> u8 list"
    and fed :: "'s \<Rightarrow> u32 list" and conv :: "u8 list \<Rightarrow> u32 list" and piece :: nat and bound :: nat
  assumes conv_append: "64 dvd length a \<Longrightarrow> conv (a @ b) = conv a @ conv b"
    and absorb: "inv s \<Longrightarrow> length d < piece \<Longrightarrow> cnt s + length d < bound \<Longrightarrow>
      \<exists>s'. upd d s = Inr s' \<and> inv s' \<and> cnt s' = cnt s + length d \<and> pend s' = drop (whole (length (pend s @ d))) (pend s @ d)
        \<and> fed s' = fed s @ conv (take (whole (length (pend s @ d))) (pend s @ d))"
begin

text \<open>The state after a message.\<close>

definition holds :: "u8 list \<Rightarrow> 's \<Rightarrow> bool" where
  "holds m s \<longleftrightarrow> inv s \<and> cnt s = length m \<and> pend s = drop (whole (length m)) m \<and> fed s = conv (take (whole (length m)) m)"

lemma conv_Nil [simp]: "conv [] = []"
  using conv_append [of "[]" "[]"] by simp

lemma holds_Nil: "inv s \<Longrightarrow> cnt s = 0 \<Longrightarrow> pend s = [] \<Longrightarrow> fed s = [] \<Longrightarrow> holds [] s"
  by (simp add: holds_def whole_def)

lemma holds_upd:
  assumes h: "holds m s" and l: "length d < piece" "length m + length d < bound"
  shows "\<exists>s'. upd d s = Inr s' \<and> holds (m @ d) s'"
proof -
  let ?n = "whole (length m)" and ?p = "pend s @ d"
  have p: "pend s = drop ?n m" "cnt s = length m" "fed s = conv (take ?n m)" "inv s" using h by (simp_all add: holds_def)
  obtain s' where s': "upd d s = Inr s'" "inv s'" "cnt s' = length m + length d" "pend s' = drop (whole (length ?p)) ?p"
    "fed s' = fed s @ conv (take (whole (length ?p)) ?p)" using absorb [OF p(4) l(1)] p(2) l(2) by auto
  have w: "whole (length (m @ d)) = ?n + whole (length ?p)"
    using whole_add [of "length m" ?n "length d"] p(1) by simp
  have md: "m @ d = take ?n m @ ?p" by (simp add: p(1))
  have "drop (?n + k) (m @ d) = drop k ?p" "take (?n + k) (m @ d) = take ?n m @ take k ?p" for k
    using whole_le [of "length m"] by (subst md; simp)+
  moreover have "length (take ?n m) = ?n" using whole_le [of "length m"] by simp
  then have "64 dvd length (take ?n m)" by (simp add: whole_def)
  ultimately show ?thesis using s' p(3) unfolding holds_def w by (intro exI [of _ s']) (simp add: conv_append)
qed

lemma holds_feed:
  assumes "holds m s" "\<forall>d\<in>set ds. length d < piece" "length m + length (concat ds) < bound"
  shows "\<exists>s'. feed upd ds s = Inr s' \<and> holds (m @ concat ds) s'"
  using assms
proof (induction ds arbitrary: m s)
  case (Cons d ds)
  obtain s1 where s1: "upd d s = Inr s1" "holds (m @ d) s1" using holds_upd [OF Cons.prems(1), of d] Cons.prems(2,3) by force
  then show ?case using Cons.IH [OF s1(2)] Cons.prems(2,3) by (simp add: add.assoc)
qed simp

end

section \<open>Updates meet the contract\<close>

lemma sha1_blocks_spec:
  assumes "i \<le> length data"
  shows "sha1_blocks data i e = (i + whole (length data - i), e\<lparr>h_mr := h_mr e @ be_words (take (whole (length data - i)) (drop i data))\<rparr>)"
  using assms
proof (induction data i e rule: sha1_blocks.induct)
  case (1 data i e)
  show ?case
  proof (cases "i + 63 < length data")
    case True
    let ?n = "whole (length data - (i + 64))"
    have w: "whole (length data - i) = 64 + ?n"
    proof -
      have "length data - i = 64 + (length data - (i + 64))" using True by simp
      then show ?thesis by (metis whole_64)
    qed
    have "take (64 + ?n) (drop i data) = take 64 (drop i data) @ take ?n (drop (i + 64) data)"
      by (simp add: take_add add.commute)
    moreover have "64 dvd length (take 64 (drop i data))" using True by simp
    ultimately show ?thesis using "1.IH" [OF True] True
      by (subst sha1_blocks.simps) (simp add: w sha1_transform_def be_words_append_64)
  next
    case False
    then have "whole (length data - i) = 0" by (simp add: whole_def)
    then show ?thesis using False by (subst sha1_blocks.simps) simp
  qed
qed

definition sha1_inv :: "sha1_hw_ctx \<times> hash_engine \<Rightarrow> bool" where
  "sha1_inv s \<longleftrightarrow> length (buffer (fst s)) = 64 \<and> unat (count (fst s)) mod 8 = 0 \<and> h_algo (snd s) = 0"

definition sha1_cnt :: "sha1_hw_ctx \<times> hash_engine \<Rightarrow> nat" where
  "sha1_cnt s = unat (count (fst s)) div 8"

definition sha1_pend :: "sha1_hw_ctx \<times> hash_engine \<Rightarrow> u8 list" where
  "sha1_pend s = take (sha1_cnt s mod 64) (buffer (fst s))"

lemma sha1_count_add:
  assumes "n < 2 ^ 29" "unat c + 8 * n < 2 ^ 64"
  shows "unat (c + ucast (push_bit 3 (of_nat n :: u32)) :: 64 word) = unat c + 8 * n"
proof -
  have "unat (push_bit 3 (of_nat n :: u32)) = 8 * n"
    using assms(1) by (simp add: unsigned_push_bit_eq push_bit_nat_def take_bit_nat_def unat_of_nat_u32)
  then have "unat (ucast (push_bit 3 (of_nat n :: u32)) :: 64 word) = 8 * n"
    using assms(1) by (simp add: unsigned_ucast_eq take_bit_nat_def)
  then show ?thesis using assms(2) by (simp add: unat_word_ariths)
qed

text \<open>A copy to the pending bytes.\<close>

lemma sha1_update_short:
  assumes inv: "sha1_inv s" and l: "sha1_cnt s mod 64 + length d < 64" "length d < 2 ^ 29"
  shows "sha1_update d s = Inr ((fst s)\<lparr>count := count (fst s) + ucast (push_bit 3 (of_nat (length d) :: u32)),
      buffer := sha1_pend s @ d @ drop (sha1_cnt s mod 64 + length d) (buffer (fst s))\<rparr>, snd s)"
proof -
  have j: "unat (drop_bit 3 (count (fst s)) AND 0x3F) = sha1_cnt s mod 64" by (simp add: unat_low6 unat_drop_64 sha1_cnt_def)
  have "\<not> (of_nat (sha1_cnt s mod 64) + of_nat (length d) :: u32) > 63"
    using l by (simp add: word_less_nat_alt flip: of_nat_add)
  moreover have "memcpy_at (sha1_cnt s mod 64) d (buffer (fst s))
      = Inr (sha1_pend s @ d @ drop (sha1_cnt s mod 64 + length d) (buffer (fst s)))"
    using inv l(1) by (simp add: memcpy_at_ok sha1_inv_def sha1_pend_def)
  ultimately show ?thesis unfolding sha1_update_def Let_def j by simp
qed

text \<open>A copy that fills the first block; the following ones are taken from the data.\<close>

lemma sha1_update_long:
  assumes inv: "sha1_inv s" and l: "sha1_cnt s mod 64 + length d \<ge> 64" "length d < 2 ^ 29"
  defines "i \<equiv> 64 - sha1_cnt s mod 64"
  defines "b \<equiv> sha1_pend s @ take i d" and "k \<equiv> i + whole (length d - i)"
  shows "sha1_update d s = Inr ((fst s)\<lparr>count := count (fst s) + ucast (push_bit 3 (of_nat (length d) :: u32)),
      buffer := drop k d @ drop (length d - k) b\<rparr>,
      (snd s)\<lparr>h_mr := h_mr (snd s) @ be_words (b @ take (k - i) (drop i d))\<rparr>)"
proof -
  have j: "unat (drop_bit 3 (count (fst s)) AND 0x3F) = sha1_cnt s mod 64" by (simp add: unat_low6 unat_drop_64 sha1_cnt_def)
  have g: "(of_nat (sha1_cnt s mod 64) + of_nat (length d) :: u32) > 63"
    using l by (simp add: word_less_nat_alt flip: of_nat_add)
  have i: "i \<le> length d" "sha1_cnt s mod 64 + i = 64" using l(1) by (simp_all add: i_def)
  have b: "length b = 64" using inv i by (simp add: b_def sha1_inv_def sha1_pend_def)
  have m: "memcpy_at (sha1_cnt s mod 64) (take i d) (buffer (fst s)) = Inr b"
    using inv i by (simp add: memcpy_at_ok sha1_inv_def sha1_pend_def b_def)
  have k: "k \<le> length d" "length d - k < 64"
    using i(1) whole_le [of "length d - i"] mod_less_divisor [of 64 "length d - i"]
    by (auto simp: k_def whole_def minus_div_mult_eq_mod [symmetric])
  have "sha1_blocks d i (sha1_transform b (snd s))
      = (k, (snd s)\<lparr>h_mr := h_mr (snd s) @ be_words (b @ take (k - i) (drop i d))\<rparr>)"
    using sha1_blocks_spec [OF i(1)] b by (simp add: sha1_transform_def k_def be_words_append_64)
  moreover have "memcpy_at 0 (drop k d) b = Inr (drop k d @ drop (length d - k) b)"
    using k b by (simp add: memcpy_at_ok)
  ultimately show ?thesis using g m unfolding sha1_update_def Let_def j i_def [symmetric] by simp
qed

lemma sha1_absorb:
  assumes inv: "sha1_inv s" and l: "length d < 2 ^ 29" "sha1_cnt s + length d < 2 ^ 61"
  shows "\<exists>s'. sha1_update d s = Inr s' \<and> sha1_inv s' \<and> sha1_cnt s' = sha1_cnt s + length d
    \<and> sha1_pend s' = drop (whole (length (sha1_pend s @ d))) (sha1_pend s @ d)
    \<and> h_mr (snd s') = h_mr (snd s) @ be_words (take (whole (length (sha1_pend s @ d))) (sha1_pend s @ d))"
proof -
  let ?j = "sha1_cnt s mod 64" and ?c = "count (fst s) + ucast (push_bit 3 (of_nat (length d) :: u32))"
  have c8: "unat (count (fst s)) = 8 * sha1_cnt s" using inv by (simp add: sha1_inv_def sha1_cnt_def mod_eq_0_iff_dvd)
  then have c: "unat ?c = 8 * (sha1_cnt s + length d)" using sha1_count_add [OF l(1), of "count (fst s)"] l(2) by simp
  have lp: "length (sha1_pend s) = ?j" using inv by (simp add: sha1_pend_def sha1_inv_def)
  show ?thesis
  proof (cases "?j + length d < 64")
    case True
    then have "(sha1_cnt s + length d) mod 64 = ?j + length d" using mod_add_left_eq [of "sha1_cnt s" 64 "length d"] by simp
    moreover have "whole (length (sha1_pend s @ d)) = 0" using True lp by (simp add: whole_def)
    ultimately show ?thesis using inv c lp True unfolding sha1_update_short [OF inv True l(1)]
      by (auto simp: sha1_inv_def sha1_cnt_def sha1_pend_def)
  next
    case False
    define i where "i = 64 - ?j"
    define k where "k = i + whole (length d - i)"
    have i: "i \<le> length d" "?j + i = 64" using False by (simp_all add: i_def)
    have w: "whole (length (sha1_pend s @ d)) = ?j + k"
    proof -
      have "length (sha1_pend s @ d) = 64 + (length d - i)" using i lp by simp
      then show ?thesis using i(2) by (simp only: whole_64 k_def)
    qed
    have m: "(sha1_cnt s + length d) mod 64 = length d - k"
    proof -
      have "(sha1_cnt s + length d) mod 64 = (?j + length d) mod 64" by (simp add: mod_add_left_eq)
      also have "\<dots> = ?j + length d - whole (?j + length d)" by (simp add: whole_def minus_div_mult_eq_mod)
      finally show ?thesis using w lp by simp
    qed
    have t: "take (?j + k) (sha1_pend s @ d) = (sha1_pend s @ take i d) @ take (k - i) (drop i d)"
      using lp by (simp add: k_def take_add)
    let ?b = "sha1_pend s @ take i d"
    obtain s' where s': "sha1_update d s = Inr s'" "count (fst s') = ?c" "buffer (fst s') = drop k d @ drop (length d - k) ?b"
      "h_mr (snd s') = h_mr (snd s) @ be_words (?b @ take (k - i) (drop i d))" "h_algo (snd s') = h_algo (snd s)"
      using sha1_update_long [OF inv False [unfolded not_less] l(1)] unfolding i_def [symmetric] k_def [symmetric] by simp
    have cnt: "sha1_cnt s' = sha1_cnt s + length d" using c s'(2) by (simp add: sha1_cnt_def)
    have "length ?b = 64" "k \<le> length d" using lp i whole_le [of "length d - i"] by (simp_all add: k_def)
    moreover have "length d - k < 64" unfolding m [symmetric] by simp
    ultimately have "sha1_inv s'" using c s'(2,3,5) inv by (simp add: sha1_inv_def)
    moreover have "sha1_pend s' = drop k d" using sha1_pend_def [of s'] unfolding cnt m s'(3) by simp
    ultimately show ?thesis unfolding w t using s'(1,4) cnt lp by (intro exI [of _ s']) simp
  qed
qed

interpretation sha1: block_stream sha1_update sha1_inv sha1_cnt sha1_pend "\<lambda>s. h_mr (snd s)" be_words "2 ^ 29" "2 ^ 61"
  by unfold_locales (rule be_words_append_64, assumption, rule sha1_absorb, assumption+)

definition le_words :: "u8 list \<Rightarrow> u32 list" where
  "le_words xs = map swab32 (be_words xs)"

lemma le_words_append: "64 dvd length a \<Longrightarrow> le_words (a @ b) = le_words a @ le_words b"
  by (simp add: le_words_def be_words_append_64)

definition md5_inv :: "md5_ctx \<times> hash_engine \<Rightarrow> bool" where
  "md5_inv s \<longleftrightarrow> length (block (fst s)) = 64 \<and> h_algo (snd s) = 1"

definition md5_cnt :: "md5_ctx \<times> hash_engine \<Rightarrow> nat" where
  "md5_cnt s = unat (byte_count (fst s))"

definition md5_pend :: "md5_ctx \<times> hash_engine \<Rightarrow> u8 list" where
  "md5_pend s = take (md5_cnt s mod 64) (block (fst s))"

lemma md5_blocks_spec:
  assumes "length (block (fst s)) = 64"
  shows "\<exists>b. md5_blocks d s = Inr ((fst s)\<lparr>block := drop (whole (length d)) d @ b\<rparr>,
      (snd s)\<lparr>h_mr := h_mr (snd s) @ le_words (take (whole (length d)) d)\<rparr>) \<and> length (drop (whole (length d)) d @ b) = 64"
  using assms
proof (induction d s rule: md5_blocks.induct)
  case (1 d s)
  show ?case
  proof (cases "64 \<le> length d")
    case True
    let ?c = "(fst s)\<lparr>block := take 64 d\<rparr>" and ?n = "whole (length d - 64)"
    have m: "memcpy_at 0 (take 64 d) (block (fst s)) = Inr (take 64 d)" using True 1 by (simp add: memcpy_at_ok)
    obtain b where b: "md5_blocks (drop 64 d) (?c, md5_transform_helper ?c (snd s)) = Inr (?c\<lparr>block := drop ?n (drop 64 d) @ b\<rparr>,
        (md5_transform_helper ?c (snd s))\<lparr>h_mr := h_mr (md5_transform_helper ?c (snd s)) @ le_words (take ?n (drop 64 d))\<rparr>)"
      "length (drop ?n (drop 64 d) @ b) = 64"
      using "1.IH" [OF True m, of ?c] True by auto
    have w: "whole (length d) = 64 + ?n" using whole_64 [of "length d - 64"] True by simp
    have "64 dvd length (take 64 d)" using True by simp
    then show ?thesis using b m True unfolding w
      by (subst md5_blocks.simps) (auto simp: md5_transform_helper_def md5_transform_def le_words_def [symmetric] take_add le_words_append add.commute Let_def)
  next
    case False
    then have w: "whole (length d) = 0" by (simp add: whole_def)
    have "memcpy_at 0 d (block (fst s)) = Inr (d @ drop (length d) (block (fst s)))" using False 1 by (simp add: memcpy_at_ok)
    then show ?thesis using False 1 unfolding w by (subst md5_blocks.simps) (auto simp: le_words_def)
  qed
qed

lemma md5_absorb:
  assumes inv: "md5_inv s" and l: "length d < 2 ^ 32" "md5_cnt s + length d < 2 ^ 61"
  shows "\<exists>s'. md5_update d s = Inr s' \<and> md5_inv s' \<and> md5_cnt s' = md5_cnt s + length d
    \<and> md5_pend s' = drop (whole (length (md5_pend s @ d))) (md5_pend s @ d)
    \<and> h_mr (snd s') = h_mr (snd s) @ le_words (take (whole (length (md5_pend s @ d))) (md5_pend s @ d))"
proof -
  let ?j = "md5_cnt s mod 64" and ?c = "byte_count (fst s) + of_nat (length d)"
  have j: "unat (byte_count (fst s) AND 0x3F) = ?j" by (simp add: unat_low6 md5_cnt_def)
  have c: "unat ?c = md5_cnt s + length d"
    using l by (simp add: md5_cnt_def unat_word_ariths unat_of_nat take_bit_nat_eq_self)
  have lp: "length (md5_pend s) = ?j" using inv by (simp add: md5_pend_def md5_inv_def)
  have jl: "?j < 64" by simp
  show ?thesis
  proof (cases "?j + length d < 64")
    case True
    then have m: "(md5_cnt s + length d) mod 64 = ?j + length d" using mod_add_left_eq [of "md5_cnt s" 64 "length d"] by simp
    have w: "whole (length (md5_pend s @ d)) = 0" using True lp by (simp add: whole_def)
    have "memcpy_at ?j d (block (fst s)) = Inr (md5_pend s @ d @ drop (?j + length d) (block (fst s)))"
      using inv True by (simp add: memcpy_at_ok md5_inv_def md5_pend_def)
    moreover have "64 - (64 - ?j) = ?j" "64 - ?j > length d" using jl True by simp_all
    ultimately have "md5_update d s = Inr ((fst s)\<lparr>byte_count := ?c, block := md5_pend s @ d @ drop (?j + length d) (block (fst s))\<rparr>, snd s)"
      unfolding md5_update_def Let_def j by simp
    then show ?thesis unfolding w using inv c m lp True by (simp add: md5_inv_def md5_cnt_def md5_pend_def le_words_def)
  next
    case False
    define i where "i = 64 - ?j"
    have i: "i \<le> length d" "?j + i = 64" "64 - i = ?j" using False by (simp_all add: i_def)
    let ?b = "md5_pend s @ take i d"
    have b: "length ?b = 64" using lp i by simp
    define n where "n = whole (length d - i)"
    have m: "memcpy_at ?j (take i d) (block (fst s)) = Inr ?b"
      using inv i by (simp add: memcpy_at_ok md5_inv_def md5_pend_def)
    let ?c2 = "(fst s)\<lparr>byte_count := ?c, block := ?b\<rparr>"
    have th: "md5_transform_helper ?c2 (snd s) = (snd s)\<lparr>h_mr := h_mr (snd s) @ le_words ?b\<rparr>"
      using b unfolding md5_transform_helper_def md5_transform_def le_words_def by (simp del: take_append)
    have ap: "le_words (?b @ x) = le_words ?b @ le_words x" for x using le_words_append [of ?b x] b by (simp del: append_assoc)
    obtain r where r: "md5_blocks (drop i d) (?c2, md5_transform_helper ?c2 (snd s)) = Inr (?c2\<lparr>block := drop n (drop i d) @ r\<rparr>,
        (snd s)\<lparr>h_mr := h_mr (snd s) @ le_words (?b @ take n (drop i d))\<rparr>)" "length (drop n (drop i d) @ r) = 64"
      using md5_blocks_spec [of "(?c2, md5_transform_helper ?c2 (snd s))" "drop i d"] b th ap
      by (auto simp: n_def simp del: append_assoc)
    have up: "md5_update d s = Inr (?c2\<lparr>block := drop n (drop i d) @ r\<rparr>, (snd s)\<lparr>h_mr := h_mr (snd s) @ le_words (?b @ take n (drop i d))\<rparr>)"
      using r(1) m i unfolding md5_update_def Let_def j i_def [symmetric] by simp
    have len: "length (md5_pend s @ d) = 64 + (length d - i)" using i lp by simp
    have w: "whole (length (md5_pend s @ d)) = 64 + n" unfolding len by (simp only: whole_64 n_def)
    have "(md5_cnt s + length d) mod 64 = (?j + length d) mod 64" by (simp add: mod_add_left_eq)
    also have "\<dots> = ?j + length d - whole (?j + length d)" by (simp add: whole_def minus_div_mult_eq_mod)
    also have "\<dots> = length (drop n (drop i d))" using w len lp i by simp
    finally have mo: "(md5_cnt s + length d) mod 64 = length (drop n (drop i d))" .
    have "drop (64 + n) (md5_pend s @ d) = drop n (drop i d)" "take (64 + n) (md5_pend s @ d) = ?b @ take n (drop i d)"
      using lp i(2) by (simp_all add: i(3) [symmetric] take_add add.commute) 
    then show ?thesis unfolding w up using c mo r(2) inv by (simp add: md5_inv_def md5_cnt_def md5_pend_def)
  qed
qed

interpretation md5: block_stream md5_update md5_inv md5_cnt md5_pend "\<lambda>s. h_mr (snd s)" le_words "2 ^ 32" "2 ^ 61"
  by unfold_locales (rule le_words_append, assumption, rule md5_absorb, assumption+)

section \<open>Padding\<close>

text \<open>The padding of both standards: one bit, zeros up to eight bytes before the end of a block, and the length in bits, which SHA-1 stores with
  the high byte first and MD5 with the low byte first.\<close>

definition pad_bytes :: "nat \<Rightarrow> u8 list" where
  "pad_bytes n = 0x80 # replicate ((119 - n mod 64) mod 64) 0"

definition sha1_pad :: "u8 list \<Rightarrow> u8 list" where
  "sha1_pad m = m @ pad_bytes (length m) @ count_bytes (of_nat (8 * length m))"

definition md5_pad :: "u8 list \<Rightarrow> u8 list" where
  "md5_pad m = m @ pad_bytes (length m) @ rev (count_bytes (of_nat (8 * length m)))"

lemma length_count_bytes [simp]: "length (count_bytes t) = 8"
  by (simp add: count_bytes_def)

lemma pad_mod: "(119 - r) mod 64 = (if r < 56 then 55 - r else 119 - r)" for r :: nat
proof (cases "r < 56")
  case True
  have "((55 - r) + 64) mod 64 = 55 - r" by (subst mod_add_self2) simp
  moreover have "(55 - r) + 64 = 119 - r" using True by arith
  ultimately show ?thesis using True by simp
next
  case False
  then have "119 - r < 64" by arith
  then show ?thesis using False by simp
qed

lemma padded_dvd: "64 dvd n + length (pad_bytes n) + 8"
proof -
  define r where "r = n mod 64"
  have r: "r < 64" "n = r + 64 * (n div 64)" unfolding r_def by simp_all
  have "length (pad_bytes n) = (if r < 56 then 56 - r else 120 - r)"
    using r(1) by (simp add: pad_bytes_def pad_mod r_def [symmetric]) arith
  then have "n + length (pad_bytes n) + 8 = 64 * (n div 64 + (if r < 56 then 1 else 2))"
    using r by (auto simp: algebra_simps)
  then show ?thesis by (rule dvdI)
qed

lemma sha1_padding_pad:
  assumes "padlen = (if n mod 64 < 56 then 56 - n mod 64 else 64 + 56 - n mod 64)"
  shows "take padlen sha1_padding = pad_bytes n"
proof -
  define r where "r = n mod 64"
  have "r < 64" by (simp add: r_def)
  then have "padlen = Suc ((119 - r) mod 64)" using assms unfolding pad_mod r_def [symmetric] by simp arith
  then show ?thesis by (simp add: sha1_padding_def pad_bytes_def min_def r_def)
qed

lemma whole_dvd: "64 dvd n \<Longrightarrow> whole n = n"
  by (simp add: whole_def)

text \<open>The whole call of the digest interface.\<close>

definition sha1_digest ::
  "(nat \<Rightarrow> u32 list \<Rightarrow> u32 list) \<Rightarrow> bool \<Rightarrow> u8 list list \<Rightarrow> sha1_hw_ctx \<times> hash_engine \<Rightarrow> hash_fault + u32 list \<times> sha1_hw_ctx \<times> hash_engine" where
  "sha1_digest dregs mem ds s =
     (case feed sha1_update ds (sha1_init mem (fst s) (snd s)) of Inl f \<Rightarrow> Inl f | Inr s1 \<Rightarrow> sha1_final dregs s1)"

definition md5_digest ::
  "(nat \<Rightarrow> u32 list \<Rightarrow> u32 list) \<Rightarrow> u8 list list \<Rightarrow> md5_ctx \<times> hash_engine \<Rightarrow> hash_fault + u32 list \<times> md5_ctx \<times> hash_engine" where
  "md5_digest dregs ds s =
     (case feed md5_update ds (md5_init (fst s) (snd s)) of Inl f \<Rightarrow> Inl f | Inr s1 \<Rightarrow> md5_final dregs s1)"

lemma sha1_final_pads:
  assumes h: "sha1.holds m s" and l: "length m < 2 ^ 60"
  shows "\<exists>ctx e. sha1_final dregs s = Inr (take 5 (dregs 0 (be_words (sha1_pad m))), ctx, e) \<and> count ctx = 0 \<and> length (buffer ctx) = 64
    \<and> h_mr e = be_words (sha1_pad m)"
proof -
  let ?c = "count (fst s)"
  have inv: "sha1_inv s" "sha1_cnt s = length m" using h by (simp_all add: sha1.holds_def)
  then have c: "unat ?c = 8 * length m" by (auto simp: sha1_inv_def sha1_cnt_def mod_eq_0_iff_dvd)
  then have cc: "?c = of_nat (8 * length m)" using of_nat_unat_64 [of ?c] by simp
  have ix: "unat (drop_bit 3 ?c AND 0x3F) = length m mod 64" by (simp add: unat_low6 unat_drop_64 c)
  have pl: "length (pad_bytes (length m)) \<le> 64" by (simp add: pad_bytes_def Suc_le_eq)
  obtain s1 where s1: "sha1_update (pad_bytes (length m)) s = Inr s1" "sha1.holds (m @ pad_bytes (length m)) s1"
    using sha1.holds_upd [OF h, of "pad_bytes (length m)"] l pl by auto
  obtain s2 where s2: "sha1_update (count_bytes ?c) s1 = Inr s2" "sha1.holds ((m @ pad_bytes (length m)) @ count_bytes ?c) s2"
    using sha1.holds_upd [OF s1(2), of "count_bytes ?c"] l pl by auto
  have "64 dvd length (sha1_pad m)" using padded_dvd [of "length m"] by (simp add: sha1_pad_def add.assoc)
  then have "h_mr (snd s2) = be_words (sha1_pad m)" "h_algo (snd s2) = 0"
    using s2(2) cc by (simp_all add: sha1.holds_def sha1_pad_def whole_dvd sha1_inv_def)
  then show ?thesis using s1(1) s2(1) unfolding sha1_final_def Let_def ix sha1_padding_pad [OF refl]
    by (cases s2) simp
qed

lemma be_bytes_swab32: "be_bytes (swab32 w) = [ucast w, ucast (drop_bit 8 w), ucast (drop_bit 16 w), ucast (drop_bit 24 w)]"
  unfolding be_bytes_def
  by (auto intro!: bit_word_eqI simp: bit_simps bit_swab32)

lemma rev_count_bytes:
  "rev (count_bytes (push_bit 3 c)) = be_bytes (swab32 (ucast (push_bit 3 c))) @ be_bytes (swab32 (ucast (drop_bit 29 c)))"
proof -
  have "count_bytes x = [ucast (drop_bit 56 x), ucast (drop_bit 48 x), ucast (drop_bit 40 x), ucast (drop_bit 32 x),
      ucast (drop_bit 24 x), ucast (drop_bit 16 x), ucast (drop_bit 8 x), ucast x]" for x
    by (simp add: count_bytes_def upt_rec)
  then show ?thesis unfolding be_bytes_swab32 by (auto intro!: bit_word_eqI simp: bit_simps)
qed

lemma md5_final_tail:
  assumes b: "length (block (fst s)) = 64" and r: "unat (byte_count (fst s) AND 0x3F) = r" "r < 64"
    and len: "len = be_bytes (swab32 (ucast (push_bit 3 (byte_count (fst s))))) @ be_bytes (swab32 (ucast (drop_bit 29 (byte_count (fst s)))))"
  shows "\<exists>e. md5_final dregs s = Inr (map swab32 (take 4 (dregs (h_algo e) (h_mr e))),
        (fst s)\<lparr>hash := replicate 4 0, block := replicate 64 0, byte_count := 0\<rparr>, e\<lparr>h_sm := False\<rparr>)
      \<and> h_algo e = h_algo (snd s) \<and> h_mr e = h_mr (snd s) @ le_words (take r (block (fst s)) @ 0x80 # replicate ((119 - r) mod 64) 0 @ len)"
proof -
  let ?b = "block (fst s)"
  define p where "p = take r ?b"
  have p: "length p = r" using b r(2) by (simp add: p_def)
  have l8: "length len = 8" by (simp add: len be_bytes_def)
  have m1: "memcpy_at r [0x80] ?b = Inr (p @ 0x80 # drop (r + 1) ?b)" using b r(2) by (simp add: memcpy_at_ok p_def)
  show ?thesis
  proof (cases "r < 56")
    case True
    then have "memcpy_at (r + 1) (replicate (55 - r) 0) (p @ 0x80 # drop (r + 1) ?b) = Inr (p @ 0x80 # replicate (55 - r) 0 @ drop 56 ?b)"
      using b p by (simp add: memcpy_at_ok drop_Cons')
    moreover have "nat (56 - (int r + 1)) = 55 - r" "\<not> 56 - (int r + 1) < 0" using True by auto
    moreover have "take 64 (p @ 0x80 # replicate (55 - r) 0 @ len) = p @ 0x80 # replicate (55 - r) 0 @ len"
      "take 56 (p @ 0x80 # replicate (55 - r) 0 @ drop 56 ?b) = p @ 0x80 # replicate (55 - r) 0" using True p l8 by (simp_all add: take_Cons')
    ultimately show ?thesis using m1 True unfolding md5_final_def Let_def r(1) len [symmetric] p_def [symmetric] pad_mod
      by (intro exI [of _ "(snd s)\<lparr>h_mr := h_mr (snd s) @ le_words (p @ 0x80 # replicate (55 - r) 0 @ len)\<rparr>"])
        (simp add: md5_transform_def le_words_def del: take_append)
  next
    case False
    let ?t = "p @ 0x80 # replicate (63 - r) 0"
    have t: "length ?t = 64" using p r(2) by simp
    have m2: "memcpy_at (r + 1) (replicate (63 - r) 0) (p @ 0x80 # drop (r + 1) ?b) = Inr ?t"
      using b p r(2) by (simp add: memcpy_at_ok)
    have m3: "memcpy_at 0 (replicate 56 0) ?t = Inr (replicate 56 0 @ drop 56 ?t)" using t by (subst memcpy_at_ok) simp_all
    have n: "nat (56 - (int r + 1) + 8) = 63 - r" "56 - (int r + 1) < 0" using False r(2) by auto
    have "replicate (119 - r) (0 :: u8) = replicate (63 - r) 0 @ replicate 56 0"
      using r(2) by (simp add: replicate_add [symmetric])
    then have "p @ 0x80 # replicate (119 - r) 0 @ len = ?t @ replicate 56 0 @ len" by simp
    then have le: "le_words (p @ 0x80 # replicate (119 - r) 0 @ len) = le_words ?t @ le_words (replicate 56 0 @ len)"
      using le_words_append [of ?t "replicate 56 0 @ len"] t by simp
    have tt: "take 64 ?t = ?t" "take 64 (replicate 56 0 @ len) = replicate 56 0 @ len" using t l8 by simp_all
    have t56: "take 56 (replicate 56 0 @ drop 56 ?t) = replicate 56 0" by simp
    show ?thesis using m1 m2 m3 n False unfolding md5_final_def Let_def r(1) len [symmetric] p_def [symmetric] pad_mod
      by (intro exI [of _ "(snd s)\<lparr>h_mr := h_mr (snd s) @ le_words ?t @ le_words (replicate 56 0 @ len)\<rparr>"])
        (simp add: md5_transform_helper_def md5_transform_def le tt t56 le_words_def [symmetric] del: take_append drop_append)
  qed
qed

lemma md5_final_pads:
  assumes h: "md5.holds m s" and l: "length m < 2 ^ 60"
  shows "\<exists>ctx e. md5_final dregs s = Inr (map swab32 (take 4 (dregs 1 (le_words (md5_pad m)))), ctx, e) \<and> byte_count ctx = 0
    \<and> length (block ctx) = 64 \<and> h_mr e = le_words (md5_pad m)"
proof -
  let ?c = "byte_count (fst s)" and ?n = "whole (length m)" and ?r = "length m mod 64"
  let ?len = "be_bytes (swab32 (ucast (push_bit 3 ?c))) @ be_bytes (swab32 (ucast (drop_bit 29 ?c)))"
  have inv: "length (block (fst s)) = 64" "h_algo (snd s) = 1" "unat ?c = length m" "h_mr (snd s) = le_words (take ?n m)"
    "md5_pend s = drop ?n m" using h by (simp_all add: md5.holds_def md5_inv_def md5_cnt_def)
  have r: "unat (?c AND 0x3F) = ?r" "?r < 64" by (simp_all add: unat_low6 inv(3))
  have p: "take ?r (block (fst s)) = drop ?n m" using inv(5) by (simp add: md5_pend_def md5_cnt_def inv(3))
  have "of_nat (8 * length m) = push_bit 3 ?c" using of_nat_unat_64 [of ?c] inv(3) by (simp add: push_bit_eq_mult mult.commute)
  then have "md5_pad m = take ?n m @ drop ?n m @ pad_bytes (length m) @ ?len" by (simp add: md5_pad_def rev_count_bytes)
  moreover have "length (take ?n m) = ?n" using whole_le [of "length m"] by simp
  then have "64 dvd length (take ?n m)" by (simp add: whole_def)
  ultimately have "le_words (md5_pad m) = h_mr (snd s) @ le_words (drop ?n m @ 0x80 # replicate ((119 - ?r) mod 64) 0 @ ?len)"
    using inv(4) by (simp only: le_words_append pad_bytes_def append_Cons)
  then show ?thesis using md5_final_tail [OF inv(1) r refl, of dregs] inv(2) p by auto
qed

section \<open>Digests\<close>

definition demo_engine :: hash_engine where
  "demo_engine = \<lparr>h_sm = False, h_algo = 1, h_mr = [7], irqs_off = False\<rparr>"

definition fresh_sha1 :: sha1_hw_ctx where
  "fresh_sha1 = \<lparr>count = 0, state = [], buffer = replicate 64 0\<rparr>"

definition fresh_md5 :: md5_ctx where
  "fresh_md5 = \<lparr>hash = [], block = replicate 64 5, byte_count = 9\<rparr>"

text \<open>C10: However a message is cut into pieces, the SHA-1 driver gives the engine exactly the words of the padded message, returns the digest
  registers for these, and leaves the context ready for the next message, provided the context starts with a count of zero.\<close>

theorem sha1_digest_of_padded:
  assumes c: "count (fst s) = 0" "length (buffer (fst s)) = 64" and mem
    and l: "\<forall>d\<in>set ds. length d < 2 ^ 29" "length (concat ds) < 2 ^ 60"
  shows "\<exists>ctx e. sha1_digest dregs mem ds s = Inr (take 5 (dregs 0 (be_words (sha1_pad (concat ds)))), ctx, e)
    \<and> h_mr e = be_words (sha1_pad (concat ds)) \<and> count ctx = 0 \<and> length (buffer ctx) = 64"
proof -
  have "sha1.holds [] (sha1_init mem (fst s) (snd s))"
    using c \<open>mem\<close> by (intro sha1.holds_Nil)
      (simp_all add: sha1_init_def init_engine_def sha1_inv_def sha1_cnt_def sha1_pend_def)
  from sha1.holds_feed [OF this l(1)] l(2)
  obtain s1 where s1: "feed sha1_update ds (sha1_init mem (fst s) (snd s)) = Inr s1" "sha1.holds (concat ds) s1" by auto
  show ?thesis using sha1_final_pads [OF s1(2) l(2), of dregs] s1(1) unfolding sha1_digest_def by auto
qed

theorem sha1_digest_of_padded_witness:
  "\<exists>ctx e. sha1_digest (\<lambda>a ws. ws) True [replicate 40 1, replicate 30 2] (fresh_sha1, demo_engine)
      = Inr (replicate 5 0x01010101, ctx, e) \<and> length (h_mr e) = 32 \<and> last (h_mr e) = 560"
proof -
  have w: "be_words (sha1_pad (replicate 40 1 @ replicate 30 2)) = replicate 10 0x01010101 @ replicate 7 0x02020202
      @ 0x02028000 # replicate 13 0 @ [560]"
    by code_simp
  show ?thesis
    using sha1_digest_of_padded [of "(fresh_sha1, demo_engine)" True "[replicate 40 1, replicate 30 2]" "\<lambda>a ws. ws"]
    by (auto simp: fresh_sha1_def w)
qed

text \<open>The same for the MD5 driver, whatever the context held before: the engine gets the words of the message padded as MD5 prescribes, in
  little-endian order, and the four digest words are returned in that order.\<close>

theorem md5_digest_of_padded:
  assumes b: "length (block (fst s)) = 64" and l: "\<forall>d\<in>set ds. length d < 2 ^ 32" "length (concat ds) < 2 ^ 60"
  shows "\<exists>ctx e. md5_digest dregs ds s = Inr (map swab32 (take 4 (dregs 1 (le_words (md5_pad (concat ds))))), ctx, e)
    \<and> h_mr e = le_words (md5_pad (concat ds)) \<and> length (block ctx) = 64"
proof -
  have "md5.holds [] (md5_init (fst s) (snd s))"
    using b by (intro md5.holds_Nil) (simp_all add: md5_init_def init_engine_def md5_inv_def md5_cnt_def md5_pend_def)
  from md5.holds_feed [OF this l(1)] l(2)
  obtain s1 where s1: "feed md5_update ds (md5_init (fst s) (snd s)) = Inr s1" "md5.holds (concat ds) s1" by auto
  show ?thesis using md5_final_pads [OF s1(2) l(2), of dregs] s1(1) unfolding md5_digest_def by auto
qed

theorem md5_digest_of_padded_witness:
  "\<exists>ctx e. md5_digest (\<lambda>a ws. ws) [[1, 2, 3], [4, 5]] (fresh_md5, demo_engine) = Inr ([0x01020304, 0x05800000, 0, 0], ctx, e)
    \<and> h_mr e ! 14 = 40"
proof -
  have w: "le_words (md5_pad [1, 2, 3, 4, 5]) = [0x04030201, 0x00008005, 0, 0, 0, 0, 0, 0, 0, 0, 0, 0, 0, 0, 40, 0]"
    by code_simp
  show ?thesis
    using md5_digest_of_padded [of "(fresh_md5, demo_engine)" "[[1, 2, 3], [4, 5]]" "\<lambda>a ws. ws"]
    by (auto simp: fresh_md5_def w swab32_def)
qed

text \<open>The SHA-1 driver does not reset the count of a context, so a message that is given up before its end spoils the next one.\<close>

lemma sha1_restart_wrong:
  "(case sha1_update [1] (sha1_init True fresh_sha1 demo_engine) of
      Inr s1 \<Rightarrow> map_sum id (\<lambda>(out, ctx, e). h_mr e) (sha1_digest (\<lambda>a ws. ws) True [] s1)
    | Inl f \<Rightarrow> Inl f) = Inr (0x01800000 # replicate 14 0 @ [8])"
  "be_words (sha1_pad []) = 0x80000000 # replicate 15 0"
  by code_simp+

text \<open>All contexts share the engine: starting a second message discards what the engine was given for the first.\<close>

lemma sha1_init_discards: "h_mr (snd (sha1_init mem ctx e)) = []"
  by (simp add: sha1_init_def init_engine_def)

end
