(* ===== verification/Deu_Cipher.thy ===== *)
theory Deu_Cipher
  imports Deu_Hash
begin

text \<open>
  The DES, triple DES and AES drivers of the data encryption unit (\<open>drivers/crypto/ifxdeu-des.c\<close> and \<open>ifxdeu-aes.c\<close>, without the
  DMA variant).  Keys, initial vectors and blocks are written to registers of the one engine per algorithm; what the engine makes of a block is a
  parameter, a function of the mode, the keys, the chaining value and the block to the result and the next chaining
  value.  Nothing is kept in the context of a caller.  Buffers are byte arrays, and an access outside has no result.
\<close>

section \<open>Requests\<close>

abbreviation (input) CRYPTO_TFM_MODE_ECB :: u32 where "CRYPTO_TFM_MODE_ECB \<equiv> 1"
abbreviation (input) CRYPTO_TFM_MODE_CBC :: u32 where "CRYPTO_TFM_MODE_CBC \<equiv> 2"
abbreviation (input) CRYPTO_TFM_MODE_CFB :: u32 where "CRYPTO_TFM_MODE_CFB \<equiv> 4"
abbreviation (input) CRYPTO_TFM_MODE_OFB :: u32 where "CRYPTO_TFM_MODE_OFB \<equiv> 0x10"
abbreviation (input) CRYPTO_DIR_ENCRYPT :: u32 where "CRYPTO_DIR_ENCRYPT \<equiv> 1"
abbreviation (input) CRYPTO_DIR_DECRYPT :: u32 where "CRYPTO_DIR_DECRYPT \<equiv> 0"
abbreviation (input) CRYPTO_TFM_REQ_WEAK_KEY :: u32 where "CRYPTO_TFM_REQ_WEAK_KEY \<equiv> 0x100"
abbreviation (input) CRYPTO_TFM_RES_WEAK_KEY :: u32 where "CRYPTO_TFM_RES_WEAK_KEY \<equiv> 0x100000"
abbreviation (input) CRYPTO_TFM_RES_BAD_KEY_LEN :: u32 where "CRYPTO_TFM_RES_BAD_KEY_LEN \<equiv> 0x200000"

definition word_at :: "u8 list \<Rightarrow> nat \<Rightarrow> u32 option" where
  "word_at buf i =
     (if 4 * i + 4 \<le> length buf
      then Some (be_word (buf ! (4 * i)) (buf ! (4 * i + 1)) (buf ! (4 * i + 2)) (buf ! (4 * i + 3))) else None)"

section \<open>DES\<close>

record des_t =
  des_M :: u32
  des_E_D :: bool
  des_O :: u32
  des_SM :: bool
  des_ARS :: bool
  K1HR :: u32
  K1LR :: u32
  K2HR :: u32
  K2LR :: u32
  K3HR :: u32
  K3LR :: u32
  IVHR :: u32
  IVLR :: u32
  OHR :: u32
  OLR :: u32
  des_irqs_off :: bool

type_synonym des_engine =
  "u32 \<Rightarrow> bool \<Rightarrow> u32 \<Rightarrow> u32 list \<Rightarrow> u32 \<times> u32 \<Rightarrow> u32 \<times> u32 \<Rightarrow> (u32 \<times> u32) \<times> (u32 \<times> u32)"

definition des_keys :: "des_t \<Rightarrow> u32 list" where
  "des_keys d = [K1HR d, K1LR d, K2HR d, K2LR d, K3HR d, K3LR d]"

text \<open>Writing the lower input word starts the engine, if it is in this start mode.\<close>

definition des_start :: "des_engine \<Rightarrow> u32 \<times> u32 \<Rightarrow> des_t \<Rightarrow> des_t" where
  "des_start eng x d =
     (if des_SM d then
        case eng (des_M d) (des_E_D d) (des_O d) (des_keys d) (IVHR d, IVLR d) x of
          ((h, l), (vh, vl)) \<Rightarrow> d\<lparr>OHR := h, OLR := l, IVHR := vh, IVLR := vl\<rparr>
      else d)"

definition initdes :: "des_t \<Rightarrow> des_t" where
  "initdes d = d\<lparr>des_ARS := True\<rparr>"

text \<open>The table of parities: 8 for an even and 0 for an odd number of bits, except for the bytes of weak keys.\<close>

definition parity :: "u32 list" where
  "parity =
    [8,1,0,8,0,8,8,0,0,8,8,0,8,0,2,8,0,8,8,0,8,0,0,8,8,0,0,8,0,8,8,3,
     0,8,8,0,8,0,0,8,8,0,0,8,0,8,8,0,8,0,0,8,0,8,8,0,0,8,8,0,8,0,0,8,
     0,8,8,0,8,0,0,8,8,0,0,8,0,8,8,0,8,0,0,8,0,8,8,0,0,8,8,0,8,0,0,8,
     8,0,0,8,0,8,8,0,0,8,8,0,8,0,0,8,0,8,8,0,8,0,0,8,8,0,0,8,0,8,8,0,
     0,8,8,0,8,0,0,8,8,0,0,8,0,8,8,0,8,0,0,8,0,8,8,0,0,8,8,0,8,0,0,8,
     8,0,0,8,0,8,8,0,0,8,8,0,8,0,0,8,0,8,8,0,8,0,0,8,8,0,0,8,0,8,8,0,
     8,0,0,8,0,8,8,0,0,8,8,0,8,0,0,8,0,8,8,0,8,0,0,8,8,0,0,8,0,8,8,0,
     4,8,8,0,8,0,0,8,8,0,0,8,0,8,8,0,8,5,0,8,0,8,8,0,0,8,8,0,8,0,6,8]"

definition key_code :: "u8 list \<Rightarrow> u32" where
  "key_code key = foldl (\<lambda>n b. push_bit 4 n OR parity ! unat b) 0 key"

text \<open>The search among the codes of the weak keys.\<close>

definition weak_code :: "u32 \<Rightarrow> bool" where
  "weak_code n =
     ((n - drop_bit 3 0x88888888) AND 0x88888888 = 0 \<and>
      (if n < 0x41415151 then
         if n < 0x31312121 then
           if n < 0x14141515 then n = 0x11111111 \<or> n = 0x13131212
           else n = 0x14141515 \<or> n = 0x16161616
         else
           if n < 0x34342525 then n = 0x31312121 \<or> n = 0x33332222
           else n = 0x34342525 \<or> n = 0x36362626
       else
         if n < 0x61616161 then
           if n < 0x44445555 then n = 0x41415151 \<or> n = 0x43435252
           else n = 0x44445555 \<or> n = 0x46465656
         else
           if n < 0x64646565 then n = 0x61616161 \<or> n = 0x63636262
           else n = 0x64646565 \<or> n = 0x66666666))"

definition des_setkey :: "u8 list \<Rightarrow> u32 \<Rightarrow> des_t \<Rightarrow> s32 \<times> u32 \<times> des_t" where
  "des_setkey key flags d =
     (let d1 = initdes (d\<lparr>des_M := 0, des_SM := True\<rparr>) in
      if length key \<noteq> 8 then (- EINVAL, flags, d1)
      else if flags AND CRYPTO_TFM_REQ_WEAK_KEY \<noteq> 0 \<and> weak_code (key_code key)
      then (- EINVAL, flags OR CRYPTO_TFM_RES_WEAK_KEY, d1)
      else (0, flags, d1\<lparr>K1HR := the (word_at key 0), K1LR := the (word_at key 1)\<rparr>))"

text \<open>A key of another length returns with the interrupts off.\<close>

definition des3_ede_setkey :: "u8 list \<Rightarrow> u32 \<Rightarrow> des_t \<Rightarrow> s32 \<times> u32 \<times> des_t" where
  "des3_ede_setkey key flags d =
     (let w = (\<lambda>i. the (word_at key i));
          d3 = (if length key = 24 then d\<lparr>K3HR := w 4, K3LR := w 5\<rparr> else d);
          d2 = (if length key \<ge> 16 then d3\<lparr>K2HR := w 2, K2LR := w 3\<rparr> else d3);
          d1 = d2\<lparr>K1HR := w 0, K1LR := w 1\<rparr>
      in if length key \<in> {8, 16, 24}
         then (0, flags, initdes (d1\<lparr>des_M := of_nat (length key div 8 + 1), des_SM := True\<rparr>))
         else (- EINVAL, flags, d\<lparr>des_irqs_off := True\<rparr>))"

text \<open>The loop over the blocks.  Input and output are the same array where \<open>src\<close> is \<open>None\<close>.\<close>

definition source :: "u8 list option \<Rightarrow> u8 list \<Rightarrow> u8 list" where
  "source src out = (case src of None \<Rightarrow> out | Some s \<Rightarrow> s)"

function des_loop ::
  "des_engine \<Rightarrow> u8 list option \<Rightarrow> nat \<Rightarrow> nat \<Rightarrow> u8 list \<Rightarrow> des_t \<Rightarrow> hash_fault + u8 list \<times> des_t" where
  "des_loop eng src nblocks i out d =
     (if i < nblocks then
        (case (word_at (source src out) i, word_at (source src out) (i + 1)) of
           (Some h, Some l) \<Rightarrow>
             let d1 = des_start eng (h, l) d in
             (case memcpy_at (4 * i) (be_bytes (OHR d1) @ be_bytes (OLR d1)) out of
                Inl f \<Rightarrow> Inl f
              | Inr out1 \<Rightarrow> des_loop eng src nblocks (i + 2) out1 d1)
         | _ \<Rightarrow> Inl Overrun)
      else Inr (out, d))"
  by pat_completeness auto
termination
  by (relation "measure (\<lambda>(eng, src, nblocks, i, out, d). nblocks - i)") auto

declare des_loop.simps [simp del]

definition des_incaip1 ::
  "des_engine \<Rightarrow> u8 list \<Rightarrow> u8 list option \<Rightarrow> u8 list \<Rightarrow> nat \<Rightarrow> u32 \<Rightarrow> u32 \<Rightarrow> des_t \<Rightarrow> hash_fault + u8 list \<times> des_t" where
  "des_incaip1 eng out src iv nbytes encdec mode d =
     (let d1 = d\<lparr>des_E_D := (encdec = 0), des_O := (mode - 1) AND 7\<rparr> in
      case (if mode > 1
            then (case (word_at iv 0, word_at iv 1) of
                    (Some h, Some l) \<Rightarrow> Inr (d1\<lparr>IVHR := h, IVLR := l\<rparr>) | _ \<Rightarrow> Inl Overrun)
            else Inr d1)
      of Inl f \<Rightarrow> Inl f
       | Inr d2 \<Rightarrow> des_loop eng src (nbytes div 4) 0 out d2)"

definition des_incaip1_ecb where
  "des_incaip1_ecb eng dst src iv nbytes encdec d = des_incaip1 eng dst src [] nbytes encdec CRYPTO_TFM_MODE_ECB d"

definition des_incaip1_cbc where
  "des_incaip1_cbc eng dst src iv nbytes encdec d = des_incaip1 eng dst src iv nbytes encdec CRYPTO_TFM_MODE_CBC d"

definition des_incaip1_cfb where
  "des_incaip1_cfb eng dst src iv nbytes encdec d = des_incaip1 eng dst src iv nbytes encdec CRYPTO_TFM_MODE_CFB d"

definition des_incaip1_ofb where
  "des_incaip1_ofb eng dst src iv nbytes encdec d = des_incaip1 eng dst src iv nbytes encdec CRYPTO_TFM_MODE_OFB d"

definition des_encrypt where
  "des_encrypt eng out inp d = des_incaip1 eng out inp [] 8 CRYPTO_DIR_ENCRYPT CRYPTO_TFM_MODE_ECB d"

definition des_decrypt where
  "des_decrypt eng out inp d = des_incaip1 eng out inp [] 8 CRYPTO_DIR_DECRYPT CRYPTO_TFM_MODE_ECB d"

section \<open>AES\<close>

text \<open>The four words of a block or vector, the one of register 3 first.\<close>

type_synonym quad = "u32 \<times> u32 \<times> u32 \<times> u32"

definition quad_at :: "u8 list \<Rightarrow> quad" where
  "quad_at b = (the (word_at b 0), the (word_at b 1), the (word_at b 2), the (word_at b 3))"

definition quad_bytes :: "quad \<Rightarrow> u8 list" where
  "quad_bytes q = (case q of (a, b, c, d) \<Rightarrow> be_bytes a @ be_bytes b @ be_bytes c @ be_bytes d)"

record aes_t =
  aes_K :: u32
  aes_E_D :: bool
  aes_O :: u32
  aes_SM :: bool
  aes_ARS :: bool
  aes_keys :: "nat \<Rightarrow> u32"
  aes_IV :: quad
  aes_ID :: quad
  aes_OD :: quad
  aes_irqs_off :: bool

type_synonym aes_engine =
  "u32 \<Rightarrow> bool \<Rightarrow> u32 \<Rightarrow> (nat \<Rightarrow> u32) \<Rightarrow> quad \<Rightarrow> quad \<Rightarrow> quad \<times> quad"

text \<open>The key registers are numbered downwards: register \<open>n - 1\<close> takes the first of \<open>n\<close> words.  \<open>kv\<close> is the answer of the engine
  after it has prepared the key for decryption.\<close>

definition aes_set_key :: "(aes_t \<Rightarrow> bool) \<Rightarrow> u8 list \<Rightarrow> u32 \<Rightarrow> aes_t \<Rightarrow> s32 \<times> u32 \<times> aes_t" where
  "aes_set_key kv key flags a =
     (let n = length key;
          a1 = a\<lparr>aes_irqs_off := True, aes_SM := True, aes_ARS := True, aes_K := of_int (int (n div 8) - 2) AND 3\<rparr> in
      if n \<noteq> 16 \<and> n \<noteq> 24 \<and> n \<noteq> 32 then (- EINVAL, flags OR CRYPTO_TFM_RES_BAD_KEY_LEN, a1)
      else
        let a2 = a1\<lparr>aes_keys := (\<lambda>r. if r < n div 4 then the (word_at key (n div 4 - 1 - r)) else aes_keys a1 r)\<rparr>
        in if \<not> kv a2 then (- EINVAL, flags, a2) else (0, flags, a2\<lparr>aes_irqs_off := aes_irqs_off a\<rparr>))"

text \<open>Writing the lowest input word starts the engine.\<close>

definition aes_start :: "aes_engine \<Rightarrow> aes_t \<Rightarrow> aes_t" where
  "aes_start eng a =
     (if aes_SM a then
        case eng (aes_K a) (aes_E_D a) (aes_O a) (aes_keys a) (aes_IV a) (aes_ID a) of
          (out, iv) \<Rightarrow> a\<lparr>aes_OD := out, aes_IV := iv\<rparr>
      else a)"

text \<open>The input is written to as many registers as it fills; a length other than 16, 8, 4, 2 and 1 writes none.\<close>

definition aes_input :: "aes_engine \<Rightarrow> u8 list \<Rightarrow> nat \<Rightarrow> aes_t \<Rightarrow> hash_fault + aes_t" where
  "aes_input eng inp nbytes a =
     (let load = (\<lambda>q. if nbytes \<le> length inp then Inr (aes_start eng (a\<lparr>aes_ID := q\<rparr>)) else Inl Overrun) in
      case aes_ID a of (i3, i2, i1, i0) \<Rightarrow>
        if nbytes = 16 then load (quad_at inp)
        else if nbytes = 8 then load (i3, i2, the (word_at inp 0), the (word_at inp 1))
        else if nbytes = 4 then load (i3, i2, i1, the (word_at inp 0))
        else if nbytes = 2 then load (i3, i2, i1, push_bit 8 (ucast (inp ! 0)) OR ucast (inp ! 1))
        else if nbytes = 1 then load (i3, i2, i1, ucast (inp ! 0))
        else Inr a)"

text \<open>The result is always read as four words, whatever the length.\<close>

definition aes_ifxdeu ::
  "aes_engine \<Rightarrow> u8 list \<Rightarrow> u8 list \<Rightarrow> u8 list \<Rightarrow> nat \<Rightarrow> u32 \<Rightarrow> u32 \<Rightarrow> aes_t \<Rightarrow> hash_fault + u8 list \<times> aes_t" where
  "aes_ifxdeu eng out inp iv nbytes encdec mode a =
     (let a1 = a\<lparr>aes_E_D := (encdec = 0), aes_O := (mode - 1) AND 7\<rparr> in
      case (if mode > 1
            then (if 16 \<le> length iv then Inr (a1\<lparr>aes_IV := quad_at iv\<rparr>) else Inl Overrun)
            else Inr a1)
      of Inl f \<Rightarrow> Inl f
       | Inr a2 \<Rightarrow>
           (case aes_input eng inp nbytes a2 of
              Inl f \<Rightarrow> Inl f
            | Inr a3 \<Rightarrow> map_sum id (\<lambda>b. (b, a3)) (memcpy_at 0 (quad_bytes (aes_OD a3)) out)))"

definition aes_ifxdeu_ecb where
  "aes_ifxdeu_ecb eng dst src iv nbytes encdec a = aes_ifxdeu eng dst src [] nbytes encdec CRYPTO_TFM_MODE_ECB a"

definition aes_ifxdeu_cbc where
  "aes_ifxdeu_cbc eng dst src iv nbytes encdec a = aes_ifxdeu eng dst src iv nbytes encdec CRYPTO_TFM_MODE_CBC a"

definition aes_ifxdeu_cfb where
  "aes_ifxdeu_cfb eng dst src iv nbytes encdec a = aes_ifxdeu eng dst src iv nbytes encdec CRYPTO_TFM_MODE_CFB a"

definition aes_ifxdeu_ofb where
  "aes_ifxdeu_ofb eng dst src iv nbytes encdec a = aes_ifxdeu eng dst src iv nbytes encdec CRYPTO_TFM_MODE_OFB a"

definition aes_encrypt where
  "aes_encrypt eng out inp a = aes_ifxdeu eng out inp [] 16 CRYPTO_DIR_ENCRYPT CRYPTO_TFM_MODE_ECB a"

definition aes_decrypt where
  "aes_decrypt eng out inp a = aes_ifxdeu eng out inp [] 16 CRYPTO_DIR_DECRYPT CRYPTO_TFM_MODE_ECB a"

section \<open>Blocks and chains\<close>

text \<open>What a sequence of blocks becomes, each with the chaining value that the one before it left.\<close>

fun chain :: "('v \<Rightarrow> 'b \<Rightarrow> 'b \<times> 'v) \<Rightarrow> 'v \<Rightarrow> 'b list \<Rightarrow> 'b list" where
  "chain f v [] = []"
| "chain f v (x # xs) = fst (f v x) # chain f (snd (f v x)) xs"

lemma length_chain [simp]: "length (chain f v xs) = length xs"
  by (induction xs arbitrary: v) auto

lemma chain_inverse:
  assumes "\<And>v x. g v (fst (f v x)) = (x, snd (f v x))"
  shows "chain g v (chain f v xs) = xs"
  by (induction xs arbitrary: v) (simp_all add: assms)

lemma chain_independent:
  assumes "\<And>v v' x. fst (f v x) = fst (f v' x)"
  shows "chain f v xs = chain f v' xs"
proof (induction xs arbitrary: v v')
  case (Cons x xs)
  then show ?case using assms by (metis chain.simps(2))
qed simp

fun blocks :: "u8 list \<Rightarrow> (u32 \<times> u32) list" where
  "blocks (a # b # c # d # e # f # g # h # r) = (be_word a b c d, be_word e f g h) # blocks r"
| "blocks _ = []"

definition unblocks :: "(u32 \<times> u32) list \<Rightarrow> u8 list" where
  "unblocks bs = concat (map (\<lambda>(h, l). be_bytes h @ be_bytes l) bs)"

lemma be_bytes_be_word [simp]: "be_bytes (be_word a b c d) = [a, b, c, d]"
  unfolding be_bytes_def be_word_def list.inject
  by (intro conjI bit_word_eqI) (auto simp: bit_simps dest: bit_imp_le_length)

lemma length_be_bytes [simp]: "length (be_bytes w) = 4"
  by (simp add: be_bytes_def)

lemma be_word_bytes:
  "be_word (ucast (drop_bit 24 w)) (ucast (drop_bit 16 w)) (ucast (drop_bit 8 w)) (ucast w) = w"
  unfolding be_word_def
  apply (rule bit_word_eqI)
  subgoal for n by (cases "n < 8"; cases "n < 16"; cases "n < 24") (auto simp: bit_simps)
  done

lemma length_unblocks [simp]: "length (unblocks bs) = 8 * length bs"
  by (induction bs) (auto simp: unblocks_def)

lemma blocks_unblocks [simp]: "blocks (unblocks bs) = bs"
  by (induction bs) (auto simp: unblocks_def be_bytes_def be_word_bytes)

lemma list_8E:
  assumes "8 \<le> length xs"
  obtains a b c d e f g h r where "xs = a # b # c # d # e # f # g # h # r"
  using assms by (auto simp: numeral_eq_Suc Suc_le_length_iff)

lemma unblocks_blocks: "length xs = 8 * k \<Longrightarrow> unblocks (blocks xs) = xs \<and> length (blocks xs) = k"
proof (induction k arbitrary: xs)
  case (Suc k)
  then have "8 \<le> length xs" by simp
  then obtain a b c d e f g h r where "xs = a # b # c # d # e # f # g # h # r" by (rule list_8E)
  with Suc.prems Suc.IH [of r] show ?case by (simp add: unblocks_def)
qed (simp add: unblocks_def)

lemma blocks_append: "length xs = 8 * k \<Longrightarrow> blocks (xs @ ys) = blocks xs @ blocks ys"
proof (induction k arbitrary: xs)
  case (Suc k)
  then have "8 \<le> length xs" by simp
  then obtain a b c d e f g h r where "xs = a # b # c # d # e # f # g # h # r" by (rule list_8E)
  with Suc.prems Suc.IH [of r] show ?case by simp
qed simp

section \<open>The DES loop\<close>

text \<open>The engine as a function of the chaining value and the block, for what the registers hold otherwise.\<close>

definition des_fn :: "des_engine \<Rightarrow> des_t \<Rightarrow> u32 \<times> u32 \<Rightarrow> u32 \<times> u32 \<Rightarrow> (u32 \<times> u32) \<times> (u32 \<times> u32)" where
  "des_fn eng d = eng (des_M d) (des_E_D d) (des_O d) (des_keys d)"

definition des_setup :: "des_t \<Rightarrow> u32 \<times> u32 list \<times> bool" where
  "des_setup d = (des_M d, des_keys d, des_SM d)"

lemma des_start_regs:
  assumes "des_SM d"
  shows "(OHR (des_start eng x d), OLR (des_start eng x d)) = fst (des_fn eng d (IVHR d, IVLR d) x)"
    "(IVHR (des_start eng x d), IVLR (des_start eng x d)) = snd (des_fn eng d (IVHR d, IVLR d) x)"
    "des_fn eng (des_start eng x d) = des_fn eng d" "des_setup (des_start eng x d) = des_setup d"
  using assms by (simp_all add: des_start_def des_fn_def des_setup_def des_keys_def split: prod.splits)

lemma word_at_append: "length p = 4 * i \<Longrightarrow> word_at (p @ a # b # c # d # r) i = Some (be_word a b c d)"
  by (simp add: word_at_def nth_append)

lemma word_at_eq:
  assumes "take 4 (drop (4 * i) xs) = be_bytes w"
  shows "word_at xs i = Some w"
proof -
  have l: "4 * i + 4 \<le> length xs" using arg_cong [OF assms, of length] by simp
  have "xs = take (4 * i) xs @ be_bytes w @ drop 4 (drop (4 * i) xs)"
    unfolding assms [symmetric] append_take_drop_id by simp
  then have "word_at xs i = word_at (take (4 * i) xs @ be_bytes w @ drop 4 (drop (4 * i) xs)) i" by simp
  also have "\<dots> = Some w"
    using word_at_append [of "take (4 * i) xs" i] l by (simp add: be_bytes_def be_word_bytes)
  finally show ?thesis .
qed

lemma word_at_block:
  assumes "take 8 (drop (8 * k) xs) = be_bytes h @ be_bytes l"
  shows "word_at xs (2 * k) = Some h" "word_at xs (2 * k + 1) = Some l"
proof -
  show "word_at xs (2 * k) = Some h"
    using arg_cong [OF assms, of "take 4"] by (intro word_at_eq) simp
  have "take 4 (drop 4 (drop (8 * k) xs)) = be_bytes l"
    using arg_cong [OF assms, of "drop 4"] by (simp add: take_drop)
  then show "word_at xs (2 * k + 1) = Some l"
    by (intro word_at_eq) (simp add: add.commute)
qed

lemma des_loop_spec:
  assumes "8 * (k + length bs) \<le> length out" "des_SM d"
    and "take (8 * length bs) (drop (8 * k) (source src out)) = unblocks bs"
  shows "\<exists>d'. des_loop eng src (2 * (k + length bs)) (2 * k) out d
      = Inr (take (8 * k) out @ unblocks (chain (des_fn eng d) (IVHR d, IVLR d) bs) @ drop (8 * (k + length bs)) out, d')
    \<and> des_setup d' = des_setup d"
  using assms
proof (induction bs arbitrary: k out d)
  case Nil
  then show ?case by (simp add: des_loop.simps unblocks_def)
next
  case (Cons x bs)
  obtain h l where x: "x = (h, l)" by (cases x)
  let ?d = "des_start eng x d"
  let ?b = "be_bytes (OHR ?d) @ be_bytes (OLR ?d)"
  let ?out = "take (8 * k) out @ ?b @ drop (8 * k + 8) out"
  have "take 8 (drop (8 * k) (source src out)) = be_bytes h @ be_bytes l"
    using arg_cong [OF Cons.prems(3), of "take 8"] by (simp add: unblocks_def x)
  note w = word_at_block [OF this]
  have m: "memcpy_at (8 * k) ?b out = Inr ?out"
    using Cons.prems(1) by (simp add: memcpy_at_def)
  have step: "des_loop eng src (2 * (k + length (x # bs))) (2 * k) out d
      = des_loop eng src (2 * (Suc k + length bs)) (2 * Suc k) ?out ?d"
    by (subst des_loop.simps) (simp add: w(1) w(2) [simplified] m [unfolded x] x Let_def)
  have "drop (8 * Suc k) (source src ?out) = drop 8 (drop (8 * k) (source src out))"
    using Cons.prems(1) by (cases src) (simp_all add: source_def add.commute)
  then have "take (8 * length bs) (drop (8 * Suc k) (source src ?out)) = unblocks bs"
    using arg_cong [OF Cons.prems(3), of "drop 8"] by (simp add: unblocks_def x take_drop ac_simps)
  moreover have "8 * (Suc k + length bs) \<le> length ?out" "des_SM ?d"
    using Cons.prems(1,2) des_start_regs(4) [of d eng x] by (simp_all add: des_setup_def)
  ultimately obtain d' where "des_loop eng src (2 * (Suc k + length bs)) (2 * Suc k) ?out ?d
      = Inr (take (8 * Suc k) ?out @ unblocks (chain (des_fn eng ?d) (IVHR ?d, IVLR ?d) bs)
          @ drop (8 * (Suc k + length bs)) ?out, d')" "des_setup d' = des_setup ?d"
    using Cons.IH by blast
  moreover have "take (8 * Suc k) ?out = take (8 * k) out @ ?b"
    "drop (8 * (Suc k + length bs)) ?out = drop (8 * (k + length (x # bs))) out"
    using Cons.prems(1) by (simp_all add: ac_simps)
  moreover have "?b = unblocks [fst (des_fn eng d (IVHR d, IVLR d) x)]"
    unfolding des_start_regs(1) [OF Cons.prems(2), symmetric] by (simp add: unblocks_def)
  ultimately show ?case using step des_start_regs(2-4) [OF Cons.prems(2)]
    by (simp add: unblocks_def)
qed

text \<open>What one call of the driver computes, in every mode: the blocks of the input through the engine, in order.\<close>

definition mode_iv :: "u32 \<Rightarrow> u8 list \<Rightarrow> des_t \<Rightarrow> u32 \<times> u32" where
  "mode_iv mode iv d = (if mode > 1 then (the (word_at iv 0), the (word_at iv 1)) else (IVHR d, IVLR d))"

lemma word_at_Some: "4 * i + 4 \<le> length xs \<Longrightarrow> \<exists>w. word_at xs i = Some w"
  by (simp add: word_at_def)

lemma des_incaip1_spec:
  assumes "8 dvd n" "n \<le> length out" "n \<le> length (source src out)" "des_SM d" "mode > 1 \<longrightarrow> 8 \<le> length iv"
  shows "\<exists>d'. des_incaip1 eng out src iv n encdec mode d
      = Inr (unblocks (chain (eng (des_M d) (encdec = 0) ((mode - 1) AND 7) (des_keys d)) (mode_iv mode iv d)
              (blocks (take n (source src out)))) @ drop n out, d')
    \<and> des_setup d' = des_setup d"
proof -
  obtain k where n: "n = 8 * k" using assms(1) by (rule dvdE)
  let ?b = "blocks (take n (source src out))"
  have b: "unblocks ?b = take n (source src out)" "length ?b = k"
    using unblocks_blocks [of "take n (source src out)" k] assms(3) n by simp_all
  let ?d1 = "d\<lparr>des_E_D := (encdec = 0), des_O := (mode - 1) AND 7\<rparr>"
  let ?d = "if mode > 1 then ?d1\<lparr>IVHR := the (word_at iv 0), IVLR := the (word_at iv 1)\<rparr> else ?d1"
  have "des_incaip1 eng out src iv n encdec mode d = des_loop eng src (2 * (0 + length ?b)) (2 * 0) out ?d"
    using assms(5) word_at_Some [of 0 iv] word_at_Some [of 1 iv] b n by (auto simp: des_incaip1_def Let_def)
  moreover have "des_fn eng ?d = eng (des_M d) (encdec = 0) ((mode - 1) AND 7) (des_keys d)"
    "(IVHR ?d, IVLR ?d) = mode_iv mode iv d" "des_setup ?d = des_setup d" "des_SM ?d"
    using assms(4) by (simp_all add: des_fn_def des_keys_def mode_iv_def des_setup_def)
  ultimately show ?thesis
    using des_loop_spec [of 0 ?b out ?d src eng] assms(2) b n by simp
qed

text \<open>C11: Decryption undoes encryption.  Whatever the engine computes, if its decryption undoes its encryption for single blocks, with the same
  next chaining value, and its ECB mode does not depend on the chaining value: data of any number of blocks, encrypted in any mode, into another
  array or in place, is restored by a decryption with the same vector, at any later time at which the key and mode registers are the same.\<close>

theorem des_round_trip:
  assumes inverse: "\<And>m o' k v x. eng m True o' k v (fst (eng m False o' k v x)) = (x, snd (eng m False o' k v x))"
    and ecb: "\<And>m e k v v' x. fst (eng m e 0 k v x) = fst (eng m e 0 k v' x)"
    and mode: "mode \<in> {CRYPTO_TFM_MODE_ECB, CRYPTO_TFM_MODE_CBC, CRYPTO_TFM_MODE_CFB, CRYPTO_TFM_MODE_OFB}"
    and iv: "mode \<noteq> CRYPTO_TFM_MODE_ECB \<Longrightarrow> 8 \<le> length iv"
    and len: "8 dvd n" "n \<le> length (source src out)" "n \<le> length out" "n \<le> length out'"
    and later: "des_SM d" "des_setup d' = des_setup d"
  shows "\<exists>c d1 d2. des_incaip1 eng out src iv n CRYPTO_DIR_ENCRYPT mode d = Inr (c, d1)
    \<and> des_incaip1 eng out' (Some c) iv n CRYPTO_DIR_DECRYPT mode d' = Inr (take n (source src out) @ drop n out', d2)"
proof -
  let ?f = "\<lambda>e. eng (des_M d) e ((mode - 1) AND 7) (des_keys d)"
  let ?b = "blocks (take n (source src out))"
  let ?c = "unblocks (chain (?f False) (mode_iv mode iv d) ?b)"
  have m1: "mode > 1 \<longrightarrow> 8 \<le> length iv" using mode iv by auto
  obtain k where n: "n = 8 * k" using len(1) by (rule dvdE)
  have b: "unblocks ?b = take n (source src out)" "length ?b = k"
    using unblocks_blocks [of "take n (source src out)" k] len(2) n by simp_all
  obtain d1 where 1: "des_incaip1 eng out src iv n CRYPTO_DIR_ENCRYPT mode d = Inr (?c @ drop n out, d1)"
    using des_incaip1_spec [OF len(1,3,2) later(1) m1, of eng CRYPTO_DIR_ENCRYPT] by auto
  have c: "length ?c = n" "take n (source (Some (?c @ drop n out)) out') = ?c" using b n by (simp_all add: source_def)
  have d': "des_SM d'" "des_M d' = des_M d" "des_keys d' = des_keys d" using later by (auto simp: des_setup_def)
  have "n \<le> length (source (Some (?c @ drop n out)) out')" using c(1) by (simp add: source_def)
  from des_incaip1_spec [OF len(1,4) this d'(1) m1, of eng CRYPTO_DIR_DECRYPT] obtain d2 where
    2: "des_incaip1 eng out' (Some (?c @ drop n out)) iv n CRYPTO_DIR_DECRYPT mode d'
      = Inr (unblocks (chain (?f True) (mode_iv mode iv d') (chain (?f False) (mode_iv mode iv d) ?b)) @ drop n out', d2)"
    by (auto simp: c(2) d')
  have "chain (?f True) (mode_iv mode iv d') xs = chain (?f True) (mode_iv mode iv d) xs" for xs
  proof (cases "mode > 1")
    case False
    then have "mode = 1" using mode by auto
    then show ?thesis using chain_independent [of "?f True"] ecb by simp
  qed (simp add: mode_iv_def)
  then have "chain (?f True) (mode_iv mode iv d') (chain (?f False) (mode_iv mode iv d) ?b) = ?b"
    using chain_inverse [of "?f True" "?f False"] inverse by simp
  with 1 2 b show ?thesis by auto
qed

text \<open>An engine for the witness: the key is added to the block, and outside ECB the block before.\<close>

definition demo_des_engine :: des_engine where
  "demo_des_engine m e o' k v x =
     (let y = (fst x XOR hd k XOR (if o' = 0 then 0 else fst v), snd x XOR hd k XOR (if o' = 0 then 0 else snd v))
      in (y, if o' = 0 then v else if e then x else y))"

definition demo_des :: des_t where
  "demo_des = \<lparr>des_M = 0, des_E_D = False, des_O = 0, des_SM = True, des_ARS = True, K1HR = 0x12345678, K1LR = 0, K2HR = 0,
     K2LR = 0, K3HR = 0, K3LR = 0, IVHR = 0, IVLR = 0, OHR = 0, OLR = 0, des_irqs_off = False\<rparr>"

theorem des_round_trip_witness:
  "\<exists>c d1 d2. des_incaip1 demo_des_engine [1, 2, 3, 4, 5, 6, 7, 8, 9, 10, 11, 12, 13, 14, 15, 16] None [7, 0, 0, 0, 0, 0, 0, 9] 16
        CRYPTO_DIR_ENCRYPT CRYPTO_TFM_MODE_CBC demo_des = Inr (c, d1)
    \<and> des_incaip1 demo_des_engine (replicate 16 0) (Some c) [7, 0, 0, 0, 0, 0, 0, 9] 16
        CRYPTO_DIR_DECRYPT CRYPTO_TFM_MODE_CBC demo_des = Inr ([1, 2, 3, 4, 5, 6, 7, 8, 9, 10, 11, 12, 13, 14, 15, 16], d2)"
  using des_round_trip [of demo_des_engine CRYPTO_TFM_MODE_CBC "[7, 0, 0, 0, 0, 0, 0, 9]" 16 None
    "[1, 2, 3, 4, 5, 6, 7, 8, 9, 10, 11, 12, 13, 14, 15, 16]" "replicate 16 0" demo_des demo_des]
  by (simp add: demo_des_engine_def Let_def source_def demo_des_def ac_simps)

section \<open>Weak keys\<close>

text \<open>The keys the comments of the source list.\<close>

definition weak_keys :: "u8 list list" where
  "weak_keys =
    [[0x01, 0x01, 0x01, 0x01, 0x01, 0x01, 0x01, 0x01], [0x01, 0x1F, 0x01, 0x1F, 0x01, 0x0E, 0x01, 0x0E],
     [0x01, 0xE0, 0x01, 0xE0, 0x01, 0xF1, 0x01, 0xF1], [0x01, 0xFE, 0x01, 0xFE, 0x01, 0xFE, 0x01, 0xFE],
     [0x1F, 0x01, 0x1F, 0x01, 0x0E, 0x01, 0x0E, 0x01], [0x1F, 0x1F, 0x1F, 0x1F, 0x0E, 0x0E, 0x0E, 0x0E],
     [0x1F, 0xE0, 0x1F, 0xE0, 0x0E, 0xF1, 0x0E, 0xF1], [0x1F, 0xFE, 0x1F, 0xFE, 0x0E, 0xFE, 0x0E, 0xFE],
     [0xE0, 0x01, 0xE0, 0x01, 0xF1, 0x01, 0xF1, 0x01], [0xE0, 0x1F, 0xE0, 0x1F, 0xF1, 0x0E, 0xF1, 0x0E],
     [0xE0, 0xE0, 0xE0, 0xE0, 0xF1, 0xF1, 0xF1, 0xF1], [0xE0, 0xFE, 0xE0, 0xFE, 0xF1, 0xFE, 0xF1, 0xFE],
     [0xFE, 0x01, 0xFE, 0x01, 0xFE, 0x01, 0xFE, 0x01], [0xFE, 0x1F, 0xFE, 0x1F, 0xFE, 0x0E, 0xFE, 0x0E],
     [0xFE, 0xE0, 0xFE, 0xE0, 0xFE, 0xF1, 0xFE, 0xF1], [0xFE, 0xFE, 0xFE, 0xFE, 0xFE, 0xFE, 0xFE, 0xFE]]"

definition weak_codes :: "u32 list" where
  "weak_codes = [0x11111111, 0x13131212, 0x14141515, 0x16161616, 0x31312121, 0x33332222, 0x34342525, 0x36362626,
     0x41415151, 0x43435252, 0x44445555, 0x46465656, 0x61616161, 0x63636262, 0x64646565, 0x66666666]"

lemma weak_code_iff: "weak_code n \<longleftrightarrow> n \<in> set weak_codes"
proof
  show "weak_code n \<Longrightarrow> n \<in> set weak_codes"
    unfolding weak_code_def weak_codes_def by (auto split: if_splits)
  assume "n \<in> set weak_codes"
  moreover have "list_all weak_code weak_codes" by code_simp
  ultimately show "weak_code n" by (simp add: list_all_iff)
qed

lemma codes_of_keys: "map key_code weak_keys = weak_codes"
  by code_simp

lemma byte_less: "unat (b :: u8) < 256"
  using unsigned_less [of b] by simp

lemma parity_nibble: "take_bit 4 (parity ! unat (b :: u8)) = parity ! unat b"
proof -
  have "list_all (\<lambda>p. take_bit 4 p = p) parity" by code_simp
  moreover have "unat b < length parity" using byte_less [of b] by (simp add: parity_def)
  ultimately show ?thesis by (simp add: list_all_length)
qed

lemma key_code_snoc: "key_code (ks @ [b]) = push_bit 4 (key_code ks) OR parity ! unat b"
  by (simp add: key_code_def)

lemma key_code_bits: "length ks \<le> 7 \<Longrightarrow> take_bit (4 * length ks) (key_code ks) = key_code ks"
proof (induction ks rule: rev_induct)
  case (snoc b ks)
  have "take_bit (4 + 4 * length ks) (parity ! unat b) = parity ! unat b"
    using parity_nibble [of b] by (metis le_add1 take_bit_take_bit min.absorb2)
  with snoc show ?case by (simp add: key_code_snoc take_bit_or take_bit_push_bit)
qed (simp add: key_code_def)

lemma nibble_step:
  fixes n p :: u32
  assumes "take_bit 28 n = n" "take_bit 4 p = p"
  shows "drop_bit 4 (push_bit 4 n OR p) = n" "take_bit 4 (push_bit 4 n OR p) = p"
proof -
  have n: "bit n i \<Longrightarrow> i < 28" for i using assms(1) by (metis bit_take_bit_iff)
  have p: "bit p i \<Longrightarrow> i < 4" for i using assms(2) by (metis bit_take_bit_iff)
  show "drop_bit 4 (push_bit 4 n OR p) = n" by (rule bit_word_eqI) (auto simp: bit_simps dest: n p)
  show "take_bit 4 (push_bit 4 n OR p) = p" using assms(2) by (simp add: take_bit_or take_bit_push_bit)
qed

lemma key_code_inj:
  "key_code ks = key_code ls \<Longrightarrow> length ks = length ls \<Longrightarrow> length ks \<le> 8 \<Longrightarrow>
   map (\<lambda>b. parity ! unat b) ks = map (\<lambda>b. parity ! unat b) ls"
proof (induction ks arbitrary: ls rule: rev_induct)
  case (snoc b ks)
  from snoc.prems(2) obtain ls' c where ls: "ls = ls' @ [c]" by (cases ls rule: rev_cases) auto
  have t: "take_bit 28 (key_code xs) = key_code xs" if "length xs \<le> 7" for xs
    using key_code_bits [OF that] that by (metis min.absorb2 mult_le_mono2 numeral_times_numeral take_bit_take_bit semiring_norm(12,13,14,15,71,78))
  have len: "length ks \<le> 7" "length ls' \<le> 7" using snoc.prems(2,3) ls by auto
  from snoc.prems(1) have e: "push_bit 4 (key_code ks) OR parity ! unat b = push_bit 4 (key_code ls') OR parity ! unat c"
    by (simp add: key_code_snoc ls)
  note s = nibble_step [OF t [OF len(1)] parity_nibble [of b]] nibble_step [OF t [OF len(2)] parity_nibble [of c]]
  have "key_code ks = key_code ls'" "parity ! unat b = parity ! unat c" using s e by metis+
  with snoc.IH [of ls'] snoc.prems(2,3) show ?case by (simp add: ls)
qed auto

lemma parity_weak:
  assumes "parity ! unat (b :: u8) = parity ! unat c" "c \<in> set (concat weak_keys)"
  shows "b = c"
proof -
  have "list_all (\<lambda>i. list_all (\<lambda>j. parity ! i = parity ! j \<longrightarrow> i = j) [1, 14, 31, 224, 241, 254]) [0..<256]" by code_simp
  moreover have "unat b \<in> set [0..<256]" using byte_less [of b] by simp
  moreover have "unat c \<in> set [1, 14, 31, 224, 241, 254]" using assms(2) by (auto simp: weak_keys_def)
  ultimately have "unat b = unat c" using assms(1) unfolding list_all_iff by blast
  then show ?thesis by (rule unsigned_word_eqI)
qed

lemma weak_key_iff:
  assumes "length key = 8"
  shows "weak_code (key_code key) \<longleftrightarrow> key \<in> set weak_keys"
proof
  assume "weak_code (key_code key)"
  then have "key_code key \<in> key_code ` set weak_keys"
    using codes_of_keys by (metis list.set_map weak_code_iff)
  then obtain w where w: "w \<in> set weak_keys" "key_code key = key_code w" by auto
  have "length w = 8" using w(1) by (auto simp: weak_keys_def)
  with key_code_inj [OF w(2)] assms have m: "map (\<lambda>b. parity ! unat b) key = map (\<lambda>b. parity ! unat b) w" "length key = length w"
    by simp_all
  have "key ! i = w ! i" if "i < length key" for i
  proof (rule parity_weak)
    show "parity ! unat (key ! i) = parity ! unat (w ! i)" using m that by (metis nth_map)
    show "w ! i \<in> set (concat weak_keys)" using w(1) m(2) that nth_mem by fastforce
  qed
  then show "key \<in> set weak_keys" using m(2) w(1) nth_equalityI by metis
next
  assume "key \<in> set weak_keys"
  then show "weak_code (key_code key)" using codes_of_keys by (metis image_eqI list.set_map weak_code_iff)
qed

text \<open>C30: Weak keys.  Where the caller asks for the check, a DES key of eight bytes is refused exactly if it is one of the
  sixteen weak and semi-weak keys, and the refusal is noted in the flags; every other key is loaded into the first pair of key
  registers.  In both cases the engine is left in single DES mode.\<close>

theorem des_setkey_weak_iff:
  assumes "length key = 8"
  shows "des_setkey key flags d =
    (let d1 = d\<lparr>des_M := 0, des_SM := True, des_ARS := True\<rparr> in
     if bit flags 8 \<and> key \<in> set weak_keys then (- EINVAL, flags OR CRYPTO_TFM_RES_WEAK_KEY, d1)
     else (0, flags, d1\<lparr>K1HR := fst (hd (blocks key)), K1LR := snd (hd (blocks key))\<rparr>))"
proof -
  have "8 \<le> length key" using assms by simp
  then obtain a b c e f g h i r where "key = a # b # c # e # f # g # h # i # r" by (rule list_8E)
  then have k: "word_at key 0 = Some (fst (hd (blocks key)))" "word_at key 1 = Some (snd (hd (blocks key)))"
    by (simp_all add: word_at_def numeral_eq_Suc)
  have "flags AND 0x100 \<noteq> 0 \<longleftrightarrow> bit flags 8"
    using and_exp_eq_0_iff_not_bit [of flags 8] by simp
  then show ?thesis
    using assms k weak_key_iff [OF assms] by (simp add: des_setkey_def initdes_def Let_def)
qed

theorem des_setkey_weak_iff_witness:
  "fst (des_setkey [0x01, 0x1F, 0x01, 0x1F, 0x01, 0x0E, 0x01, 0x0E] CRYPTO_TFM_REQ_WEAK_KEY demo_des) = - EINVAL
   \<and> fst (des_setkey [0x01, 0x1F, 0x01, 0x1F, 0x01, 0x0E, 0x01, 0x0F] CRYPTO_TFM_REQ_WEAK_KEY demo_des) = 0"
  using des_setkey_weak_iff [of "[0x01, 0x1F, 0x01, 0x1F, 0x01, 0x0E, 0x01, 0x0E]" CRYPTO_TFM_REQ_WEAK_KEY demo_des]
    des_setkey_weak_iff [of "[0x01, 0x1F, 0x01, 0x1F, 0x01, 0x0E, 0x01, 0x0F]" CRYPTO_TFM_REQ_WEAK_KEY demo_des]
  by (simp add: weak_keys_def bit_iff_odd)

text \<open>The same key with other parity bits, which the algorithm ignores, is accepted.\<close>

lemma zero_key_accepted: "fst (des_setkey [0, 0, 0, 0, 0, 0, 0, 0] flags d) = 0"
  by (simp add: des_setkey_def weak_key_iff weak_keys_def Let_def)

text \<open>The key belongs to the engine, not to the caller: the key set last is used for everybody's data.\<close>

lemma last_key_wins:
  assumes "length k1 = 8" "length k2 = 8" "\<not> bit f1 8" "\<not> bit f2 8"
  shows "des_setup (snd (snd (des_setkey k2 f2 (snd (snd (des_setkey k1 f1 d)))))) = des_setup (snd (snd (des_setkey k2 f2 d)))"
  using assms and_exp_eq_0_iff_not_bit [of f1 8] and_exp_eq_0_iff_not_bit [of f2 8]
  by (simp add: des_setkey_def initdes_def des_setup_def des_keys_def Let_def)

lemma des_key_ends_triple_des: "des_M (snd (snd (des_setkey k f d))) = 0"
  by (simp add: des_setkey_def initdes_def Let_def)

text \<open>Keys whose parts are equal, which the comment wants refused, are accepted.\<close>

lemma degenerate_keys_accepted:
  "length k = 8 \<Longrightarrow> fst (des3_ede_setkey (k @ k @ k) flags d) = 0"
  by (simp add: des3_ede_setkey_def Let_def)

section \<open>AES\<close>

definition aes_setup :: "aes_t \<Rightarrow> u32 \<times> (nat \<Rightarrow> u32) \<times> bool" where
  "aes_setup a = (aes_K a, aes_keys a, aes_SM a)"

lemma length_quad_bytes [simp]: "length (quad_bytes q) = 16"
  by (simp add: quad_bytes_def split: prod.splits)

lemma quad_at_bytes: "quad_at (quad_bytes q @ r) = q"
proof -
  obtain a b c d where q: "q = (a, b, c, d)" by (cases q)
  let ?x = "quad_bytes q @ r"
  have "word_at ?x 0 = Some a" "word_at ?x 1 = Some b" "word_at ?x 2 = Some c" "word_at ?x 3 = Some d"
    by (rule word_at_eq, simp add: q quad_bytes_def)+
  then show ?thesis by (simp add: quad_at_def q)
qed

lemma bytes_word_at:
  assumes "4 * i + 4 \<le> length b"
  shows "be_bytes (the (word_at b i)) = take 4 (drop (4 * i) b)"
proof (rule nth_equalityI)
  fix j assume "j < length (be_bytes (the (word_at b i)))"
  then have "j \<in> {0, 1, 2, 3}" by auto
  with assms show "be_bytes (the (word_at b i)) ! j = take 4 (drop (4 * i) b) ! j"
    by (auto simp: word_at_def)
qed (use assms in simp)

lemma quad_bytes_at:
  assumes "16 \<le> length b"
  shows "quad_bytes (quad_at b) = take 16 b"
proof -
  have "take 16 b = take 4 b @ take 4 (drop 4 b) @ take 4 (drop 8 b) @ take 4 (drop 12 b)"
    using take_add [of 4 12 b] take_add [of 4 8 "drop 4 b"] take_add [of 4 4 "drop 8 b"] by simp
  then show ?thesis using assms by (simp add: quad_bytes_def quad_at_def bytes_word_at)
qed

text \<open>A request of one block.\<close>

definition aes_iv :: "u32 \<Rightarrow> u8 list \<Rightarrow> aes_t \<Rightarrow> quad" where
  "aes_iv mode iv a = (if mode > 1 then quad_at iv else aes_IV a)"

lemma aes_block_spec:
  assumes "16 \<le> length out" "16 \<le> length inp" "aes_SM a" "mode > 1 \<longrightarrow> 16 \<le> length iv"
  shows "\<exists>a'. aes_ifxdeu eng out inp iv 16 encdec mode a
      = Inr (quad_bytes (fst (eng (aes_K a) (encdec = 0) ((mode - 1) AND 7) (aes_keys a) (aes_iv mode iv a) (quad_at inp)))
             @ drop 16 out, a') \<and> aes_setup a' = aes_setup a"
proof -
  obtain i3 i2 i1 i0 where "aes_ID a = (i3, i2, i1, i0)" by (cases "aes_ID a")
  with assms show ?thesis
    by (auto simp: aes_ifxdeu_def aes_input_def aes_start_def aes_iv_def aes_setup_def memcpy_at_def Let_def split: prod.splits)
qed

text \<open>AES blocks.  If the decryption of the engine undoes its encryption, with the same chaining value, and its ECB mode does not depend
  on that value: a block of sixteen bytes, encrypted in any mode, is restored by a decryption with the same vector, at any later time
  at which the key registers are the same.\<close>

theorem aes_block_round_trip:
  assumes inverse: "\<And>m o' k v x. fst (eng m True o' k v (fst (eng m False o' k v x))) = x"
    and ecb: "\<And>m e k v v' x. fst (eng m e 0 k v x) = fst (eng m e 0 k v' x)"
    and mode: "mode \<in> {CRYPTO_TFM_MODE_ECB, CRYPTO_TFM_MODE_CBC, CRYPTO_TFM_MODE_CFB, CRYPTO_TFM_MODE_OFB}"
    and iv: "mode \<noteq> CRYPTO_TFM_MODE_ECB \<Longrightarrow> 16 \<le> length iv"
    and len: "length inp = 16" "16 \<le> length out" "length out' = 16"
    and later: "aes_SM a" "aes_setup a' = aes_setup a"
  shows "\<exists>c a1 a2. aes_ifxdeu eng out inp iv 16 CRYPTO_DIR_ENCRYPT mode a = Inr (c, a1)
    \<and> aes_ifxdeu eng out' c iv 16 CRYPTO_DIR_DECRYPT mode a' = Inr (inp, a2)"
proof -
  have m: "mode > 1 \<longrightarrow> 16 \<le> length iv" using mode iv by auto
  let ?f = "\<lambda>e v x. fst (eng (aes_K a) e ((mode - 1) AND 7) (aes_keys a) v x)"
  let ?c = "quad_bytes (?f False (aes_iv mode iv a) (quad_at inp)) @ drop 16 out"
  obtain a1 where 1: "aes_ifxdeu eng out inp iv 16 CRYPTO_DIR_ENCRYPT mode a = Inr (?c, a1)"
    using aes_block_spec [OF len(2) _ later(1) m, of inp eng CRYPTO_DIR_ENCRYPT] len(1) by auto
  have s: "aes_SM a'" "aes_K a' = aes_K a" "aes_keys a' = aes_keys a" using later by (auto simp: aes_setup_def)
  have v: "?f True (aes_iv mode iv a') x = ?f True (aes_iv mode iv a) x" for x
  proof (cases "mode > 1")
    case False
    then have "mode = 1" using mode by auto
    then show ?thesis using ecb by simp
  qed (simp add: aes_iv_def)
  have "16 \<le> length out'" "16 \<le> length ?c" using len(3) by simp_all
  from aes_block_spec [OF this s(1) m, of eng CRYPTO_DIR_DECRYPT] obtain a2 where
    "aes_ifxdeu eng out' ?c iv 16 CRYPTO_DIR_DECRYPT mode a'
      = Inr (quad_bytes (?f True (aes_iv mode iv a') (quad_at ?c)) @ drop 16 out', a2)" by (auto simp: s)
  then have "aes_ifxdeu eng out' ?c iv 16 CRYPTO_DIR_DECRYPT mode a' = Inr (inp, a2)"
    using len inverse by (simp add: v quad_at_bytes quad_bytes_at)
  with 1 show ?thesis by blast
qed

text \<open>An engine for the witnesses: key and, outside ECB, vector are added to the block.\<close>

definition demo_aes_engine :: aes_engine where
  "demo_aes_engine m e o' k v x =
     (case (x, if o' = 0 then (0, 0, 0, 0) else v) of
        ((x3, x2, x1, x0), (v3, v2, v1, v0)) \<Rightarrow> ((x3 XOR v3 XOR k 3, x2 XOR v2, x1 XOR v1, x0 XOR v0), v))"

definition demo_aes :: aes_t where
  "demo_aes = \<lparr>aes_K = 0, aes_E_D = False, aes_O = 0, aes_SM = True, aes_ARS = True, aes_keys = (\<lambda>_. 0x89ABCDEF),
     aes_IV = (0, 0, 0, 0), aes_ID = (0, 0, 0, 0), aes_OD = (1, 2, 3, 4), aes_irqs_off = False\<rparr>"

theorem aes_block_round_trip_witness:
  "\<exists>c a1 a2. aes_ifxdeu demo_aes_engine (replicate 16 0) [1, 2, 3, 4, 5, 6, 7, 8, 9, 10, 11, 12, 13, 14, 15, 16] (replicate 16 7) 16
        CRYPTO_DIR_ENCRYPT CRYPTO_TFM_MODE_CBC demo_aes = Inr (c, a1)
    \<and> aes_ifxdeu demo_aes_engine (replicate 16 0) c (replicate 16 7) 16 CRYPTO_DIR_DECRYPT CRYPTO_TFM_MODE_CBC demo_aes
      = Inr ([1, 2, 3, 4, 5, 6, 7, 8, 9, 10, 11, 12, 13, 14, 15, 16], a2)"
  using aes_block_round_trip [of demo_aes_engine CRYPTO_TFM_MODE_CBC "replicate 16 7"
    "[1, 2, 3, 4, 5, 6, 7, 8, 9, 10, 11, 12, 13, 14, 15, 16]" "replicate 16 0" "replicate 16 0" demo_aes demo_aes]
  by (simp add: demo_aes_engine_def demo_aes_def ac_simps split: prod.splits)

text \<open>Longer AES requests.  The driver is registered for requests of any number of blocks, but one of another length than a block
  (and none of 8, 4, 2 or 1 bytes) does not reach the engine: the result is the last result of the engine followed by what the
  output held, whatever the data, the key and the vector.\<close>

theorem aes_multiblock_stale:
  assumes "nbytes \<notin> {16, 8, 4, 2, 1}" "16 \<le> length out" "mode > 1 \<longrightarrow> 16 \<le> length iv"
  shows "\<exists>a'. aes_ifxdeu eng out inp iv nbytes encdec mode a = Inr (quad_bytes (aes_OD a) @ drop 16 out, a')
    \<and> aes_OD a' = aes_OD a"
proof -
  obtain i3 i2 i1 i0 where "aes_ID a = (i3, i2, i1, i0)" by (cases "aes_ID a")
  with assms show ?thesis
    by (auto simp: aes_ifxdeu_def aes_input_def memcpy_at_def Let_def split: prod.splits)
qed

theorem aes_multiblock_stale_witness:
  "\<exists>a'. aes_ifxdeu demo_aes_engine (replicate 32 9) (replicate 32 1) [] 32 CRYPTO_DIR_ENCRYPT CRYPTO_TFM_MODE_ECB demo_aes
      = Inr (quad_bytes (1, 2, 3, 4) @ replicate 16 9, a') \<and> aes_OD a' = (1, 2, 3, 4)"
  using aes_multiblock_stale [of 32 "replicate 32 9" CRYPTO_TFM_MODE_ECB "[]" demo_aes_engine "replicate 32 1" CRYPTO_DIR_ENCRYPT demo_aes]
  by (simp add: demo_aes_def)

text \<open>A refused key leaves the interrupts off.\<close>

lemma aes_set_key_irqs:
  "aes_irqs_off (snd (snd (aes_set_key kv key flags a))) \<longleftrightarrow> aes_irqs_off a \<or> fst (aes_set_key kv key flags a) \<noteq> 0"
  by (auto simp: aes_set_key_def Let_def)

end
