(* ===== verification/U64.thy ===== *)
theory U64
  imports Prelude
begin

text \<open>
  The 64-bit arithmetic that \<open>danube_gptu.c\<close> and \<open>danube_cgu.c\<close> both build from 32-bit words: multiplication of two
  words into a high and a low word, and division of such a pair by a word, bit by bit.  Both are compared with the arithmetic of natural numbers.
\<close>

section \<open>Definitions\<close>

text \<open>The result is the high and the low word.\<close>

definition uint64_multiply :: "u32 \<Rightarrow> u32 \<Rightarrow> u32 \<times> u32" where
  "uint64_multiply a b =
     (let l1 = a AND 0xFFFF; h1 = drop_bit 16 a; l2 = b AND 0xFFFF; h2 = drop_bit 16 b;
          c1 = l1 * l2; c2 = h1 * l2; c3 = l1 * h2; c4 = h1 * h2;
          w1 = c1 AND 0xFFFF;
          w2 = drop_bit 16 c1 + (c2 AND 0xFFFF) + (c3 AND 0xFFFF);
          w3 = drop_bit 16 c2 + drop_bit 16 c3 + (c4 AND 0xFFFF) + drop_bit 16 w2;
          w4 = drop_bit 16 c4 + drop_bit 16 w3
      in (push_bit 16 w4 OR w3, push_bit 16 w2 OR w1))"

text \<open>One round of the division on the remainder, the two words of the numerator and the quotient.\<close>

type_synonym div_state = "u32 \<times> u32 \<times> u32 \<times> u32"

definition divide_step :: "u32 \<Rightarrow> div_state \<Rightarrow> div_state" where
  "divide_step den st = (case st of (d3, d2, d1, q) \<Rightarrow>
     let d3' = push_bit 1 d3 OR drop_bit 31 d2; d2' = push_bit 1 d2 OR drop_bit 31 d1;
         d1' = push_bit 1 d1; q' = push_bit 1 q
     in if d3' \<ge> den then (d3' - den, d2', d1', q' OR 1) else (d3', d2', d1', q'))"

text \<open>The quotient and the remainder.\<close>

definition uint64_divide :: "u32 \<times> u32 \<Rightarrow> u32 \<Rightarrow> u32 \<times> u32" where
  "uint64_divide num den =
     (case (divide_step den ^^ 64) (0, fst num, snd num, 0) of (d3, d2, d1, q) \<Rightarrow> (q, d3))"

definition pair_val :: "u32 \<times> u32 \<Rightarrow> nat" where
  "pair_val p = unat (fst p) * 2 ^ 32 + unat (snd p)"

section \<open>Words as numbers\<close>

lemma u32_lt: "unat (a :: u32) < 2 ^ 32"
  using unsigned_less [of a] by simp

lemma unat_and_low: "unat (a AND 0xFFFF :: u32) = unat a mod 2 ^ 16"
proof -
  have m: "(0xFFFF :: u32) = mask 16" by (simp add: mask_eq_exp_minus_1)
  show ?thesis unfolding m take_bit_eq_mask [symmetric] unsigned_take_bit_eq take_bit_nat_def ..
qed

lemma unat_drop: "unat (drop_bit n a :: u32) = unat a div 2 ^ n"
  using u32_lt [of a] by (simp add: unsigned_drop_bit_eq drop_bit_nat_def take_bit_nat_eq_self)

lemma unat_push: "unat (push_bit n a :: u32) = unat a * 2 ^ n mod 2 ^ 32"
  by (simp add: unsigned_push_bit_eq take_bit_nat_def push_bit_nat_def)

lemma unat_mult_small: "unat a < 2 ^ 16 \<Longrightarrow> unat b < 2 ^ 16 \<Longrightarrow> unat (a * b :: u32) = unat a * unat b"
proof -
  assume "unat a < 2 ^ 16" "unat b < 2 ^ 16"
  then have "unat a * unat b < 2 ^ 16 * 2 ^ 16" by (intro mult_strict_mono) auto
  then show ?thesis by (simp add: unat_word_ariths)
qed

lemma or_push_low:
  "unat b < 2 ^ n \<Longrightarrow> n \<le> 32 \<Longrightarrow> push_bit n a OR b = push_bit n a + (b :: u32)"
proof (rule disjunctive_add [symmetric])
  fix k assume b: "unat b < 2 ^ n"
  show "\<not> bit (push_bit n a) k \<or> \<not> bit b k"
  proof (cases "k < n")
    case False
    then have "unat b < 2 ^ k" using b power_increasing [of n k "2 :: nat"] by linarith
    then have "\<not> bit (unat b) k" by (simp add: bit_iff_odd)
    then show ?thesis by (simp add: bit_unsigned_iff)
  qed (simp add: bit_push_bit_iff)
qed

lemma unat_or_push:
  assumes "unat b < 2 ^ n" "n \<le> 32"
  shows "unat (push_bit n a OR b :: u32) = unat a * 2 ^ n mod 2 ^ 32 + unat b"
proof -
  let ?x = "unat a mod 2 ^ (32 - n)"
  have "unat a * 2 ^ n mod 2 ^ 32 = ?x * 2 ^ n"
    using assms(2) mult_mod_left [of "unat a" "2 ^ (32 - n)" "2 ^ n :: nat"] by (simp add: power_add [symmetric])
  moreover have "(?x + 1) * 2 ^ n \<le> 2 ^ (32 - n) * 2 ^ n"
    by (rule mult_right_mono) (simp_all add: Suc_leI)
  then have "?x * 2 ^ n + 2 ^ n \<le> 2 ^ 32" using assms(2) by (simp add: power_add [symmetric])
  ultimately have "unat a * 2 ^ n mod 2 ^ 32 + unat b < 2 ^ 32" using assms(1) by linarith
  then show ?thesis unfolding or_push_low [OF assms] by (simp add: unat_word_ariths unat_push)
qed

section \<open>Multiplication\<close>

lemma recombine:
  fixes p :: nat
  assumes w: "w = C1 div p + C2 mod p + C3 mod p"
  shows "(C4 + C2 div p + C3 div p + w div p) * (p * p) + (w mod p * p + C1 mod p) = C4 * (p * p) + (C2 + C3) * p + C1"
proof -
  have "(C4 + C2 div p + C3 div p + w div p) * (p * p) + (w mod p * p + C1 mod p)
      = C4 * (p * p) + (C2 div p * p + C3 div p * p + (w div p * p + w mod p)) * p + C1 mod p"
    by (simp only: distrib_right mult.assoc add.assoc)
  also have "\<dots> = C4 * (p * p) + (C2 div p * p + C3 div p * p + w) * p + C1 mod p" by (simp only: div_mult_mod_eq)
  also have "\<dots> = C4 * (p * p) + ((C2 div p * p + C2 mod p) + (C3 div p * p + C3 mod p)) * p + (C1 div p * p + C1 mod p)"
    by (simp only: w distrib_right mult.assoc add.assoc add.left_commute add.commute)
  also have "\<dots> = C4 * (p * p) + (C2 + C3) * p + C1" by (simp only: div_mult_mod_eq)
  finally show ?thesis .
qed

text \<open>Up to a product of \<open>2^48\<close> the pair is exact.\<close>

lemma multiply_exact:
  assumes ab: "unat a * unat b < 2 ^ 48"
  shows "pair_val (uint64_multiply a b) = unat a * unat b"
proof -
  define l1 h1 l2 h2 where d: "l1 = a AND 0xFFFF" "h1 = drop_bit 16 a" "l2 = b AND 0xFFFF" "h2 = drop_bit 16 b"
  have lt: "unat l1 < 2 ^ 16" "unat h1 < 2 ^ 16" "unat l2 < 2 ^ 16" "unat h2 < 2 ^ 16"
    using u32_lt [of a] u32_lt [of b] by (simp_all add: d unat_and_low unat_drop)
  define C1 C2 C3 C4 where C: "C1 = unat l1 * unat l2" "C2 = unat h1 * unat l2" "C3 = unat l1 * unat h2" "C4 = unat h1 * unat h2"
  have c: "unat (l1 * l2) = C1" "unat (h1 * l2) = C2" "unat (l1 * h2) = C3" "unat (h1 * h2) = C4"
    using lt by (simp_all add: unat_mult_small C)
  have Clt: "C1 < 2 ^ 32" "C2 < 2 ^ 32" "C3 < 2 ^ 32" "C4 < 2 ^ 32" using u32_lt c by metis+
  have "unat a = unat h1 * 2 ^ 16 + unat l1" "unat b = unat h2 * 2 ^ 16 + unat l2" by (simp_all add: d unat_and_low unat_drop)
  then have prod: "unat a * unat b = C4 * (2 ^ 16 * 2 ^ 16) + (C2 + C3) * 2 ^ 16 + C1" by (simp add: C algebra_simps)
  define w2 where "w2 = drop_bit 16 (l1 * l2) + (h1 * l2 AND 0xFFFF) + (l1 * h2 AND 0xFFFF)"
  have w2: "unat w2 = C1 div 2 ^ 16 + C2 mod 2 ^ 16 + C3 mod 2 ^ 16"
    using Clt by (simp add: w2_def unat_word_ariths(1) unat_drop unat_and_low c)
  let ?W = "C4 + C2 div 2 ^ 16 + C3 div 2 ^ 16 + unat w2 div 2 ^ 16"
  note r = recombine [OF w2, of C4, folded prod]
  have W: "?W < 2 ^ 16"
  proof (rule ccontr)
    assume "\<not> ?W < 2 ^ 16"
    then have "2 ^ 16 * (2 ^ 16 * 2 ^ 16) \<le> ?W * (2 ^ 16 * 2 ^ 16)" by (intro mult_right_mono) auto
    with r ab show False by simp
  qed
  define w3 where "w3 = drop_bit 16 (h1 * l2) + drop_bit 16 (l1 * h2) + (h1 * h2 AND 0xFFFF) + drop_bit 16 w2"
  have w3: "unat w3 = ?W"
    using W by (simp add: w3_def unat_word_ariths(1) unat_drop unat_and_low c)
  have "drop_bit 16 (h1 * h2) = 0" "drop_bit 16 w3 = 0" using W w3 by (simp_all add: word_unat_eq_iff unat_drop c)
  then have "uint64_multiply a b = (w3, push_bit 16 w2 OR (l1 * l2 AND 0xFFFF))"
    unfolding uint64_multiply_def Let_def d [symmetric] w2_def [symmetric] w3_def [symmetric] by simp
  moreover have "unat (push_bit 16 w2 OR (l1 * l2 AND 0xFFFF)) = unat w2 mod 2 ^ 16 * 2 ^ 16 + C1 mod 2 ^ 16"
    using mult_mod_left [of "unat w2" "2 ^ 16" "2 ^ 16 :: nat"]
    by (subst unat_or_push) (simp_all add: unat_and_low c)
  ultimately show ?thesis using r by (simp add: pair_val_def w3)
qed

text \<open>With two large factors the high word may be wrong: the carry of the third part is counted twice.\<close>

lemma multiply_inexact:
  "pair_val (uint64_multiply 0x01FEFFFF 0x0101FFFF) \<noteq> unat (0x01FEFFFF :: u32) * unat (0x0101FFFF :: u32)"
  by (simp add: uint64_multiply_def pair_val_def Let_def)

section \<open>Division\<close>

lemma pair_val_lt: "pair_val p < 2 ^ 64"
  using u32_lt [of "fst p"] u32_lt [of "snd p"] by (simp add: pair_val_def)

text \<open>The state as numbers; the quotient stays a word, since the code keeps its lowest 32 bits.\<close>

definition div_abs :: "div_state \<Rightarrow> nat \<times> nat \<times> u32" where
  "div_abs st = (case st of (d3, d2, d1, q) \<Rightarrow> (unat d3, pair_val (d2, d1), q))"

lemma double_split: "2 * x = x div 2 ^ 31 * 2 ^ 32 + 2 * x mod 2 ^ 32" for x :: nat
proof -
  have "2 * x div 2 ^ 32 = x div 2 ^ 31" using div_mult_mult1 [of 2 x "2 ^ 31"] by simp
  then show ?thesis using div_mult_mod_eq [of "2 * x" "2 ^ 32"] by metis
qed

lemma divide_step_abs:
  assumes den: "0 < den" "den \<le> 2 ^ 31" and st: "div_abs st = (r, l, q)" "r < unat den"
  shows "div_abs (divide_step den st) = (let r' = 2 * r + l div 2 ^ 63 in
    if unat den \<le> r' then (r' - unat den, 2 * l mod 2 ^ 64, 2 * q + 1) else (r', 2 * l mod 2 ^ 64, 2 * q))"
proof -
  obtain d3 d2 d1 where s: "st = (d3, d2, d1, q)" "r = unat d3" "l = unat d2 * 2 ^ 32 + unat d1"
    using st(1) by (cases st) (auto simp: div_abs_def pair_val_def)
  have lt: "unat d1 < 2 ^ 32" "unat d2 < 2 ^ 32" by (rule u32_lt)+
  have d: "unat den \<le> 2 ^ 31" using den(2) by (simp add: word_le_nat_alt)
  have top: "l div 2 ^ 63 = unat d2 div 2 ^ 31"
  proof -
    have "l div 2 ^ 63 = l div 2 ^ 32 div 2 ^ 31" by (simp add: div_mult2_eq [symmetric])
    also have "l div 2 ^ 32 = unat d2" using lt(1) by (simp add: s(3))
    finally show ?thesis .
  qed
  have b: "unat d2 div 2 ^ 31 < 2" "unat d1 div 2 ^ 31 < 2" using lt by auto
  let ?d3 = "push_bit 1 d3 OR drop_bit 31 d2"
  have d3: "unat ?d3 = 2 * r + l div 2 ^ 63"
    using b st(2) d by (subst unat_or_push) (simp_all add: unat_drop top [simplified] s(2))
  have d2: "unat (push_bit 1 d2 OR drop_bit 31 d1) = 2 * unat d2 mod 2 ^ 32 + unat d1 div 2 ^ 31"
    using b by (subst unat_or_push) (simp_all add: unat_drop mult.commute)
  have d1: "unat (push_bit 1 d1) = 2 * unat d1 mod 2 ^ 32"
    unfolding unat_push power_one_right by (simp only: mult.commute)
  have l: "(2 * unat d2 mod 2 ^ 32 + unat d1 div 2 ^ 31) * 2 ^ 32 + 2 * unat d1 mod 2 ^ 32 = 2 * l mod 2 ^ 64"
  proof -
    note double_split [of "unat d1"] double_split [of "unat d2"]
    then have "2 * l = (unat d2 div 2 ^ 31) * 2 ^ 64
        + ((2 * unat d2 mod 2 ^ 32 + unat d1 div 2 ^ 31) * 2 ^ 32 + 2 * unat d1 mod 2 ^ 32)"
      unfolding s(3) by (simp add: algebra_simps)
    moreover have "(2 * unat d2 mod 2 ^ 32 + unat d1 div 2 ^ 31) * 2 ^ 32 + 2 * unat d1 mod 2 ^ 32 < 2 ^ 64"
      using pair_val_lt [of "(push_bit 1 d2 OR drop_bit 31 d1, push_bit 1 d1)"] by (simp only: pair_val_def fst_conv snd_conv d1 d2)
    ultimately show ?thesis by simp
  qed
  have q: "push_bit 1 q = 2 * q" "push_bit 1 q OR 1 = 2 * q + 1"
    using or_push_low [of 1 1 q] by (simp_all add: push_bit_eq_mult mult.commute)
  define e3 where "e3 = push_bit 1 d3 OR drop_bit 31 d2"
  define e2 where "e2 = push_bit 1 d2 OR drop_bit 31 d1"
  define e1 where "e1 = push_bit 1 d1"
  have e: "unat e3 = 2 * r + l div 2 ^ 63" "pair_val (e2, e1) = 2 * l mod 2 ^ 64"
    using d3 l d1 d2 by (simp_all only: e3_def e2_def e1_def pair_val_def fst_conv snd_conv)
  have "divide_step den st = (if den \<le> e3 then (e3 - den, e2, e1, 2 * q + 1) else (e3, e2, e1, 2 * q))"
    unfolding s(1) divide_step_def Let_def prod.case q(2) unfolding q(1) e3_def e2_def e1_def ..
  then show ?thesis using e by (simp add: div_abs_def Let_def word_le_nat_alt unat_sub)
qed

lemma div_double: "0 < d \<Longrightarrow> 2 * (A mod d) + b < 2 * d \<Longrightarrow>
    (if d \<le> 2 * (A mod d) + b then (2 * (A mod d) + b - d, 2 * (A div d) + 1) else (2 * (A mod d) + b, 2 * (A div d)))
    = ((2 * A + b) mod d, (2 * A + b) div d)" for A d b :: nat
proof -
  assume d: "0 < d" and b: "2 * (A mod d) + b < 2 * d"
  have A: "2 * A + b = 2 * (A div d) * d + (2 * (A mod d) + b)"
    using div_mult_mod_eq [of A d] by (metis add.assoc distrib_left mult.assoc)
  show ?thesis
  proof (cases "d \<le> 2 * (A mod d) + b")
    case True
    then have "2 * A + b = (2 * (A mod d) + b - d) + (2 * (A div d) + 1) * d" using A by (simp add: algebra_simps)
    moreover have "2 * (A mod d) + b - d < d" using b by linarith
    ultimately show ?thesis using True d by (simp only: mod_mult_self1 div_mult_self1 mod_less div_less) simp
  next
    case False
    have "2 * A + b = (2 * (A mod d) + b) + 2 * (A div d) * d" using A by simp
    then show ?thesis using False d by (simp only: mod_mult_self1 div_mult_self1) simp
  qed
qed

text \<open>After \<open>k\<close> rounds the state is that of a division of the upper \<open>k\<close> bits.\<close>

lemma divide_rounds:
  assumes den: "0 < den" "den \<le> 2 ^ 31" and st: "div_abs st = (0, N, 0)" "N < 2 ^ 64" and k: "k \<le> 64"
  shows "div_abs ((divide_step den ^^ k) st)
    = (N div 2 ^ (64 - k) mod unat den, N * 2 ^ k mod 2 ^ 64, of_nat (N div 2 ^ (64 - k) div unat den))"
  using k
proof (induction k)
  case 0
  then show ?case using st by simp
next
  case (Suc k)
  let ?A = "N div 2 ^ (64 - k)" and ?B = "N div 2 ^ (64 - Suc k)" and ?d = "unat den" and ?l = "N * 2 ^ k mod 2 ^ 64"
  have d: "0 < ?d" using den(1) by (simp add: word_less_nat_alt)
  have e: "(2 :: nat) ^ (64 - k) = 2 ^ (64 - Suc k) * 2" "(2 :: nat) ^ 64 = 2 ^ (64 - Suc k) * 2 * 2 ^ k"
    using Suc.prems by (simp_all add: power_add [symmetric] power_Suc [symmetric] Suc_diff_le mult.commute del: power_Suc)
  have bit: "?B = 2 * ?A + ?l div 2 ^ 63"
  proof -
    have "?l = N mod (2 ^ (64 - Suc k) * 2) * 2 ^ k" unfolding e(2) by (simp add: mult_mod_left)
    moreover have "(2 :: nat) ^ 63 = 2 ^ (64 - Suc k) * 2 ^ k" using Suc.prems by (simp add: power_add [symmetric])
    ultimately have "?l div 2 ^ 63 = N mod (2 ^ (64 - Suc k) * 2) * 2 ^ k div (2 ^ (64 - Suc k) * 2 ^ k)"
      by (simp only:)
    also have "\<dots> = N mod (2 ^ (64 - Suc k) * 2) div 2 ^ (64 - Suc k)" by (rule div_mult_mult2) simp
    also have "\<dots> = ?B mod 2" by (simp add: mod_mult2_eq)
    finally show ?thesis using e(1) by (simp add: div_mult2_eq)
  qed
  have b: "?l div 2 ^ 63 < 2" by (simp add: less_mult_imp_div_less)
  have r: "?A mod ?d < ?d" using d by simp
  have IH: "div_abs ((divide_step den ^^ k) st) = (?A mod ?d, ?l, of_nat (?A div ?d))" using Suc by simp
  have small: "2 * (?A mod ?d) + ?l div 2 ^ 63 < 2 * ?d" using r b by linarith
  have l: "2 * ?l mod 2 ^ 64 = N * 2 ^ Suc k mod 2 ^ 64" by (simp add: mod_mult_right_eq mult.left_commute)
  note dd = div_double [OF d small, folded bit]
  show ?case
  proof (cases "?d \<le> 2 * (?A mod ?d) + ?l div 2 ^ 63")
    case True
    then have q: "?B mod ?d = 2 * (?A mod ?d) + ?l div 2 ^ 63 - ?d" "?B div ?d = 2 * (?A div ?d) + 1" using dd by auto
    have "div_abs (divide_step den ((divide_step den ^^ k) st))
        = (2 * (?A mod ?d) + ?l div 2 ^ 63 - ?d, 2 * ?l mod 2 ^ 64, 2 * of_nat (?A div ?d) + 1)"
      unfolding divide_step_abs [OF den IH r] Let_def using True by simp
    then show ?thesis unfolding q l by simp
  next
    case False
    then have q: "?B mod ?d = 2 * (?A mod ?d) + ?l div 2 ^ 63" "?B div ?d = 2 * (?A div ?d)" using dd by auto
    have "div_abs (divide_step den ((divide_step den ^^ k) st))
        = (2 * (?A mod ?d) + ?l div 2 ^ 63, 2 * ?l mod 2 ^ 64, 2 * of_nat (?A div ?d))"
      unfolding divide_step_abs [OF den IH r] Let_def using False by simp
    then show ?thesis unfolding q l by simp
  qed
qed

text \<open>The division is exact for denominators up to \<open>2^31\<close>, with the quotient reduced to 32 bits.\<close>

lemma divide_exact:
  assumes "0 < den" "den \<le> 2 ^ 31"
  shows "uint64_divide num den = (of_nat (pair_val num div unat den), of_nat (pair_val num mod unat den))"
proof -
  have "div_abs (0, fst num, snd num, 0) = (0, pair_val num, 0)" by (simp add: div_abs_def)
  then have "div_abs ((divide_step den ^^ 64) (0, fst num, snd num, 0))
      = (pair_val num mod unat den, pair_val num * 2 ^ 64 mod 2 ^ 64, of_nat (pair_val num div unat den))"
    using divide_rounds [OF assms, of "(0, fst num, snd num, 0)" "pair_val num" 64] pair_val_lt [of num] by simp
  then show ?thesis
    by (auto simp: uint64_divide_def div_abs_def split: prod.splits) (metis of_nat_unat ucast_id)
qed

text \<open>Rounding to the nearest number by a look at the remainder.\<close>

lemma nearest_split: "0 < f \<Longrightarrow> (2 * n + f) div (2 * f) = n div f + (if 2 * (n mod f) < f then 0 else 1)" for n f :: nat
proof -
  assume f: "0 < f"
  have m: "n mod f < f" using f by simp
  have "2 * n + f = (2 * (n mod f) + f) + n div f * (2 * f)"
    using arg_cong [OF div_mult_mod_eq [of n f], of "\<lambda>x. 2 * x"] by (simp only: add_mult_distrib2 ac_simps)
  then have "(2 * n + f) div (2 * f) = n div f + (2 * (n mod f) + f) div (2 * f)"
    using f by (simp only: div_mult_self1)
  moreover have "(2 * (n mod f) + f) div (2 * f) = (if 2 * (n mod f) < f then 0 else 1)"
  proof (cases "2 * (n mod f) < f")
    case False
    then show ?thesis using m by (auto intro: div_nat_eqI)
  qed simp
  ultimately show ?thesis by simp
qed

end
