(* ===== verification/Kstring.thy ===== *)
theory Kstring
  imports Prelude
begin

text \<open>
  The C string functions of the kernel that the drivers use (\<open>lib/string.c\<close>, \<open>asm-mips/string.h\<close>, \<open>lib/vsprintf.c\<close>,
  \<open>lib/cmdline.c\<close>): character arrays as lists of fixed length, the string that begins at an offset, copying and
  appending, comparison with a prefix, and the conversion between numbers and text with the fact that both
  directions agree.
\<close>

section \<open>Character arrays\<close>

definition NUL :: char where "NUL = CHR 0x00"

definition c_string :: "string \<Rightarrow> string" where
  "c_string s = takeWhile (\<lambda>c. c \<noteq> CHR 0x00) s"

text \<open>The bytes \<open>xs\<close> stored in the array from \<open>off\<close> on; \<open>None\<close> where a byte would lie outside.\<close>

definition store_bytes :: "char list \<Rightarrow> nat \<Rightarrow> string \<Rightarrow> char list option" where
  "store_bytes buf off xs =
     (if off + length xs \<le> length buf then Some (take off buf @ xs @ drop (off + length xs) buf) else None)"

text \<open>\<open>strncpy\<close> of this kernel copies up to the terminating zero and does not pad.\<close>

definition strncpy :: "char list \<Rightarrow> nat \<Rightarrow> string \<Rightarrow> nat \<Rightarrow> char list option" where
  "strncpy buf off src n = store_bytes buf off (take n (src @ [NUL]))"

definition strcat :: "char list \<Rightarrow> nat \<Rightarrow> string \<Rightarrow> char list option" where
  "strcat buf off src = store_bytes buf (off + length (c_string (drop off buf))) (src @ [NUL])"

fun is_prefix :: "string \<Rightarrow> string \<Rightarrow> bool" where
  "is_prefix [] s \<longleftrightarrow> True"
| "is_prefix (p # ps) [] \<longleftrightarrow> False"
| "is_prefix (p # ps) (c # cs) \<longleftrightarrow> p = c \<and> is_prefix ps cs"

fun strstr :: "string \<Rightarrow> string \<Rightarrow> bool" where
  "strstr [] p \<longleftrightarrow> p = []"
| "strstr (c # cs) p \<longleftrightarrow> is_prefix p (c # cs) \<or> strstr cs p"

section \<open>Numbers\<close>

definition digit_of :: "char \<Rightarrow> nat option" where
  "digit_of c = (let k = of_char c in if 48 \<le> k \<and> k \<le> (57 :: nat) then Some (k - 48) else None)"

fun simple_strtoul10 :: "string \<Rightarrow> u32 \<Rightarrow> u32" where
  "simple_strtoul10 [] acc = acc"
| "simple_strtoul10 (c # cs) acc =
     (case digit_of c of None \<Rightarrow> acc | Some d \<Rightarrow> simple_strtoul10 cs (acc * 10 + of_nat d))"

text \<open>The value of a character for which \<open>isxdigit\<close> holds.\<close>

definition xdigit_of :: "char \<Rightarrow> nat option" where
  "xdigit_of c =
     (let k = of_char c in
      if 48 \<le> k \<and> k \<le> (57 :: nat) then Some (k - 48)
      else if 97 \<le> k \<and> k \<le> 102 then Some (k - 97 + 10)
      else if 65 \<le> k \<and> k \<le> 70 then Some (k - 65 + 10) else None)"

text \<open>The base that the prefix of the text selects when the argument is 0, and the text behind the prefix.\<close>

definition strtoul_base :: "string \<Rightarrow> nat \<times> string" where
  "strtoul_base cp =
     (case cp of
        c # cs \<Rightarrow>
          if c = CHR ''0'' then
            (case cs of
               x # d # ds \<Rightarrow> if x = CHR ''x'' \<and> xdigit_of d \<noteq> None then (16, d # ds) else (8, cs)
             | _ \<Rightarrow> (8, cs))
          else (10, cp)
      | [] \<Rightarrow> (10, cp))"

text \<open>The result has the width of the C type; the second component is \<open>*endp\<close>.\<close>

fun strtoul_loop :: "nat \<Rightarrow> string \<Rightarrow> 'a::len word \<Rightarrow> 'a word \<times> string" where
  "strtoul_loop base [] acc = (acc, [])"
| "strtoul_loop base (c # cs) acc =
     (case xdigit_of c of
        None \<Rightarrow> (acc, c # cs)
      | Some v \<Rightarrow> if v < base then strtoul_loop base cs (acc * of_nat base + of_nat v) else (acc, c # cs))"

definition simple_strtoul :: "string \<Rightarrow> u32 \<times> string" where
  "simple_strtoul cp = (case strtoul_base cp of (base, s) \<Rightarrow> strtoul_loop base s 0)"

definition simple_strtoull :: "string \<Rightarrow> 64 word \<times> string" where
  "simple_strtoull cp = (case strtoul_base cp of (base, s) \<Rightarrow> strtoul_loop base s 0)"

definition memparse :: "string \<Rightarrow> 64 word \<times> string" where
  "memparse cp =
     (case simple_strtoull cp of
        (ret, []) \<Rightarrow> (ret, [])
      | (ret, c # cs) \<Rightarrow>
          if c = CHR ''G'' \<or> c = CHR ''g'' then (push_bit 30 ret, cs)
          else if c = CHR ''M'' \<or> c = CHR ''m'' then (push_bit 20 ret, cs)
          else if c = CHR ''K'' \<or> c = CHR ''k'' then (push_bit 10 ret, cs)
          else (ret, c # cs))"

text \<open>Numbers in a base up to sixteen, as \<open>%d\<close> and \<open>%x\<close> print them.\<close>

definition digit_char :: "nat \<Rightarrow> char" where
  "digit_char d = (if d < 10 then char_of (48 + d) else char_of (87 + d))"

function radix :: "nat \<Rightarrow> nat \<Rightarrow> string" where
  "radix b n = (if b < 2 \<or> n < b then [digit_char n] else radix b (n div b) @ [digit_char (n mod b)])"
  by pat_completeness auto
termination
  by (relation "measure snd") auto

declare radix.simps [simp del]

section \<open>Lemmas on arrays\<close>

lemma store_bytes_ok: "off + length xs \<le> length buf \<Longrightarrow>
    store_bytes buf off xs = Some (take off buf @ xs @ drop (off + length xs) buf)"
  by (simp add: store_bytes_def)

lemma store_bytes_length: "store_bytes buf off xs = Some b \<Longrightarrow> length b = length buf"
  by (auto simp: store_bytes_def split: if_splits)

lemma c_string_append: "NUL \<notin> set s \<Longrightarrow> c_string (s @ NUL # t) = s"
  by (auto simp: c_string_def NUL_def takeWhile_tail)

lemma c_string_no_NUL: "NUL \<notin> set (c_string s)"
  by (auto simp: c_string_def NUL_def dest: set_takeWhileD)

lemma is_prefix_append [simp]: "is_prefix p (p @ s)"
  by (induction p) auto

lemma is_prefix_iff: "is_prefix p s \<longleftrightarrow> (\<exists>t. s = p @ t)"
  by (induction p s rule: is_prefix.induct) auto

section \<open>Lemmas on numbers\<close>

lemma xdigit_of_digit_char: "d < 16 \<Longrightarrow> xdigit_of (digit_char d) = Some d"
  by (auto simp: xdigit_of_def digit_char_def of_char_of Let_def take_bit_nat_eq_self)

lemma xdigit_of_mod: "2 \<le> b \<Longrightarrow> b \<le> 16 \<Longrightarrow> xdigit_of (digit_char (n mod b)) = Some (n mod b)"
  by (rule xdigit_of_digit_char) (use mod_less_divisor [of b n] in linarith)

lemma strtoul_loop_append:
  assumes "list_all (\<lambda>c. \<exists>v<base. xdigit_of c = Some v) s"
  shows "strtoul_loop base (s @ t) acc = strtoul_loop base t (fst (strtoul_loop base s acc))"
  using assms by (induction s arbitrary: acc) auto

lemma radix_digits: "2 \<le> b \<Longrightarrow> b \<le> 16 \<Longrightarrow> list_all (\<lambda>c. \<exists>v<b. xdigit_of c = Some v) (radix b n)"
proof (induction b n rule: radix.induct)
  case (1 b n)
  then show ?case by (subst radix.simps) (auto simp: xdigit_of_digit_char xdigit_of_mod)
qed

lemma strtoul_radix:
  assumes "2 \<le> b" "b \<le> 16"
  shows "strtoul_loop b (radix b n) 0 = ((of_nat n :: 'a::len word), [])"
  using assms
proof (induction b n rule: radix.induct)
  case (1 b n)
  show ?case
  proof (cases "n < b")
    case True
    then show ?thesis using 1 by (simp add: radix.simps [of b n] xdigit_of_digit_char)
  next
    case False
    have "of_nat n = (of_nat (n div b) * of_nat b + of_nat (n mod b) :: 'a word)"
      by (simp only: of_nat_mult [symmetric] of_nat_add [symmetric] div_mult_mod_eq)
    then show ?thesis using 1 False
      by (simp add: radix.simps [of b n] strtoul_loop_append [OF radix_digits] xdigit_of_mod)
  qed
qed

text \<open>Reading a printed number gives the number back and stops at the first character that is no digit.\<close>

lemma strtoul_radix_rest:
  assumes b: "2 \<le> b" "b \<le> 16" and t: "t = [] \<or> xdigit_of (hd t) = None"
  shows "strtoul_loop b (radix b n @ t) 0 = ((of_nat n :: 'a::len word), t)"
proof -
  have "strtoul_loop b t a = (a, t)" for a :: "'a word" using t by (cases t) auto
  then show ?thesis by (simp add: strtoul_loop_append [OF radix_digits [OF b]] strtoul_radix [OF b])
qed

lemma radix_Cons: "\<exists>c cs. radix b n = c # cs"
  by (induction b n rule: radix.induct) (subst radix.simps, auto)

lemma strtoul_hex:
  assumes t: "t = [] \<or> xdigit_of (hd t) = None"
  shows "simple_strtoul (''0x'' @ radix 16 n @ t) = (of_nat n, t)"
proof -
  obtain c cs where r: "radix 16 n = c # cs" using radix_Cons by blast
  have "xdigit_of c \<noteq> None" using radix_digits [of 16 n] r by auto
  then have "strtoul_base (''0x'' @ radix 16 n @ t) = (16, radix 16 n @ t)" by (simp add: strtoul_base_def r)
  then show ?thesis using strtoul_radix_rest [OF _ _ t, of 16 n] by (simp add: simple_strtoul_def)
qed

end
