(* ===== verification/Board.thy ===== *)
theory Board
  imports Kstring
begin

text \<open>
  Start of the two cores (\<open>basic/prom.c\<close>, \<open>basic/setup.c\<close>, \<open>basic/reset.c\<close>, with \<open>init_arch\<close>, \<open>add_memory_region\<close> and
  \<open>parse_mem_cmdline\<close> of \<open>arch/mips/kernel/setup.c\<close>): the same image starts on both cores.  Core 0 takes its command line from
  the boot loader, appends the memory size, leaves the arguments of core 1 at the start of the memory of core 1 and
  keeps its entry address; core 1 takes its command line from the image.  The kernel then reads its memory from the
  command line.  The configuration has 64 MB, an initial ramdisk and no flash.
\<close>

section \<open>State\<close>

record cpu1_arguments =
  memsize :: u32
  cpu1_entry :: u32
  arg_argc :: nat
  args_cmdline :: "char list"

record boot_mem =
  mem_addr :: u32
  mem_size :: u32
  mem_type :: nat

text \<open>The arguments of core 1 lie in memory that both cores reach; everything else is per core.\<close>

record board =
  arcs_cmdline :: "char list"
  got_mem :: bool
  got_cpu1_entry :: bool
  danube_cp1_base :: u32
  mps_tpe_cpu1_entry_base :: u32
  arguments :: cpu1_arguments
  initrd_start :: u32
  initrd_end :: u32
  boot_mem_map :: "boot_mem list"
  mips_machgroup :: nat
  ioport_resource :: "u32 \<times> u32"
  mbx_area_cleared :: bool

datatype prom_fault = Cmdline_overrun

definition CL_SIZE :: nat where "CL_SIZE = 256"
definition BOOT_MEM_MAP_MAX :: nat where "BOOT_MEM_MAP_MAX = 32"
definition MACH_GROUP_DANUBE :: nat where "MACH_GROUP_DANUBE = 27"
definition BOOT_MEM_RAM :: nat where "BOOT_MEM_RAM = 1"

definition fake2cpu1_cmdline :: string where
  "fake2cpu1_cmdline = ''root=/dev/ram rw console=ttyS1,115200 mem=12M@52M''"

definition fake_cmdline :: string where
  "fake_cmdline = ''rootfstype=squashfs root=/dev/mtdblock2 console=ttyS1,115200 mem=16M@16M''"

definition CPU1_BASE_ADDR :: u32 where
  "CPU1_BASE_ADDR = 0xA0000000 OR 0x01000000 OR 0x03400000"

section \<open>The command line of core 0\<close>

text \<open>The variables of the loop over \<open>argv\<close>: the array, the offset of \<open>dest\<close>, \<open>left\<close> and \<open>len\<close>.\<close>

record cl_copy =
  cl_buf :: "char list"
  cl_dest :: nat
  cl_left :: int
  cl_len :: nat
  cl_mem :: bool
  cl_entry :: bool

text \<open>One argument: copied as far as room is left, looked at, and followed by a space unless the array is full.  The
  second component tells whether the loop goes on.\<close>

definition copy_arg :: "string \<Rightarrow> cl_copy \<Rightarrow> (cl_copy \<times> bool) option" where
  "copy_arg a c =
     (case strncpy (cl_buf c) (cl_dest c) a (nat (cl_left c)) of
        None \<Rightarrow> None
      | Some b \<Rightarrow>
          let len = length a; left = cl_left c - (int len + 1);
              c1 = c\<lparr>cl_buf := b, cl_len := len, cl_left := left,
                     cl_mem := cl_mem c \<or> is_prefix ''mem='' (c_string (drop (cl_dest c) b)),
                     cl_entry := cl_entry c \<or> is_prefix ''cpu1_entry='' (c_string (drop (cl_dest c) b))\<rparr>
          in if left \<le> 0 then Some (c1, False)
             else case store_bytes b (cl_dest c + len) '' '' of
               None \<Rightarrow> None
             | Some b1 \<Rightarrow> Some (c1\<lparr>cl_buf := b1, cl_dest := cl_dest c + len + 1\<rparr>, True))"

text \<open>The loop; the second component tells whether all arguments were taken (\<open>i == argc\<close>).\<close>

fun copy_args :: "string option list \<Rightarrow> cl_copy \<Rightarrow> (cl_copy \<times> bool) option" where
  "copy_args [] c = Some (c, True)"
| "copy_args (None # as) c = Some (c, False)"
| "copy_args (Some a # as) c =
     (case copy_arg a c of
        None \<Rightarrow> None
      | Some (c1, go) \<Rightarrow> if go then copy_args as c1 else Some (c1, False))"

text \<open>The zero byte behind the loop is stored \<open>len\<close> bytes behind the place that follows the last argument.\<close>

definition command_line :: "string option list \<Rightarrow> board \<Rightarrow> prom_fault + cl_copy" where
  "command_line argv s =
     (let c0 = \<lparr>cl_buf = arcs_cmdline s, cl_dest = 0, cl_left = int CL_SIZE - 1, cl_len = 0,
                cl_mem = got_mem s, cl_entry = got_cpu1_entry s\<rparr> in
      case argv of
        [] \<Rightarrow>
          (case strncpy (arcs_cmdline s) 0 fake_cmdline 21 of
             None \<Rightarrow> Inl Cmdline_overrun
           | Some b \<Rightarrow> Inr (c0\<lparr>cl_buf := b, cl_left := 0\<rparr>))
      | _ # as \<Rightarrow>
          (case copy_args as c0 of
             None \<Rightarrow> Inl Cmdline_overrun
           | Some (c, all) \<Rightarrow>
               if cl_left c > 0 then
                 (case store_bytes (cl_buf c) (cl_dest c + cl_len c) [NUL] of
                    None \<Rightarrow> Inl Cmdline_overrun
                  | Some b \<Rightarrow> Inr (c\<lparr>cl_buf := b\<rparr>))
               else Inr c))"

text \<open>The memory size is appended where the boot loader gave none and more than eight bytes are left.\<close>

definition append_mem :: "nat \<Rightarrow> cl_copy \<Rightarrow> cl_copy option" where
  "append_mem memsz c =
     (if memsz \<noteq> 0 \<and> \<not> cl_mem c \<and> cl_left c > 8 then
        (case store_bytes (cl_buf c) (cl_dest c) '' '' of
           None \<Rightarrow> None
         | Some b1 \<Rightarrow>
           (case strcat b1 (cl_dest c + 1) ''mem='' of
              None \<Rightarrow> None
            | Some b2 \<Rightarrow>
              (case store_bytes b2 (cl_dest c + 5)
                      (take (nat (cl_left c) - 6) (radix 10 memsz) @ [NUL]) of
                 None \<Rightarrow> None
               | Some b3 \<Rightarrow>
                 (case strcat b3 (cl_dest c + 5 + length (radix 10 memsz)) ''M'' of
                    None \<Rightarrow> None
                  | Some b4 \<Rightarrow> Some (c\<lparr>cl_buf := b4, cl_mem := True\<rparr>)))))
      else Some c)"

section \<open>The environment of core 0\<close>

record env_values =
  env_rdstart :: u32
  env_rdsize :: u32

definition env_entry :: "string \<Rightarrow> board \<times> env_values \<Rightarrow> board \<times> env_values" where
  "env_entry e p =
     (let val = (\<lambda>k. fst (simple_strtoul (drop k e)));
          p1 = (if is_prefix ''memsize='' e
                then apfst (\<lambda>s. s\<lparr>arguments := (arguments s)\<lparr>memsize := val 8\<rparr>\<rparr>) p else p);
          p2 = (if is_prefix ''cpu1_entry='' e
                then apfst (\<lambda>s. s\<lparr>danube_cp1_base := val 11,
                                 arguments := (arguments s)\<lparr>cpu1_entry := val 11\<rparr>\<rparr>) p1 else p1);
          p3 = (if is_prefix ''initrd_start='' e
                then apsnd (\<lambda>v. v\<lparr>env_rdstart := KSEG1ADDR (val 13)\<rparr>) p2 else p2)
      in if is_prefix ''initrd_size='' e then apsnd (\<lambda>v. v\<lparr>env_rdsize := val 12\<rparr>) p3 else p3)"

section \<open>Memory regions\<close>

definition add_memory_region :: "u32 \<Rightarrow> u32 \<Rightarrow> nat \<Rightarrow> board \<Rightarrow> board" where
  "add_memory_region start siz type s =
     (if length (boot_mem_map s) = BOOT_MEM_MAP_MAX then s
      else s\<lparr>boot_mem_map := boot_mem_map s @ [\<lparr>mem_addr = start, mem_size = siz, mem_type = type\<rparr>]\<rparr>)"

section \<open>Start of core 0 and core 1\<close>

text \<open>\<open>argv\<close> has \<open>argc\<close> elements; \<open>envp\<close> is the environment up to its first NULL, or \<open>None\<close> for the NULL pointer.\<close>

definition pass_cmdline :: "cpu1_arguments \<Rightarrow> cpu1_arguments option" where
  "pass_cmdline a =
     (let n = length fake2cpu1_cmdline in
      case strncpy (args_cmdline a) 0 fake2cpu1_cmdline n of
        None \<Rightarrow> None
      | Some b \<Rightarrow> map_option (\<lambda>b1. a\<lparr>arg_argc := n, args_cmdline := b1\<rparr>) (store_bytes b n [NUL]))"

definition prom_init :: "string option list \<Rightarrow> string list option \<Rightarrow> board \<Rightarrow> prom_fault + board" where
  "prom_init argv envp s =
     (case command_line argv s of
        Inl f \<Rightarrow> Inl f
      | Inr c \<Rightarrow>
        (case pass_cmdline (arguments s) of
           None \<Rightarrow> Inl Cmdline_overrun
         | Some a \<Rightarrow>
             let (s1, v) = fold env_entry (case envp of None \<Rightarrow> [] | Some es \<Rightarrow> es)
                   (s\<lparr>arguments := a\<rparr>, \<lparr>env_rdstart = 0, env_rdsize = 0\<rparr>);
                 memsz = 52;
                 s2 = (if danube_cp1_base s1 = 0
                       then s1\<lparr>danube_cp1_base := 0xA0000000 + of_nat (memsz * 1024 * 1024)\<rparr> else s1)
             in case append_mem memsz c of
                  None \<Rightarrow> Inl Cmdline_overrun
                | Some c1 \<Rightarrow>
                    let s3 = s2\<lparr>arcs_cmdline := cl_buf c1, got_mem := cl_mem c1, got_cpu1_entry := cl_entry c1\<rparr>;
                        s4 = (if env_rdstart v \<noteq> 0 \<and> env_rdsize v \<noteq> 0
                              then s3\<lparr>initrd_start := env_rdstart v, initrd_end := env_rdstart v + env_rdsize v\<rparr>
                              else s3);
                        s5 = s4\<lparr>mips_machgroup := MACH_GROUP_DANUBE, ioport_resource := (0, 0xFFFFFFFF)\<rparr>
                    in Inr (if got_mem s5 then s5 else add_memory_region 0 0x4000000 BOOT_MEM_RAM s5)))"

definition prom1_init :: "board \<Rightarrow> prom_fault + board" where
  "prom1_init s =
     (let n = length fake2cpu1_cmdline in
      case store_bytes (args_cmdline (arguments s)) n [NUL] of
        None \<Rightarrow> Inl Cmdline_overrun
      | Some b \<Rightarrow>
        (case strncpy (arcs_cmdline s) 0 fake2cpu1_cmdline n of
           None \<Rightarrow> Inl Cmdline_overrun
         | Some l \<Rightarrow>
           (case store_bytes l n [NUL] of
              None \<Rightarrow> Inl Cmdline_overrun
            | Some l1 \<Rightarrow>
                let s1 = s\<lparr>arguments := (arguments s)\<lparr>arg_argc := n, args_cmdline := b\<rparr>, arcs_cmdline := l1,
                           danube_cp1_base := cpu1_entry (arguments s), mips_machgroup := MACH_GROUP_DANUBE,
                           ioport_resource := (0, 0xFFFFFFFF)\<rparr>
                in Inr (add_memory_region 0 0x4000000 BOOT_MEM_RAM s1))))"

definition init_arch :: "nat \<Rightarrow> string option list \<Rightarrow> string list option \<Rightarrow> board \<Rightarrow> prom_fault + board" where
  "init_arch ebase_cpu_num argv envp s =
     (if ebase_cpu_num AND 0x3FF = 0 then
        (case prom_init argv envp s of
           Inl f \<Rightarrow> Inl f
         | Inr s1 \<Rightarrow>
             Inr (if danube_cp1_base s1 \<noteq> 0
                  then s1\<lparr>mbx_area_cleared := True, mps_tpe_cpu1_entry_base := danube_cp1_base s1\<rparr> else s1))
      else prom1_init s)"

section \<open>The kernel reads its memory from the command line\<close>

text \<open>The loop of \<open>parse_mem_cmdline\<close>: the previous character, the rest of the saved command line, the characters copied
  so far, the counter, and whether a region was given.  An option is removed with the space before it.\<close>

record mem_parse =
  mp_to :: string
  mp_len :: nat
  mp_user :: bool
  mp_board :: board

definition mem_option :: "string \<Rightarrow> mem_parse \<Rightarrow> string \<times> mem_parse" where
  "mem_option from p =
     (let s0 = (if mp_user p then mp_board p else (mp_board p)\<lparr>boot_mem_map := []\<rparr>);
          (siz, f1) = memparse (drop 4 from);
          (start, f2) = (case f1 of c # cs \<Rightarrow> if c = CHR ''@'' then memparse cs else (0, f1) | [] \<Rightarrow> (0, f1))
      in (f2, p\<lparr>mp_to := butlast (mp_to p), mp_user := True,
               mp_board := add_memory_region (ucast start) (ucast siz) BOOT_MEM_RAM s0\<rparr>))"

lemma strtoul_loop_shorter: "length (snd (strtoul_loop b s a)) \<le> length s"
  by (induction s arbitrary: a) (auto split: option.splits intro: le_SucI)

lemma simple_strtoull_shorter: "length (snd (simple_strtoull s)) \<le> length s"
proof -
  obtain b t where bt: "strtoul_base s = (b, t)" by (cases "strtoul_base s")
  then have "length t \<le> length s" by (auto simp: strtoul_base_def split: list.splits if_splits)
  then show ?thesis using strtoul_loop_shorter [of b t "0 :: 64 word"] bt by (simp add: simple_strtoull_def order_trans)
qed

lemma memparse_shorter: "length (snd (memparse s)) \<le> length s"
  using simple_strtoull_shorter [of s] by (auto simp: memparse_def split: prod.splits list.splits)

lemma mem_option_shorter: "length (fst (mem_option from p)) \<le> length from"
proof -
  obtain siz f1 where 1: "memparse (drop 4 from) = (siz, f1)" by (cases "memparse (drop 4 from)")
  have f1: "length f1 \<le> length from" using memparse_shorter [of "drop 4 from"] 1 by simp
  show ?thesis
  proof (cases f1)
    case Nil
    then show ?thesis using 1 by (simp add: mem_option_def Let_def)
  next
    case (Cons c cs)
    then show ?thesis using 1 f1 memparse_shorter [of cs]
      by (auto simp: mem_option_def Let_def split: prod.splits)
  qed
qed

function mem_loop :: "char \<Rightarrow> string \<Rightarrow> mem_parse \<Rightarrow> mem_parse" where
  "mem_loop c from p =
     (case (if c = CHR '' '' \<and> is_prefix ''mem='' from then mem_option from p else (from, p)) of
        ([], p1) \<Rightarrow> p1
      | (d # ds, p1) \<Rightarrow>
          if CL_SIZE \<le> mp_len p1 + 1 then p1\<lparr>mp_len := mp_len p1 + 1\<rparr>
          else mem_loop d ds (p1\<lparr>mp_len := mp_len p1 + 1, mp_to := mp_to p1 @ [d]\<rparr>))"
  by pat_completeness auto
termination
proof (relation "measure (\<lambda>(c, from, p). length from)", goal_cases)
  case (2 c str p x1 x2 y)
  then show ?case using mem_option_shorter [of str p] by (cases "mem_option str p") (auto split: if_splits)
qed auto

declare mem_loop.simps [simp del]

text \<open>\<open>setup_arch\<close>: the command line of the boot code is copied, saved and parsed; the result is what the kernel
  parses further.\<close>

definition parse_mem_cmdline :: "string \<Rightarrow> board \<Rightarrow> string \<times> board" where
  "parse_mem_cmdline saved s =
     (let p = mem_loop (CHR '' '') saved \<lparr>mp_to = [], mp_len = 0, mp_user = False, mp_board = s\<rparr>
      in (mp_to p, mp_board p))"

definition setup_arch :: "board \<Rightarrow> string \<times> board" where
  "setup_arch s = parse_mem_cmdline (c_string (take (CL_SIZE - 1) (arcs_cmdline s))) s"

section \<open>Clocks and reset\<close>

text \<open>The clock rates as functions of the register \<open>CGU_SYS\<close>.\<close>

definition danube_get_ddr_hz :: "u32 \<Rightarrow> u32" where
  "danube_get_ddr_hz cgu_sys =
     (let k = cgu_sys AND 3 in
      if k = 0 then 166500000 else if k = 1 then 133333333 else if k = 2 then 111111111 else 83333333)"

definition danube_get_cpu_hz :: "u32 \<Rightarrow> u32" where
  "danube_get_cpu_hz cgu_sys =
     (let k = cgu_sys AND 0xC in
      if k = 0 then 333333333 else if k = 4 then danube_get_ddr_hz cgu_sys
      else push_bit 1 (danube_get_ddr_hz cgu_sys))"

definition danube_get_fpi_hz :: "u32 \<Rightarrow> u32" where
  "danube_get_fpi_hz cgu_sys =
     (if cgu_sys AND 0x40 \<noteq> 0 then drop_bit 1 (danube_get_ddr_hz cgu_sys) else danube_get_ddr_hz cgu_sys)"

text \<open>\<open>mips_hpt_frequency\<close> and \<open>r4k_offset\<close>, and the first value of the compare register.\<close>

definition danube_time_init :: "u32 \<Rightarrow> u32 \<times> u32" where
  "danube_time_init cgu_sys = (let f = danube_get_cpu_hz cgu_sys div 2 in (f, f div 100))"

definition danube_timer_setup :: "u32 \<Rightarrow> u32 \<Rightarrow> u32" where
  "danube_timer_setup count r4k_offset = count + r4k_offset"

text \<open>The cached version of the chip.\<close>

definition danube_get_cpu_ver :: "u32 \<Rightarrow> u32 \<Rightarrow> u32 \<times> u32" where
  "danube_get_cpu_ver chipid cpu_ver = (let v = (if cpu_ver = 0 then chipid AND 0xFFFFF000 else cpu_ver) in (v, v))"

definition danube_machine_restart :: "u32 \<times> bool \<Rightarrow> u32 \<times> bool" where
  "danube_machine_restart r = (case r of (rcu_req, irqs_on) \<Rightarrow> (rcu_req OR 0x40000000, False))"

lemma clock_bounds:
  "danube_get_fpi_hz c \<le> danube_get_ddr_hz c" "danube_get_fpi_hz c \<le> danube_get_cpu_hz c"
  "danube_get_cpu_hz c \<le> 333333333" "83333333 \<le> danube_get_cpu_hz c"
  by (simp_all add: danube_get_fpi_hz_def danube_get_cpu_hz_def danube_get_ddr_hz_def Let_def)

text \<open>A timer interrupt every \<open>r4k_offset\<close> counts gives \<open>HZ\<close> of them in a second, up to less than one count each.\<close>

lemma tick_rate:
  assumes "danube_time_init c = (f, off)"
  shows "100 * unat off \<le> unat f \<and> unat f < 100 * unat off + 100 \<and> 0 < off"
proof -
  have f: "41666666 \<le> unat f" "off = f div 100"
    using assms unfolding danube_time_init_def danube_get_cpu_hz_def danube_get_ddr_hz_def Let_def
    by (auto split: if_splits)
  have "unat off = unat f div 100" using f(2) by (simp add: unat_div)
  then show ?thesis using f(1) by (auto simp: word_less_nat_alt)
qed

section \<open>Copying the arguments\<close>

text \<open>The arguments, each followed by a space.\<close>

definition joined :: "string list \<Rightarrow> string" where
  "joined as = concat (map (\<lambda>a. a @ '' '') as)"

lemma joined_simps [simp]: "joined [] = []" "joined (a # as) = a @ CHR '' '' # joined as"
  by (simp_all add: joined_def)

definition last_len :: "string list \<Rightarrow> nat" where
  "last_len as = (if as = [] then 0 else length (last as))"

text \<open>The array holds the text \<open>d\<close> and zeros behind it.\<close>

definition cl_holds :: "cl_copy \<Rightarrow> string \<Rightarrow> bool" where
  "cl_holds c d \<longleftrightarrow> cl_buf c = d @ replicate (256 - length d) NUL \<and> cl_dest c = length d
     \<and> cl_left c = 255 - int (length d) \<and> length d < 255"

lemma store_at_end:
  "length d + length xs \<le> 256 \<Longrightarrow>
     store_bytes (d @ replicate (256 - length d) NUL) (length d) xs
       = Some ((d @ xs) @ replicate (256 - length (d @ xs)) NUL)"
  by (simp add: store_bytes_def)

lemma store_NUL_at_end:
  "length d + length xs < 256 \<Longrightarrow>
     store_bytes (d @ replicate (256 - length d) NUL) (length d) (xs @ [NUL])
       = Some ((d @ xs) @ replicate (256 - length (d @ xs)) NUL)"
  by (simp add: store_bytes_def replicate_Suc [symmetric] Suc_diff_Suc del: replicate_Suc)

lemma copy_arg_fits:
  assumes c: "cl_holds c d" and a: "NUL \<notin> set a" "length d + length a + 1 < 255"
  shows "copy_arg a c = Some (c\<lparr>cl_buf := (d @ a @ '' '') @ replicate (256 - length (d @ a @ '' '')) NUL,
       cl_dest := length (d @ a @ '' ''), cl_left := 255 - int (length (d @ a @ '' '')), cl_len := length a,
       cl_mem := cl_mem c \<or> is_prefix ''mem='' a, cl_entry := cl_entry c \<or> is_prefix ''cpu1_entry='' a\<rparr>, True)"
proof -
  let ?b = "(d @ a) @ replicate (256 - length (d @ a)) NUL"
  have n: "nat (cl_left c) = 255 - length d" using c by (simp add: cl_holds_def)
  have t: "take (255 - length d) (a @ [NUL]) = a @ [NUL]" using a by simp
  have 1: "strncpy (cl_buf c) (cl_dest c) a (nat (cl_left c)) = Some ?b"
    using c a store_NUL_at_end [of d a] unfolding n strncpy_def t by (simp add: cl_holds_def)
  have z: "replicate (256 - length (d @ a)) NUL = NUL # replicate (255 - length (d @ a)) NUL"
    using a by (simp add: replicate_Suc [symmetric] Suc_diff_le del: replicate_Suc)
  have 2: "c_string (drop (cl_dest c) ?b) = a" unfolding z using c a by (simp add: cl_holds_def c_string_append)
  have 3: "store_bytes ?b (cl_dest c + length a) '' ''
      = Some (((d @ a) @ '' '') @ replicate (256 - length ((d @ a) @ '' '')) NUL)"
    using store_at_end [of "d @ a" "'' ''"] c a by (simp add: cl_holds_def)
  have 4: "cl_left c - (int (length a) + 1) = 255 - int (length (d @ a @ '' ''))"
    "cl_dest c + length a + 1 = length (d @ a @ '' '')" using c by (simp_all add: cl_holds_def)
  show ?thesis unfolding copy_arg_def 1 option.case Let_def 2 3 4 using a by simp
qed

lemma copy_args_fit:
  assumes "cl_holds c d" and "\<forall>a\<in>set as. NUL \<notin> set a" and "length d + length (joined as) < 255"
  shows "\<exists>c1. copy_args (map Some as) c = Some (c1, True) \<and> cl_holds c1 (d @ joined as)
    \<and> cl_len c1 = (if as = [] then cl_len c else last_len as)
    \<and> cl_mem c1 = (cl_mem c \<or> (\<exists>a\<in>set as. is_prefix ''mem='' a))
    \<and> cl_entry c1 = (cl_entry c \<or> (\<exists>a\<in>set as. is_prefix ''cpu1_entry='' a))"
  using assms
proof (induction as arbitrary: c d)
  case (Cons a as)
  let ?d = "d @ a @ '' ''"
  have a: "NUL \<notin> set a" "length d + length a + 1 < 255" using Cons.prems by auto
  obtain c1 where c1: "copy_arg a c = Some (c1, True)" "cl_holds c1 ?d" "cl_len c1 = length a"
    "cl_mem c1 = (cl_mem c \<or> is_prefix ''mem='' a)" "cl_entry c1 = (cl_entry c \<or> is_prefix ''cpu1_entry='' a)"
    by (intro that [OF copy_arg_fits [OF Cons.prems(1) a]]) (use a in \<open>simp_all add: cl_holds_def\<close>)
  from Cons.IH [OF c1(2)] Cons.prems obtain c2 where
    "copy_args (map Some as) c1 = Some (c2, True)" "cl_holds c2 (?d @ joined as)"
    "cl_len c2 = (if as = [] then cl_len c1 else last_len as)"
    "cl_mem c2 = (cl_mem c1 \<or> (\<exists>a\<in>set as. is_prefix ''mem='' a))"
    "cl_entry c2 = (cl_entry c1 \<or> (\<exists>a\<in>set as. is_prefix ''cpu1_entry='' a))" by auto
  then show ?case using c1 by (auto simp: last_len_def)
qed simp

text \<open>A board before its boot code runs.\<close>

definition fresh_board :: "board \<Rightarrow> bool" where
  "fresh_board s \<longleftrightarrow> arcs_cmdline s = replicate 256 NUL \<and> \<not> got_mem s \<and> \<not> got_cpu1_entry s
     \<and> danube_cp1_base s = 0 \<and> boot_mem_map s = [] \<and> length (args_cmdline (arguments s)) = 256"

text \<open>The result of the loop, and the write behind it: the zero byte misses the array when the text and its last argument
  together reach its size.\<close>

lemma command_line_fits:
  assumes s: "fresh_board s" and as: "\<forall>a\<in>set as. NUL \<notin> set a" "length (joined as) < 255"
  shows "if length (joined as) + last_len as < 256
    then \<exists>c. command_line (a0 # map Some as) s = Inr c \<and> cl_holds c (joined as)
      \<and> cl_mem c = (\<exists>a\<in>set as. is_prefix ''mem='' a) \<and> cl_entry c = (\<exists>a\<in>set as. is_prefix ''cpu1_entry='' a)
    else command_line (a0 # map Some as) s = Inl Cmdline_overrun"
proof -
  let ?c = "\<lparr>cl_buf = arcs_cmdline s, cl_dest = 0, cl_left = int CL_SIZE - 1, cl_len = 0,
    cl_mem = got_mem s, cl_entry = got_cpu1_entry s\<rparr>"
  have h: "cl_holds ?c []" using s by (simp add: cl_holds_def fresh_board_def CL_SIZE_def)
  have len: "length ([] :: string) + length (joined as) < 255" using as(2) by simp
  from copy_args_fit [OF h as(1) len] obtain c where c: "copy_args (map Some as) ?c = Some (c, True)"
    "cl_holds c (joined as)" "cl_len c = last_len as" "cl_mem c = (\<exists>a\<in>set as. is_prefix ''mem='' a)"
    "cl_entry c = (\<exists>a\<in>set as. is_prefix ''cpu1_entry='' a)"
    using s by (auto simp: fresh_board_def last_len_def split: if_splits)
  let ?n = "length (joined as)"
  have l: "cl_left c > 0" "cl_dest c = ?n" "cl_buf c = joined as @ replicate (256 - ?n) NUL"
    using c(2) by (simp_all add: cl_holds_def)
  show ?thesis
  proof (cases "?n + last_len as < 256")
    case True
    have st: "store_bytes (cl_buf c) (cl_dest c + cl_len c) [NUL] = Some (cl_buf c)"
    proof -
      have "store_bytes (cl_buf c) (cl_dest c + cl_len c) [NUL]
          = Some (joined as @ replicate (last_len as) NUL @ NUL # replicate (256 - (?n + last_len as + 1)) NUL)"
        using True by (simp add: l c(3) store_bytes_def)
      also have "replicate (last_len as) NUL @ NUL # replicate (256 - (?n + last_len as + 1)) NUL
          = replicate (256 - ?n) NUL"
        using True by (simp add: replicate_Suc [symmetric] replicate_add [symmetric] Suc_diff_Suc del: replicate_Suc)
      finally show ?thesis by (simp add: l)
    qed
    have "command_line (a0 # map Some as) s = Inr c" by (simp add: command_line_def c(1) l(1) st)
    then show ?thesis using True c by simp
  next
    case False
    then have st: "store_bytes (cl_buf c) (cl_dest c + cl_len c) [NUL] = None"
      using as(2) by (simp add: l c(3) store_bytes_def)
    then show ?thesis using False by (simp add: command_line_def c(1) l(1) st)
  qed
qed

section \<open>Appending the memory size\<close>

definition filled :: "string \<Rightarrow> char list" where
  "filled d = d @ replicate (256 - length d) NUL"

lemma filled_store: "length d + length xs < 256 \<Longrightarrow> store_bytes (filled d) (length d) (xs @ [NUL]) = Some (filled (d @ xs))"
  using store_NUL_at_end [of d xs] by (simp add: filled_def)

lemma filled_store_plain: "length d + length xs \<le> 256 \<Longrightarrow> store_bytes (filled d) (length d) xs = Some (filled (d @ xs))"
  using store_at_end [of d xs] by (simp add: filled_def)

lemma c_string_NULs: "c_string (replicate n NUL) = []"
  by (cases n) (simp_all add: c_string_def NUL_def)

lemma c_string_filled: "NUL \<notin> set d \<Longrightarrow> c_string (filled d) = d"
  using c_string_append [of d] by (cases "256 - length d") (auto simp: filled_def c_string_def NUL_def takeWhile_eq_all_conv)

lemma filled_strcat: "length d + length xs < 256 \<Longrightarrow> strcat (filled d) (length d) xs = Some (filled (d @ xs))"
  by (simp add: strcat_def filled_store c_string_NULs) (simp add: filled_def c_string_NULs filled_store [unfolded filled_def])

lemma append_mem_52:
  assumes c: "cl_holds c d" and m: "\<not> cl_mem c" and r: "length d < 247"
  shows "append_mem 52 c = Some (c\<lparr>cl_buf := filled (d @ '' mem=52M''), cl_mem := True\<rparr>)"
proof -
  have b: "cl_buf c = filled d" "cl_dest c = length d" "cl_left c > 8" "nat (cl_left c) - 6 \<ge> 2"
    using c r by (simp_all add: cl_holds_def filled_def)
  have n: "radix 10 52 = ''52''"
    by (simp add: radix.simps [of 10 52] radix.simps [of 10 5] digit_char_def char_of_def bit_iff_odd)
  have 1: "store_bytes (filled d) (length d) '' '' = Some (filled (d @ '' ''))"
    using r by (simp add: filled_store_plain)
  have 2: "strcat (filled (d @ '' '')) (length d + 1) ''mem='' = Some (filled (d @ '' mem=''))"
    using filled_strcat [of "d @ '' ''" "''mem=''"] r by simp
  have 3: "store_bytes (filled (d @ '' mem='')) (length d + 5) (''52'' @ [NUL]) = Some (filled (d @ '' mem=52''))"
    using filled_store [of "d @ '' mem=''" "''52''"] r by (simp add: numeral_eq_Suc)
  have 4: "strcat (filled (d @ '' mem=52'')) (length d + 7) ''M'' = Some (filled (d @ '' mem=52M''))"
    using filled_strcat [of "d @ '' mem=52''" "''M''"] r by (simp add: numeral_eq_Suc)
  have t: "take (nat (cl_left c) - 6) ''52'' = ''52''" using b(4) by simp
  show ?thesis using m b(3) 1 2 3 4 unfolding append_mem_def b n t by (simp add: add.commute)
qed

section \<open>Reading the memory regions\<close>

lemma prefix_word: "is_prefix p (a @ x # r) \<Longrightarrow> x \<notin> set p \<Longrightarrow> is_prefix p a"
  by (induction p a rule: is_prefix.induct) auto

text \<open>A word that is no option is copied with the space behind it.\<close>

lemma mem_loop_word:
  assumes "CHR '' '' \<notin> set a" and "\<not> (c = CHR '' '' \<and> is_prefix ''mem='' a)" and "mp_len p + length a + 1 < 256"
  shows "mem_loop c (a @ CHR '' '' # r) p
    = mem_loop (CHR '' '') r (p\<lparr>mp_len := mp_len p + length a + 1, mp_to := mp_to p @ a @ '' ''\<rparr>)"
  using assms
proof (induction a arbitrary: c p)
  case Nil
  then show ?case by (subst mem_loop.simps) (simp add: CL_SIZE_def)
next
  case (Cons x xs)
  have "\<not> (c = CHR '' '' \<and> is_prefix ''mem='' ((x # xs) @ CHR '' '' # r))"
    using Cons.prems(2) prefix_word [of "''mem=''" "x # xs" "CHR '' ''" r] by auto
  then have "mem_loop c ((x # xs) @ CHR '' '' # r) p
      = mem_loop x (xs @ CHR '' '' # r) (p\<lparr>mp_len := mp_len p + 1, mp_to := mp_to p @ [x]\<rparr>)"
    using Cons.prems(3) by (subst mem_loop.simps) (auto simp: CL_SIZE_def)
  also have "\<dots> = mem_loop (CHR '' '') r (p\<lparr>mp_len := mp_len p + length (x # xs) + 1, mp_to := mp_to p @ (x # xs) @ '' ''\<rparr>)"
    using Cons.IH [of x "p\<lparr>mp_len := mp_len p + 1, mp_to := mp_to p @ [x]\<rparr>"] Cons.prems by auto
  finally show ?case .
qed

definition plain_word :: "string \<Rightarrow> bool" where
  "plain_word a \<longleftrightarrow> NUL \<notin> set a \<and> CHR '' '' \<notin> set a \<and> \<not> is_prefix ''mem='' a"

lemma mem_loop_words:
  assumes "list_all plain_word as" and "mp_len p + length (joined as) < 256"
  shows "mem_loop (CHR '' '') (joined as @ r) p
    = mem_loop (CHR '' '') r (p\<lparr>mp_len := mp_len p + length (joined as), mp_to := mp_to p @ joined as\<rparr>)"
  using assms
proof (induction as arbitrary: p)
  case (Cons a as)
  have "mem_loop (CHR '' '') (joined (a # as) @ r) p = mem_loop (CHR '' '') (joined as @ r)
      (p\<lparr>mp_len := mp_len p + length a + 1, mp_to := mp_to p @ a @ '' ''\<rparr>)"
    using mem_loop_word [of a "CHR '' ''" p "joined as @ r"] Cons.prems by (simp add: plain_word_def)
  also have "\<dots> = mem_loop (CHR '' '') r
      (p\<lparr>mp_len := mp_len p + length (joined (a # as)), mp_to := mp_to p @ joined (a # as)\<rparr>)"
    using Cons.IH [of "p\<lparr>mp_len := mp_len p + length a + 1, mp_to := mp_to p @ a @ '' ''\<rparr>"] Cons.prems
    by (simp add: add.assoc)
  finally show ?case .
qed simp

text \<open>An option at the end of the line replaces the map by its region.\<close>

lemma parse_words_option:
  assumes w: "list_all plain_word as" "length (joined as) < 256"
    and o: "mem_option (''mem='' @ t) \<lparr>mp_to = joined as, mp_len = length (joined as), mp_user = False, mp_board = s\<rparr>
      = ([], p)"
  shows "parse_mem_cmdline (joined as @ ''mem='' @ t) s = (mp_to p, mp_board p)"
proof -
  have "mem_loop (CHR '' '') (''mem='' @ t)
      \<lparr>mp_to = joined as, mp_len = length (joined as), mp_user = False, mp_board = s\<rparr> = p"
    using o by (subst mem_loop.simps) simp
  then show ?thesis using mem_loop_words [OF w(1), of "\<lparr>mp_to = [], mp_len = 0, mp_user = False, mp_board = s\<rparr>"] w(2)
    by (simp add: parse_mem_cmdline_def)
qed

section \<open>The environment\<close>

text \<open>The variables of the environment leave everything alone but the entry of core 1 and its arguments.\<close>

lemma env_entry_frame:
  "boot_mem_map (fst (env_entry e p)) = boot_mem_map (fst p)"
  "args_cmdline (arguments (fst (env_entry e p))) = args_cmdline (arguments (fst p))"
  by (auto simp: env_entry_def Let_def)

lemma fold_env_frame:
  "boot_mem_map (fst (fold env_entry es p)) = boot_mem_map (fst p)"
  "args_cmdline (arguments (fst (fold env_entry es p))) = args_cmdline (arguments (fst p))"
  by (induction es arbitrary: p) (simp_all add: env_entry_frame)

definition entry_of :: "board \<Rightarrow> u32 \<times> u32" where
  "entry_of s = (danube_cp1_base s, cpu1_entry (arguments s))"

lemma env_entry_of:
  "entry_of (fst (env_entry e p)) = (if is_prefix ''cpu1_entry='' e
     then (fst (simple_strtoul (drop 11 e)), fst (simple_strtoul (drop 11 e))) else entry_of (fst p))"
  by (auto simp: env_entry_def Let_def entry_of_def is_prefix_iff)

lemma fold_env_other:
  "\<forall>e\<in>set es. \<not> is_prefix ''cpu1_entry='' e \<Longrightarrow> entry_of (fst (fold env_entry es p)) = entry_of (fst p)"
  by (induction es arbitrary: p) (simp_all add: env_entry_of)

section \<open>Start of core 0\<close>

lemma fake_length: "length fake2cpu1_cmdline = 49"
  by (simp add: fake2cpu1_cmdline_def)

lemma pass_cmdline_ok:
  assumes "length (args_cmdline a) = 256"
  shows "\<exists>b. pass_cmdline a = Some (a\<lparr>arg_argc := length fake2cpu1_cmdline, args_cmdline := b\<rparr>) \<and> length b = 256"
proof -
  obtain b where b: "strncpy (args_cmdline a) 0 fake2cpu1_cmdline (length fake2cpu1_cmdline) = Some b" "length b = 256"
    using assms by (simp add: strncpy_def store_bytes_def fake_length)
  then obtain b1 where "store_bytes b (length fake2cpu1_cmdline) [NUL] = Some b1" "length b1 = 256"
    by (simp add: store_bytes_def fake_length)
  with b(1) show ?thesis by (intro exI [of _ b1]) (simp add: pass_cmdline_def Let_def)
qed

definition envs :: "string list option \<Rightarrow> string list" where
  "envs envp = (case envp of None \<Rightarrow> [] | Some es \<Rightarrow> es)"

lemma prom_init_ok:
  assumes s: "fresh_board s" and as: "list_all plain_word as" "length (joined as) < 247"
    "length (joined as) + last_len as < 256"
  obtains t b v where "prom_init (a0 # map Some as) envp s = Inr t"
    "arcs_cmdline t = filled (joined as @ '' mem=52M'')" "boot_mem_map t = []" "length (args_cmdline (arguments t)) = 256"
    "entry_of t = (let e = entry_of (fst (fold env_entry (envs envp)
         (s\<lparr>arguments := (arguments s)\<lparr>arg_argc := length fake2cpu1_cmdline, args_cmdline := b\<rparr>\<rparr>, v)))
       in if fst e = 0 then (0xA3400000, snd e) else e)"
proof -
  have n: "\<forall>a\<in>set as. NUL \<notin> set a" "\<not> (\<exists>a\<in>set as. is_prefix ''mem='' a)"
    using as(1) by (auto simp: plain_word_def list_all_iff)
  have l255: "length (joined as) < 255" using as(2) by simp
  from command_line_fits [OF s n(1) l255, of a0] as(3) n(2) obtain c where
    c: "command_line (a0 # map Some as) s = Inr c" "cl_holds c (joined as)" "\<not> cl_mem c" by auto
  obtain b where b: "pass_cmdline (arguments s) = Some ((arguments s)\<lparr>arg_argc := length fake2cpu1_cmdline, args_cmdline := b\<rparr>)"
    "length b = 256" using pass_cmdline_ok s by (metis fresh_board_def)
  let ?v = "\<lparr>env_rdstart = 0, env_rdsize = 0\<rparr>"
  let ?s = "s\<lparr>arguments := (arguments s)\<lparr>arg_argc := length fake2cpu1_cmdline, args_cmdline := b\<rparr>\<rparr>"
  obtain s1 v1 where f: "fold env_entry (envs envp) (?s, ?v) = (s1, v1)"
    by (cases "fold env_entry (envs envp) (?s, ?v)")
  have fr: "boot_mem_map s1 = []" "args_cmdline (arguments s1) = b"
    using fold_env_frame [of "envs envp" "(?s, ?v)"] f s by (simp_all add: fresh_board_def)
  define t where "t = (let
      s2 = (if danube_cp1_base s1 = 0 then s1\<lparr>danube_cp1_base := 0xA3400000\<rparr> else s1);
      s3 = s2\<lparr>arcs_cmdline := filled (joined as @ '' mem=52M''), got_mem := True, got_cpu1_entry := cl_entry c\<rparr>;
      s4 = (if env_rdstart v1 \<noteq> 0 \<and> env_rdsize v1 \<noteq> 0
            then s3\<lparr>initrd_start := env_rdstart v1, initrd_end := env_rdstart v1 + env_rdsize v1\<rparr> else s3)
      in s4\<lparr>mips_machgroup := MACH_GROUP_DANUBE, ioport_resource := (0, 0xFFFFFFFF)\<rparr>)"
  have "prom_init (a0 # map Some as) envp s = Inr t"
    using c(1) b(1) f append_mem_52 [OF c(2,3) as(2)] by (simp add: prom_init_def envs_def Let_def t_def)
  then show thesis
    by (rule that [of t b ?v]) (use fr b(2) f in \<open>simp_all add: t_def Let_def entry_of_def\<close>)
qed

lemma joined_chars: "list_all plain_word as \<Longrightarrow> NUL \<notin> set (joined as)"
  by (induction as) (auto simp: plain_word_def NUL_def)

lemma memparse_52M: "memparse ''52M'' = (0x3400000, [])"
  by code_simp

lemma memparse_12M_at: "memparse ''12M@52M'' = (0xC00000, ''@52M'')"
  by code_simp

lemma c_string_filled_line:
  assumes "NUL \<notin> set d" "length d < 255"
  shows "c_string (take 255 (filled d)) = d"
proof -
  obtain k where "255 - length d = Suc k" using assms(2) by (cases "255 - length d") auto
  then have "take 255 (filled d) = d @ NUL # replicate k NUL" by (simp add: filled_def min_def)
  then show ?thesis using c_string_append [OF assms(1)] by simp
qed

section \<open>Both cores\<close>

definition ram :: "u32 \<Rightarrow> u32 \<Rightarrow> boot_mem" where
  "ram a n = \<lparr>mem_addr = a, mem_size = n, mem_type = BOOT_MEM_RAM\<rparr>"

lemma setup_core0:
  assumes t: "arcs_cmdline t = filled (joined as @ '' mem=52M'')"
    and as: "list_all plain_word as" "length (joined as) < 247"
  shows "setup_arch t = (joined as, t\<lparr>boot_mem_map := [ram 0 0x3400000]\<rparr>)"
proof -
  let ?d = "joined as @ '' mem=52M''" and ?as = "as @ [[]]"
  have c: "c_string (take 255 (filled ?d)) = ?d"
    by (rule c_string_filled_line) (use as joined_chars [OF as(1)] in \<open>simp_all add: NUL_def\<close>)
  have w: "list_all plain_word ?as" "length (joined ?as) < 256"
    using as by (simp_all add: plain_word_def joined_def)
  have "mem_option (''mem='' @ ''52M'')
      \<lparr>mp_to = joined ?as, mp_len = length (joined ?as), mp_user = False, mp_board = t\<rparr>
    = ([], \<lparr>mp_to = joined as, mp_len = length (joined ?as), mp_user = True,
        mp_board = t\<lparr>boot_mem_map := [ram 0 0x3400000]\<rparr>\<rparr>)"
    by (simp add: mem_option_def Let_def memparse_52M add_memory_region_def BOOT_MEM_MAP_MAX_def ram_def joined_def)
  from parse_words_option [OF w this] c t show ?thesis by (simp add: setup_arch_def CL_SIZE_def joined_def)
qed

lemma core1_words: "fake2cpu1_cmdline = joined [''root=/dev/ram'', ''rw'', ''console=ttyS1,115200''] @ ''mem='' @ ''12M@52M''"
  by (simp add: fake2cpu1_cmdline_def)

lemma prom1_init_ok:
  assumes s: "arcs_cmdline s = replicate 256 NUL" "length (args_cmdline (arguments s)) = 256" "boot_mem_map s = []"
  obtains t where "prom1_init s = Inr t" "arcs_cmdline t = filled fake2cpu1_cmdline" "length (boot_mem_map t) = 1"
    "danube_cp1_base t = cpu1_entry (arguments s)"
proof -
  obtain b where b: "store_bytes (args_cmdline (arguments s)) (length fake2cpu1_cmdline) [NUL] = Some b"
    using s(2) by (simp add: store_bytes_def fake_length)
  have e: "arcs_cmdline s = filled []" using s(1) by (simp add: filled_def)
  have 1: "strncpy (arcs_cmdline s) 0 fake2cpu1_cmdline (length fake2cpu1_cmdline) = Some (filled fake2cpu1_cmdline)"
    unfolding e strncpy_def using filled_store_plain [of "[]" fake2cpu1_cmdline] by (simp add: fake_length)
  have 2: "store_bytes (filled fake2cpu1_cmdline) (length fake2cpu1_cmdline) [NUL] = Some (filled fake2cpu1_cmdline)"
    using filled_store [of fake2cpu1_cmdline "[]"] by (simp add: fake_length)
  define t where "t = add_memory_region 0 0x4000000 BOOT_MEM_RAM
     (s\<lparr>arguments := (arguments s)\<lparr>arg_argc := length fake2cpu1_cmdline, args_cmdline := b\<rparr>,
        arcs_cmdline := filled fake2cpu1_cmdline, danube_cp1_base := cpu1_entry (arguments s),
        mips_machgroup := MACH_GROUP_DANUBE, ioport_resource := (0, 0xFFFFFFFF)\<rparr>)"
  have "prom1_init s = Inr t" unfolding prom1_init_def Let_def b 1 option.case 2 t_def ..
  then show thesis
    by (rule that) (use s(3) in \<open>simp_all add: t_def add_memory_region_def BOOT_MEM_MAP_MAX_def\<close>)
qed

lemma setup_core1:
  assumes t: "arcs_cmdline t = filled fake2cpu1_cmdline"
  shows "setup_arch t = (''root=/dev/ram rw console=ttyS1,115200'', t\<lparr>boot_mem_map := [ram 0x3400000 0xC00000]\<rparr>)"
proof -
  let ?ws = "[''root=/dev/ram'', ''rw'', ''console=ttyS1,115200'']"
  have c: "c_string (take 255 (filled fake2cpu1_cmdline)) = fake2cpu1_cmdline"
    by (rule c_string_filled_line) (simp_all add: NUL_def fake2cpu1_cmdline_def)
  have w: "list_all plain_word ?ws" "length (joined ?ws) < 256" by (simp_all add: plain_word_def NUL_def)
  have "mem_option (''mem='' @ ''12M@52M'')
      \<lparr>mp_to = joined ?ws, mp_len = length (joined ?ws), mp_user = False, mp_board = t\<rparr>
    = ([], \<lparr>mp_to = butlast (joined ?ws), mp_len = length (joined ?ws), mp_user = True,
        mp_board = t\<lparr>boot_mem_map := [ram 0x3400000 0xC00000]\<rparr>\<rparr>)"
    using memparse_12M_at memparse_52M
    by (simp add: mem_option_def Let_def add_memory_region_def BOOT_MEM_MAP_MAX_def ram_def)
  from parse_words_option [OF w this] c t core1_words show ?thesis by (simp add: setup_arch_def CL_SIZE_def)
qed

text \<open>C5: The memory of the chip is divided between the cores: whatever words without a memory option the boot loader passes to core 0, with
  whatever environment, as long as they fit, both cores start, the kernel of core 0 finds the 52 MB from address 0
  as its only memory and the kernel of core 1 the 12 MB behind them, and the memory option is removed from
  the line that the kernel parses further.\<close>

theorem cores_split_memory:
  assumes s0: "fresh_board s0" and s1: "fresh_board s1"
    and as: "list_all plain_word as" "length (joined as) < 247" "length (joined as) + last_len as < 256"
  shows "\<exists>t0 t1. init_arch 0 (a0 # map Some as) envp s0 = Inr t0
    \<and> init_arch 1 argv1 envp1 (s1\<lparr>arguments := arguments t0\<rparr>) = Inr t1
    \<and> setup_arch t0 = (joined as, t0\<lparr>boot_mem_map := [ram 0 (52 * 2 ^ 20)]\<rparr>)
    \<and> setup_arch t1 = (''root=/dev/ram rw console=ttyS1,115200'', t1\<lparr>boot_mem_map := [ram (52 * 2 ^ 20) (12 * 2 ^ 20)]\<rparr>)"
proof -
  obtain t where t: "prom_init (a0 # map Some as) envp s0 = Inr t" "arcs_cmdline t = filled (joined as @ '' mem=52M'')"
    "length (args_cmdline (arguments t)) = 256" by (rule prom_init_ok [OF s0 as])
  define t0 where "t0 = (if danube_cp1_base t \<noteq> 0
    then t\<lparr>mbx_area_cleared := True, mps_tpe_cpu1_entry_base := danube_cp1_base t\<rparr> else t)"
  have 0: "init_arch 0 (a0 # map Some as) envp s0 = Inr t0" using t(1) by (simp add: init_arch_def t0_def)
  have t0: "arcs_cmdline t0 = filled (joined as @ '' mem=52M'')" "length (args_cmdline (arguments t0)) = 256"
    using t by (simp_all add: t0_def)
  let ?s = "s1\<lparr>arguments := arguments t0\<rparr>"
  have h: "arcs_cmdline ?s = replicate 256 NUL" "length (args_cmdline (arguments ?s)) = 256" "boot_mem_map ?s = []"
    using s1 t0(2) by (simp_all add: fresh_board_def)
  obtain t1 where t1: "prom1_init ?s = Inr t1" "arcs_cmdline t1 = filled fake2cpu1_cmdline"
    by (rule prom1_init_ok [OF h])
  from 0 t1 setup_core0 [OF t0(1) as(1,2)] setup_core1 [OF t1(2)] show ?thesis by (auto simp: init_arch_def)
qed

definition demo_board :: board where
  "demo_board = \<lparr>arcs_cmdline = replicate 256 NUL, got_mem = False, got_cpu1_entry = False, danube_cp1_base = 0,
     mps_tpe_cpu1_entry_base = 0,
     arguments = \<lparr>memsize = 0, cpu1_entry = 0x12345678, arg_argc = 0, args_cmdline = replicate 256 (CHR ''?'')\<rparr>,
     initrd_start = 0, initrd_end = 0, boot_mem_map = [], mips_machgroup = 0, ioport_resource = (0, 0),
     mbx_area_cleared = False\<rparr>"

lemma demo_board_fresh: "fresh_board demo_board"
  by (simp add: fresh_board_def demo_board_def)

theorem cores_split_memory_witness:
  "\<exists>t0 t1. init_arch 0 [Some ''<ignored>'', Some ''root=/dev/mtdblock2'', Some ''console=ttyS0,115200''] None demo_board = Inr t0
    \<and> init_arch 1 [] None (demo_board\<lparr>arguments := arguments t0\<rparr>) = Inr t1
    \<and> boot_mem_map (snd (setup_arch t0)) = [ram 0 (52 * 2 ^ 20)]
    \<and> boot_mem_map (snd (setup_arch t1)) = [ram (52 * 2 ^ 20) (12 * 2 ^ 20)]"
proof -
  let ?as = "[''root=/dev/mtdblock2'', ''console=ttyS0,115200'']"
  have "list_all plain_word ?as" "length (joined ?as) < 247" "length (joined ?as) + last_len ?as < 256"
    by (simp_all add: plain_word_def NUL_def last_len_def)
  from cores_split_memory [OF demo_board_fresh demo_board_fresh this, of "Some ''<ignored>''" None "[]" None]
  obtain t0 t1 where t: "init_arch 0 (Some ''<ignored>'' # map Some ?as) None demo_board = Inr t0"
    "init_arch 1 [] None (demo_board\<lparr>arguments := arguments t0\<rparr>) = Inr t1"
    "setup_arch t0 = (joined ?as, t0\<lparr>boot_mem_map := [ram 0 (52 * 2 ^ 20)]\<rparr>)"
    "setup_arch t1 = (''root=/dev/ram rw console=ttyS1,115200'', t1\<lparr>boot_mem_map := [ram (52 * 2 ^ 20) (12 * 2 ^ 20)]\<rparr>)"
    by blast
  show ?thesis by (intro exI [of _ t0] exI [of _ t1]) (use t in simp)
qed

text \<open>The entry address of core 1 that the boot loader gives in hexadecimal reaches both users: core 0 keeps it for the release of
  core 1, and core 1 reads the same address from the arguments left in its memory.\<close>

theorem entry_address_round_trip:
  assumes s0: "fresh_board s0" and s1: "fresh_board s1"
    and as: "list_all plain_word as" "length (joined as) < 247" "length (joined as) + last_len as < 256"
    and env: "es = before @ (''cpu1_entry=0x'' @ radix 16 n) # after" "0 < n" "n < 2 ^ 32"
      "\<forall>e\<in>set after. \<not> is_prefix ''cpu1_entry='' e"
  shows "\<exists>t0 t1. init_arch 0 (a0 # map Some as) (Some es) s0 = Inr t0
    \<and> init_arch 1 argv1 envp1 (s1\<lparr>arguments := arguments t0\<rparr>) = Inr t1
    \<and> mps_tpe_cpu1_entry_base t0 = of_nat n \<and> danube_cp1_base t1 = of_nat n"
proof -
  have nz: "(of_nat n :: u32) \<noteq> 0" using env(2,3) by (simp add: of_nat_eq_0_iff_u32)
  have "drop 11 (''cpu1_entry=0x'' @ radix 16 n) = ''0x'' @ radix 16 n @ []" by simp
  then have v: "fst (simple_strtoul (drop 11 (''cpu1_entry=0x'' @ radix 16 n))) = of_nat n"
    using strtoul_hex [of "[]" n] by (simp only:) simp
  have e: "entry_of (fst (fold env_entry es p)) = (of_nat n, of_nat n)" for p
    using fold_env_other [OF env(4)] v by (simp add: env(1) env_entry_of)
  obtain t where t: "prom_init (a0 # map Some as) (Some es) s0 = Inr t" "entry_of t = (of_nat n, of_nat n)"
    "length (args_cmdline (arguments t)) = 256"
    by (rule prom_init_ok [OF s0 as, where ?a0.0 = a0 and envp = "Some es"]) (use e nz in \<open>simp add: envs_def Let_def\<close>)
  let ?t0 = "t\<lparr>mbx_area_cleared := True, mps_tpe_cpu1_entry_base := danube_cp1_base t\<rparr>"
  have 0: "init_arch 0 (a0 # map Some as) (Some es) s0 = Inr ?t0"
    using t(1,2) nz by (simp add: init_arch_def entry_of_def)
  let ?s = "s1\<lparr>arguments := arguments ?t0\<rparr>"
  have h: "arcs_cmdline ?s = replicate 256 NUL" "length (args_cmdline (arguments ?s)) = 256" "boot_mem_map ?s = []"
    using s1 t(3) by (simp_all add: fresh_board_def)
  obtain t1 where t1: "prom1_init ?s = Inr t1" "danube_cp1_base t1 = cpu1_entry (arguments ?s)"
    by (rule prom1_init_ok [OF h])
  have "mps_tpe_cpu1_entry_base ?t0 = of_nat n" "danube_cp1_base t1 = of_nat n"
    using t(2) t1(2) by (simp_all add: entry_of_def)
  with 0 t1(1) show ?thesis by (intro exI [of _ ?t0] exI [of _ t1]) (simp add: init_arch_def)
qed

theorem entry_address_round_trip_witness:
  "\<exists>t0 t1. init_arch 0 [None, Some ''rw''] (Some [''memsize=64'', ''cpu1_entry=0x'' @ radix 16 0xA3402000]) demo_board = Inr t0
    \<and> init_arch 1 [] None (demo_board\<lparr>arguments := arguments t0\<rparr>) = Inr t1
    \<and> mps_tpe_cpu1_entry_base t0 = 0xA3402000 \<and> danube_cp1_base t1 = 0xA3402000"
proof -
  have "list_all plain_word [''rw'']" "length (joined [''rw'']) < 247" "length (joined [''rw'']) + last_len [''rw''] < 256"
    by (simp_all add: plain_word_def NUL_def last_len_def)
  from entry_address_round_trip [OF demo_board_fresh demo_board_fresh this,
      of _ "[''memsize=64'']" "0xA3402000" "[]" None "[]" None, OF refl]
  show ?thesis by simp
qed

text \<open>Without such a variable core 0 releases core 1 at the start of its memory, but leaves no entry address for it: core 1 keeps
  what the memory held before.\<close>

lemma default_entry_not_passed:
  assumes s0: "fresh_board s0" and as: "list_all plain_word as" "length (joined as) < 247"
    "length (joined as) + last_len as < 256" and env: "\<forall>e\<in>set (envs envp). \<not> is_prefix ''cpu1_entry='' e"
  shows "\<exists>t0. init_arch 0 (a0 # map Some as) envp s0 = Inr t0 \<and> mps_tpe_cpu1_entry_base t0 = CPU1_BASE_ADDR
    \<and> cpu1_entry (arguments t0) = cpu1_entry (arguments s0)"
proof -
  have "entry_of (s0\<lparr>arguments := (arguments s0)\<lparr>arg_argc := k, args_cmdline := b\<rparr>\<rparr>) = (0, cpu1_entry (arguments s0))" for k b
    using s0 by (simp add: entry_of_def fresh_board_def)
  then have e: "entry_of (fst (fold env_entry (envs envp) (s0\<lparr>arguments := (arguments s0)\<lparr>arg_argc := k, args_cmdline := b\<rparr>\<rparr>, v)))
      = (0, cpu1_entry (arguments s0))" for k b v
    using fold_env_other [OF env] by simp
  obtain t where t: "prom_init (a0 # map Some as) envp s0 = Inr t" "entry_of t = (0xA3400000, cpu1_entry (arguments s0))"
    by (rule prom_init_ok [OF s0 as, where ?a0.0 = a0 and envp = envp]) (use e in \<open>simp add: Let_def\<close>)
  then show ?thesis by (simp add: init_arch_def entry_of_def CPU1_BASE_ADDR_def)
qed

text \<open>The boot code of core 0 writes outside its command line exactly when the arguments, each with a space, and the last argument
  once more reach the size of the array; the arguments alone fit in all these cases.\<close>

theorem cmdline_overrun_iff:
  assumes s: "fresh_board s" and as: "\<forall>a\<in>set as. NUL \<notin> set a" "length (joined as) < 255"
  shows "prom_init (a0 # map Some as) envp s = Inl Cmdline_overrun \<longleftrightarrow> 256 \<le> length (joined as) + last_len as"
proof (cases "256 \<le> length (joined as) + last_len as")
  case True
  then show ?thesis using command_line_fits [OF s as, of a0] by (simp add: prom_init_def)
next
  case False
  then obtain c where c: "command_line (a0 # map Some as) s = Inr c" "cl_holds c (joined as)"
    using command_line_fits [OF s as, of a0] by auto
  obtain a where "pass_cmdline (arguments s) = Some a"
    using pass_cmdline_ok [of "arguments s"] s by (auto simp: fresh_board_def)
  moreover have "\<exists>c1. append_mem 52 c = Some c1"
  proof (cases "\<not> cl_mem c \<and> length (joined as) < 247")
    case True
    then show ?thesis using append_mem_52 [OF c(2)] by blast
  next
    case False
    then show ?thesis using c(2) by (auto simp: append_mem_def cl_holds_def)
  qed
  ultimately show ?thesis using c(1) False by (auto simp: prom_init_def Let_def split: prod.splits)
qed

theorem cmdline_overrun_iff_witness:
  "prom_init [None, Some (replicate 130 (CHR ''x''))] None demo_board = Inl Cmdline_overrun"
proof -
  let ?as = "[replicate 130 (CHR ''x'')]"
  have "\<forall>a\<in>set ?as. NUL \<notin> set a" "length (joined ?as) < 255" "256 \<le> length (joined ?as) + last_len ?as"
    by (simp_all add: NUL_def last_len_def)
  with cmdline_overrun_iff [OF demo_board_fresh, of ?as None None] show ?thesis by simp
qed

end
