(* ===== verification/Cgu.thy ===== *)
theory Cgu
  imports U64 Board
begin

text \<open>
  The driver of the clock generation unit (\<open>drivers/char/danube_cgu.c\<close>): it computes the clock rates of the chip from the registers of the
  unit, three phase-locked loops and the selectors behind them.  A function that ends without a return statement gives \<open>None\<close>; the source does
  so for a loop that is bypassed.  The rates are compared with exact arithmetic and with those the boot code of \<open>Board\<close> assumes.
\<close>

section \<open>Registers\<close>

record cgu =
  pll0_cfg :: u32
  pll1_cfg :: u32
  pll2_cfg :: u32
  cgu_sys :: u32
  if_clk :: u32

definition GET_BITS :: "u32 \<Rightarrow> nat \<Rightarrow> nat \<Rightarrow> u32" where
  "GET_BITS x msb lsb = drop_bit lsb (x AND (push_bit (msb + 1) 1 - 1))"

abbreviation (input) BASIC_INPUT_CLOCK_FREQUENCY_1 :: u32 where "BASIC_INPUT_CLOCK_FREQUENCY_1 \<equiv> 35328000"
abbreviation (input) BASIC_INPUT_CLOCK_FREQUENCY_2 :: u32 where "BASIC_INPUT_CLOCK_FREQUENCY_2 \<equiv> 36000000"
abbreviation (input) BASIS_INPUT_CRYSTAL_USB :: u32 where "BASIS_INPUT_CRYSTAL_USB \<equiv> 12000000"

definition PLLK :: "u32 \<Rightarrow> u32" where "PLLK cfg = GET_BITS cfg 26 17"
definition PLLN :: "u32 \<Rightarrow> u32" where "PLLN cfg = GET_BITS cfg 12 6"
definition PLLM :: "u32 \<Rightarrow> u32" where "PLLM cfg = GET_BITS cfg 5 2"

section \<open>Loops 0 and 1\<close>

text \<open>The input clock of the loops 0 and 1; that of loop 2, which may be an output of loop 0, follows below.\<close>

definition crystal_clock :: "nat \<Rightarrow> cgu \<Rightarrow> u32" where
  "crystal_clock pll s =
     (if bit (if pll = 0 then pll0_cfg s else pll1_cfg s) (if pll = 0 then 29 else 31) then BASIS_INPUT_CRYSTAL_USB
      else if bit (pll0_cfg s) 31 then BASIC_INPUT_CLOCK_FREQUENCY_1 else BASIC_INPUT_CLOCK_FREQUENCY_2)"

definition cal_dsm :: "nat \<Rightarrow> u32 \<Rightarrow> u32 \<Rightarrow> cgu \<Rightarrow> u32" where
  "cal_dsm pll num den s =
     (case uint64_divide (uint64_multiply num (crystal_clock pll s)) den of
        (ret, residue) \<Rightarrow> if push_bit 1 residue \<ge> den then ret + 1 else ret)"

definition mash_dsm :: "nat \<Rightarrow> u32 \<Rightarrow> u32 \<Rightarrow> u32 \<Rightarrow> cgu \<Rightarrow> u32" where
  "mash_dsm pll M N K = cal_dsm pll (push_bit 10 (N + 1) + K) (push_bit 10 (M + 1))"

definition ssff_dsm_1 :: "nat \<Rightarrow> u32 \<Rightarrow> u32 \<Rightarrow> u32 \<Rightarrow> cgu \<Rightarrow> u32" where
  "ssff_dsm_1 pll M N K = cal_dsm pll (push_bit 11 (N + 1) + K + 512) (push_bit 11 (M + 1))"

definition ssff_dsm_2 :: "nat \<Rightarrow> u32 \<Rightarrow> u32 \<Rightarrow> u32 \<Rightarrow> cgu \<Rightarrow> u32" where
  "ssff_dsm_2 pll M N K =
     cal_dsm pll (if K \<ge> 512 then push_bit 12 (N + 1) + K - 512 else push_bit 12 (N + 1) + K + 3584) (push_bit 12 (M + 1))"

definition dsm :: "nat \<Rightarrow> u32 \<Rightarrow> u32 \<Rightarrow> u32 \<Rightarrow> bool \<Rightarrow> bool \<Rightarrow> cgu \<Rightarrow> u32" where
  "dsm pll M N K dsmsel phase_div_en =
     (if \<not> dsmsel then mash_dsm pll M N K
      else if \<not> phase_div_en then ssff_dsm_1 pll M N K else ssff_dsm_2 pll M N K)"

definition cgu_get_pll0_fosc :: "cgu \<Rightarrow> u32 option" where
  "cgu_get_pll0_fosc s =
     (let c = pll0_cfg s in
      if bit c 30 then None
      else Some (dsm 0 (PLLM c) (PLLN c) (if bit c 27 then PLLK c else 0) (bit c 28) (bit c 31) s))"

definition cgu_get_pll0_fps :: "nat \<Rightarrow> cgu \<Rightarrow> u32 option" where
  "cgu_get_pll0_fps phase s =
     map_option (\<lambda>fps. if phase = 1 then (push_bit 2 fps + 2) div 5
       else if phase = 2 then (push_bit 1 fps + 1) div 3 else fps) (cgu_get_pll0_fosc s)"

definition cgu_get_pll0_fdiv :: "cgu \<Rightarrow> u32 option" where
  "cgu_get_pll0_fdiv s =
     (let d = GET_BITS (pll2_cfg s) 16 13 + 1
      in map_option (\<lambda>fosc. (fosc + drop_bit 1 d) div d) (cgu_get_pll0_fosc s))"

definition cgu_get_pll1_fosc :: "cgu \<Rightarrow> u32 option" where
  "cgu_get_pll1_fosc s =
     (let c = pll1_cfg s in
      if bit c 30 then None
      else Some (dsm 1 (PLLM c) (PLLN c) (if bit c 27 then PLLK c else 0) (bit c 28) False s))"

definition cgu_get_pll1_fps :: "cgu \<Rightarrow> u32 option" where
  "cgu_get_pll1_fps s = map_option (\<lambda>fps. (push_bit 1 fps + 1) div 3) (cgu_get_pll1_fosc s)"

definition cgu_get_pll1_fdiv :: "cgu \<Rightarrow> u32 option" where
  "cgu_get_pll1_fdiv s = cgu_get_pll1_fosc s"

section \<open>Loop 2\<close>

definition get_input_clock :: "nat \<Rightarrow> cgu \<Rightarrow> u32 option" where
  "get_input_clock pll s =
     (if pll \<le> 1 then Some (crystal_clock pll s)
      else if pll = 2 then
        (let src = GET_BITS (pll2_cfg s) 18 17 in
         if src = 0 then cgu_get_pll0_fdiv s
         else if src = 1
           then Some (if bit (pll2_cfg s) 20 then BASIC_INPUT_CLOCK_FREQUENCY_1 else BASIC_INPUT_CLOCK_FREQUENCY_2)
         else if src = 2 then Some BASIS_INPUT_CRYSTAL_USB else Some 0)
      else Some 0)"

definition cgu_get_pll2_fosc :: "cgu \<Rightarrow> u32 option" where
  "cgu_get_pll2_fosc s =
     (if bit (pll2_cfg s) 19 then get_input_clock 2 s
      else map_option (\<lambda>clock.
        case uint64_divide (uint64_multiply (PLLN (pll2_cfg s) + 1) clock) (PLLM (pll2_cfg s) + 1) of
          (ret, residue) \<Rightarrow> if push_bit 1 residue > PLLM (pll2_cfg s) then ret + 1 else ret) (get_input_clock 2 s))"

definition cgu_get_pll2_fps :: "nat \<Rightarrow> cgu \<Rightarrow> u32 option" where
  "cgu_get_pll2_fps phase s =
     map_option (\<lambda>fps. if phase = 1 then (push_bit 2 fps + 2) div 5
       else if phase = 2 then (push_bit 3 fps + 4) div 9 else fps) (cgu_get_pll2_fosc s)"

definition cgu_get_pll2_fdiv :: "cgu \<Rightarrow> u32 option" where
  "cgu_get_pll2_fdiv s =
     (let d = GET_BITS (if_clk s) 23 20 + 1
      in map_option (\<lambda>fosc. (fosc + drop_bit 1 d) div d) (cgu_get_pll2_fosc s))"

section \<open>Clock rates\<close>

text \<open>The division that the selector of the memory clock chooses.\<close>

definition ddr_divided :: "cgu \<Rightarrow> u32 \<Rightarrow> u32" where
  "ddr_divided s ret =
     (let k = GET_BITS (cgu_sys s) 1 0 in
      if k = 1 then (ret * 2 + 2) div 5 else if k = 2 then (ret + 1) div 3 else if k = 3 then (ret + 2) div 4
      else (ret + 1) div 2)"

definition cgu_get_mips_clock :: "nat \<Rightarrow> cgu \<Rightarrow> u32 option" where
  "cgu_get_mips_clock cpu s =
     map_option (\<lambda>ret.
       let cpusel = (if cpu = 0 then GET_BITS (cgu_sys s) 3 2 else GET_BITS (cgu_sys s) 5 4) in
       if cpusel = 0 then ret
       else ddr_divided s (if cpusel = 2 then push_bit 1 ret else ret)) (cgu_get_pll0_fosc s)"

definition cgu_get_cpu_clock :: "cgu \<Rightarrow> u32 option" where
  "cgu_get_cpu_clock s = cgu_get_mips_clock 0 s"

definition cgu_get_io_region_clock :: "cgu \<Rightarrow> u32 option" where
  "cgu_get_io_region_clock s = map_option (ddr_divided s) (cgu_get_pll0_fosc s)"

definition cgu_get_fpi_bus_clock :: "nat \<Rightarrow> cgu \<Rightarrow> u32 option" where
  "cgu_get_fpi_bus_clock fpi s =
     map_option (\<lambda>ret. if fpi = 2 \<and> bit (cgu_sys s) 6 then drop_bit 1 ret else ret) (cgu_get_io_region_clock s)"

definition cgu_get_pp32_clock :: "cgu \<Rightarrow> u32 option" where
  "cgu_get_pp32_clock s =
     (let k = GET_BITS (cgu_sys s) 8 7 in
      if k = 1 then cgu_get_pll2_fps 2 s
      else if k = 2 then map_option (\<lambda>f. drop_bit 1 (f + 1)) (cgu_get_pll2_fps 1 s)
      else if k = 3 then map_option (\<lambda>f. drop_bit 1 (f + 1)) (cgu_get_pll2_fps 2 s)
      else cgu_get_pll2_fps 1 s)"

definition cgu_get_pci_clock :: "cgu \<Rightarrow> u32 option" where
  "cgu_get_pci_clock s = cgu_get_pll2_fdiv s"

definition cgu_get_ethernet_clock :: "nat \<Rightarrow> cgu \<Rightarrow> u32 option" where
  "cgu_get_ethernet_clock mii s =
     (let k = GET_BITS (if_clk s) 1 0 in
      if k = 0 then map_option (\<lambda>f. (f + 3) div 12) (cgu_get_pll2_fosc s)
      else if k = 1 then map_option (\<lambda>f. (f + 3) div 6) (cgu_get_pll2_fosc s)
      else if k = 2 then Some 50000000 else if k = 3 then Some 25000000 else Some 0)"

definition cgu_get_usb_clock :: "cgu \<Rightarrow> u32 option" where
  "cgu_get_usb_clock s =
     (let k = GET_BITS (if_clk s) 5 4 in
      if k = 0 then map_option (\<lambda>f. (f + 12) div 25) (cgu_get_pll2_fosc s)
      else if k = 1 then Some 12000000 else if k = 2 then Some (12000000 div 4)
      else if k = 3 then Some 12000000 else Some 0)"

definition cgu_get_clockout :: "int \<Rightarrow> cgu \<Rightarrow> u32 option" where
  "cgu_get_clockout clkout s =
     (let fosc1 = (\<lambda>a d. map_option (\<lambda>f. (f + a) div d) (cgu_get_pll1_fosc s));
          fosc2 = (\<lambda>a d. map_option (\<lambda>f. (f + a) div d) (cgu_get_pll2_fosc s));
          fps2 = (\<lambda>a d. map_option (\<lambda>f. (f + a) div d) (cgu_get_pll2_fps 2 s)) in
      if clkout > 3 \<or> clkout < 0 then Some 0
      else
        let k = push_bit 2 (of_int clkout) OR GET_BITS (if_clk s) (15 - nat clkout * 2) (14 - nat clkout * 2) in
        if k = 0 \<or> k = 15 then fosc1 6000 12000
        else if k = 1 then fosc1 128 256
        else if k = 2 then fosc2 60 120
        else if k = 3 \<or> k = 5 \<or> k = 12 then fosc2 12 25
        else if k = 4 then fps2 3 6
        else if k = 6 then fps2 5 10
        else if k = 7 then fps2 2 5
        else if k = 8 \<or> k = 14 then fosc2 6 12
        else if k = 9 \<or> k = 13 then fosc2 3 6
        else if k = 10 then fosc2 5 10
        else if k = 11 then fosc2 2 5
        else Some 0)"

section \<open>The device\<close>

abbreviation (input) CGU_IOC_MAGIC :: u32 where "CGU_IOC_MAGIC \<equiv> 0x75"

record cgu_clock_rates =
  mips0 :: "u32 option"
  mips1 :: "u32 option"
  cpu :: "u32 option"
  io_region :: "u32 option"
  fpi_bus1 :: "u32 option"
  fpi_bus2 :: "u32 option"
  pp32 :: "u32 option"
  pci :: "u32 option"
  mii0 :: "u32 option"
  mii1 :: "u32 option"
  usb :: "u32 option"
  clockout0 :: "u32 option"
  clockout1 :: "u32 option"
  clockout2 :: "u32 option"
  clockout3 :: "u32 option"

definition clock_rates :: "cgu \<Rightarrow> cgu_clock_rates" where
  "clock_rates s =
     \<lparr>mips0 = cgu_get_mips_clock 0 s, mips1 = cgu_get_mips_clock 1 s, cpu = cgu_get_cpu_clock s,
      io_region = cgu_get_io_region_clock s, fpi_bus1 = cgu_get_fpi_bus_clock 1 s, fpi_bus2 = cgu_get_fpi_bus_clock 2 s,
      pp32 = cgu_get_pp32_clock s, pci = cgu_get_pci_clock s, mii0 = cgu_get_ethernet_clock 0 s,
      mii1 = cgu_get_ethernet_clock 1 s, usb = cgu_get_usb_clock s, clockout0 = cgu_get_clockout 0 s,
      clockout1 = cgu_get_clockout 1 s, clockout2 = cgu_get_clockout 2 s, clockout3 = cgu_get_clockout 3 s\<rparr>"

definition cgu_ioctl :: "bool \<Rightarrow> u32 \<Rightarrow> cgu \<Rightarrow> s32 \<times> cgu_clock_rates option" where
  "cgu_ioctl access_ok cmd s =
     (if IOC_TYPE cmd \<noteq> CGU_IOC_MAGIC \<or> IOC_NR cmd \<ge> 1 then (- ENOTTY, None)
      else if IOC_DIR cmd AND 6 \<noteq> 0 \<and> \<not> access_ok then (- EFAULT, None)
      else if cmd = IOR CGU_IOC_MAGIC 0 60 then (0, Some (clock_rates s))
      else (- ENOTTY, None))"

section \<open>Exactness\<close>

lemma GET_BITS_take: "msb < 31 \<Longrightarrow> GET_BITS x msb lsb = drop_bit lsb (take_bit (msb + 1) x)"
  by (simp add: GET_BITS_def take_bit_eq_mask mask_eq_exp_minus_1 push_bit_eq_mult)

lemma GET_BITS_less:
  assumes "msb < 31" "lsb \<le> msb"
  shows "unat (GET_BITS x msb lsb) < 2 ^ (msb + 1 - lsb)"
proof -
  have "unat (GET_BITS x msb lsb) = unat x mod 2 ^ (msb + 1) div 2 ^ lsb"
    using assms by (simp add: GET_BITS_take unat_drop unsigned_take_bit_eq take_bit_nat_def)
  moreover have "unat x mod 2 ^ (msb + 1) < 2 ^ (msb + 1 - lsb) * 2 ^ lsb"
    using assms by (simp add: power_add [symmetric])
  ultimately show ?thesis by (simp add: less_mult_imp_div_less)
qed

lemma pll_bounds:
  "unat (PLLM c) < 16" "unat (PLLN c) < 128" "unat (PLLK c) < 1024"
  using GET_BITS_less [of 5 2 c] GET_BITS_less [of 12 6 c] GET_BITS_less [of 26 17 c]
  by (simp_all add: PLLM_def PLLN_def PLLK_def)

text \<open>The whole number nearest to a quotient, in the 32 bits of the result.\<close>

definition nearest :: "nat \<Rightarrow> nat \<Rightarrow> nat" where
  "nearest n d = (2 * n + d) div (2 * d)"

lemma round_division:
  assumes den: "0 < den" "den \<le> 2 ^ 31" and num: "unat a * unat b < 2 ^ 48"
    and q: "uint64_divide (uint64_multiply a b) den = (q, r)"
  shows "(if 2 * unat r \<ge> unat den then q + 1 else q) = of_nat (nearest (unat a * unat b) (unat den))" "unat r < unat den"
proof -
  let ?n = "unat a * unat b" and ?d = "unat den"
  have d: "0 < ?d" "?d \<le> 2 ^ 31" using den by (simp_all add: word_le_nat_alt word_less_nat_alt unat_gt_0)
  have m: "?n mod ?d < ?d" using d by simp
  have qr: "q = of_nat (?n div ?d)" "r = of_nat (?n mod ?d)"
    using q divide_exact [OF den, of "uint64_multiply a b"] multiply_exact [OF num] by simp_all
  have r: "unat r = ?n mod ?d" using m d(2) by (simp add: qr)
  then show "unat r < unat den" using m by simp
  show "(if 2 * unat r \<ge> unat den then q + 1 else q) = of_nat (nearest ?n ?d)"
    using nearest_split [OF d(1), of ?n] by (simp add: r qr(1) nearest_def)
qed

lemma double_word: "unat r < 2 ^ 31 \<Longrightarrow> unat (push_bit 1 r :: u32) = 2 * unat r"
  by (subst unat_push) simp

lemma crystal_clock_le: "unat (crystal_clock pll s) \<le> 36000000"
  by (simp add: crystal_clock_def)

lemma cal_dsm_nearest:
  assumes den: "0 < den" "den \<le> 2 ^ 31" and num: "unat num < 2 ^ 20"
  shows "cal_dsm pll num den s = of_nat (nearest (unat num * unat (crystal_clock pll s)) (unat den))"
proof -
  let ?c = "crystal_clock pll s"
  obtain q r where qr: "uint64_divide (uint64_multiply num ?c) den = (q, r)" by force
  have "unat num * unat ?c \<le> 2 ^ 20 * 36000000" using num crystal_clock_le by (intro mult_mono) auto
  then have "unat num * unat ?c < 2 ^ 48" by simp
  note rd = round_division [OF den this qr]
  have "unat den \<le> 2 ^ 31" using den(2) by (simp add: word_le_nat_alt)
  then have "push_bit 1 r \<ge> den \<longleftrightarrow> 2 * unat r \<ge> unat den"
    using rd(2) double_word [of r] by (simp add: word_le_nat_alt)
  then show ?thesis using rd(1) by (simp add: cal_dsm_def qr)
qed

text \<open>The factor of a loop, as numerator and denominator.\<close>

definition pll_ratio :: "bool \<Rightarrow> bool \<Rightarrow> nat \<Rightarrow> nat \<Rightarrow> nat \<Rightarrow> nat \<times> nat" where
  "pll_ratio dsmsel phase_div_en M N K =
     (if \<not> dsmsel then ((N + 1) * 1024 + K, (M + 1) * 1024)
      else if \<not> phase_div_en then ((N + 1) * 2048 + K + 512, (M + 1) * 2048)
      else ((N + 1) * 4096 + (if K \<ge> 512 then K - 512 else K + 3584), (M + 1) * 4096))"

lemma unat_scaled:
  assumes "unat N < 2 ^ 7" "n \<le> 12"
  shows "unat (push_bit n (N + 1) :: u32) = (unat N + 1) * 2 ^ n" "(unat N + 1) * 2 ^ n \<le> 2 ^ 19"
proof -
  have "(unat N + 1) * 2 ^ n \<le> 2 ^ 7 * 2 ^ 12" using assms by (intro mult_mono power_increasing) auto
  then show "(unat N + 1) * 2 ^ n \<le> 2 ^ 19" by simp
  then show "unat (push_bit n (N + 1)) = (unat N + 1) * 2 ^ n"
    using assms unat_add_u32 [of N 1] by (subst unat_push) simp
qed

lemma dsm_nearest:
  assumes M: "unat M < 16" and N: "unat N < 128" and K: "unat K < 1024"
    and r: "pll_ratio dsmsel ph (unat M) (unat N) (unat K) = (num, den)"
  shows "dsm pll M N K dsmsel ph s = of_nat (nearest (num * unat (crystal_clock pll s)) den)"
proof -
  have N7: "unat N < 2 ^ 7" and M7: "unat M < 2 ^ 7" using M N by simp_all
  note nn = unat_scaled [OF N7] and mm = unat_scaled [OF M7]
  have den: "0 < (push_bit n (M + 1) :: u32) \<and> push_bit n (M + 1) \<le> (2 ^ 31 :: u32)" if "n \<le> 12" for n
    using mm [OF that] by (simp add: word_less_nat_alt word_le_nat_alt)
  have eq: "cal_dsm pll x (push_bit n (M + 1)) s = of_nat (nearest (num * unat (crystal_clock pll s)) den)"
    if "n \<le> 12" "unat x = num" "num < 2 ^ 20" "den = (unat M + 1) * 2 ^ n" for n x
    using cal_dsm_nearest [of "push_bit n (M + 1)" x pll s] den [OF that(1)] mm(1) [OF that(1)] that by simp
  have add: "unat (a + b :: u32) = unat a + unat b" if "unat a + unat b < 2 ^ 32" for a b
    using that by (simp add: unat_word_ariths)
  consider "\<not> dsmsel" | "dsmsel" "\<not> ph" | "dsmsel" "ph" "512 \<le> unat K" | "dsmsel" "ph" "unat K < 512" by linarith
  then show ?thesis
  proof cases
    case 1
    then have "num = (unat N + 1) * 2 ^ 10 + unat K" "den = (unat M + 1) * 2 ^ 10" using r by (simp_all add: pll_ratio_def)
    with 1 K nn [of 10] show ?thesis by (simp add: dsm_def mash_dsm_def eq add)
  next
    case 2
    then have "num = (unat N + 1) * 2 ^ 11 + unat K + 512" "den = (unat M + 1) * 2 ^ 11" using r by (simp_all add: pll_ratio_def)
    with 2 K nn [of 11] show ?thesis by (simp add: dsm_def ssff_dsm_1_def eq add)
  next
    case 3
    then have "num = (unat N + 1) * 2 ^ 12 + unat K - 512" "den = (unat M + 1) * 2 ^ 12" using r by (simp_all add: pll_ratio_def)
    moreover have "unat (push_bit 12 (N + 1) + K - 512 :: u32) = (unat N + 1) * 2 ^ 12 + unat K - 512"
      using 3 K nn [of 12] by (subst unat_sub) (simp_all add: word_le_nat_alt add)
    ultimately show ?thesis using 3 K nn [of 12] by (simp add: dsm_def ssff_dsm_2_def eq word_le_nat_alt)
  next
    case 4
    then have "num = (unat N + 1) * 2 ^ 12 + unat K + 3584" "den = (unat M + 1) * 2 ^ 12" using r by (simp_all add: pll_ratio_def)
    with 4 K nn [of 12] show ?thesis by (simp add: dsm_def ssff_dsm_2_def eq add word_le_nat_alt)
  qed
qed

text \<open>The configured factor of a loop.\<close>

definition pll_factor :: "u32 \<Rightarrow> bool \<Rightarrow> nat \<times> nat" where
  "pll_factor c ph = pll_ratio (bit c 28) ph (unat (PLLM c)) (unat (PLLN c)) (if bit c 27 then unat (PLLK c) else 0)"

lemma fosc_nearest:
  assumes "pll_factor c ph = (num, den)"
  shows "dsm pll (PLLM c) (PLLN c) (if bit c 27 then PLLK c else 0) (bit c 28) ph s
    = of_nat (nearest (num * unat (crystal_clock pll s)) den)"
  using assms pll_bounds [of c] by (intro dsm_nearest) (auto simp: pll_factor_def)

lemma pll2_nearest:
  assumes b: "\<not> bit (pll2_cfg s) 19" and c: "get_input_clock 2 s = Some clock"
  shows "cgu_get_pll2_fosc s = Some (of_nat (nearest ((unat (PLLN (pll2_cfg s)) + 1) * unat clock) (unat (PLLM (pll2_cfg s)) + 1)))"
proof -
  let ?M = "PLLM (pll2_cfg s)" and ?N = "PLLN (pll2_cfg s)"
  have p: "unat (?M + 1) = unat ?M + 1" "unat (?N + 1) = unat ?N + 1"
    using pll_bounds [of "pll2_cfg s"] unat_add_u32 [of ?M 1] unat_add_u32 [of ?N 1] by simp_all
  have "unat (?N + 1) * unat clock \<le> 2 ^ 7 * 2 ^ 32"
    using p pll_bounds(2) [of "pll2_cfg s"] u32_lt [of clock] by (intro mult_mono) auto
  then have n: "unat (?N + 1) * unat clock < 2 ^ 48" by simp
  obtain q r where qr: "uint64_divide (uint64_multiply (?N + 1) clock) (?M + 1) = (q, r)" by force
  have "0 < ?M + 1" "?M + 1 \<le> 2 ^ 31" using p(1) pll_bounds(1) [of "pll2_cfg s"] by (simp_all add: word_less_nat_alt word_le_nat_alt)
  note rd = round_division [OF this n qr]
  have "push_bit 1 r > ?M \<longleftrightarrow> 2 * unat r \<ge> unat (?M + 1)"
    using rd(2) p(1) pll_bounds(1) [of "pll2_cfg s"] double_word [of r] by (auto simp: word_less_nat_alt)
  then show ?thesis
    using rd(1) b by (simp add: cgu_get_pll2_fosc_def c qr p)
qed

lemma pll0_nearest:
  "\<not> bit (pll0_cfg s) 30 \<Longrightarrow> pll_factor (pll0_cfg s) (bit (pll0_cfg s) 31) = (num, den) \<Longrightarrow>
   cgu_get_pll0_fosc s = Some (of_nat (nearest (num * unat (crystal_clock 0 s)) den))"
  by (simp add: cgu_get_pll0_fosc_def Let_def fosc_nearest del: if_split)

lemma pll1_nearest:
  "\<not> bit (pll1_cfg s) 30 \<Longrightarrow> pll_factor (pll1_cfg s) False = (num, den) \<Longrightarrow>
   cgu_get_pll1_fosc s = Some (of_nat (nearest (num * unat (crystal_clock 1 s)) den))"
  by (simp add: cgu_get_pll1_fosc_def Let_def fosc_nearest del: if_split)

text \<open>C26: The loops.  Whatever the registers hold, the rate computed for a loop that is not bypassed is the whole number
  nearest to the exact rate, the input clock times the configured factor, as far as it fits in 32 bits: the 64-bit arithmetic of the driver loses nothing.  For the third loop this
  holds with any input clock.\<close>

theorem pll_rates_nearest:
  "(\<not> bit (pll0_cfg s) 30 \<longrightarrow> pll_factor (pll0_cfg s) (bit (pll0_cfg s) 31) = (n0, d0) \<longrightarrow>
      cgu_get_pll0_fosc s = Some (of_nat (nearest (n0 * unat (crystal_clock 0 s)) d0)))
   \<and> (\<not> bit (pll1_cfg s) 30 \<longrightarrow> pll_factor (pll1_cfg s) False = (n1, d1) \<longrightarrow>
      cgu_get_pll1_fosc s = Some (of_nat (nearest (n1 * unat (crystal_clock 1 s)) d1)))
   \<and> (\<not> bit (pll2_cfg s) 19 \<longrightarrow> get_input_clock 2 s = Some clock \<longrightarrow>
      cgu_get_pll2_fosc s = Some (of_nat (nearest ((unat (PLLN (pll2_cfg s)) + 1) * unat clock) (unat (PLLM (pll2_cfg s)) + 1))))"
  by (simp add: pll0_nearest pll1_nearest pll2_nearest)

definition demo_cgu :: cgu where
  "demo_cgu = \<lparr>pll0_cfg = 0x0A140200, pll1_cfg = 0x00000200, pll2_cfg = 0x00020200, cgu_sys = 0, if_clk = 0\<rparr>"

lemma demo_fosc: "cgu_get_pll0_fosc demo_cgu = Some 333351563"
  using pll0_nearest [of demo_cgu 9482 1024]
  by (simp add: demo_cgu_def pll_factor_def pll_ratio_def PLLM_def PLLN_def PLLK_def GET_BITS_def crystal_clock_def
    nearest_def bit_iff_odd)

theorem pll_rates_nearest_witness:
  "cgu_get_pll0_fosc demo_cgu = Some 333351563 \<and> cgu_get_pll1_fosc demo_cgu = Some 324000000
   \<and> cgu_get_pll2_fosc demo_cgu = Some 324000000"
proof -
  note d = demo_cgu_def pll_factor_def pll_ratio_def PLLM_def PLLN_def PLLK_def GET_BITS_def crystal_clock_def
    get_input_clock_def nearest_def bit_iff_odd
  show ?thesis using pll_rates_nearest [of demo_cgu 9482 1024 9216 1024 36000000] by (simp add: d)
qed

section \<open>Agreement with the boot code\<close>

lemma sel_bits:
  "GET_BITS c (Suc 0) 0 = c AND 3" "c AND 0xC = push_bit 2 (GET_BITS c 3 2)"
  "c AND 3 \<in> {0, 1, 2, 3}" "GET_BITS c 3 2 \<in> {0, 1, 2, 3}" "bit c 6 \<longleftrightarrow> c AND 0x40 \<noteq> 0"
proof -
  have m: "(3 :: u32) = mask 2" "(0xC :: u32) = mask 4 XOR mask 2" by (simp_all add: mask_eq_exp_minus_1)
  show "GET_BITS c (Suc 0) 0 = c AND 3" by (simp add: GET_BITS_def)
  have "2 \<le> n \<Longrightarrow> Suc (Suc (n - 2)) = n" for n :: nat by simp
  then show "c AND 0xC = push_bit 2 (GET_BITS c 3 2)"
    unfolding GET_BITS_take [of 3 c 2, simplified] m(2) by (intro bit_word_eqI) (auto simp: bit_simps not_less)
  have "unat (c AND 3) < 4"
    unfolding m(1) by (simp add: take_bit_eq_mask [symmetric] unsigned_take_bit_eq take_bit_nat_def)
  then show "c AND 3 \<in> {0, 1, 2, 3}" by (auto simp: word_unat_eq_iff)
  have "unat (GET_BITS c 3 2) < 4" using GET_BITS_less [of 3 2 c] by simp
  then show "GET_BITS c 3 2 \<in> {0, 1, 2, 3}" by (auto simp: word_unat_eq_iff)
  show "bit c 6 \<longleftrightarrow> c AND 0x40 \<noteq> 0" using and_exp_eq_0_iff_not_bit [of c 6] by simp
qed

lemma half_close: "\<bar>int p - int q\<bar> \<le> k \<Longrightarrow> \<bar>int (p div 2) - int (q div 2)\<bar> \<le> k"
  by linarith

text \<open>C27: Two views of the clocks.  Where the first loop runs between 333.0 and 333.4 MHz and the processor selector has a value that is not
  reserved, the processor, memory and bus clocks this driver computes and those the boot code takes from the same selectors differ
  by at most 400 kHz.\<close>

theorem boot_clocks_agree:
  assumes f: "cgu_get_pll0_fosc s = Some f" "333000000 \<le> unat f" "unat f \<le> 333400000"
    and sel: "cgu_sys s AND 0xC \<noteq> 0xC"
  shows "\<exists>c i b. cgu_get_cpu_clock s = Some c \<and> \<bar>int (unat c) - int (unat (danube_get_cpu_hz (cgu_sys s)))\<bar> \<le> 400000
    \<and> cgu_get_io_region_clock s = Some i \<and> \<bar>int (unat i) - int (unat (danube_get_ddr_hz (cgu_sys s)))\<bar> \<le> 400000
    \<and> cgu_get_fpi_bus_clock 2 s = Some b \<and> \<bar>int (unat b) - int (unat (danube_get_fpi_hz (cgu_sys s)))\<bar> \<le> 400000"
proof -
  let ?c = "cgu_sys s" and ?f = "unat f"
  have dd: "unat (ddr_divided s x) = (if ?c AND 3 = 1 then (2 * unat x + 2) div 5 else if ?c AND 3 = 2 then (unat x + 1) div 3
      else if ?c AND 3 = 3 then (unat x + 2) div 4 else (unat x + 1) div 2)" if "unat x \<le> 1000000000" for x
    using that by (simp add: ddr_divided_def Let_def sel_bits(1) unat_div unat_word_ariths mult.commute)
  have "uint f = int ?f" by simp
  with f(2,3) have uf: "333000000 \<le> uint f" "uint f \<le> 333400000" by linarith+
  have f2: "unat (push_bit 1 f) = 2 * ?f" using f(3) by (intro double_word) simp
  define c where "c = (if ?c AND 0xC = 0 then f else ddr_divided s (if ?c AND 0xC = 8 then push_bit 1 f else f))"
  define i where "i = ddr_divided s f"
  define b where "b = (if ?c AND 0x40 \<noteq> 0 then drop_bit 1 i else i)"
  have k: "GET_BITS ?c 3 2 = 0 \<longleftrightarrow> ?c AND 0xC = 0" "GET_BITS ?c 3 2 = 2 \<longleftrightarrow> ?c AND 0xC = 8"
    "?c AND 0xC \<in> {0, 4, 8, 12}" using sel_bits(4) [of ?c] by (auto simp: sel_bits(2))
  have r: "cgu_get_cpu_clock s = Some c" "cgu_get_io_region_clock s = Some i" "cgu_get_fpi_bus_clock 2 s = Some b"
    by (simp_all add: cgu_get_cpu_clock_def cgu_get_mips_clock_def cgu_get_io_region_clock_def cgu_get_fpi_bus_clock_def
      f(1) sel_bits(5) k(1,2) c_def i_def b_def Let_def)
  have i: "\<bar>int (unat i) - int (unat (danube_get_ddr_hz ?c))\<bar> \<le> 400000"
    using f(2,3) sel_bits(3) [of ?c] by (auto simp: i_def dd danube_get_ddr_hz_def Let_def)
  have b: "\<bar>int (unat b) - int (unat (danube_get_fpi_hz ?c))\<bar> \<le> 400000"
    using i half_close [OF i] by (simp only: b_def danube_get_fpi_hz_def unat_drop power_one_right split: if_split) simp
  have "\<bar>int (unat c) - int (unat (danube_get_cpu_hz ?c))\<bar> \<le> 400000"
  proof (cases "?c AND 0xC = 8")
    case True
    then show ?thesis using f(2,3) uf f2 sel_bits(3) [of ?c]
      by (auto simp: c_def dd danube_get_cpu_hz_def danube_get_ddr_hz_def Let_def)
  next
    case False
    with sel k(3) have "?c AND 0xC = 0 \<or> ?c AND 0xC = 4" by auto
    then show ?thesis using uf i by (auto simp: c_def i_def danube_get_cpu_hz_def)
  qed
  with r i b show ?thesis by blast
qed

theorem boot_clocks_agree_witness:
  "\<exists>c. cgu_get_cpu_clock demo_cgu = Some c \<and> \<bar>int (unat c) - 333333333\<bar> \<le> 400000"
proof -
  note demo_fosc
  then show ?thesis using boot_clocks_agree [of demo_cgu 333351563]
    by (auto simp: demo_cgu_def danube_get_cpu_hz_def)
qed

text \<open>With the reserved value of the selector the boot code assumes twice the rate.\<close>

lemma reserved_selector_disagrees:
  assumes "cgu_get_pll0_fosc s = Some f" "cgu_sys s AND 0xF = 0xC"
  shows "cgu_get_cpu_clock s = Some ((f + 1) div 2)" "danube_get_cpu_hz (cgu_sys s) = 2 * danube_get_ddr_hz (cgu_sys s)"
proof -
  have "cgu_sys s AND 0xC = (cgu_sys s AND 0xF) AND 0xC" "cgu_sys s AND 3 = (cgu_sys s AND 0xF) AND 3" by (simp_all add: and.assoc)
  with assms(2) have a: "cgu_sys s AND 0xC = 0xC" "cgu_sys s AND 3 = 0" by simp_all
  then have g: "GET_BITS (cgu_sys s) 3 2 = 3" using sel_bits(4) [of "cgu_sys s"] by (auto simp: sel_bits(2))
  show "cgu_get_cpu_clock s = Some ((f + 1) div 2)"
    by (simp add: cgu_get_cpu_clock_def cgu_get_mips_clock_def assms(1) g sel_bits(1) ddr_divided_def a(2) Let_def)
  show "danube_get_cpu_hz (cgu_sys s) = 2 * danube_get_ddr_hz (cgu_sys s)"
    by (simp add: danube_get_cpu_hz_def a push_bit_eq_mult Let_def mult.commute)
qed

text \<open>A bypassed loop leaves the rates behind it without a value.\<close>

lemma bypass_undefined:
  "bit (pll0_cfg s) 30 \<Longrightarrow> cgu_get_cpu_clock s = None \<and> cgu_get_io_region_clock s = None"
  by (simp add: cgu_get_cpu_clock_def cgu_get_mips_clock_def cgu_get_io_region_clock_def cgu_get_pll0_fosc_def Let_def)

end
