(* ===== verification/Wdt.thy ===== *)
theory Wdt
  imports Cgu
begin

text \<open>
  The driver of the watchdog timer (\<open>drivers/char/danube_wdt.c\<close>): one control register, whose every change takes two writes with a
  password each, a reload value computed from the processor clock of \<open>Cgu\<close>, and a device through which one process starts, repeats and stops the
  watchdog.  The register is a cell of memory that also records what was written to it.
\<close>

section \<open>State and register fields\<close>

record wdt =
  wdt_cr :: u32
  wdt_sr :: u32
  cr_log :: "u32 list"
  wdt_timeout :: s32
  wdt_occupied :: s32

definition PWL_GET :: "u32 \<Rightarrow> u32" where "PWL_GET v = drop_bit 26 v AND 3"
definition PWL_SET :: "u32 \<Rightarrow> u32" where "PWL_SET v = push_bit 26 (3 AND v)"
definition CLKDIV_GET :: "u32 \<Rightarrow> u32" where "CLKDIV_GET v = drop_bit 24 v AND 3"
definition CLKDIV_SET :: "u32 \<Rightarrow> u32" where "CLKDIV_SET v = push_bit 24 (3 AND v)"
definition PW_GET :: "u32 \<Rightarrow> u32" where "PW_GET v = drop_bit 16 v AND 0xFF"
definition PW_SET :: "u32 \<Rightarrow> u32" where "PW_SET v = push_bit 16 (0xFF AND v)"
definition RELOAD_GET :: "u32 \<Rightarrow> u32" where "RELOAD_GET v = v AND 0xFFFF"
definition RELOAD_SET :: "u32 \<Rightarrow> u32" where "RELOAD_SET v = 0xFFFF AND v"

abbreviation (input) CR_GEN :: u32 where "CR_GEN \<equiv> 0x80000000"
abbreviation (input) CR_DSEN :: u32 where "CR_DSEN \<equiv> 0x40000000"
abbreviation (input) CR_LPEN :: u32 where "CR_LPEN \<equiv> 0x20000000"
abbreviation (input) DANUBE_WDT_PW1 :: u32 where "DANUBE_WDT_PW1 \<equiv> 0xBE"
abbreviation (input) DANUBE_WDT_PW2 :: u32 where "DANUBE_WDT_PW2 \<equiv> 0xDC"

definition cr_write :: "u32 \<Rightarrow> wdt \<Rightarrow> wdt" where
  "cr_write v s = s\<lparr>wdt_cr := v, cr_log := cr_log s @ [v]\<rparr>"

text \<open>The logical negation of C, which the source applies to masks.\<close>

definition c_not :: "u32 \<Rightarrow> u32" where
  "c_not v = (if v = 0 then 1 else 0)"

section \<open>Operations\<close>

definition wdt_clkdiv :: "u32 \<Rightarrow> u32" where
  "wdt_clkdiv k = (if k = 0 then 1 else if k = 1 then 64 else if k = 2 then 4096 else 262144)"

definition wdt_pwl :: "u32 \<Rightarrow> u32" where
  "wdt_pwl k = (if k = 0 then 0x8000 else if k = 1 then 0x4000 else if k = 2 then 0x2000 else 0x1000)"

definition wdt_reload :: "u32 \<Rightarrow> u32 \<Rightarrow> u32 \<Rightarrow> u32" where
  "wdt_reload ffpi timeout cr = timeout * (ffpi div wdt_clkdiv (CLKDIV_GET cr)) + wdt_pwl (PWL_GET cr)"

definition wdt_enable :: "u32 \<Rightarrow> u32 \<Rightarrow> wdt \<Rightarrow> s32 \<times> wdt" where
  "wdt_enable ffpi timeout s =
     (let clkdiv = CLKDIV_GET (wdt_cr s); pwl = PWL_GET (wdt_cr s); reload = wdt_reload ffpi timeout (wdt_cr s) in
      if reload > 0xFFFF then (- EINVAL, s)
      else
        let s1 = cr_write (PW_SET DANUBE_WDT_PW1) s;
            cr = wdt_cr s1 AND (c_not (PW_SET 0xFF) AND c_not (PWL_SET 3) AND c_not (CLKDIV_SET 3) AND c_not (RELOAD_SET 0xFFFF))
        in (0, cr_write (cr OR (PW_SET DANUBE_WDT_PW2 OR PWL_SET pwl OR CLKDIV_SET clkdiv OR RELOAD_SET reload OR CR_GEN)) s1))"

definition wdt_disable :: "wdt \<Rightarrow> wdt" where
  "wdt_disable s = cr_write (PW_SET DANUBE_WDT_PW2) (cr_write (PW_SET DANUBE_WDT_PW1) s)"

definition wdt_low_power :: "s32 \<Rightarrow> wdt \<Rightarrow> wdt" where
  "wdt_low_power en s =
     (let s1 = cr_write (PW_SET DANUBE_WDT_PW1) s; cr = wdt_cr s1 in
      cr_write
        (if en \<noteq> 0 then cr AND c_not (PW_SET 0xFF) OR (PW_SET DANUBE_WDT_PW2 OR CR_LPEN)
         else cr AND (c_not (PW_SET 0xFF) AND c_not CR_LPEN) OR PW_SET DANUBE_WDT_PW2) s1)"

definition wdt_debug_suspend :: "s32 \<Rightarrow> wdt \<Rightarrow> wdt" where
  "wdt_debug_suspend en s =
     (let s1 = cr_write (PW_SET DANUBE_WDT_PW1) s; cr = wdt_cr s1 in
      cr_write
        (if en \<noteq> 0 then cr AND c_not (PW_SET 0xFF) OR (PW_SET DANUBE_WDT_PW2 OR CR_DSEN)
         else cr AND (c_not (PW_SET 0xFF) AND c_not CR_DSEN) OR PW_SET DANUBE_WDT_PW2) s1)"

definition wdt_prewarning_limit :: "s32 \<Rightarrow> wdt \<Rightarrow> wdt" where
  "wdt_prewarning_limit pwl s =
     (let cr = wdt_cr s; s1 = cr_write (PW_SET DANUBE_WDT_PW1) s in
      cr_write (cr AND 0xFF00FFFF AND 0xF3FFFFFF OR (PW_SET DANUBE_WDT_PW2 OR PWL_SET (of_int pwl))) s1)"

definition wdt_set_clkdiv :: "s32 \<Rightarrow> wdt \<Rightarrow> wdt" where
  "wdt_set_clkdiv clkdiv s =
     (let cr = wdt_cr s; s1 = cr_write (PW_SET DANUBE_WDT_PW1) s in
      cr_write (cr AND 0xFF00FFFF AND 0xFCFFFFFF OR (PW_SET DANUBE_WDT_PW2 OR CLKDIV_SET (of_int clkdiv))) s1)"

section \<open>The device\<close>

text \<open>What \<open>copy_from_user\<close> does to a variable: the value of the caller, or a failure that leaves something else there.\<close>

datatype user_arg = Copied s32 | Faulted s32

fun arg_value :: "user_arg \<Rightarrow> s32" where
  "arg_value (Copied v) = v"
| "arg_value (Faulted v) = v"

fun arg_result :: "user_arg \<Rightarrow> s32" where
  "arg_result (Copied v) = 0"
| "arg_result (Faulted v) = - EINVAL"

abbreviation (input) WDT_START :: u32 where "WDT_START \<equiv> IOW 0xC0 0 4"
abbreviation (input) WDT_STOP :: u32 where "WDT_STOP \<equiv> IO 0xC0 1"
abbreviation (input) WDT_PING :: u32 where "WDT_PING \<equiv> IO 0xC0 2"
abbreviation (input) WDT_SET_PWL :: u32 where "WDT_SET_PWL \<equiv> IOW 0xC0 3 4"
abbreviation (input) WDT_SET_DSEN :: u32 where "WDT_SET_DSEN \<equiv> IOW 0xC0 4 4"
abbreviation (input) WDT_SET_LPEN :: u32 where "WDT_SET_LPEN \<equiv> IOW 0xC0 5 4"
abbreviation (input) WDT_GET_STATUS :: u32 where "WDT_GET_STATUS \<equiv> IOR 0xC0 6 4"
abbreviation (input) WDT_SET_CLKDIV :: u32 where "WDT_SET_CLKDIV \<equiv> IOW 0xC0 7 4"

text \<open>The result, the status copied to the caller, and the state.  Only where a start or a repetition reads the processor clock, an
  undefined clock leaves no result.\<close>

definition wdt_ioctl :: "cgu \<Rightarrow> u32 \<Rightarrow> user_arg \<Rightarrow> wdt \<Rightarrow> (s32 \<times> u32 option \<times> wdt) option" where
  "wdt_ioctl c cmd arg s =
     (if cmd = WDT_START then
        (case arg of
           Faulted v \<Rightarrow> Some (- EINVAL, None, s\<lparr>wdt_timeout := v\<rparr>)
         | Copied v \<Rightarrow>
             map_option (\<lambda>ffpi.
               case wdt_enable ffpi (of_int v) (s\<lparr>wdt_timeout := v\<rparr>) of
                 (r, s1) \<Rightarrow> (r, None, if r < 0 then s1\<lparr>wdt_timeout := -1\<rparr> else s1)) (cgu_get_cpu_clock c))
      else if cmd = WDT_STOP then Some (0, None, wdt_disable (s\<lparr>wdt_timeout := -1\<rparr>))
      else if cmd = WDT_PING then
        (if wdt_timeout s < 0 then Some (- EIO, None, s)
         else map_option (\<lambda>ffpi. case wdt_enable ffpi (of_int (wdt_timeout s)) s of (r, s1) \<Rightarrow> (r, None, s1)) (cgu_get_cpu_clock c))
      else if cmd = WDT_SET_PWL then Some (arg_result arg, None, wdt_prewarning_limit (arg_value arg) s)
      else if cmd = WDT_SET_DSEN then Some (arg_result arg, None, wdt_debug_suspend (arg_value arg) s)
      else if cmd = WDT_SET_LPEN then Some (arg_result arg, None, wdt_low_power (arg_value arg) s)
      else if cmd = WDT_SET_CLKDIV then Some (arg_result arg, None, wdt_set_clkdiv (arg_value arg) s)
      else if cmd = WDT_GET_STATUS then Some (0, Some (wdt_sr s), s)
      else Some (0, None, s))"

definition wdt_open :: "wdt \<Rightarrow> s32 \<times> wdt" where
  "wdt_open s = (if wdt_occupied s = 1 then (- EBUSY, s) else (0, s\<lparr>wdt_occupied := 1\<rparr>))"

definition wdt_release :: "wdt \<Rightarrow> s32 \<times> wdt" where
  "wdt_release s = (0, s\<lparr>wdt_occupied := 0\<rparr>)"

section \<open>The register protocol\<close>

lemma c_not_masks [simp]:
  "c_not (PW_SET 0xFF) = 0" "c_not (PWL_SET 3) = 0" "c_not (CLKDIV_SET 3) = 0" "c_not (RELOAD_SET 0xFFFF) = 0"
  "c_not CR_LPEN = 0" "c_not CR_DSEN = 0"
  by (simp_all add: c_not_def PW_SET_def PWL_SET_def CLKDIV_SET_def RELOAD_SET_def)

text \<open>Since the negated masks are zero, starting and the two mode functions write fixed values.\<close>

lemma wdt_enable_unfold:
  "wdt_enable ffpi timeout s =
     (let cr = wdt_cr s; reload = wdt_reload ffpi timeout cr in
      if reload > 0xFFFF then (- EINVAL, s)
      else (0, cr_write (PW_SET DANUBE_WDT_PW2 OR PWL_SET (PWL_GET cr) OR CLKDIV_SET (CLKDIV_GET cr) OR RELOAD_SET reload OR CR_GEN)
                 (cr_write (PW_SET DANUBE_WDT_PW1) s)))"
  by (simp add: wdt_enable_def Let_def)

lemma wdt_low_power_unfold:
  "wdt_low_power en s =
     cr_write (PW_SET DANUBE_WDT_PW2 OR (if en \<noteq> 0 then CR_LPEN else 0)) (cr_write (PW_SET DANUBE_WDT_PW1) s)"
  by (simp add: wdt_low_power_def Let_def)

lemma wdt_debug_suspend_unfold:
  "wdt_debug_suspend en s =
     cr_write (PW_SET DANUBE_WDT_PW2 OR (if en \<noteq> 0 then CR_DSEN else 0)) (cr_write (PW_SET DANUBE_WDT_PW1) s)"
  by (simp add: wdt_debug_suspend_def Let_def)

lemma field_masks: "(3 :: u32) = mask 2" "(0xFF :: u32) = mask 8" "(0xFFFF :: u32) = mask 16"
  "(0xFF00FFFF :: u32) = NOT (push_bit 16 (mask 8))" "(0xF3FFFFFF :: u32) = NOT (push_bit 26 (mask 2))"
  "(0xFCFFFFFF :: u32) = NOT (push_bit 24 (mask 2))"
  by (simp_all add: mask_eq_exp_minus_1)

lemmas field_defs = PWL_GET_def PWL_SET_def CLKDIV_GET_def CLKDIV_SET_def PW_GET_def PW_SET_def RELOAD_GET_def RELOAD_SET_def

lemma get_or:
  "PW_GET (a OR b) = PW_GET a OR PW_GET b" "PWL_GET (a OR b) = PWL_GET a OR PWL_GET b"
  "CLKDIV_GET (a OR b) = CLKDIV_GET a OR CLKDIV_GET b" "RELOAD_GET (a OR b) = RELOAD_GET a OR RELOAD_GET b"
  by (simp_all add: field_defs bit.conj_disj_distrib2)

lemma get_set:
  "PW_GET (PW_SET v) = v AND 0xFF" "PW_GET (PWL_SET v) = 0" "PW_GET (CLKDIV_SET v) = 0" "PW_GET (RELOAD_SET v) = 0"
  "PWL_GET (PW_SET v) = 0" "PWL_GET (PWL_SET v) = v AND 3" "PWL_GET (CLKDIV_SET v) = 0" "PWL_GET (RELOAD_SET v) = 0"
  "CLKDIV_GET (PW_SET v) = 0" "CLKDIV_GET (PWL_SET v) = 0" "CLKDIV_GET (CLKDIV_SET v) = v AND 3" "CLKDIV_GET (RELOAD_SET v) = 0"
  "RELOAD_GET (PW_SET v) = 0" "RELOAD_GET (PWL_SET v) = 0" "RELOAD_GET (CLKDIV_SET v) = 0" "RELOAD_GET (RELOAD_SET v) = v AND 0xFFFF"
  unfolding field_defs field_masks by (intro bit_word_eqI; auto simp: bit_simps)+

lemma get_get:
  "PWL_GET v AND 3 = PWL_GET v" "CLKDIV_GET v AND 3 = CLKDIV_GET v"
  by (simp_all add: field_defs and.assoc)

lemma gen_bit:
  "bit (PW_SET v) 31 \<longleftrightarrow> False" "bit (PWL_SET v) 31 \<longleftrightarrow> False" "bit (CLKDIV_SET v) 31 \<longleftrightarrow> False" "bit (RELOAD_SET v) 31 \<longleftrightarrow> False"
  unfolding field_defs field_masks by (auto simp: bit_simps)

text \<open>Every change of the register is a write of the first password followed by one that carries the second.\<close>

fun protocol :: "u32 list \<Rightarrow> bool" where
  "protocol [] = True"
| "protocol [x] = False"
| "protocol (x # y # r) = (x = PW_SET DANUBE_WDT_PW1 \<and> PW_GET y = DANUBE_WDT_PW2 \<and> protocol r)"

lemma protocol_append: "protocol xs \<Longrightarrow> protocol ys \<Longrightarrow> protocol (xs @ ys)"
  by (induction xs rule: protocol.induct) auto

locale register_change =
  fixes change :: "wdt \<Rightarrow> wdt" and val :: "u32 \<Rightarrow> u32"
  assumes access: "change s = cr_write (val (wdt_cr s)) (cr_write (PW_SET DANUBE_WDT_PW1) s)"
    and second: "PW_GET (val v) = DANUBE_WDT_PW2"
begin

lemma keeps_protocol: "protocol (cr_log s) \<Longrightarrow> protocol (cr_log (change s))"
  using protocol_append [of "cr_log s" "[PW_SET DANUBE_WDT_PW1, val (wdt_cr s)]"]
  by (simp add: access cr_write_def second)

lemma register: "wdt_cr (change s) = val (wdt_cr s)"
  by (simp add: access cr_write_def)

lemma others: "wdt_timeout (change s) = wdt_timeout s" "wdt_occupied (change s) = wdt_occupied s" "wdt_sr (change s) = wdt_sr s"
  by (simp_all add: access cr_write_def)

end

definition started :: "u32 \<Rightarrow> u32 \<Rightarrow> u32" where
  "started reload cr = PW_SET DANUBE_WDT_PW2 OR PWL_SET (PWL_GET cr) OR CLKDIV_SET (CLKDIV_GET cr) OR RELOAD_SET reload OR CR_GEN"

lemma get_modes:
  "PW_GET CR_GEN = 0" "PW_GET CR_LPEN = 0" "PW_GET CR_DSEN = 0" "PWL_GET CR_GEN = 0" "CLKDIV_GET CR_GEN = 0" "RELOAD_GET CR_GEN = 0"
  "RELOAD_GET CR_LPEN = 0" "RELOAD_GET CR_DSEN = 0" "PW_GET 0 = 0" "RELOAD_GET 0 = 0"
  by (simp_all add: field_defs)

lemma get_kept:
  "PW_GET (v AND 0xFF00FFFF AND x) = 0" "RELOAD_GET (v AND 0xFF00FFFF AND 0xF3FFFFFF) = RELOAD_GET v"
  "RELOAD_GET (v AND 0xFF00FFFF AND 0xFCFFFFFF) = RELOAD_GET v"
  "bit (v AND 0xFF00FFFF AND 0xF3FFFFFF) 31 \<longleftrightarrow> bit v 31" "bit (v AND 0xFF00FFFF AND 0xFCFFFFFF) 31 \<longleftrightarrow> bit v 31"
  unfolding field_defs field_masks by ((intro bit_word_eqI)?; auto simp: bit_simps)+

interpretation stop: register_change wdt_disable "\<lambda>_. PW_SET DANUBE_WDT_PW2"
  by unfold_locales (simp_all add: wdt_disable_def get_set)

interpretation low_power: register_change "wdt_low_power en" "\<lambda>_. PW_SET DANUBE_WDT_PW2 OR (if en \<noteq> 0 then CR_LPEN else 0)" for en
  by unfold_locales (simp_all add: wdt_low_power_unfold get_or get_set get_modes)

interpretation suspend: register_change "wdt_debug_suspend en" "\<lambda>_. PW_SET DANUBE_WDT_PW2 OR (if en \<noteq> 0 then CR_DSEN else 0)" for en
  by unfold_locales (simp_all add: wdt_debug_suspend_unfold get_or get_set get_modes)

interpretation limit: register_change "wdt_prewarning_limit pwl"
  "\<lambda>cr. cr AND 0xFF00FFFF AND 0xF3FFFFFF OR (PW_SET DANUBE_WDT_PW2 OR PWL_SET (of_int pwl))" for pwl
  by unfold_locales (simp_all only: wdt_prewarning_limit_def Let_def get_or get_set get_kept, simp)

interpretation divider: register_change "wdt_set_clkdiv clkdiv"
  "\<lambda>cr. cr AND 0xFF00FFFF AND 0xFCFFFFFF OR (PW_SET DANUBE_WDT_PW2 OR CLKDIV_SET (of_int clkdiv))" for clkdiv
  by unfold_locales (simp_all only: wdt_set_clkdiv_def Let_def get_or get_set get_kept, simp)

interpretation start: register_change
  "\<lambda>s. cr_write (started reload (wdt_cr s)) (cr_write (PW_SET DANUBE_WDT_PW1) s)" "started reload" for reload
  by unfold_locales (simp_all add: started_def get_or get_set get_modes)

lemma wdt_enable_start:
  "wdt_enable ffpi timeout s =
     (let reload = wdt_reload ffpi timeout (wdt_cr s) in
      if reload > 0xFFFF then (- EINVAL, s)
      else (0, cr_write (started reload (wdt_cr s)) (cr_write (PW_SET DANUBE_WDT_PW1) s)))"
  by (simp add: wdt_enable_unfold started_def Let_def)

section \<open>Calls of the device\<close>

lemma wdt_calls:
  "wdt_ioctl c WDT_START (Copied v) s =
     map_option (\<lambda>ffpi. case wdt_enable ffpi (of_int v) (s\<lparr>wdt_timeout := v\<rparr>) of
       (r, s1) \<Rightarrow> (r, None, if r < 0 then s1\<lparr>wdt_timeout := -1\<rparr> else s1)) (cgu_get_cpu_clock c)"
  "wdt_ioctl c WDT_PING arg s =
     (if wdt_timeout s < 0 then Some (- EIO, None, s)
      else map_option (\<lambda>ffpi. case wdt_enable ffpi (of_int (wdt_timeout s)) s of (r, s1) \<Rightarrow> (r, None, s1)) (cgu_get_cpu_clock c))"
  "wdt_ioctl c WDT_SET_PWL arg s = Some (arg_result arg, None, wdt_prewarning_limit (arg_value arg) s)"
  "wdt_ioctl c WDT_SET_DSEN arg s = Some (arg_result arg, None, wdt_debug_suspend (arg_value arg) s)"
  "wdt_ioctl c WDT_SET_LPEN arg s = Some (arg_result arg, None, wdt_low_power (arg_value arg) s)"
  "wdt_ioctl c WDT_SET_CLKDIV arg s = Some (arg_result arg, None, wdt_set_clkdiv (arg_value arg) s)"
  by (simp_all add: wdt_ioctl_def IOW_def IO_def IOR_def)

text \<open>Any order of opening, closing and calls, whatever the clock unit shows at each of them.\<close>

inductive wdt_reach :: "wdt \<Rightarrow> bool" where
  loaded: "cr_log s = [] \<Longrightarrow> wdt_occupied s = 0 \<Longrightarrow> wdt_timeout s = -1 \<Longrightarrow> wdt_reach s"
| opened: "wdt_reach s \<Longrightarrow> wdt_open s = (r, s') \<Longrightarrow> wdt_reach s'"
| closed: "wdt_reach s \<Longrightarrow> wdt_release s = (r, s') \<Longrightarrow> wdt_reach s'"
| called: "wdt_reach s \<Longrightarrow> wdt_ioctl c cmd arg s = Some (r, st, s') \<Longrightarrow> wdt_reach s'"

lemma wdt_enable_protocol:
  assumes "wdt_enable ffpi t s = (r, s')" "protocol (cr_log s)"
  shows "protocol (cr_log s')"
  using assms start.keeps_protocol [of s] by (auto simp: wdt_enable_start Let_def split: if_splits)

lemma wdt_ioctl_protocol:
  assumes "wdt_ioctl c cmd arg s = Some (r, st, s')" "protocol (cr_log s)"
  shows "protocol (cr_log s')"
proof -
  have e: "protocol (cr_log (snd (wdt_enable f t x)))" if "cr_log x = cr_log s" for f t x
    using wdt_enable_protocol [of f t x] assms(2) that by (cases "wdt_enable f t x") auto
  have d: "protocol (cr_log (wdt_disable (s\<lparr>wdt_timeout := -1\<rparr>)))" using stop.keeps_protocol [of "s\<lparr>wdt_timeout := -1\<rparr>"] assms(2) by simp
  from assms(1) show ?thesis
    unfolding wdt_ioctl_def
    using e [of "s\<lparr>wdt_timeout := _\<rparr>"] e [of s] d limit.keeps_protocol [OF assms(2)] suspend.keeps_protocol [OF assms(2)]
      low_power.keeps_protocol [OF assms(2)] divider.keeps_protocol [OF assms(2)] assms(2)
    by (auto simp: case_prod_beta map_option_case split: if_splits user_arg.splits option.splits)
qed

text \<open>The access protocol.  Over any sequence of openings, closings and device calls, failed ones included, the writes to the control register are pairs of
  the first password and a value that carries the second, so none is lost on the lock of the register.\<close>

theorem wdt_access_protocol:
  assumes "wdt_reach s"
  shows "protocol (cr_log s)"
  using assms
  by induction (auto simp: wdt_open_def wdt_release_def wdt_ioctl_protocol split: if_splits)

definition demo_wdt :: wdt where
  "demo_wdt = \<lparr>wdt_cr = 0x03000000, wdt_sr = 0, cr_log = [], wdt_timeout = -1, wdt_occupied = 0\<rparr>"

theorem wdt_access_protocol_witness:
  "\<exists>s. wdt_ioctl demo_cgu WDT_SET_CLKDIV (Copied 2) demo_wdt = Some (0, None, s) \<and> length (cr_log s) = 2 \<and> protocol (cr_log s)"
proof -
  have 0: "wdt_reach demo_wdt" by (rule wdt_reach.loaded) (simp_all add: demo_wdt_def)
  have i: "wdt_ioctl demo_cgu WDT_SET_CLKDIV (Copied 2) demo_wdt = Some (0, None, wdt_set_clkdiv 2 demo_wdt)"
    by (simp add: wdt_calls)
  moreover have "length (cr_log (wdt_set_clkdiv 2 demo_wdt)) = 2" by (simp add: wdt_set_clkdiv_def cr_write_def demo_wdt_def Let_def)
  ultimately show ?thesis using wdt_access_protocol [OF wdt_reach.called [OF 0 i]] by blast
qed


lemma demo_cpu_clock: "cgu_get_cpu_clock demo_cgu = Some 333351563"
proof -
  note demo_fosc
  then show ?thesis by (simp add: cgu_get_cpu_clock_def cgu_get_mips_clock_def) (simp add: demo_cgu_def GET_BITS_def)
qed


text \<open>The product is computed in 32 bits: a timeout of 39 days is accepted with a reload value of less than 20 seconds.\<close>

lemma timeout_wraps: "wdt_reload 333333333 3379197 0x03000000 = 24859"
  by (simp add: wdt_reload_def wdt_clkdiv_def wdt_pwl_def CLKDIV_GET_def PWL_GET_def)

text \<open>Calls on a running watchdog.  Setting the prewarning limit or the divider leaves the watchdog running with its reload value.
  Setting or clearing the low power or the debug mode stops it and clears the reload value, since the source applies the logical negation to the
  masks of the fields.  A call whose argument cannot be read reports the error but changes the register all the same.\<close>

theorem wdt_mode_calls:
  assumes call: "wdt_ioctl c cmd arg s = Some (r, st, s')"
  shows "(cmd \<in> {WDT_SET_PWL, WDT_SET_CLKDIV} \<longrightarrow>
      (bit (wdt_cr s') 31 \<longleftrightarrow> bit (wdt_cr s) 31) \<and> RELOAD_GET (wdt_cr s') = RELOAD_GET (wdt_cr s))
    \<and> (cmd \<in> {WDT_SET_LPEN, WDT_SET_DSEN} \<longrightarrow> \<not> bit (wdt_cr s') 31 \<and> RELOAD_GET (wdt_cr s') = 0)
    \<and> (cmd \<in> {WDT_SET_PWL, WDT_SET_CLKDIV, WDT_SET_LPEN, WDT_SET_DSEN} \<longrightarrow> r = arg_result arg \<and> length (cr_log s') = length (cr_log s) + 2)"
proof -
  have len: "length (cr_log (wdt_prewarning_limit a s)) = length (cr_log s) + 2" "length (cr_log (wdt_set_clkdiv a s)) = length (cr_log s) + 2"
    "length (cr_log (wdt_low_power a s)) = length (cr_log s) + 2" "length (cr_log (wdt_debug_suspend a s)) = length (cr_log s) + 2" for a
    by (simp_all add: limit.access divider.access low_power.access suspend.access cr_write_def)
  have m: "\<not> bit CR_LPEN 31" "\<not> bit CR_DSEN 31" by (simp_all add: bit_iff_odd)
  have keep: "RELOAD_GET (wdt_cr (wdt_prewarning_limit a s)) = RELOAD_GET (wdt_cr s)"
    "bit (wdt_cr (wdt_prewarning_limit a s)) 31 \<longleftrightarrow> bit (wdt_cr s) 31"
    "RELOAD_GET (wdt_cr (wdt_set_clkdiv a s)) = RELOAD_GET (wdt_cr s)" "bit (wdt_cr (wdt_set_clkdiv a s)) 31 \<longleftrightarrow> bit (wdt_cr s) 31" for a
    unfolding limit.register divider.register get_or get_set get_kept bit_or_iff gen_bit by simp_all
  have clear: "RELOAD_GET (wdt_cr (wdt_low_power a s)) = 0" "\<not> bit (wdt_cr (wdt_low_power a s)) 31"
    "RELOAD_GET (wdt_cr (wdt_debug_suspend a s)) = 0" "\<not> bit (wdt_cr (wdt_debug_suspend a s)) 31" for a
    using m by (simp_all add: low_power.register suspend.register get_or get_set get_modes bit_or_iff gen_bit)
  show ?thesis using call keep clear len by (auto simp: wdt_calls)
qed

theorem wdt_mode_calls_witness:
  "\<exists>s'. wdt_ioctl demo_cgu WDT_SET_LPEN (Copied 1) (demo_wdt\<lparr>wdt_cr := 0x80004000\<rparr>) = Some (0, None, s') \<and> \<not> bit (wdt_cr s') 31"
proof -
  have "wdt_ioctl demo_cgu WDT_SET_LPEN (Copied 1) (demo_wdt\<lparr>wdt_cr := 0x80004000\<rparr>)
    = Some (0, None, wdt_low_power 1 (demo_wdt\<lparr>wdt_cr := 0x80004000\<rparr>))" by (simp add: wdt_calls)
  from wdt_mode_calls [OF this] this show ?thesis by auto
qed

end
