(* ===== verification/Gpio.thy ===== *)
theory Gpio
  imports Prelude
begin

text \<open>
  The driver of the general purpose ports (\<open>port.c\<close>): a table that records which module owns which pin, the functions that set or
  clear a pin's bit in one of the registers of its port for the owner, the device on which user space reserves, changes and
  frees a pin in one call, and the file under \<open>/proc\<close> that shows the registers.  The table is two rows of sixteen
  numbers, one after the other, so an index past the end of the first row is in the second, and one past the second is outside.
\<close>

section \<open>State\<close>

abbreviation (input) MAX_PORTS :: s32 where "MAX_PORTS \<equiv> 2"
abbreviation (input) PINS_PER_PORT :: s32 where "PINS_PER_PORT \<equiv> 16"
abbreviation (input) PORT_MODULE_ID :: s32 where "PORT_MODULE_ID \<equiv> 0xFF"
abbreviation (input) DANUBE_GPIO_BASE :: u32 where "DANUBE_GPIO_BASE \<equiv> 0xBE100B00"

definition DANUBE_PORT_OUT_REG :: u32 where "DANUBE_PORT_OUT_REG = 0x10"
definition DANUBE_PORT_IN_REG :: u32 where "DANUBE_PORT_IN_REG = 0x14"
definition DANUBE_PORT_DIR_REG :: u32 where "DANUBE_PORT_DIR_REG = 0x18"
definition DANUBE_PORT_ALTSEL0_REG :: u32 where "DANUBE_PORT_ALTSEL0_REG = 0x1C"
definition DANUBE_PORT_ALTSEL1_REG :: u32 where "DANUBE_PORT_ALTSEL1_REG = 0x20"
definition DANUBE_PORT_OD_REG :: u32 where "DANUBE_PORT_OD_REG = 0x24"
definition DANUBE_PORT_STOFF_REG :: u32 where "DANUBE_PORT_STOFF_REG = 0x28"
definition DANUBE_PORT_PUDSEL_REG :: u32 where "DANUBE_PORT_PUDSEL_REG = 0x2C"
definition DANUBE_PORT_PUDEN_REG :: u32 where "DANUBE_PORT_PUDEN_REG = 0x30"

lemmas port_reg_defs = DANUBE_PORT_OUT_REG_def DANUBE_PORT_IN_REG_def DANUBE_PORT_DIR_REG_def DANUBE_PORT_ALTSEL0_REG_def
  DANUBE_PORT_ALTSEL1_REG_def DANUBE_PORT_OD_REG_def DANUBE_PORT_STOFF_REG_def DANUBE_PORT_PUDSEL_REG_def DANUBE_PORT_PUDEN_REG_def

record gpio =
  danube_port_pin_usage :: "nat \<Rightarrow> s32"
  port_regs :: "u32 \<Rightarrow> u32"
  port_sem :: nat

datatype port_fault = Outside

definition danube_port_bases :: "s32 \<Rightarrow> u32" where
  "danube_port_bases port = (if port = 0 then DANUBE_GPIO_BASE else DANUBE_GPIO_BASE + 0x30)"

definition pin_cell :: "s32 \<Rightarrow> s32 \<Rightarrow> nat" where
  "pin_cell port pin = nat (port * 16 + pin)"

section \<open>Owning a pin\<close>

definition danube_port_reserve_pin :: "s32 \<Rightarrow> s32 \<Rightarrow> s32 \<Rightarrow> gpio \<Rightarrow> port_fault + s32 \<times> gpio" where
  "danube_port_reserve_pin port pin module_id s =
     (if port < 0 \<or> pin < 0 then Inr (- EINVAL, s)
      else if port > MAX_PORTS \<or> pin > PINS_PER_PORT then Inr (- EINVAL, s)
      else if pin_cell port pin \<ge> 32 then Inl Outside
      else if danube_port_pin_usage s (pin_cell port pin) = 0 then
        Inr (OK, s\<lparr>danube_port_pin_usage := (danube_port_pin_usage s)(pin_cell port pin := module_id)\<rparr>)
      else Inr (- EBUSY, s))"

definition danube_port_free_pin :: "s32 \<Rightarrow> s32 \<Rightarrow> s32 \<Rightarrow> gpio \<Rightarrow> port_fault + s32 \<times> gpio" where
  "danube_port_free_pin port pin module_id s =
     (if port < 0 \<or> pin < 0 then Inr (- EINVAL, s)
      else if port > MAX_PORTS \<or> pin > PINS_PER_PORT then Inr (- EINVAL, s)
      else if pin_cell port pin \<ge> 32 then Inl Outside
      else if danube_port_pin_usage s (pin_cell port pin) \<noteq> module_id then Inr (- EBUSY, s)
      else Inr (OK, s\<lparr>danube_port_pin_usage := (danube_port_pin_usage s)(pin_cell port pin := 0)\<rparr>))"

section \<open>Changing a pin\<close>

text \<open>The functions below have one body, with the register and the bit operation left open.\<close>

definition port_modify ::
  "u32 \<Rightarrow> (u32 \<Rightarrow> u32 \<Rightarrow> u32) \<Rightarrow> s32 \<Rightarrow> s32 \<Rightarrow> s32 \<Rightarrow> gpio \<Rightarrow> port_fault + s32 \<times> gpio" where
  "port_modify r f port pin module_id s =
     (if port < 0 \<or> pin < 0 then Inr (- EINVAL, s)
      else if port > MAX_PORTS \<or> pin > PINS_PER_PORT then Inr (- EINVAL, s)
      else if pin_cell port pin \<ge> 32 then Inl Outside
      else if danube_port_pin_usage s (pin_cell port pin) \<noteq> module_id then Inr (- EBUSY, s)
      else
        let a = danube_port_bases port + r; reg = port_regs s a
        in Inr (OK, s\<lparr>port_regs := (port_regs s)(a := f reg (push_bit (nat pin) 1))\<rparr>))"


type_synonym pin_oper = "s32 \<Rightarrow> s32 \<Rightarrow> s32 \<Rightarrow> gpio \<Rightarrow> port_fault + s32 \<times> gpio"

definition danube_port_set_open_drain :: pin_oper where
  "danube_port_set_open_drain = port_modify DANUBE_PORT_OD_REG (\<lambda>reg b. reg OR b)"

definition danube_port_clear_open_drain :: pin_oper where
  "danube_port_clear_open_drain = port_modify DANUBE_PORT_OD_REG (\<lambda>reg b. reg AND NOT b)"

definition danube_port_set_pudsel :: pin_oper where
  "danube_port_set_pudsel = port_modify DANUBE_PORT_PUDSEL_REG (\<lambda>reg b. reg OR b)"

definition danube_port_clear_pudsel :: pin_oper where
  "danube_port_clear_pudsel = port_modify DANUBE_PORT_PUDSEL_REG (\<lambda>reg b. reg AND NOT b)"

definition danube_port_set_puden :: pin_oper where
  "danube_port_set_puden = port_modify DANUBE_PORT_PUDEN_REG (\<lambda>reg b. reg OR b)"

definition danube_port_clear_puden :: pin_oper where
  "danube_port_clear_puden = port_modify DANUBE_PORT_PUDEN_REG (\<lambda>reg b. reg AND NOT b)"

definition danube_port_set_stoff :: pin_oper where
  "danube_port_set_stoff = port_modify DANUBE_PORT_STOFF_REG (\<lambda>reg b. reg OR b)"

definition danube_port_clear_stoff :: pin_oper where
  "danube_port_clear_stoff = port_modify DANUBE_PORT_STOFF_REG (\<lambda>reg b. reg AND NOT b)"

definition danube_port_set_dir_out :: pin_oper where
  "danube_port_set_dir_out = port_modify DANUBE_PORT_DIR_REG (\<lambda>reg b. reg OR b)"

definition danube_port_set_dir_in :: pin_oper where
  "danube_port_set_dir_in = port_modify DANUBE_PORT_DIR_REG (\<lambda>reg b. reg AND NOT b)"

definition danube_port_set_output :: pin_oper where
  "danube_port_set_output = port_modify DANUBE_PORT_OUT_REG (\<lambda>reg b. reg OR b)"

definition danube_port_clear_output :: pin_oper where
  "danube_port_clear_output = port_modify DANUBE_PORT_OUT_REG (\<lambda>reg b. reg AND NOT b)"

definition danube_port_set_altsel0 :: pin_oper where
  "danube_port_set_altsel0 = port_modify DANUBE_PORT_ALTSEL0_REG (\<lambda>reg b. reg OR b)"

definition danube_port_clear_altsel0 :: pin_oper where
  "danube_port_clear_altsel0 = port_modify DANUBE_PORT_ALTSEL0_REG (\<lambda>reg b. reg AND NOT b)"

definition danube_port_set_altsel1 :: pin_oper where
  "danube_port_set_altsel1 = port_modify DANUBE_PORT_ALTSEL1_REG (\<lambda>reg b. reg OR b)"

definition danube_port_clear_altsel1 :: pin_oper where
  "danube_port_clear_altsel1 = port_modify DANUBE_PORT_ALTSEL1_REG (\<lambda>reg b. reg AND NOT b)"

definition danube_port_get_input :: "s32 \<Rightarrow> s32 \<Rightarrow> s32 \<Rightarrow> gpio \<Rightarrow> port_fault + s32" where
  "danube_port_get_input port pin module_id s =
     (if port < 0 \<or> pin < 0 then Inr (- EINVAL)
      else if port > MAX_PORTS \<or> pin > PINS_PER_PORT then Inr (- EINVAL)
      else if pin_cell port pin \<ge> 32 then Inl Outside
      else if danube_port_pin_usage s (pin_cell port pin) \<noteq> module_id then Inr (- EBUSY)
      else if port_regs s (danube_port_bases port + DANUBE_PORT_IN_REG) AND push_bit (nat pin) 1 = 0 then Inr 0 else Inr 1)"

section \<open>The file that shows the registers\<close>

text \<open>The loop over the bits of a register, from the highest.\<close>

fun bit_chars :: "nat \<Rightarrow> u32 \<Rightarrow> u32 \<Rightarrow> string" where
  "bit_chars 0 reg b = []"
| "bit_chars (Suc n) reg b = (if reg AND b > 0 then CHR ''X'' else CHR '' '') # bit_chars n reg (drop_bit 1 b)"

text \<open>The rows, each with its label and the address of its register.\<close>

definition port_rows :: "(string \<times> u32) list" where
  "port_rows =
    [(''P0-OUT: '', DANUBE_GPIO_BASE + 0x10), (''P1-OUT: '', DANUBE_GPIO_BASE + 0x40),
     (''P0-IN:  '', DANUBE_GPIO_BASE + 0x14), (''P1-IN:  '', DANUBE_GPIO_BASE + 0x44),
     (''P0-DIR: '', DANUBE_GPIO_BASE + 0x18), (''P1-DIR: '', DANUBE_GPIO_BASE + 0x48),
     (''P0-STO: '', DANUBE_GPIO_BASE + 0x28), (''P1-STO: '', DANUBE_GPIO_BASE + 0x58),
     (''P0-PUDE:'', DANUBE_GPIO_BASE + 0x30), (''P1-PUDE:'', DANUBE_GPIO_BASE + 0x60),
     (''P0-OD:  '', DANUBE_GPIO_BASE + 0x24), (''P1-OD:  '', DANUBE_GPIO_BASE + 0x54),
     (''P0-PUDS:'', DANUBE_GPIO_BASE + 0x2C), (''P1-PUDS:'', DANUBE_GPIO_BASE + 0x5C),
     (''P0_ALT0:'', DANUBE_GPIO_BASE + 0x1C), (''P0_ALT1:'', DANUBE_GPIO_BASE + 0x20),
     (''P1_ALT0:'', DANUBE_GPIO_BASE + 0x4C), (''P1_ALT1:'', DANUBE_GPIO_BASE + 0x50)]"

definition port_header :: string where
  "port_header = CHR 0x0A # ''Danube Port Settings'' @ [CHR 0x0A]
     @ ''         3         2         1         0'' @ [CHR 0x0A]
     @ ''        10987654321098765432109876543210'' @ [CHR 0x0A]
     @ ''----------------------------------------'' @ [CHR 0x0A]"

definition danube_port_read_procmem :: "gpio \<Rightarrow> string" where
  "danube_port_read_procmem s =
     port_header @ concat (map (\<lambda>(l, a). CHR 0x0A # l @ bit_chars 32 (port_regs s a) 0x80000000) port_rows) @ [CHR 0x0A, CHR 0x0A]"

section \<open>The device\<close>

record danube_port_ioctl_parm =
  io_port :: s32
  io_pin :: s32
  io_value :: s32

abbreviation (input) DANUBE_PORT_IOC_MAGIC :: u32 where "DANUBE_PORT_IOC_MAGIC \<equiv> 0xBF"

text \<open>The macro that reserves the pin, calls a function and frees the pin again.\<close>

definition PORT_IOC_CALL :: "s32 \<Rightarrow> s32 \<Rightarrow> pin_oper \<Rightarrow> gpio \<Rightarrow> port_fault + s32 \<times> gpio" where
  "PORT_IOC_CALL port pin func s =
     (case danube_port_reserve_pin port pin PORT_MODULE_ID s of
        Inl f \<Rightarrow> Inl f
      | Inr (ret, s1) \<Rightarrow>
          (case (if ret = 0 then func port pin PORT_MODULE_ID s1 else Inr (ret, s1)) of
             Inl f \<Rightarrow> Inl f
           | Inr (ret, s2) \<Rightarrow> if ret = 0 then danube_port_free_pin port pin PORT_MODULE_ID s2 else Inr (ret, s2)))"

text \<open>Reading a pin; here the pin is freed even where it could not be reserved.\<close>

definition port_ioc_input :: "danube_port_ioctl_parm \<Rightarrow> gpio \<Rightarrow> port_fault + s32 \<times> danube_port_ioctl_parm \<times> gpio" where
  "port_ioc_input parm s =
     (case danube_port_reserve_pin (io_port parm) (io_pin parm) PORT_MODULE_ID s of
        Inl f \<Rightarrow> Inl f
      | Inr (ret, s1) \<Rightarrow>
          (case (if ret = 0 then map_sum id (\<lambda>v. parm\<lparr>io_value := v\<rparr>) (danube_port_get_input (io_port parm) (io_pin parm) PORT_MODULE_ID s1)
                 else Inr parm) of
             Inl f \<Rightarrow> Inl f
           | Inr parm' \<Rightarrow>
               map_sum id (\<lambda>(ret, s2). (ret, parm', s2)) (danube_port_free_pin (io_port parm) (io_pin parm) PORT_MODULE_ID s1)))"

definition port_ioctl_switch :: "u32 \<Rightarrow> danube_port_ioctl_parm \<Rightarrow> gpio \<Rightarrow> port_fault + s32 \<times> danube_port_ioctl_parm \<times> gpio" where
  "port_ioctl_switch cmd parm s =
     (let iow = (\<lambda>nr. IOW DANUBE_PORT_IOC_MAGIC nr 12);
          call = (\<lambda>clear set. map_sum id (\<lambda>(ret, s1). (ret, parm, s1))
                   (PORT_IOC_CALL (io_port parm) (io_pin parm) (if io_value parm = 0 then clear else set) s))
      in if cmd = iow 0 then call danube_port_clear_open_drain danube_port_set_open_drain
         else if cmd = iow 1 then call danube_port_clear_pudsel danube_port_set_pudsel
         else if cmd = iow 2 then call danube_port_clear_puden danube_port_set_puden
         else if cmd = iow 3 then call danube_port_clear_stoff danube_port_set_stoff
         else if cmd = iow 4 then call danube_port_set_dir_in danube_port_set_dir_out
         else if cmd = iow 5 then call danube_port_clear_output danube_port_set_output
         else if cmd = iow 7 then call danube_port_clear_altsel0 danube_port_set_altsel0
         else if cmd = iow 8 then call danube_port_clear_altsel1 danube_port_set_altsel1
         else if cmd = IOWR DANUBE_PORT_IOC_MAGIC 6 12 then port_ioc_input parm s
         else Inr (- EINVAL, parm, s))"

text \<open>\<open>user_ok\<close> is the result of \<open>access_ok\<close>, the same for both directions; the result holds the parameters as copied back.\<close>

definition danube_port_ioctl ::
  "bool \<Rightarrow> u32 \<Rightarrow> danube_port_ioctl_parm \<Rightarrow> gpio \<Rightarrow> port_fault + s32 \<times> danube_port_ioctl_parm \<times> gpio" where
  "danube_port_ioctl user_ok cmd parm s =
     (if IOC_TYPE cmd \<noteq> DANUBE_PORT_IOC_MAGIC then Inr (- EINVAL, parm, s)
      else if IOC_DIR cmd AND 4 \<noteq> 0 \<and> \<not> user_ok then Inr (- EFAULT, parm, s)
      else if IOC_DIR cmd AND 2 \<noteq> 0 \<and> \<not> user_ok then Inr (- EFAULT, parm, s)
      else if port_sem s = 0 then Inr (- EBUSY, parm, s)
      else map_sum id (\<lambda>(ret, parm', s1). (ret, parm', s1\<lparr>port_sem := port_sem s1 + 1\<rparr>))
             (port_ioctl_switch cmd parm (s\<lparr>port_sem := port_sem s - 1\<rparr>)))"

definition danube_port_open :: s32 where "danube_port_open = OK"
definition danube_port_release :: s32 where "danube_port_release = OK"

text \<open>\<open>major\<close> is the result of \<open>register_chrdev\<close>.\<close>

definition danube_port_init :: "s32 \<Rightarrow> gpio \<Rightarrow> s32 \<times> gpio" where
  "danube_port_init major s =
     (let s1 = s\<lparr>port_sem := 1, danube_port_pin_usage := (\<lambda>c. if c < 32 then 0 else danube_port_pin_usage s c)\<rparr>
      in if major > 0 then (OK, s1) else (major, s1))"

section \<open>The contract of the functions that change a pin\<close>

definition pin_ok :: "s32 \<Rightarrow> s32 \<Rightarrow> bool" where
  "pin_ok port pin \<longleftrightarrow> 0 \<le> port \<and> port < 2 \<and> 0 \<le> pin \<and> pin < 16"

definition pin_reg :: "s32 \<Rightarrow> u32 \<Rightarrow> u32" where
  "pin_reg port r = danube_port_bases port + r"

definition out_regs :: "u32 set" where
  "out_regs = {DANUBE_PORT_OUT_REG, DANUBE_PORT_DIR_REG, DANUBE_PORT_ALTSEL0_REG, DANUBE_PORT_ALTSEL1_REG, DANUBE_PORT_OD_REG,
     DANUBE_PORT_STOFF_REG, DANUBE_PORT_PUDSEL_REG, DANUBE_PORT_PUDEN_REG}"

lemma pin_reg_inj:
  "r \<in> out_regs \<Longrightarrow> r' \<in> out_regs \<Longrightarrow> pin_ok port pin \<Longrightarrow> pin_ok port' pin' \<Longrightarrow>
     pin_reg port r = pin_reg port' r' \<longleftrightarrow> port = port' \<and> r = r'"
  unfolding out_regs_def port_reg_defs
  by (auto simp: pin_reg_def danube_port_bases_def pin_ok_def)

lemma pin_cell_ok: "pin_ok port pin \<Longrightarrow> pin_cell port pin < 32"
  by (auto simp: pin_ok_def pin_cell_def)

lemma pin_cell_inj:
  "pin_ok port pin \<Longrightarrow> pin_ok port' pin' \<Longrightarrow> pin_cell port pin = pin_cell port' pin' \<longleftrightarrow> port = port' \<and> pin = pin'"
proof -
  assume "pin_ok port pin" "pin_ok port' pin'"
  then have "0 \<le> port * 16 + pin" "0 \<le> port' * 16 + pin'" "port = 0 \<or> port = 1" "port' = 0 \<or> port' = 1" "0 \<le> pin" "pin < 16" "0 \<le> pin'" "pin' < 16"
    by (auto simp: pin_ok_def)
  then show ?thesis by (auto simp: pin_cell_def eq_nat_nat_iff)
qed

lemma pin_accepted: "pin_ok port pin \<Longrightarrow> \<not> (port < 0 \<or> pin < 0) \<and> \<not> (port > 2 \<or> pin > 16) \<and> \<not> pin_cell port pin \<ge> 32"
  using pin_cell_ok [of port pin] by (auto simp: pin_ok_def)

text \<open>A function of this kind writes one value to the pin's bit in one register, for the owner of the pin only.\<close>

locale pin_operation =
  fixes oper :: pin_oper and r :: u32 and v :: bool
  assumes out_reg: "r \<in> out_regs"
    and denied: "pin_ok port pin \<Longrightarrow> danube_port_pin_usage s (pin_cell port pin) \<noteq> m \<Longrightarrow> oper port pin m s = Inr (- EBUSY, s)"
    and allowed: "pin_ok port pin \<Longrightarrow> danube_port_pin_usage s (pin_cell port pin) = m \<Longrightarrow>
      \<exists>w. oper port pin m s = Inr (OK, s\<lparr>port_regs := (port_regs s)(pin_reg port r := w)\<rparr>)
        \<and> (\<forall>b<32. bit w b \<longleftrightarrow> (if b = nat pin then v else bit (port_regs s (pin_reg port r)) b))"
begin

text \<open>The owner's call.\<close>

lemma owner_call:
  assumes "pin_ok port pin" "danube_port_pin_usage s (pin_cell port pin) = m"
  shows "\<exists>s'. oper port pin m s = Inr (OK, s') \<and> danube_port_pin_usage s' = danube_port_pin_usage s \<and> port_sem s' = port_sem s
    \<and> (\<forall>a. a \<noteq> pin_reg port r \<longrightarrow> port_regs s' a = port_regs s a)
    \<and> (\<forall>b<32. bit (port_regs s' (pin_reg port r)) b \<longleftrightarrow> (if b = nat pin then v else bit (port_regs s (pin_reg port r)) b))"
  using allowed [OF assms] by auto

text \<open>One call of the device on a free pin, and on a pin in use.\<close>

lemma ioc_free:
  assumes ok: "pin_ok port pin" and free: "danube_port_pin_usage s (pin_cell port pin) = 0"
  shows "\<exists>s'. PORT_IOC_CALL port pin oper s = Inr (OK, s') \<and> danube_port_pin_usage s' = danube_port_pin_usage s \<and> port_sem s' = port_sem s
    \<and> (\<forall>a. a \<noteq> pin_reg port r \<longrightarrow> port_regs s' a = port_regs s a)
    \<and> (\<forall>b<32. bit (port_regs s' (pin_reg port r)) b \<longleftrightarrow> (if b = nat pin then v else bit (port_regs s (pin_reg port r)) b))"
proof -
  let ?c = "pin_cell port pin"
  let ?s1 = "s\<lparr>danube_port_pin_usage := (danube_port_pin_usage s)(?c := 255)\<rparr>"
  have res: "danube_port_reserve_pin port pin 255 s = Inr (0, ?s1)"
    using pin_accepted [OF ok] free by (simp add: danube_port_reserve_pin_def)
  obtain s2 where s2: "oper port pin 255 ?s1 = Inr (0, s2)" "danube_port_pin_usage s2 = danube_port_pin_usage ?s1" "port_sem s2 = port_sem ?s1"
    "\<forall>a. a \<noteq> pin_reg port r \<longrightarrow> port_regs s2 a = port_regs ?s1 a"
    "\<forall>b<32. bit (port_regs s2 (pin_reg port r)) b \<longleftrightarrow> (if b = nat pin then v else bit (port_regs ?s1 (pin_reg port r)) b)"
    using owner_call [OF ok, of ?s1 255] by auto
  have "danube_port_free_pin port pin 255 s2 = Inr (0, s2\<lparr>danube_port_pin_usage := danube_port_pin_usage s\<rparr>)"
    using pin_accepted [OF ok] s2(2) free by (simp add: danube_port_free_pin_def fun_upd_idem)
  then show ?thesis using res s2 by (simp add: PORT_IOC_CALL_def)
qed

lemma ioc_busy:
  assumes ok: "pin_ok port pin" and busy: "danube_port_pin_usage s (pin_cell port pin) \<noteq> 0"
  shows "PORT_IOC_CALL port pin oper s = Inr (- EBUSY, s)"
  using pin_accepted [OF ok] busy by (simp add: PORT_IOC_CALL_def danube_port_reserve_pin_def)

text \<open>A write of this kind to a pin leaves the bits of the other pins.\<close>

lemma other_pin:
  assumes ok: "pin_ok port pin" "pin_ok p q" and r': "r' \<in> out_regs"
    and s': "\<forall>a. a \<noteq> pin_reg port r \<longrightarrow> port_regs s' a = port_regs s a"
      "\<forall>b<32. bit (port_regs s' (pin_reg port r)) b \<longleftrightarrow> (if b = nat pin then v else bit (port_regs s (pin_reg port r)) b)"
    and ne: "pin_cell port pin \<noteq> pin_cell p q"
  shows "bit (port_regs s' (pin_reg p r')) (nat q) \<longleftrightarrow> bit (port_regs s (pin_reg p r')) (nat q)"
proof -
  have q: "nat q < 32" using ok(2) by (auto simp: pin_ok_def)
  have "nat q \<noteq> nat pin" if "pin_reg p r' = pin_reg port r"
    using pin_reg_inj [OF r' out_reg ok(2,1)] that ne ok by (auto simp: pin_ok_def eq_nat_nat_iff)
  then show ?thesis using s' q by (cases "pin_reg p r' = pin_reg port r") auto
qed

text \<open>A pin that another module owns keeps its owner and its bits in all registers.\<close>

lemma foreign_pin:
  assumes ok: "pin_ok port pin" "pin_ok p q" and own: "danube_port_pin_usage s (pin_cell p q) \<noteq> m" and r': "r' \<in> out_regs"
    and c: "oper port pin m s = Inr (ret, s')"
  shows "danube_port_pin_usage s' = danube_port_pin_usage s
    \<and> (bit (port_regs s' (pin_reg p r')) (nat q) \<longleftrightarrow> bit (port_regs s (pin_reg p r')) (nat q))"
proof (cases "danube_port_pin_usage s (pin_cell port pin) = m")
  case True
  from owner_call [OF ok(1) True] c
  have s': "danube_port_pin_usage s' = danube_port_pin_usage s" "\<forall>a. a \<noteq> pin_reg port r \<longrightarrow> port_regs s' a = port_regs s a"
    "\<forall>b<32. bit (port_regs s' (pin_reg port r)) b \<longleftrightarrow> (if b = nat pin then v else bit (port_regs s (pin_reg port r)) b)"
    by auto
  then show ?thesis using other_pin [OF ok r' s'(2,3)] True own by metis
next
  case False
  then show ?thesis using denied [OF ok(1) False] c by simp
qed

lemma ioc_foreign:
  assumes ok: "pin_ok port pin" "pin_ok p q" and own: "danube_port_pin_usage s (pin_cell p q) \<noteq> 0" and r': "r' \<in> out_regs"
    and c: "PORT_IOC_CALL port pin oper s = Inr (ret, s')"
  shows "danube_port_pin_usage s' = danube_port_pin_usage s
    \<and> (bit (port_regs s' (pin_reg p r')) (nat q) \<longleftrightarrow> bit (port_regs s (pin_reg p r')) (nat q))"
proof (cases "danube_port_pin_usage s (pin_cell port pin) = 0")
  case True
  from ioc_free [OF ok(1) True] c
  have s': "danube_port_pin_usage s' = danube_port_pin_usage s" "\<forall>a. a \<noteq> pin_reg port r \<longrightarrow> port_regs s' a = port_regs s a"
    "\<forall>b<32. bit (port_regs s' (pin_reg port r)) b \<longleftrightarrow> (if b = nat pin then v else bit (port_regs s (pin_reg port r)) b)"
    by auto
  then show ?thesis using other_pin [OF ok r' s'(2,3)] True own by metis
next
  case False
  then show ?thesis using ioc_busy [OF ok(1) False] c by simp
qed

end

lemma port_modify_operation:
  assumes r: "r \<in> out_regs" and f: "\<And>reg n b. n < 32 \<Longrightarrow> b < 32 \<Longrightarrow> bit (f reg (push_bit n 1)) b \<longleftrightarrow> (if b = n then v else bit reg b)"
  shows "pin_operation (port_modify r f) r v"
proof
  fix port pin s m
  assume ok: "pin_ok port pin"
  show "port_modify r f port pin m s = Inr (- EBUSY, s)" if "danube_port_pin_usage s (pin_cell port pin) \<noteq> m"
    using pin_accepted [OF ok] that by (simp add: port_modify_def)
  have p: "nat pin < 32" using ok by (auto simp: pin_ok_def)
  show "\<exists>w. port_modify r f port pin m s = Inr (OK, s\<lparr>port_regs := (port_regs s)(pin_reg port r := w)\<rparr>)
        \<and> (\<forall>b<32. bit w b \<longleftrightarrow> (if b = nat pin then v else bit (port_regs s (pin_reg port r)) b))"
    if "danube_port_pin_usage s (pin_cell port pin) = m"
    by (rule exI [of _ "f (port_regs s (pin_reg port r)) (push_bit (nat pin) 1)"])
      (use pin_accepted [OF ok] that f [OF p] in \<open>auto simp: port_modify_def pin_reg_def Let_def simp del: push_bit_of_1\<close>)
qed (rule r)

lemma port_modify_set: "r \<in> out_regs \<Longrightarrow> pin_operation (port_modify r (\<lambda>reg b. reg OR b)) r True"
  by (erule port_modify_operation) (auto simp: bit_or_iff bit_push_bit_iff bit_1_iff simp del: push_bit_of_1)

lemma port_modify_clear: "r \<in> out_regs \<Longrightarrow> pin_operation (port_modify r (\<lambda>reg b. reg AND NOT b)) r False"
  by (erule port_modify_operation) (auto simp: bit_and_iff bit_not_iff bit_push_bit_iff bit_1_iff simp del: push_bit_of_1)

interpretation set_open_drain: pin_operation danube_port_set_open_drain DANUBE_PORT_OD_REG True
  unfolding danube_port_set_open_drain_def by (rule port_modify_set) (simp add: out_regs_def)

interpretation clear_open_drain: pin_operation danube_port_clear_open_drain DANUBE_PORT_OD_REG False
  unfolding danube_port_clear_open_drain_def by (rule port_modify_clear) (simp add: out_regs_def)

interpretation set_pudsel: pin_operation danube_port_set_pudsel DANUBE_PORT_PUDSEL_REG True
  unfolding danube_port_set_pudsel_def by (rule port_modify_set) (simp add: out_regs_def)

interpretation clear_pudsel: pin_operation danube_port_clear_pudsel DANUBE_PORT_PUDSEL_REG False
  unfolding danube_port_clear_pudsel_def by (rule port_modify_clear) (simp add: out_regs_def)

interpretation set_puden: pin_operation danube_port_set_puden DANUBE_PORT_PUDEN_REG True
  unfolding danube_port_set_puden_def by (rule port_modify_set) (simp add: out_regs_def)

interpretation clear_puden: pin_operation danube_port_clear_puden DANUBE_PORT_PUDEN_REG False
  unfolding danube_port_clear_puden_def by (rule port_modify_clear) (simp add: out_regs_def)

interpretation set_stoff: pin_operation danube_port_set_stoff DANUBE_PORT_STOFF_REG True
  unfolding danube_port_set_stoff_def by (rule port_modify_set) (simp add: out_regs_def)

interpretation clear_stoff: pin_operation danube_port_clear_stoff DANUBE_PORT_STOFF_REG False
  unfolding danube_port_clear_stoff_def by (rule port_modify_clear) (simp add: out_regs_def)

interpretation set_dir_out: pin_operation danube_port_set_dir_out DANUBE_PORT_DIR_REG True
  unfolding danube_port_set_dir_out_def by (rule port_modify_set) (simp add: out_regs_def)

interpretation set_dir_in: pin_operation danube_port_set_dir_in DANUBE_PORT_DIR_REG False
  unfolding danube_port_set_dir_in_def by (rule port_modify_clear) (simp add: out_regs_def)

interpretation set_output: pin_operation danube_port_set_output DANUBE_PORT_OUT_REG True
  unfolding danube_port_set_output_def by (rule port_modify_set) (simp add: out_regs_def)

interpretation clear_output: pin_operation danube_port_clear_output DANUBE_PORT_OUT_REG False
  unfolding danube_port_clear_output_def by (rule port_modify_clear) (simp add: out_regs_def)

interpretation set_altsel0: pin_operation danube_port_set_altsel0 DANUBE_PORT_ALTSEL0_REG True
  unfolding danube_port_set_altsel0_def by (rule port_modify_set) (simp add: out_regs_def)

interpretation clear_altsel0: pin_operation danube_port_clear_altsel0 DANUBE_PORT_ALTSEL0_REG False
  unfolding danube_port_clear_altsel0_def by (rule port_modify_clear) (simp add: out_regs_def)

interpretation set_altsel1: pin_operation danube_port_set_altsel1 DANUBE_PORT_ALTSEL1_REG True
  unfolding danube_port_set_altsel1_def by (rule port_modify_set) (simp add: out_regs_def)

interpretation clear_altsel1: pin_operation danube_port_clear_altsel1 DANUBE_PORT_ALTSEL1_REG False
  unfolding danube_port_clear_altsel1_def by (rule port_modify_clear) (simp add: out_regs_def)

definition pin_opers :: "pin_oper set" where
  "pin_opers = {danube_port_set_open_drain, danube_port_clear_open_drain, danube_port_set_pudsel, danube_port_clear_pudsel,
     danube_port_set_puden, danube_port_clear_puden, danube_port_set_stoff, danube_port_clear_stoff, danube_port_set_dir_out,
     danube_port_set_dir_in, danube_port_set_output, danube_port_clear_output, danube_port_set_altsel0, danube_port_clear_altsel0,
     danube_port_set_altsel1, danube_port_clear_altsel1}"

lemma pin_opers_operation: "oper \<in> pin_opers \<Longrightarrow> \<exists>r v. pin_operation oper r v"
  unfolding pin_opers_def
  using set_open_drain.pin_operation_axioms clear_open_drain.pin_operation_axioms set_pudsel.pin_operation_axioms
    clear_pudsel.pin_operation_axioms set_puden.pin_operation_axioms clear_puden.pin_operation_axioms set_stoff.pin_operation_axioms
    clear_stoff.pin_operation_axioms set_dir_out.pin_operation_axioms set_dir_in.pin_operation_axioms set_output.pin_operation_axioms
    clear_output.pin_operation_axioms set_altsel0.pin_operation_axioms clear_altsel0.pin_operation_axioms
    set_altsel1.pin_operation_axioms clear_altsel1.pin_operation_axioms
  by blast

section \<open>The device's calls\<close>

text \<open>The commands that write a pin, with the register of each.\<close>

definition ioc_table :: "(u32 \<times> u32 \<times> pin_oper \<times> pin_oper) list" where
  "ioc_table =
    [(0, DANUBE_PORT_OD_REG, danube_port_clear_open_drain, danube_port_set_open_drain),
     (1, DANUBE_PORT_PUDSEL_REG, danube_port_clear_pudsel, danube_port_set_pudsel),
     (2, DANUBE_PORT_PUDEN_REG, danube_port_clear_puden, danube_port_set_puden),
     (3, DANUBE_PORT_STOFF_REG, danube_port_clear_stoff, danube_port_set_stoff),
     (4, DANUBE_PORT_DIR_REG, danube_port_set_dir_in, danube_port_set_dir_out),
     (5, DANUBE_PORT_OUT_REG, danube_port_clear_output, danube_port_set_output),
     (7, DANUBE_PORT_ALTSEL0_REG, danube_port_clear_altsel0, danube_port_set_altsel0),
     (8, DANUBE_PORT_ALTSEL1_REG, danube_port_clear_altsel1, danube_port_set_altsel1)]"

lemma ioc_table_operations:
  assumes "(nr, r, c, t) \<in> set ioc_table"
  shows "pin_operation c r False \<and> pin_operation t r True \<and> c \<in> pin_opers \<and> t \<in> pin_opers"
proof -
  consider "(nr, r, c, t) \<in> set (take 4 ioc_table)" | "(nr, r, c, t) \<in> set (drop 4 ioc_table)"
    using assms by (metis append_take_drop_id in_set_conv_decomp set_append UnE)
  then show ?thesis
  proof cases
    case 1
    then show ?thesis
      using set_open_drain.pin_operation_axioms clear_open_drain.pin_operation_axioms set_pudsel.pin_operation_axioms
        clear_pudsel.pin_operation_axioms set_puden.pin_operation_axioms clear_puden.pin_operation_axioms
        set_stoff.pin_operation_axioms clear_stoff.pin_operation_axioms
      by (auto simp: ioc_table_def pin_opers_def)
  next
    case 2
    then show ?thesis
      using set_dir_out.pin_operation_axioms set_dir_in.pin_operation_axioms set_output.pin_operation_axioms
        clear_output.pin_operation_axioms set_altsel0.pin_operation_axioms clear_altsel0.pin_operation_axioms
        set_altsel1.pin_operation_axioms clear_altsel1.pin_operation_axioms
      by (auto simp: ioc_table_def pin_opers_def)
  qed
qed

text \<open>What the switch does, by the table.\<close>

lemma switch_table:
  assumes "(nr, r, c, t) \<in> set ioc_table"
  shows "port_ioctl_switch (IOW 0xBF nr 12) parm s = map_sum id (\<lambda>(ret, s1). (ret, parm, s1))
      (PORT_IOC_CALL (io_port parm) (io_pin parm) (if io_value parm = 0 then c else t) s)"
    and "IOC_TYPE (IOW 0xBF nr 12) = 0xBF"
  using assms unfolding ioc_table_def by (auto simp: port_ioctl_switch_def IOW_def IOC_TYPE_def Let_def)

lemma switch_cases:
  obtains (table) nr r c t where "(nr, r, c, t) \<in> set ioc_table" "cmd = IOW 0xBF nr 12"
  | (input) "port_ioctl_switch cmd parm s = port_ioc_input parm s"
  | (none) "port_ioctl_switch cmd parm s = Inr (- EINVAL, parm, s)"
proof -
  consider "cmd \<in> (\<lambda>nr. IOW 0xBF nr 12) ` {0, 1, 2, 3, 4, 5, 7, 8}" | "cmd \<notin> (\<lambda>nr. IOW 0xBF nr 12) ` {0, 1, 2, 3, 4, 5, 7, 8}" by blast
  then show thesis
  proof cases
    case 1
    have "nr \<in> {0, 1, 2, 3, 4, 5, 7, 8} \<Longrightarrow> \<exists>r c t. (nr, r, c, t) \<in> set ioc_table" for nr by (auto simp: ioc_table_def)
    then show thesis using 1 table by blast
  next
    case 2
    then show thesis using input none by (cases "cmd = IOWR 0xBF 6 12") (auto simp: port_ioctl_switch_def Let_def)
  qed
qed

text \<open>Reading a pin changes nothing, unless the device itself holds the pin, which it then frees.\<close>

lemma ioc_input:
  assumes ok: "pin_ok (io_port parm) (io_pin parm)"
  defines "c \<equiv> pin_cell (io_port parm) (io_pin parm)" and "a \<equiv> pin_reg (io_port parm) DANUBE_PORT_IN_REG"
  shows "port_ioc_input parm s =
    (if danube_port_pin_usage s c = 0 then Inr (OK, parm\<lparr>io_value := of_bool (bit (port_regs s a) (nat (io_pin parm)))\<rparr>, s)
     else if danube_port_pin_usage s c = 255 then Inr (OK, parm, s\<lparr>danube_port_pin_usage := (danube_port_pin_usage s)(c := 0)\<rparr>)
     else Inr (- EBUSY, parm, s))"
proof -
  let ?p = "io_port parm" and ?q = "io_pin parm"
  note acc = pin_accepted [OF ok]
  have b: "(x AND push_bit (nat ?q) 1 = 0) \<longleftrightarrow> \<not> bit x (nat ?q)" for x :: u32
    by (simp only: bit_iff_and_push_bit_not_eq_0) simp
  show ?thesis
  proof (cases "danube_port_pin_usage s c = 0")
    case True
    let ?s1 = "s\<lparr>danube_port_pin_usage := (danube_port_pin_usage s)(c := 255)\<rparr>"
    have "danube_port_reserve_pin ?p ?q 255 s = Inr (0, ?s1)"
      using acc True by (simp add: danube_port_reserve_pin_def c_def)
    moreover have "danube_port_get_input ?p ?q 255 ?s1 = Inr (of_bool (bit (port_regs s a) (nat ?q)))"
      using acc b by (simp add: danube_port_get_input_def c_def a_def pin_reg_def del: push_bit_of_1)
    moreover have "danube_port_free_pin ?p ?q 255 ?s1 = Inr (0, s)"
      using acc True by (simp add: danube_port_free_pin_def c_def fun_upd_idem)
    ultimately show ?thesis using True by (simp add: port_ioc_input_def)
  next
    case False
    then show ?thesis using acc by (simp add: port_ioc_input_def danube_port_reserve_pin_def danube_port_free_pin_def c_def)
  qed
qed

section \<open>A module's pins are its own\<close>

text \<open>The calls of the modules in a set and of the device, each with a pin that exists, and the levels of the input pins.\<close>

inductive port_step :: "s32 set \<Rightarrow> gpio \<Rightarrow> gpio \<Rightarrow> bool" for M where
  Reserve: "m \<in> M \<Longrightarrow> pin_ok port pin \<Longrightarrow> danube_port_reserve_pin port pin m s = Inr (ret, s') \<Longrightarrow> port_step M s s'"
| Free: "m \<in> M \<Longrightarrow> pin_ok port pin \<Longrightarrow> danube_port_free_pin port pin m s = Inr (ret, s') \<Longrightarrow> port_step M s s'"
| Change: "m \<in> M \<Longrightarrow> pin_ok port pin \<Longrightarrow> oper \<in> pin_opers \<Longrightarrow> oper port pin m s = Inr (ret, s') \<Longrightarrow> port_step M s s'"
| Ioctl: "PORT_MODULE_ID \<in> M \<Longrightarrow> pin_ok (io_port parm) (io_pin parm) \<Longrightarrow>
    danube_port_ioctl user_ok cmd parm s = Inr (ret, parm', s') \<Longrightarrow> port_step M s s'"
| Level: "port \<in> {0, 1} \<Longrightarrow> port_step M s (s\<lparr>port_regs := (port_regs s)(pin_reg port DANUBE_PORT_IN_REG := w)\<rparr>)"

definition keeps_pin :: "s32 \<Rightarrow> s32 \<Rightarrow> gpio \<Rightarrow> gpio \<Rightarrow> bool" where
  "keeps_pin p q s s' \<longleftrightarrow> danube_port_pin_usage s' (pin_cell p q) = danube_port_pin_usage s (pin_cell p q)
     \<and> (\<forall>r\<in>out_regs. bit (port_regs s' (pin_reg p r)) (nat q) = bit (port_regs s (pin_reg p r)) (nat q))"

lemma keeps_pinI:
  "(\<And>r. r \<in> out_regs \<Longrightarrow> danube_port_pin_usage s' = danube_port_pin_usage s
      \<and> (bit (port_regs s' (pin_reg p r)) (nat q) \<longleftrightarrow> bit (port_regs s (pin_reg p r)) (nat q))) \<Longrightarrow> keeps_pin p q s s'"
  unfolding keeps_pin_def using insertI1 [of DANUBE_PORT_OUT_REG] unfolding out_regs_def by metis

lemma reserve_keeps:
  "pin_ok port pin \<Longrightarrow> pin_ok p q \<Longrightarrow> danube_port_pin_usage s (pin_cell p q) \<noteq> 0 \<Longrightarrow>
     danube_port_reserve_pin port pin m s = Inr (ret, s') \<Longrightarrow> keeps_pin p q s s'"
  by (auto simp: keeps_pin_def danube_port_reserve_pin_def split: if_splits)

lemma free_keeps:
  "pin_ok port pin \<Longrightarrow> pin_ok p q \<Longrightarrow> danube_port_pin_usage s (pin_cell p q) \<noteq> m \<Longrightarrow>
     danube_port_free_pin port pin m s = Inr (ret, s') \<Longrightarrow> keeps_pin p q s s'"
  by (auto simp: keeps_pin_def danube_port_free_pin_def split: if_splits)

lemma ioctl_keeps:
  assumes ok: "pin_ok p q" "pin_ok (io_port parm) (io_pin parm)" and own: "danube_port_pin_usage s (pin_cell p q) \<notin> {0, 255}"
    and c: "danube_port_ioctl user_ok cmd parm s = Inr (ret, parm', s')"
  shows "keeps_pin p q s s'"
proof -
  have sw: "keeps_pin p q u u'" if own: "danube_port_pin_usage u (pin_cell p q) \<notin> {0, 255}"
    and u: "port_ioctl_switch cmd parm u = Inr (ret, parm', u')" for u u'
  proof (cases rule: switch_cases [where cmd = cmd and parm = parm and s = u, case_names table input none])
    case (table nr r c t)
    let ?op = "if io_value parm = 0 then c else t"
    obtain r' v where op: "pin_operation ?op r' v" using ioc_table_operations [OF table(1)] by (cases "io_value parm = 0") auto
    have keep: "keeps_pin p q u u'" if "PORT_IOC_CALL (io_port parm) (io_pin parm) ?op u = Inr (ret, u')" for ret u'
      by (rule keeps_pinI) (use pin_operation.ioc_foreign [OF op ok(2,1) _ _ that] own in blast)
    have "map_sum id (\<lambda>(ret, s1). (ret, parm, s1)) (PORT_IOC_CALL (io_port parm) (io_pin parm) ?op u) = Inr (ret, parm', u')"
      using u switch_table(1) [OF table(1)] table(2) by simp
    then show ?thesis using keep by (cases "PORT_IOC_CALL (io_port parm) (io_pin parm) ?op u") auto
  next
    case input
    then show ?thesis using u ioc_input [OF ok(2), of u] own by (auto simp: keeps_pin_def split: if_splits)
  next
    case none
    then show ?thesis using u by (simp add: keeps_pin_def)
  qed
  show ?thesis
    using c own sw [of "s\<lparr>port_sem := port_sem s - 1\<rparr>"]
    by (cases "port_ioctl_switch cmd parm (s\<lparr>port_sem := port_sem s - 1\<rparr>)")
      (auto simp: danube_port_ioctl_def keeps_pin_def split: if_splits)
qed

lemma step_keeps:
  assumes "port_step M s s'" "pin_ok p q" "danube_port_pin_usage s (pin_cell p q) = m" "m \<noteq> 0" "m \<notin> M"
  shows "keeps_pin p q s s'"
  using assms
proof (induction rule: port_step.induct)
  case (Change m' port pin oper s ret s')
  obtain r v where op: "pin_operation oper r v" using pin_opers_operation [OF Change.hyps(3)] by blast
  have ne: "danube_port_pin_usage s (pin_cell p q) \<noteq> m'" using Change by auto
  show ?case by (rule keeps_pinI) (rule pin_operation.foreign_pin [OF op Change.hyps(2) Change.prems(1) ne _ Change.hyps(4)])
next
  case (Level port s w)
  have "pin_reg port DANUBE_PORT_IN_REG \<noteq> pin_reg p r" if "r \<in> out_regs" for r
    using that Level unfolding out_regs_def port_reg_defs by (auto simp: pin_reg_def danube_port_bases_def pin_ok_def)
  then show ?case unfolding keeps_pin_def by (simp, metis)
next
  case (Free m' port pin s ret s')
  have "danube_port_pin_usage s (pin_cell p q) \<noteq> m'" using Free by auto
  then show ?case using free_keeps [OF Free.hyps(2) Free.prems(1) _ Free.hyps(3)] by blast
next
  case (Ioctl parm user_ok cmd s ret parm' s')
  have "danube_port_pin_usage s (pin_cell p q) \<notin> {0, 255}" using Ioctl by auto
  then show ?case using ioctl_keeps [OF Ioctl.prems(1) Ioctl.hyps(2) _ Ioctl.hyps(3)] by blast
qed (use reserve_keeps in auto)

definition demo_gpio :: gpio where
  "demo_gpio = \<lparr>danube_port_pin_usage = (\<lambda>c. if c = 20 then 7 else 0), port_regs = (\<lambda>_. 0x0010), port_sem = 1\<rparr>"

text \<open>C14: A pin that a module has reserved stays with it: whatever other modules, the device and the input levels do with existing pins,
  in any order, the pin keeps its owner and its bits in all the registers that control it.\<close>

theorem reserved_pin_isolated:
  assumes "(port_step M)\<^sup>*\<^sup>* s s'" and "pin_ok p q" "danube_port_pin_usage s (pin_cell p q) = m" "m \<noteq> 0" "m \<notin> M"
  shows "danube_port_pin_usage s' (pin_cell p q) = m
    \<and> (\<forall>r\<in>out_regs. bit (port_regs s' (pin_reg p r)) (nat q) = bit (port_regs s (pin_reg p r)) (nat q))"
  using assms(1)
proof (induction rule: rtranclp_induct)
  case base
  then show ?case using assms(3) by simp
next
  case (step s' s'')
  then show ?case using step_keeps [OF step.hyps(2) assms(2) _ assms(4,5)] unfolding keeps_pin_def by simp
qed

theorem reserved_pin_isolated_witness:
  "\<exists>s1 s2. danube_port_reserve_pin 1 5 9 demo_gpio = Inr (0, s1) \<and> danube_port_set_output 1 5 9 s1 = Inr (0, s2)
    \<and> danube_port_pin_usage s2 (pin_cell 1 4) = 7 \<and> bit (port_regs s2 (pin_reg 1 DANUBE_PORT_OUT_REG)) 4"
proof -
  have ok: "pin_ok 1 5" "pin_ok 1 4" by (simp_all add: pin_ok_def)
  obtain s1 where s1: "danube_port_reserve_pin 1 5 9 demo_gpio = Inr (0, s1)" "danube_port_pin_usage s1 (pin_cell 1 5) = 9"
    by (simp add: danube_port_reserve_pin_def demo_gpio_def pin_cell_def)
  obtain s2 where s2: "danube_port_set_output 1 5 9 s1 = Inr (0, s2)"
    using set_output.owner_call [OF ok(1) s1(2)] by blast
  have "port_step {9} demo_gpio s1" by (rule port_step.Reserve [OF _ ok(1) s1(1)]) simp
  moreover have "port_step {9} s1 s2" by (rule port_step.Change [where oper = danube_port_set_output and m = 9, OF _ ok(1) _ s2]) (simp_all add: pin_opers_def)
  ultimately have "(port_step {9})\<^sup>*\<^sup>* demo_gpio s2" by simp
  from reserved_pin_isolated [OF this ok(2), of 7]
  have "danube_port_pin_usage s2 (pin_cell 1 4) = 7" "bit (port_regs s2 (pin_reg 1 DANUBE_PORT_OUT_REG)) 4"
    using bit_exp_iff [where 'a = "32 word", of 4 4] by (simp_all add: demo_gpio_def pin_cell_def out_regs_def)
  then show ?thesis using s1(1) s2 by blast
qed

text \<open>The bounds of the source let one index too many pass: pin 16 of port 0 is the table's entry of pin 0 of port 1.\<close>

lemma pin_16_aliases:
  "danube_port_pin_usage s 16 = 0 \<Longrightarrow> \<exists>s'. danube_port_reserve_pin 0 16 m s = Inr (0, s') \<and> danube_port_pin_usage s' (pin_cell 1 0) = m"
  by (simp add: danube_port_reserve_pin_def pin_cell_def)

text \<open>Whether a call leaves the table depends on the pin alone: exactly port 2, with any pin up to 16, and pin 16 of port 1 are
  accepted by the bounds check although the table has no entry for them, for reserving, freeing and each of the sixteen functions that change a pin.\<close>

theorem outside_iff:
  assumes "oper \<in> insert danube_port_reserve_pin (insert danube_port_free_pin pin_opers)"
  shows "oper port pin m s = Inl Outside \<longleftrightarrow> port = 2 \<and> 0 \<le> pin \<and> pin \<le> 16 \<or> port = 1 \<and> pin = 16"
proof -
  have c: "(\<not> (port < 0 \<or> pin < 0) \<and> \<not> (port > 2 \<or> pin > 16) \<and> pin_cell port pin \<ge> 32)
      \<longleftrightarrow> port = 2 \<and> 0 \<le> pin \<and> pin \<le> 16 \<or> port = 1 \<and> pin = 16"
    by (auto simp: pin_cell_def)
  have m: "port_modify r f port pin m s = Inl Outside \<longleftrightarrow> \<not> (port < 0 \<or> pin < 0) \<and> \<not> (port > 2 \<or> pin > 16) \<and> pin_cell port pin \<ge> 32" for r f
    by (auto simp: port_modify_def Let_def)
  have "oper port pin m s = Inl Outside \<longleftrightarrow> \<not> (port < 0 \<or> pin < 0) \<and> \<not> (port > 2 \<or> pin > 16) \<and> pin_cell port pin \<ge> 32"
  proof (cases "oper \<in> pin_opers")
    case True
    then obtain r f where "oper = port_modify r f"
      unfolding pin_opers_def danube_port_set_open_drain_def danube_port_clear_open_drain_def danube_port_set_pudsel_def
        danube_port_clear_pudsel_def danube_port_set_puden_def danube_port_clear_puden_def danube_port_set_stoff_def
        danube_port_clear_stoff_def danube_port_set_dir_out_def danube_port_set_dir_in_def danube_port_set_output_def
        danube_port_clear_output_def danube_port_set_altsel0_def danube_port_clear_altsel0_def danube_port_set_altsel1_def
        danube_port_clear_altsel1_def by blast
    then show ?thesis using m by simp
  next
    case False
    then have "oper = danube_port_reserve_pin \<or> oper = danube_port_free_pin" using assms by blast
    then show ?thesis by (auto simp: danube_port_reserve_pin_def danube_port_free_pin_def split: if_splits)
  qed
  then show ?thesis using c by simp
qed

theorem outside_iff_witness:
  "danube_port_set_output 2 3 255 demo_gpio = Inl Outside \<and> danube_port_set_output 1 15 255 demo_gpio \<noteq> Inl Outside"
  using outside_iff [of danube_port_set_output 2 3 255 demo_gpio] outside_iff [of danube_port_set_output 1 15 255 demo_gpio]
  by (simp add: pin_opers_def)

text \<open>A call of the device that writes a free pin succeeds, sets the pin's bit in the register of the command to the value given,
  changes no other bit of any register, and leaves the pin free and the lock open; on a pin that is reserved it reports that
  and changes nothing.\<close>

theorem port_ioctl_writes_bit:
  assumes cmd: "(nr, r, cl, st) \<in> set ioc_table" and ok: "pin_ok (io_port parm) (io_pin parm)" and sem: "port_sem s = 1"
  defines "c \<equiv> pin_cell (io_port parm) (io_pin parm)"
  shows "if danube_port_pin_usage s c \<noteq> 0 then danube_port_ioctl True (IOW 0xBF nr 12) parm s = Inr (- EBUSY, parm, s)
    else \<exists>s'. danube_port_ioctl True (IOW 0xBF nr 12) parm s = Inr (OK, parm, s') \<and> danube_port_pin_usage s' = danube_port_pin_usage s
      \<and> port_sem s' = 1 \<and> (\<forall>a. a \<noteq> pin_reg (io_port parm) r \<longrightarrow> port_regs s' a = port_regs s a)
      \<and> (\<forall>b<32. bit (port_regs s' (pin_reg (io_port parm) r)) b
           \<longleftrightarrow> (if b = nat (io_pin parm) then io_value parm \<noteq> 0 else bit (port_regs s (pin_reg (io_port parm) r)) b))"
proof -
  let ?s0 = "s\<lparr>port_sem := 0\<rparr>" and ?op = "if io_value parm = 0 then cl else st"
  have op: "pin_operation ?op r (io_value parm \<noteq> 0)" using ioc_table_operations [OF cmd] by simp
  have i: "danube_port_ioctl True (IOW 0xBF nr 12) parm s = map_sum id (\<lambda>(ret, parm', s1). (ret, parm', s1\<lparr>port_sem := port_sem s1 + 1\<rparr>))
      (map_sum id (\<lambda>(ret, s1). (ret, parm, s1)) (PORT_IOC_CALL (io_port parm) (io_pin parm) ?op ?s0))"
    using switch_table [OF cmd] sem by (simp add: danube_port_ioctl_def)
  show ?thesis
  proof (cases "danube_port_pin_usage s c = 0")
    case True
    then obtain s' where "PORT_IOC_CALL (io_port parm) (io_pin parm) ?op ?s0 = Inr (OK, s')"
      "danube_port_pin_usage s' = danube_port_pin_usage s" "port_sem s' = 0"
      "\<forall>a. a \<noteq> pin_reg (io_port parm) r \<longrightarrow> port_regs s' a = port_regs s a"
      "\<forall>b<32. bit (port_regs s' (pin_reg (io_port parm) r)) b
           \<longleftrightarrow> (if b = nat (io_pin parm) then io_value parm \<noteq> 0 else bit (port_regs s (pin_reg (io_port parm) r)) b)"
      using pin_operation.ioc_free [OF op ok, of ?s0] unfolding c_def by auto
    then show ?thesis using True i by simp
  next
    case False
    then have "PORT_IOC_CALL (io_port parm) (io_pin parm) ?op ?s0 = Inr (- EBUSY, ?s0)"
      using pin_operation.ioc_busy [OF op ok, of ?s0] unfolding c_def by simp
    then show ?thesis using False i sem by simp
  qed
qed

theorem port_ioctl_writes_bit_witness:
  "\<exists>s'. danube_port_ioctl True 0x800CBF05 \<lparr>io_port = 0, io_pin = 3, io_value = 1\<rparr> demo_gpio = Inr (0, \<lparr>io_port = 0, io_pin = 3, io_value = 1\<rparr>, s')
    \<and> bit (port_regs s' (pin_reg 0 DANUBE_PORT_OUT_REG)) 3 \<and> danube_port_pin_usage s' = danube_port_pin_usage demo_gpio"
  using port_ioctl_writes_bit [of 5 DANUBE_PORT_OUT_REG danube_port_clear_output danube_port_set_output
      "\<lparr>io_port = 0, io_pin = 3, io_value = 1\<rparr>" demo_gpio]
  by (auto simp: ioc_table_def pin_ok_def demo_gpio_def pin_cell_def IOW_def)

section \<open>What the file shows\<close>

lemma length_bit_chars [simp]: "length (bit_chars n reg b) = n"
  by (induction n reg b rule: bit_chars.induct) simp_all

lemma and_exp_pos: "reg AND push_bit k 1 > 0 \<longleftrightarrow> bit reg k" for reg :: u32
  unfolding bit_iff_and_push_bit_not_eq_0 by (rule word_neq_0_conv [symmetric])

lemma bit_chars_nth:
  "n \<le> Suc k \<Longrightarrow> k < 32 \<Longrightarrow> t < n \<Longrightarrow> bit_chars n reg (push_bit k 1) ! t = (if bit reg (k - t) then CHR ''X'' else CHR '' '')"
proof (induction n arbitrary: k t)
  case (Suc n)
  show ?case
  proof (cases t)
    case 0
    then show ?thesis by (simp add: and_exp_pos del: push_bit_of_1)
  next
    case (Suc t')
    then have k: "0 < k" "t' < n" using Suc.prems by simp_all
    have "drop_bit 1 (push_bit k 1) = (push_bit (k - 1) 1 :: u32)"
      using k Suc.prems by (intro bit_eqI) (auto simp: bit_drop_bit_eq bit_push_bit_iff bit_1_iff simp del: push_bit_of_1)
    then show ?thesis using Suc.IH [of "k - 1" t'] Suc.prems Suc k by (simp del: push_bit_of_1)
  qed
qed simp

lemma concat_rows_nth:
  assumes "\<forall>x\<in>set xs. length (f x) = w" "i < length xs" "j < w"
  shows "concat (map f xs) ! (i * w + j) = f (xs ! i) ! j"
  using assms
proof (induction xs arbitrary: i)
  case (Cons x xs)
  then show ?case by (cases i) (auto simp: nth_append)
qed simp

lemma port_rows_label: "\<forall>x\<in>set port_rows. length (fst x) = 8"
  by (simp add: port_rows_def)

text \<open>The file has the same length whatever the registers hold, and fits in the page it is written to; and the character for bit \<open>b\<close> of the
  register of row \<open>i\<close> is an X exactly when the bit is set.\<close>

theorem port_file_shows_bits:
  assumes "i < length port_rows" "b < 32"
  shows "length (danube_port_read_procmem s) < 4096
    \<and> length (danube_port_read_procmem s) = length (danube_port_read_procmem demo_gpio)
    \<and> (danube_port_read_procmem s ! (length port_header + i * 41 + 9 + (31 - b)) = CHR ''X'' \<longleftrightarrow> bit (port_regs s (snd (port_rows ! i))) b)"
proof -
  define row where "row = (\<lambda>(u :: gpio) (l, a). CHR 0x0A # l @ bit_chars 32 (port_regs u a) 0x80000000)"
  have len: "\<forall>x\<in>set port_rows. length (row u x) = 41" for u
    using port_rows_label by (auto simp: row_def)
  have tot: "length (concat (map (row u) port_rows)) = 738" for u
    using len [of u] by (simp add: port_rows_def)
  have whole: "danube_port_read_procmem u = port_header @ concat (map (row u) port_rows) @ [CHR 0x0A, CHR 0x0A]" for u
    by (simp add: danube_port_read_procmem_def row_def)
  have l: "length (danube_port_read_procmem u) = 885" for u
    unfolding whole by (simp add: tot port_header_def)
  let ?k = "i * 41 + (9 + (31 - b))"
  have i: "i < 18" using assms(1) by (simp add: port_rows_def)
  have "danube_port_read_procmem s ! (length port_header + ?k) = concat (map (row s) port_rows) ! ?k"
  proof -
    have "?k < length (concat (map (row s) port_rows))" using i unfolding tot by simp
    then show ?thesis unfolding whole by (simp only: nth_append_length_plus nth_append_left)
  qed
  also have "\<dots> = row s (port_rows ! i) ! (9 + (31 - b))"
    by (rule concat_rows_nth [OF len assms(1)]) simp
  also have "\<dots> = bit_chars 32 (port_regs s (snd (port_rows ! i))) 0x80000000 ! (31 - b)"
  proof -
    have "length (fst (port_rows ! i)) = 8" using port_rows_label assms(1) by simp
    then show ?thesis by (auto simp: row_def nth_append split: prod.splits)
  qed
  also have "\<dots> = (if bit (port_regs s (snd (port_rows ! i))) b then CHR ''X'' else CHR '' '')"
    using bit_chars_nth [of 32 31 "31 - b"] assms(2) by simp
  finally show ?thesis by (simp add: l add.assoc)
qed

theorem port_file_shows_bits_witness:
  "danube_port_read_procmem demo_gpio ! (length port_header + 1 * 41 + 9 + 27) = CHR ''X''"
  using port_file_shows_bits [of 1 4 demo_gpio] bit_exp_iff [where 'a = "32 word", of 4 4]
  by (simp add: port_rows_def demo_gpio_def)

end
