(* ===== verification/Icu.thy ===== *)
theory Icu
  imports Prelude
begin

text \<open>
  The interrupt controller unit (\<open>basic/interrupt.c\<close>) with the part of the kernel's interrupt layer that calls
  it (\<open>arch/mips/kernel/irq.c\<close>): five modules of 32 interrupts each, with an enable register, a status register
  in which a written one clears the bit, and the masked status that the dispatchers read.
\<close>

section \<open>State\<close>

record irq_desc =
  status :: u32
  action :: "u32 list"
  depth :: nat

record icu =
  ier :: "nat \<Rightarrow> u32"
  isr :: "nat \<Rightarrow> u32"
  ebu_pcc_istat :: u32
  irq_descs :: "nat \<Rightarrow> irq_desc"
  handled :: "(nat \<times> u32) list"

abbreviation (input) IRQ_INPROGRESS :: u32 where "IRQ_INPROGRESS \<equiv> 1"
abbreviation (input) IRQ_DISABLED :: u32 where "IRQ_DISABLED \<equiv> 2"
abbreviation (input) IRQ_PENDING :: u32 where "IRQ_PENDING \<equiv> 4"
abbreviation (input) IRQ_REPLAY :: u32 where "IRQ_REPLAY \<equiv> 8"
abbreviation (input) IRQ_WAITING :: u32 where "IRQ_WAITING \<equiv> 32"

text \<open>The output status is the status masked by the enable register.\<close>

definition iosr :: "nat \<Rightarrow> icu \<Rightarrow> u32" where
  "iosr k s = isr s k AND ier s k"

text \<open>The module and the bit of an interrupt number; numbers of no module are ignored by all operations.\<close>

definition icu_slot :: "nat \<Rightarrow> (nat \<times> nat) option" where
  "icu_slot irq =
     (if irq \<le> 31 \<and> irq \<ge> 0 then Some (0, irq)
      else if irq \<le> 63 \<and> irq \<ge> 32 then Some (1, irq - 32)
      else if irq \<le> 95 \<and> irq \<ge> 64 then Some (2, irq - 64)
      else if irq \<le> 127 \<and> irq \<ge> 96 then Some (3, irq - 96)
      else if irq \<le> 159 \<and> irq \<ge> 128 then Some (4, irq - 128)
      else None)"

definition IER_IR :: "nat \<Rightarrow> u32" where "IER_IR v = push_bit v 1"

section \<open>Operations of the controller\<close>

definition disable_danube_irq :: "nat \<Rightarrow> icu \<Rightarrow> icu" where
  "disable_danube_irq irq s = (case icu_slot irq of
     None \<Rightarrow> s | Some (k, b) \<Rightarrow> s\<lparr>ier := (ier s)(k := ier s k AND NOT (IER_IR b))\<rparr>)"

definition mask_and_ack_danube_irq :: "nat \<Rightarrow> icu \<Rightarrow> icu" where
  "mask_and_ack_danube_irq irq s = (case icu_slot irq of
     None \<Rightarrow> s
   | Some (k, b) \<Rightarrow> s\<lparr>ier := (ier s)(k := ier s k AND NOT (IER_IR b)),
                     isr := (isr s)(k := isr s k AND NOT (IER_IR b))\<rparr>)"

definition enable_danube_irq :: "nat \<Rightarrow> icu \<Rightarrow> icu" where
  "enable_danube_irq irq s = (case icu_slot irq of
     None \<Rightarrow> s | Some (k, b) \<Rightarrow> s\<lparr>ier := (ier s)(k := ier s k OR IER_IR b)\<rparr>)"

definition startup_danube_irq :: "nat \<Rightarrow> icu \<Rightarrow> nat \<times> icu" where
  "startup_danube_irq irq s = (0, enable_danube_irq irq s)"

definition end_danube_irq :: "nat \<Rightarrow> icu \<Rightarrow> icu" where
  "end_danube_irq irq s =
     (if status (irq_descs s irq) AND (IRQ_DISABLED OR IRQ_INPROGRESS) = 0 then enable_danube_irq irq s else s)"

definition init_IRQ :: "icu \<Rightarrow> icu" where
  "init_IRQ s = s\<lparr>ier := (\<lambda>k. if k < 5 then 0 else ier s k),
     irq_descs := (\<lambda>i. if i \<le> 159 then \<lparr>status = IRQ_DISABLED, action = [], depth = 1\<rparr> else irq_descs s i)\<rparr>"

section \<open>The lowest set bit\<close>

definition ls1_step :: "nat \<Rightarrow> nat \<times> u32 \<Rightarrow> nat \<times> u32" where
  "ls1_step s c = (case c of (b, x) \<Rightarrow> let t = (if push_bit s x = 0 then 0 else s) in (b - t, push_bit t x))"

definition ls1bit32 :: "u32 \<Rightarrow> nat" where
  "ls1bit32 x = fst (ls1_step 1 (ls1_step 2 (ls1_step 4 (ls1_step 8 (ls1_step 16 (31, x))))))"

section \<open>The kernel's interrupt layer\<close>

definition set_status :: "nat \<Rightarrow> u32 \<Rightarrow> icu \<Rightarrow> icu" where
  "set_status irq v s = s\<lparr>irq_descs := (irq_descs s)(irq := (irq_descs s irq)\<lparr>status := v\<rparr>)\<rparr>"

text \<open>A handler may change everything; \<open>handler\<close> is what the function at an address does.\<close>

fun handle_IRQ_event :: "(u32 \<Rightarrow> nat \<Rightarrow> icu \<Rightarrow> icu) \<Rightarrow> nat \<Rightarrow> u32 list \<Rightarrow> icu \<Rightarrow> icu" where
  "handle_IRQ_event handler irq [] s = s"
| "handle_IRQ_event handler irq (a # as) s =
     handle_IRQ_event handler irq as (handler a irq (s\<lparr>handled := handled s @ [(irq, a)]\<rparr>))"

text \<open>The loop repeats while the interrupt has become pending again; out of fuel it has no result.\<close>

fun irq_loop :: "nat \<Rightarrow> (u32 \<Rightarrow> nat \<Rightarrow> icu \<Rightarrow> icu) \<Rightarrow> nat \<Rightarrow> u32 list \<Rightarrow> icu \<Rightarrow> icu option" where
  "irq_loop 0 handler irq as s = None"
| "irq_loop (Suc fuel) handler irq as s =
     (let s1 = handle_IRQ_event handler irq as s in
      if status (irq_descs s1 irq) AND IRQ_PENDING = 0 then Some s1
      else irq_loop fuel handler irq as (set_status irq (status (irq_descs s1 irq) AND NOT IRQ_PENDING) s1))"

definition do_IRQ :: "nat \<Rightarrow> (u32 \<Rightarrow> nat \<Rightarrow> icu \<Rightarrow> icu) \<Rightarrow> nat \<Rightarrow> icu \<Rightarrow> icu option" where
  "do_IRQ fuel handler irq s =
     (let s1 = mask_and_ack_danube_irq irq s;
          st = (status (irq_descs s1 irq) AND NOT (IRQ_REPLAY OR IRQ_WAITING)) OR IRQ_PENDING;
          commit = (st AND (IRQ_DISABLED OR IRQ_INPROGRESS) = 0);
          act = (if commit then action (irq_descs s1 irq) else []);
          s2 = set_status irq (if commit then (st AND NOT IRQ_PENDING) OR IRQ_INPROGRESS else st) s1
      in if act = [] then Some (end_danube_irq irq s2)
         else case irq_loop fuel handler irq act s2 of
           None \<Rightarrow> None
         | Some s3 \<Rightarrow>
             Some (end_danube_irq irq (set_status irq (status (irq_descs s3 irq) AND NOT IRQ_INPROGRESS) s3)))"

definition disable_irq_nosync :: "nat \<Rightarrow> icu \<Rightarrow> icu" where
  "disable_irq_nosync irq s =
     (let d = irq_descs s irq; s1 = s\<lparr>irq_descs := (irq_descs s)(irq := d\<lparr>depth := depth d + 1\<rparr>)\<rparr> in
      if depth d = 0 then disable_danube_irq irq (set_status irq (status d OR IRQ_DISABLED) s1) else s1)"

text \<open>\<open>hw_resend_irq\<close> does nothing on this architecture.\<close>

definition enable_irq :: "nat \<Rightarrow> icu \<Rightarrow> icu" where
  "enable_irq irq s =
     (let d = irq_descs s irq in
      if depth d = 0 then s
      else
        let s1 = (if depth d = 1 then
                    let st = status d AND NOT IRQ_DISABLED;
                        st1 = (if st AND (IRQ_PENDING OR IRQ_REPLAY) = IRQ_PENDING then st OR IRQ_REPLAY else st)
                    in enable_danube_irq irq (set_status irq st1 s)
                  else s)
        in s1\<lparr>irq_descs := (irq_descs s1)(irq := (irq_descs s1 irq)\<lparr>depth := depth d - 1\<rparr>)\<rparr>)"

section \<open>Requesting and releasing lines\<close>

text \<open>\<open>setup_irq\<close> and \<open>free_irq\<close> of the kernel for lines that are not shared; \<open>a\<close> is the action and \<open>mem\<close> whether the kernel has memory for it.\<close>

definition request_irq :: "bool \<Rightarrow> nat \<Rightarrow> u32 \<Rightarrow> icu \<Rightarrow> s32 \<times> icu" where
  "request_irq mem irq a s =
     (if irq \<ge> 161 then (- EINVAL, s)
      else if \<not> mem then (- ENOMEM, s)
      else if action (irq_descs s irq) \<noteq> [] then (- EBUSY, s)
      else (0, enable_danube_irq irq (s\<lparr>irq_descs := (irq_descs s)(irq :=
        \<lparr>status = status (irq_descs s irq) AND NOT (IRQ_DISABLED OR 16 OR IRQ_WAITING OR IRQ_INPROGRESS), action = [a], depth = 0\<rparr>)\<rparr>)))"

definition free_irq :: "nat \<Rightarrow> u32 \<Rightarrow> icu \<Rightarrow> icu" where
  "free_irq irq a s =
     (let d = irq_descs s irq in
      if irq \<ge> 161 \<or> a \<notin> set (action d) then s
      else
        let as = remove1 a (action d); s1 = s\<lparr>irq_descs := (irq_descs s)(irq := d\<lparr>action := as\<rparr>)\<rparr> in
        if as = [] then disable_danube_irq irq (set_status irq (status d OR IRQ_DISABLED) s1) else s1)"

text \<open>\<open>disable_irq\<close> also waits until a running handler has ended, which changes nothing.\<close>

definition disable_irq :: "nat \<Rightarrow> icu \<Rightarrow> icu" where
  "disable_irq irq s = disable_irq_nosync irq s"

section \<open>Dispatch\<close>

definition ack_ebu :: "nat \<Rightarrow> icu \<Rightarrow> icu" where
  "ack_ebu irq s = (if irq = 26 then s\<lparr>ebu_pcc_istat := ebu_pcc_istat s OR 0x10\<rparr> else s)"

text \<open>The five dispatchers differ in the module, and the first also acknowledges the external bus unit.\<close>

definition danube_hw_irqdispatch ::
  "nat \<Rightarrow> nat \<Rightarrow> (u32 \<Rightarrow> nat \<Rightarrow> icu \<Rightarrow> icu) \<Rightarrow> icu \<Rightarrow> icu option" where
  "danube_hw_irqdispatch k fuel handler s =
     (let irq = iosr k s in
      if irq = 0 then Some s
      else let n = ls1bit32 irq + 32 * k in do_IRQ fuel handler n (if k = 0 then ack_ebu n s else s))"

section \<open>Search for the lowest bit\<close>

definition lowest :: "u32 \<Rightarrow> nat \<Rightarrow> bool" where
  "lowest x p \<longleftrightarrow> bit x p \<and> (\<forall>q<p. \<not> bit x q)"

lemma lowest_lt: "lowest x p \<Longrightarrow> p < 32"
  using bit_imp_le_length [of x p] by (simp add: lowest_def)

lemma push_bit_zero: "push_bit s x = 0 \<longleftrightarrow> (\<forall>q. q + s < 32 \<longrightarrow> \<not> bit x q)" for x :: u32
proof
  assume z: "push_bit s x = 0"
  show "\<forall>q. q + s < 32 \<longrightarrow> \<not> bit x q"
  proof (intro allI impI)
    fix q assume q: "q + s < 32"
    have "\<not> bit (push_bit s x) (q + s)" by (simp add: z)
    then show "\<not> bit x q" using q by (simp add: bit_push_bit_iff)
  qed
next
  assume *: "\<forall>q. q + s < 32 \<longrightarrow> \<not> bit x q"
  show "push_bit s x = 0"
    by (rule bit_word_eqI) (use * in \<open>auto simp: bit_push_bit_iff\<close>)
qed

lemma lowest_push: "lowest x p \<Longrightarrow> p + s < 32 \<Longrightarrow> lowest (push_bit s x) (p + s)" for x :: u32
  by (auto simp: lowest_def bit_push_bit_iff)

text \<open>One step keeps the distance between the counter and the lowest bit.\<close>

lemma ls1_step:
  assumes x: "lowest x p" and z: "push_bit (2 * s) x = 0" and b: "b + p = 31 + c"
  shows "\<exists>b' x' p'. ls1_step s (b, x) = (b', x') \<and> lowest x' p' \<and> push_bit s x' = 0 \<and> b' + p' = 31 + c"
proof (cases "push_bit s x = 0")
  case True
  then show ?thesis using x b by (auto simp: ls1_step_def)
next
  case False
  then obtain q where "q + s < 32" "bit x q" by (auto simp: push_bit_zero)
  then have ps: "p + s < 32" using x unfolding lowest_def by (meson add_le_mono1 le_less_trans not_le)
  have "push_bit s (push_bit s x) = 0" using z by (simp add: mult_2)
  moreover have "b - s + (p + s) = 31 + c" using ps b by linarith
  ultimately show ?thesis using False lowest_push [OF x ps] by (auto simp: ls1_step_def)
qed

lemma ls1bit32_lowest:
  assumes x: "lowest x p"
  shows "ls1bit32 x = p"
proof -
  have "push_bit (2 * 16) x = 0" by (simp add: push_bit_zero)
  from ls1_step [OF x this, of 31 p] obtain b1 x1 p1 where
    1: "ls1_step 16 (31, x) = (b1, x1)" "lowest x1 p1" "push_bit (2 * 8) x1 = 0" "b1 + p1 = 31 + p" by auto
  from ls1_step [OF 1(2-4)] obtain b2 x2 p2 where
    2: "ls1_step 8 (b1, x1) = (b2, x2)" "lowest x2 p2" "push_bit (2 * 4) x2 = 0" "b2 + p2 = 31 + p" by auto
  from ls1_step [OF 2(2-4)] obtain b3 x3 p3 where
    3: "ls1_step 4 (b2, x2) = (b3, x3)" "lowest x3 p3" "push_bit (2 * 2) x3 = 0" "b3 + p3 = 31 + p" by auto
  from ls1_step [OF 3(2-4)] obtain b4 x4 p4 where
    4: "ls1_step 2 (b3, x3) = (b4, x4)" "lowest x4 p4" "push_bit (2 * 1) x4 = 0" "b4 + p4 = 31 + p" by auto
  from ls1_step [OF 4(2-4)] obtain b5 x5 p5 where
    5: "ls1_step 1 (b4, x4) = (b5, x5)" "lowest x5 p5" "push_bit 1 x5 = 0" "b5 + p5 = 31 + p" by auto
  have "\<not> p5 + 1 < 32" using 5(2,3) unfolding push_bit_zero lowest_def by blast
  then have "p5 = 31" using lowest_lt [OF 5(2)] by simp
  then show ?thesis using 5(4) by (simp add: ls1bit32_def 1(1) 2(1) 3(1) 4(1) 5(1) [unfolded One_nat_def])
qed

lemma lowest_exists: "x \<noteq> 0 \<Longrightarrow> \<exists>p. lowest x p"
proof -
  assume "x \<noteq> 0"
  then obtain q where "bit x q" using bit_eq_iff [of x 0] by auto
  then show ?thesis unfolding lowest_def by (intro exI [of _ "LEAST q. bit x q"]) (metis LeastI not_less_Least)
qed

text \<open>The reference: look at the bits one after the other.\<close>

definition first_set :: "u32 \<Rightarrow> nat option" where
  "first_set x = find (bit x) [0..<32]"

lemma first_set_lowest: "lowest x p \<Longrightarrow> first_set x = Some p"
  using lowest_lt [of x p] unfolding first_set_def
  by (simp add: find_Some_iff lowest_def) (rule exI [of _ p], auto)

lemma first_set_zero: "first_set 0 = None"
  by (simp add: first_set_def find_None_iff del: upt_rec_numeral)

lemma ls1bit32_first: "x \<noteq> 0 \<Longrightarrow> first_set x = Some (ls1bit32 x)"
  using lowest_exists [of x] by (auto simp: first_set_lowest ls1bit32_lowest)

text \<open>C29: The search by halves finds the first set bit that a search from bit 0 upwards finds, for all words.\<close>

theorem ls1bit32_equiv: "first_set x = (if x = 0 then None else Some (ls1bit32 x))"
  by (simp add: first_set_zero ls1bit32_first)

section \<open>Bits of the controller\<close>

lemma slot_of: "irq < 160 \<Longrightarrow> icu_slot irq = Some (irq div 32, irq mod 32)"
proof -
  assume "irq < 160"
  then consider "irq \<le> 31" | "32 \<le> irq \<and> irq \<le> 63" | "64 \<le> irq \<and> irq \<le> 95" | "96 \<le> irq \<and> irq \<le> 127"
    | "128 \<le> irq \<and> irq \<le> 159" by linarith
  then show ?thesis
    by cases (auto simp: icu_slot_def le_mod_geq mod_if div_if)
qed

lemma bit_IER_IR: "b < 32 \<Longrightarrow> bit (IER_IR b) q \<longleftrightarrow> q = b"
  by (auto simp: IER_IR_def bit_exp_iff)

lemma mask_unmask: "b < 32 \<Longrightarrow> bit w b \<Longrightarrow> (w AND NOT (IER_IR b)) OR IER_IR b = w"
  by (rule bit_word_eqI) (auto simp: bit_or_iff bit_and_iff bit_not_iff bit_IER_IR)

lemma set_status_frame [simp]:
  "ier (set_status irq v s) = ier s" "isr (set_status irq v s) = isr s" "handled (set_status irq v s) = handled s"
  "ebu_pcc_istat (set_status irq v s) = ebu_pcc_istat s"
  "irq_descs (set_status irq v s) = (irq_descs s)(irq := (irq_descs s irq)\<lparr>status := v\<rparr>)"
  by (simp_all add: set_status_def)

lemma ack_ebu_frame [simp]:
  "ier (ack_ebu i s) = ier s" "isr (ack_ebu i s) = isr s" "handled (ack_ebu i s) = handled s" "irq_descs (ack_ebu i s) = irq_descs s"
  by (simp_all add: ack_ebu_def)

lemma handle_quiet:
  assumes "\<And>a s. handler a irq s = s"
  shows "handle_IRQ_event handler irq as s = s\<lparr>handled := handled s @ map (Pair irq) as\<rparr>"
  by (induction as arbitrary: s) (simp_all add: assms)

lemma do_IRQ_quiet:
  assumes irq: "irq < 160" and st: "status (irq_descs s irq) = 0" and act: "action (irq_descs s irq) \<noteq> []"
    and on: "bit (ier s (irq div 32)) (irq mod 32)" and h: "\<And>a s. handler a irq s = s"
  shows "do_IRQ (Suc fuel) handler irq s = Some (s\<lparr>handled := handled s @ map (Pair irq) (action (irq_descs s irq)),
    isr := (isr s)(irq div 32 := isr s (irq div 32) AND NOT (IER_IR (irq mod 32)))\<rparr>)"
proof -
  have b: "irq mod 32 < 32" by simp
  have d: "(irq_descs s irq)\<lparr>status := 0\<rparr> = irq_descs s irq" using st by (cases "irq_descs s irq") simp
  show ?thesis
    using st act mask_unmask [OF b on] d
    by (simp add: do_IRQ_def Let_def mask_and_ack_danube_irq_def slot_of [OF irq] handle_quiet [of handler irq, OF h]
      end_danube_irq_def enable_danube_irq_def set_status_def) (rule icu.equality; simp add: d)
qed

text \<open>C24: The dispatcher of a module serves its lowest pending and enabled interrupt: the functions registered
  for it are called once each and in order, its status bit is acknowledged and no other, and afterwards it is
  enabled again, provided its functions leave the controller alone.\<close>

theorem dispatch_serves_lowest:
  assumes k: "k < 5" and p: "first_set (iosr k s) = Some p" and irq: "irq = 32 * k + p"
    and d: "status (irq_descs s irq) = 0" "action (irq_descs s irq) = as" "as \<noteq> []"
    and h: "\<And>a s. handler a irq s = s"
  shows "\<exists>s'. danube_hw_irqdispatch k (Suc fuel) handler s = Some s' \<and> handled s' = handled s @ map (Pair irq) as
    \<and> ier s' = ier s \<and> irq_descs s' = irq_descs s
    \<and> (\<forall>j b. bit (isr s' j) b \<longleftrightarrow> bit (isr s j) b \<and> (j, b) \<noteq> (k, p))"
proof -
  have nz: "iosr k s \<noteq> 0" using p first_set_zero by force
  then have low: "ls1bit32 (iosr k s) = p" using ls1bit32_first [OF nz] p by simp
  obtain q where "lowest (iosr k s) q" using lowest_exists [OF nz] by blast
  then have l: "lowest (iosr k s) p" using p by (simp add: first_set_lowest)
  have p32: "p < 32" by (rule lowest_lt [OF l])
  have on: "bit (ier s k) p" using l by (simp add: lowest_def iosr_def bit_and_iff)
  have dm: "irq div 32 = k" "irq mod 32 = p" "irq < 160" using irq p32 k by simp_all
  let ?s = "if k = 0 then ack_ebu irq s else s"
  have s: "irq_descs ?s = irq_descs s" "ier ?s = ier s" "isr ?s = isr s" "handled ?s = handled s" by simp_all
  have r: "do_IRQ (Suc fuel) handler irq ?s = Some (?s\<lparr>handled := handled s @ map (Pair irq) as, isr := (isr s)(k := isr s k AND NOT (IER_IR p))\<rparr>)"
    using do_IRQ_quiet [OF dm(3), of ?s handler fuel] d on h by (simp add: s dm)
  have i: "danube_hw_irqdispatch k (Suc fuel) handler s = do_IRQ (Suc fuel) handler irq ?s"
    using nz by (simp add: danube_hw_irqdispatch_def low irq add.commute Let_def)
  show ?thesis
    by (rule exI, rule conjI, subst i, rule r) (auto simp: bit_and_iff bit_not_iff bit_IER_IR p32 dest: bit_imp_le_length)
qed

definition demo_icu :: icu where
  "demo_icu = \<lparr>ier = (\<lambda>_. 0x00FF0000), isr = (\<lambda>k. if k = 4 then 0x00160001 else 0), ebu_pcc_istat = 0,
     irq_descs = (\<lambda>_. \<lparr>status = 0, action = [0x80001000], depth = 0\<rparr>), handled = []\<rparr>"

theorem dispatch_serves_lowest_witness:
  "\<exists>s'. danube_hw_irqdispatch 4 1 (\<lambda>_ _ s. s) demo_icu = Some s' \<and> handled s' = [(145, 0x80001000)] \<and> ier s' = ier demo_icu"
proof -
  have "lowest (iosr 4 demo_icu) 17"
    by (simp add: lowest_def iosr_def demo_icu_def) (auto simp: less_eq_nat.simps numeral_eq_Suc less_Suc_eq)
  then have p: "first_set (iosr 4 demo_icu) = Some 17" by (rule first_set_lowest)
  show ?thesis using dispatch_serves_lowest [OF _ p, of 145 "[0x80001000]" "\<lambda>_ _ s. s" 0] by (auto simp: demo_icu_def)
qed

section \<open>Nested disabling\<close>

text \<open>An interrupt that is in use and has nothing pending.\<close>

definition irq_open :: "nat \<Rightarrow> icu \<Rightarrow> bool" where
  "irq_open irq s \<longleftrightarrow> depth (irq_descs s irq) = 0 \<and> bit (ier s (irq div 32)) (irq mod 32)
     \<and> \<not> bit (status (irq_descs s irq)) 1 \<and> \<not> bit (status (irq_descs s irq)) 2"

text \<open>The state after \<open>k\<close> nested calls of \<open>disable_irq_nosync\<close>.\<close>

definition disabled_state :: "nat \<Rightarrow> nat \<Rightarrow> icu \<Rightarrow> icu" where
  "disabled_state irq k s = s\<lparr>irq_descs := (irq_descs s)(irq := (irq_descs s irq)\<lparr>depth := k,
       status := status (irq_descs s irq) OR 2\<rparr>),
     ier := (ier s)(irq div 32 := ier s (irq div 32) AND NOT (IER_IR (irq mod 32)))\<rparr>"

lemma record_order:
  "d\<lparr>depth := k, status := v\<rparr> = d\<lparr>status := v, depth := k\<rparr>" "s\<lparr>ier := e, irq_descs := f\<rparr> = s\<lparr>irq_descs := f, ier := e\<rparr>"
  by (simp_all)

lemma disable_first:
  assumes "irq < 160" and "irq_open irq s"
  shows "disable_irq_nosync irq s = disabled_state irq 1 s"
  using assms by (simp add: disable_irq_nosync_def disabled_state_def irq_open_def Let_def disable_danube_irq_def slot_of
    set_status_def record_order)

lemma disable_more: "disable_irq_nosync irq (disabled_state irq (Suc k) s) = disabled_state irq (Suc (Suc k)) s"
  by (simp add: disable_irq_nosync_def disabled_state_def Let_def record_order)

lemma enable_one: "enable_irq irq (disabled_state irq (Suc (Suc k)) s) = disabled_state irq (Suc k) s"
  by (simp add: enable_irq_def disabled_state_def Let_def record_order)

lemma disable_times:
  assumes "irq < 160" and "irq_open irq s"
  shows "(disable_irq_nosync irq ^^ Suc k) s = disabled_state irq (Suc k) s"
proof (induction k)
  case 0
  then show ?case using disable_first [OF assms] by simp
next
  case (Suc k)
  then show ?case by (simp add: disable_more)
qed

lemma bit_2: "bit (2 :: u32) n \<longleftrightarrow> n = 1"
  using bit_exp_iff [where 'a = "32 word", of 1 n] by auto

lemma clear_disabled: "\<not> bit v 1 \<Longrightarrow> (v OR 2) AND - 3 = v" for v :: u32
proof -
  assume v: "\<not> bit v 1"
  have "(v OR 2) AND NOT 2 = v"
    by (rule bit_word_eqI; unfold bit_and_iff bit_or_iff bit_not_iff bit_2) (use v in auto)
  then show ?thesis by simp
qed

lemma enable_last:
  assumes "irq < 160" and o: "irq_open irq s"
  shows "enable_irq irq (disabled_state irq 1 s) = s"
proof -
  let ?d = "irq_descs s irq"
  have st: "(status ?d OR 2) AND NOT 2 = status ?d" using o clear_disabled [of "status ?d"] by (simp add: irq_open_def)
  have ne: "status ?d AND (4 OR 8) \<noteq> 4"
  proof
    assume a: "status ?d AND (4 OR 8) = 4"
    have "bit (4 :: u32) 2" using bit_exp_iff [where 'a = "32 word", of 2 2] by simp
    then have "bit (status ?d AND (4 OR 8)) 2" unfolding a .
    with o show False by (simp add: irq_open_def bit_and_iff)
  qed
  have ie: "(ier s (irq div 32) AND NOT (IER_IR (irq mod 32))) OR IER_IR (irq mod 32) = ier s (irq div 32)"
    by (rule mask_unmask) (use o in \<open>simp_all add: irq_open_def\<close>)
  have d: "?d\<lparr>status := status ?d, depth := 0\<rparr> = ?d" using o by (cases ?d) (simp add: irq_open_def)
  have e: "enable_irq irq (disabled_state irq 1 s) = s\<lparr>irq_descs := (irq_descs s)(irq := ?d\<lparr>status := status ?d, depth := 0\<rparr>),
      ier := (ier s)(irq div 32 := ier s (irq div 32))\<rparr>"
    unfolding enable_irq_def disabled_state_def Let_def enable_danube_irq_def slot_of [OF assms(1)] set_status_def
    by (simp add: st [simplified] ne [simplified] ie record_order)
  show ?thesis unfolding e d by simp
qed

lemma enable_times:
  assumes "irq < 160" and "irq_open irq s"
  shows "(enable_irq irq ^^ Suc k) (disabled_state irq (Suc k) s) = s"
proof (induction k)
  case 0
  then show ?case using enable_last [OF assms] by simp
next
  case (Suc k)
  have "(enable_irq irq ^^ Suc (Suc k)) (disabled_state irq (Suc (Suc k)) s)
    = (enable_irq irq ^^ Suc k) (enable_irq irq (disabled_state irq (Suc (Suc k)) s))"
    by (simp only: funpow_Suc_right comp_def)
  then show ?case using Suc by (simp only: enable_one)
qed



section \<open>Open and closed lines\<close>

text \<open>The line of an interrupt is open, or closed by exactly one disabling call.\<close>

definition line_on :: "nat \<Rightarrow> icu \<Rightarrow> bool" where
  "line_on irq s \<longleftrightarrow> depth (irq_descs s irq) = 0 \<and> \<not> bit (status (irq_descs s irq)) 1"

definition line_off :: "nat \<Rightarrow> icu \<Rightarrow> bool" where
  "line_off irq s \<longleftrightarrow> depth (irq_descs s irq) = 1 \<and> bit (status (irq_descs s irq)) 1"

lemma danube_irq_descs [simp]:
  "irq_descs (enable_danube_irq i s) = irq_descs s" "irq_descs (disable_danube_irq i s) = irq_descs s"
  by (simp_all add: enable_danube_irq_def disable_danube_irq_def split: option.split)

lemma bit_2_1: "bit (2 :: u32) n \<longleftrightarrow> n = 1"
  using bit_exp_iff [where 'a = "32 word", of 1 n] by auto

lemma disable_line: "line_on irq s \<Longrightarrow> line_off irq (disable_irq irq s)"
  by (simp add: line_on_def line_off_def disable_irq_def disable_irq_nosync_def set_status_def Let_def bit_or_iff bit_2_1)

lemma enable_line: "line_off irq s \<Longrightarrow> line_on irq (enable_irq irq s)"
proof -
  assume off: "line_off irq s"
  have "\<not> bit (8 :: u32) 1" using bit_exp_iff [where 'a = "32 word", of 3 1] by simp
  then show ?thesis using off
    by (simp add: line_on_def line_off_def enable_irq_def set_status_def Let_def bit_or_iff bit_and_iff bit_not_iff bit_2_1)
qed

lemma enable_line_other: "irq' \<noteq> irq \<Longrightarrow> irq_descs (enable_irq irq s) irq' = irq_descs s irq'"
  by (simp add: enable_irq_def set_status_def Let_def)

lemma line_other:
  "irq' \<noteq> irq \<Longrightarrow> irq_descs (disable_irq irq s) irq' = irq_descs s irq'"
  "irq' \<noteq> irq \<Longrightarrow> irq_descs (snd (request_irq b irq a s)) irq' = irq_descs s irq'"
  "irq' \<noteq> irq \<Longrightarrow> irq_descs (free_irq irq a s) irq' = irq_descs s irq'"
  by (simp_all add: disable_irq_def disable_irq_nosync_def set_status_def Let_def request_irq_def free_irq_def)

end
