(* ===== verification/Gptu.thy ===== *)
theory Gptu
  imports Icu U64
begin

text \<open>
  The driver of the general purpose timer unit (\<open>drivers/char/danube_gptu.c\<close>): up to twelve 16-bit timers, each pair of which can
  be used as one 32-bit timer, a bitmap of the timers in use, the unit switched on while one of them is, and an interrupt line per
  timer, opened only while its timer calls a function or sends a signal.  Timer numbers start at 2, as in the source.
\<close>

section \<open>State\<close>

record timer_dev_timer =
  f_irq_on :: u32
  tirq :: nat
  tflag :: u32
  arg1 :: u32
  arg2 :: u32

record gptu =
  number_of_timers :: nat
  occupation :: u32
  f_gptu_on :: u32
  timers :: "nat \<Rightarrow> timer_dev_timer"
  gptu_con :: "nat \<Rightarrow> u32"
  gptu_run :: "nat \<Rightarrow> u32"
  gptu_reload :: "nat \<Rightarrow> u32"
  gptu_count :: "nat \<Rightarrow> u32"
  gptu_irnen :: u32
  gptu_irncr :: u32
  gptu_clc :: u32
  pmu_gpt_off :: bool
  gptu_icu :: icu

text \<open>The registers of a timer are addressed by its number, the block \<open>n = timer >> 1\<close> and the letter \<open>X = timer & 1\<close> of the source.\<close>

abbreviation (input) FIRST_TIMER :: u32 where "FIRST_TIMER \<equiv> 2"
abbreviation (input) TIMER1B :: u32 where "TIMER1B \<equiv> 3"
abbreviation (input) TIMER_FLAG_32BIT :: u32 where "TIMER_FLAG_32BIT \<equiv> 0x0001"
abbreviation (input) TIMER_FLAG_COUNTER :: u32 where "TIMER_FLAG_COUNTER \<equiv> 0x0002"
abbreviation (input) TIMER_FLAG_CYCLIC :: u32 where "TIMER_FLAG_CYCLIC \<equiv> 0x0004"
abbreviation (input) TIMER_FLAG_DOWN :: u32 where "TIMER_FLAG_DOWN \<equiv> 0x0008"
abbreviation (input) TIMER_FLAG_SYNC :: u32 where "TIMER_FLAG_SYNC \<equiv> 0x0080"
abbreviation (input) TIMER_FLAG_CALLBACK_IN_IRQ :: u32 where "TIMER_FLAG_CALLBACK_IN_IRQ \<equiv> 0x0100"
abbreviation (input) TIMER_FLAG_CALLBACK_IN_HB :: u32 where "TIMER_FLAG_CALLBACK_IN_HB \<equiv> 0x0200"
abbreviation (input) TIMER_FLAG_SIGNAL :: u32 where "TIMER_FLAG_SIGNAL \<equiv> 0x0300"
abbreviation (input) TIMER_FLAG_EXT_SRC :: u32 where "TIMER_FLAG_EXT_SRC \<equiv> 0x1000"

definition TIMER_INTERRUPT :: nat where "TIMER_INTERRUPT = 118"

definition MASK_SIZE :: "u32 \<Rightarrow> u32" where "MASK_SIZE x = x AND 0x0001"
definition MASK_TYPE :: "u32 \<Rightarrow> u32" where "MASK_TYPE x = x AND 0x0002"
definition MASK_STOP :: "u32 \<Rightarrow> u32" where "MASK_STOP x = x AND 0x0004"
definition MASK_DIR :: "u32 \<Rightarrow> u32" where "MASK_DIR x = x AND 0x0008"
definition MASK_EDGE :: "u32 \<Rightarrow> u32" where "MASK_EDGE x = x AND 0x0030"
definition MASK_INVERT :: "u32 \<Rightarrow> u32" where "MASK_INVERT x = x AND 0x0040"
definition MASK_TRIGGER :: "u32 \<Rightarrow> u32" where "MASK_TRIGGER x = x AND 0x0070"
definition MASK_SYNC :: "u32 \<Rightarrow> u32" where "MASK_SYNC x = x AND 0x0080"
definition MASK_HANDLE :: "u32 \<Rightarrow> u32" where "MASK_HANDLE x = x AND 0x0300"
definition MASK_SRC :: "u32 \<Rightarrow> u32" where "MASK_SRC x = x AND 0x1000"

datatype gptu_fault = Panic | Endless

section \<open>Switching the unit on and off\<close>

text \<open>The power management unit is polled up to 999999 times; \<open>awake\<close> tells after how many polls the unit reports that it runs.\<close>

definition enable_gptu :: "nat \<Rightarrow> gptu \<Rightarrow> gptu_fault + gptu" where
  "enable_gptu awake s =
     (if awake < 999999 then Inr (s\<lparr>pmu_gpt_off := False, gptu_clc := 0x110\<rparr>) else Inl Panic)"

definition disable_gptu :: "gptu \<Rightarrow> gptu" where
  "disable_gptu s = s\<lparr>gptu_irnen := 0, gptu_irncr := 0x0FFF, gptu_clc := 1, pmu_gpt_off := True\<rparr>"

section \<open>Requesting a timer\<close>

text \<open>The bits of a timer in the map of occupied timers.\<close>

definition timer_mask :: "u32 \<Rightarrow> nat \<Rightarrow> u32" where
  "timer_mask flag t = push_bit t (if MASK_SIZE flag = 0 then 1 else 3)"

text \<open>The search for a free timer, or a free pair, from number \<open>t\<close> on.\<close>

function find_timer :: "u32 \<Rightarrow> u32 \<Rightarrow> nat \<Rightarrow> nat \<Rightarrow> nat option" where
  "find_timer flag occ limit t =
     (if t < limit then
        if occ AND timer_mask flag t = 0 then Some t
        else find_timer flag occ limit (t + (if MASK_SIZE flag = 0 then 1 else 2))
      else None)"
  by pat_completeness auto
termination
  by (relation "measure (\<lambda>(flag, occ, limit, t). limit - t)") auto

declare find_timer.simps [simp del]

definition con_reg :: "u32 \<Rightarrow> u32" where
  "con_reg flag =
     push_bit 6 (drop_bit 4 (MASK_EDGE flag))
     OR (if MASK_TYPE flag = 0 then (if MASK_SRC flag = TIMER_FLAG_EXT_SRC then 0x200 else 0)
         else (if MASK_SRC flag = TIMER_FLAG_EXT_SRC then 0 else 0x400))
     OR (if MASK_SYNC flag = 0 then 0 else 0x100)
     OR (if MASK_INVERT flag = 0 then 0 else 0x20)
     OR (if MASK_SIZE flag = 0 then 0 else 0x10)
     OR (if MASK_STOP flag = 0 then 8 else 0)
     OR (if MASK_TYPE flag = 0 then 0 else 4)
     OR (if MASK_DIR flag = 0 then 2 else 0)"

definition upd_timer :: "nat \<Rightarrow> (timer_dev_timer \<Rightarrow> timer_dev_timer) \<Rightarrow> gptu \<Rightarrow> gptu" where
  "upd_timer i f s = s\<lparr>timers := (timers s)(i := f (timers s i))\<rparr>"

text \<open>The interrupt part: the bit for the interrupt register and the state; \<open>task\<close> is \<open>find_task_by_pid\<close>.\<close>

definition request_irqs :: "(u32 \<Rightarrow> u32) \<Rightarrow> nat \<Rightarrow> u32 \<Rightarrow> u32 \<Rightarrow> gptu \<Rightarrow> u32 \<times> gptu" where
  "request_irqs task t flag a1 s =
     (if MASK_HANDLE flag \<noteq> 0 then
        let s1 = (if MASK_HANDLE flag = TIMER_FLAG_SIGNAL then upd_timer (t - 2) (\<lambda>d. d\<lparr>arg1 := task a1\<rparr>) s else s);
            s2 = (if MASK_HANDLE flag = TIMER_FLAG_SIGNAL
                     \<or> MASK_HANDLE flag = TIMER_FLAG_CALLBACK_IN_IRQ \<and> arg1 (timers s1 (t - 2)) \<noteq> 0
                  then upd_timer (t - 2) (\<lambda>d. d\<lparr>f_irq_on := 1\<rparr>)
                         (s1\<lparr>gptu_icu := enable_irq (tirq (timers s1 (t - 2))) (gptu_icu s1)\<rparr>)
                  else s1)
        in (push_bit (t - 2) 1, s2)
      else (0, s))"

text \<open>What follows the allocation.\<close>

definition configure_timer ::
  "nat \<Rightarrow> (u32 \<Rightarrow> u32) \<Rightarrow> nat \<Rightarrow> u32 \<Rightarrow> u32 \<Rightarrow> u32 \<Rightarrow> u32 \<Rightarrow> gptu \<Rightarrow> gptu_fault + gptu" where
  "configure_timer awake task t flag val a1 a2 s =
     (let s1 = upd_timer (t - 2) (\<lambda>d. d\<lparr>tflag := flag, arg1 := a1, arg2 := a2\<rparr>) s;
          s2 = (if MASK_SIZE flag \<noteq> 0 then upd_timer (t - 2 + 1) (\<lambda>d. d\<lparr>tflag := flag\<rparr>) s1 else s1)
      in case (if f_gptu_on s2 = 0 then map_sum id (\<lambda>s. s\<lparr>f_gptu_on := 1\<rparr>) (enable_gptu awake s2) else Inr s2) of
           Inl f \<Rightarrow> Inl f
         | Inr s3 \<Rightarrow>
             let (irnen_reg, s4) = request_irqs task t flag a1 s3
             in Inr (s4\<lparr>gptu_con := (gptu_con s4)(t := con_reg flag), gptu_reload := (gptu_reload s4)(t := val),
                        gptu_irnen := gptu_irnen s4 OR irnen_reg\<rparr>))"

text \<open>The return value is the number of the timer where the driver chose one.\<close>

definition request_timer ::
  "nat \<Rightarrow> (u32 \<Rightarrow> u32) \<Rightarrow> u32 \<Rightarrow> u32 \<Rightarrow> u32 \<Rightarrow> u32 \<Rightarrow> u32 \<Rightarrow> gptu \<Rightarrow> gptu_fault + s32 \<times> gptu" where
  "request_timer awake task timer flag val a1 a2 s =
     (if unat timer \<ge> 2 + number_of_timers s then Inr (- EINVAL, s)
      else
        let v = (if MASK_SIZE flag = 0 then val AND 0xFFFF else val);
            tm = (if MASK_SIZE flag = 0 then timer else timer AND NOT 1)
        in if tm < FIRST_TIMER then
             (case find_timer flag (occupation s) (2 + number_of_timers s) 2 of
                None \<Rightarrow> Inr (- EBUSY, s)
              | Some t \<Rightarrow>
                  map_sum id (Pair (int t))
                    (configure_timer awake task t flag v a1 a2 (s\<lparr>occupation := occupation s OR timer_mask flag t\<rparr>)))
           else if occupation s AND timer_mask flag (unat tm) \<noteq> 0 then Inr (- EBUSY, s)
           else map_sum id (Pair 0)
                  (configure_timer awake task (unat tm) flag v a1 a2
                     (s\<lparr>occupation := occupation s OR timer_mask flag (unat tm)\<rparr>)))"

section \<open>Using and freeing a timer\<close>

text \<open>The check that the following functions share: the number of the timer with its mask, or the error.\<close>

definition occupied_timer :: "u32 \<Rightarrow> gptu \<Rightarrow> s32 + nat \<times> u32" where
  "occupied_timer timer s =
     (if f_gptu_on s = 0 then Inl (- EINVAL)
      else if timer < FIRST_TIMER \<or> unat timer \<ge> 2 + number_of_timers s then Inl (- EINVAL)
      else
        let flag = tflag (timers s (unat timer - 2));
            t = unat (if MASK_SIZE flag \<noteq> 0 then timer AND NOT 1 else timer);
            msk = timer_mask flag t
        in if (occupation s AND msk) XOR msk \<noteq> 0 then Inl (- EINVAL) else Inr (t, msk))"

definition free_timer :: "u32 \<Rightarrow> gptu \<Rightarrow> s32 \<times> gptu" where
  "free_timer timer s =
     (case occupied_timer timer s of
        Inl e \<Rightarrow> (e, s)
      | Inr (t, msk) \<Rightarrow>
          let s1 = (if bit (gptu_con s t) 0 then s\<lparr>gptu_run := (gptu_run s)(t := 2)\<rparr> else s);
              s2 = s1\<lparr>gptu_irnen := gptu_irnen s1 AND NOT (push_bit (t - 2) 1),
                      gptu_irncr := gptu_irncr s1 OR push_bit (t - 2) 1\<rparr>;
              s3 = (if f_irq_on (timers s2 (t - 2)) \<noteq> 0
                    then upd_timer (t - 2) (\<lambda>d. d\<lparr>f_irq_on := 0\<rparr>)
                           (s2\<lparr>gptu_icu := disable_irq (tirq (timers s2 (t - 2))) (gptu_icu s2)\<rparr>)
                    else s2);
              s4 = s3\<lparr>occupation := occupation s3 AND NOT msk\<rparr>
          in (0, if occupation s4 = 0 \<and> f_gptu_on s4 \<noteq> 0 then (disable_gptu s4)\<lparr>f_gptu_on := 0\<rparr> else s4))"

definition start_timer :: "u32 \<Rightarrow> bool \<Rightarrow> gptu \<Rightarrow> s32 \<times> gptu" where
  "start_timer timer is_resume s =
     (case occupied_timer timer s of
        Inl e \<Rightarrow> (e, s)
      | Inr (t, msk) \<Rightarrow> (0, s\<lparr>gptu_run := (gptu_run s)(t := (if is_resume then 0 else 4) OR 1)\<rparr>))"

definition stop_timer :: "u32 \<Rightarrow> gptu \<Rightarrow> s32 \<times> gptu" where
  "stop_timer timer s =
     (case occupied_timer timer s of
        Inl e \<Rightarrow> (e, s)
      | Inr (t, msk) \<Rightarrow> (0, s\<lparr>gptu_run := (gptu_run s)(t := 2)\<rparr>))"

definition get_count_value :: "u32 \<Rightarrow> gptu \<Rightarrow> s32 \<times> u32 option" where
  "get_count_value timer s =
     (case occupied_timer timer s of
        Inl e \<Rightarrow> (e, None)
      | Inr (t, msk) \<Rightarrow> (0, Some (gptu_count s t)))"

section \<open>Frequencies\<close>

text \<open>\<open>clock\<close> is \<open>cgu_get_fpi_bus_clock(2)\<close>, the frequency is in thousandths of Hertz.\<close>

definition cal_divider :: "u32 \<Rightarrow> u32 \<Rightarrow> u32" where
  "cal_divider clock freq =
     (let (ret, residue) = uint64_divide (uint64_multiply clock 1000) freq
      in if push_bit 1 residue < freq \<and> ret > 0 then ret - 1 else ret)"

definition set_timer ::
  "nat \<Rightarrow> (u32 \<Rightarrow> u32) \<Rightarrow> u32 \<Rightarrow> u32 \<Rightarrow> u32 \<Rightarrow> bool \<Rightarrow> bool \<Rightarrow> u32 \<Rightarrow> u32 \<Rightarrow> u32 \<Rightarrow> gptu \<Rightarrow> gptu_fault + s32 \<times> gptu" where
  "set_timer awake task clock timer freq is_cyclic is_ext_src handle_flag a1 a2 s =
     (let divider = cal_divider clock freq in
      if divider = 0 then Inr (- EINVAL, s)
      else
        request_timer awake task timer
          ((if divider AND NOT 0xFFFF \<noteq> 0 then TIMER_FLAG_32BIT else 0) OR (if is_cyclic then TIMER_FLAG_CYCLIC else 0)
           OR (if is_ext_src then TIMER_FLAG_EXT_SRC else 0) OR TIMER_FLAG_DOWN OR MASK_HANDLE handle_flag)
          divider a1 a2 s)"

definition set_counter ::
  "nat \<Rightarrow> (u32 \<Rightarrow> u32) \<Rightarrow> u32 \<Rightarrow> bool \<Rightarrow> bool \<Rightarrow> bool \<Rightarrow> u32 \<Rightarrow> u32 \<Rightarrow> u32 \<Rightarrow> u32 \<Rightarrow> gptu \<Rightarrow> gptu_fault + s32 \<times> gptu" where
  "set_counter awake task timer is_32bit is_sync is_ext_src trigger_flag handle_flag a1 a2 s =
     request_timer awake task timer
       ((if is_sync then TIMER_FLAG_SYNC else 0) OR (if is_32bit then TIMER_FLAG_32BIT else 0)
        OR (if timer = TIMER1B then TIMER_FLAG_CYCLIC OR TIMER_FLAG_COUNTER OR TIMER_FLAG_DOWN else TIMER_FLAG_COUNTER)
        OR MASK_TRIGGER trigger_flag OR MASK_HANDLE handle_flag)
       1 a1 a2 s"

section \<open>The interrupt handler\<close>

datatype timer_event = Callback u32 u32 | Signal u32 u32

definition timer_irq_handler :: "nat \<Rightarrow> nat \<Rightarrow> gptu \<Rightarrow> timer_event list \<times> gptu" where
  "timer_irq_handler irq dev s =
     (let t = irq - TIMER_INTERRUPT; d = timers s dev in
      if irq \<ge> TIMER_INTERRUPT \<and> t < number_of_timers s \<and> dev = t then
        let s1 = s\<lparr>gptu_irncr := push_bit t 1\<rparr>; flag = tflag d in
        if even t \<or> MASK_SIZE flag = 0 then
          if MASK_HANDLE flag = TIMER_FLAG_CALLBACK_IN_IRQ \<or> MASK_HANDLE flag = TIMER_FLAG_CALLBACK_IN_HB then
            (if arg1 d \<noteq> 0 then [Callback (arg1 d) (arg2 d)] else [], s1)
          else if MASK_HANDLE flag = TIMER_FLAG_SIGNAL then ([Signal (arg2 d) (arg1 d)], s1)
          else ([], s1)
        else ([], s1)
      else ([], s))"

section \<open>The device\<close>

record gptu_ioctl_param =
  p_timer :: u32
  p_flag :: u32
  p_value :: u32
  p_pid :: u32
  p_sig :: u32

text \<open>A positive result of a request is stored in the field for the timer.\<close>

definition store_timer :: "gptu_ioctl_param \<Rightarrow> s32 \<times> gptu \<Rightarrow> s32 \<times> gptu_ioctl_param \<times> gptu" where
  "store_timer p r = (if fst r > 0 then (0, p\<lparr>p_timer := of_int (fst r)\<rparr>, snd r) else (fst r, p, snd r))"

definition gptu_ioctl ::
  "nat \<Rightarrow> (u32 \<Rightarrow> u32) \<Rightarrow> u32 \<Rightarrow> bool \<Rightarrow> bool \<Rightarrow> u32 \<Rightarrow> gptu_ioctl_param \<Rightarrow> gptu
    \<Rightarrow> gptu_fault + s32 \<times> gptu_ioctl_param \<times> gptu" where
  "gptu_ioctl awake task clock readable writable cmd p s =
     (if \<not> readable then Inr (- EFAULT, p, s)
      else if (((cmd = 1 \<or> cmd = 7 \<or> (8 :: nat) \<noteq> 0) \<and> p_timer p < 2) \<or> cmd = 5 \<or> cmd = 6) \<and> \<not> writable
        then Inr (- EFAULT, p, s)
      else if cmd = 1 then
        map_sum id (store_timer p) (request_timer awake task (p_timer p) (p_flag p) (p_value p) (p_pid p) (p_sig p) s)
      else if cmd = 2 then (case free_timer (p_timer p) s of (r, s1) \<Rightarrow> Inr (r, p, s1))
      else if cmd = 3 then (case start_timer (p_timer p) (p_flag p \<noteq> 0) s of (r, s1) \<Rightarrow> Inr (r, p, s1))
      else if cmd = 4 then (case stop_timer (p_timer p) s of (r, s1) \<Rightarrow> Inr (r, p, s1))
      else if cmd = 5 then
        (case get_count_value (p_timer p) s of
           (r, Some v) \<Rightarrow> Inr (r, p\<lparr>p_value := v\<rparr>, s) | (r, None) \<Rightarrow> Inr (r, p, s))
      else if cmd = 6 then
        (let v = cal_divider clock (p_value p) in
         if v = 0 then Inr (- EINVAL, p, s) else Inr (0, p\<lparr>p_value := v\<rparr>, s))
      else if cmd = 7 then
        map_sum id (store_timer p)
          (set_timer awake task clock (p_timer p) (p_value p) (MASK_STOP (p_flag p) \<noteq> 0)
             (MASK_SRC (p_flag p) = TIMER_FLAG_EXT_SRC)
             (if MASK_HANDLE (p_flag p) = TIMER_FLAG_SIGNAL then TIMER_FLAG_SIGNAL else 0) (p_pid p) (p_sig p) s)
      else if cmd = 8 then
        map_sum id (store_timer p)
          (set_counter awake task (p_timer p) (MASK_SIZE (p_flag p) \<noteq> 0) (MASK_SYNC (p_flag p) \<noteq> 0)
             (MASK_SRC (p_flag p) = TIMER_FLAG_EXT_SRC) (MASK_TRIGGER (p_flag p)) 0 0 0 s)
      else Inr (- ENOTTY, p, s))"

section \<open>Initialisation\<close>

text \<open>The loop over the interrupt lines; \<open>mem\<close> tells whether the kernel has memory for the request of a line.  Where a request fails, the
  lines are released by a loop that runs while an unsigned number is at least zero, so it never ends.\<close>

fun request_lines :: "(nat \<Rightarrow> bool) \<Rightarrow> nat list \<Rightarrow> gptu \<Rightarrow> gptu_fault + gptu" where
  "request_lines mem [] s = Inr s"
| "request_lines mem (i # is) s =
     (case request_irq (mem i) (TIMER_INTERRUPT + i) (of_nat i) (gptu_icu s) of
        (r, c) \<Rightarrow>
          if r \<noteq> 0 then Inl Endless
          else request_lines mem is (upd_timer i (\<lambda>d. d\<lparr>tirq := TIMER_INTERRUPT + i\<rparr>)
                 (s\<lparr>gptu_icu := disable_irq (TIMER_INTERRUPT + i) c\<rparr>)))"

definition zero_timer :: timer_dev_timer where
  "zero_timer = \<lparr>f_irq_on = 0, tirq = 0, tflag = 0, arg1 = 0, arg2 = 0\<rparr>"

text \<open>\<open>gptu_id\<close> is the identification register, \<open>misc\<close> the result of \<open>misc_register\<close>.\<close>

definition danube_gptu_init :: "nat \<Rightarrow> u32 \<Rightarrow> s32 \<Rightarrow> (nat \<Rightarrow> bool) \<Rightarrow> gptu \<Rightarrow> gptu_fault + s32 \<times> gptu" where
  "danube_gptu_init awake gptu_id misc mem s =
     (let s1 = s\<lparr>gptu_irnen := 0, gptu_irncr := 0x0FFF, number_of_timers := 0, occupation := 0, f_gptu_on := 0,
                 timers := (\<lambda>_. zero_timer)\<rparr>
      in case enable_gptu awake s1 of
           Inl f \<Rightarrow> Inl f
         | Inr s2 \<Rightarrow>
             let n = unat (drop_bit 5 (gptu_id AND 0xFF)) * 2;
                 s3 = (disable_gptu s2)\<lparr>number_of_timers := (if n > 12 then 12 else n)\<rparr>
             in if misc \<noteq> 0 then Inr (misc, s3)
                else map_sum id (Pair 0) (request_lines mem [0..<number_of_timers s3] s3))"

definition danube_gptu_exit :: "gptu \<Rightarrow> gptu" where
  "danube_gptu_exit s =
     disable_gptu (fold (\<lambda>i t. t\<lparr>gptu_icu := free_irq (tirq (timers t i)) (of_nat i)
         (if f_irq_on (timers t i) \<noteq> 0 then disable_irq (tirq (timers t i)) (gptu_icu t) else gptu_icu t)\<rparr>)
       [0..<number_of_timers s] s)"

section \<open>Invariant\<close>

lemma map_sum_InrD: "map_sum id f x = Inr y \<Longrightarrow> \<exists>z. x = Inr z \<and> y = f z"
  by (cases x) auto

abbreviation occ :: "gptu \<Rightarrow> nat \<Rightarrow> bool" where "occ s b \<equiv> bit (occupation s) b"

definition wide :: "gptu \<Rightarrow> nat \<Rightarrow> bool" where
  "wide s i \<longleftrightarrow> MASK_SIZE (tflag (timers s i)) \<noteq> 0"

definition partner :: "nat \<Rightarrow> nat" where
  "partner i = (if even i then i + 1 else i - 1)"

text \<open>Occupied timers exist and the unit runs exactly while there is one.\<close>

definition wf_base :: "gptu \<Rightarrow> bool" where
  "wf_base s \<longleftrightarrow> even (number_of_timers s) \<and> number_of_timers s \<le> 12
     \<and> (\<forall>b. occ s b \<longrightarrow> 2 \<le> b \<and> b < 2 + number_of_timers s)
     \<and> (f_gptu_on s = 0 \<longleftrightarrow> occupation s = 0)
     \<and> (\<forall>i<number_of_timers s. tirq (timers s i) = TIMER_INTERRUPT + i)"

text \<open>The halves of an occupied 32-bit timer belong together, and only the first has the interrupt.\<close>

definition wf_pairs :: "gptu \<Rightarrow> bool" where
  "wf_pairs s \<longleftrightarrow> (\<forall>i<number_of_timers s. occ s (i + 2) \<and> wide s i \<longrightarrow>
     occ s (partner i + 2) \<and> wide s (partner i) \<and> (odd i \<longrightarrow> f_irq_on (timers s i) = 0))"

text \<open>A line is open exactly while its timer is marked, and only occupied timers are.\<close>

definition wf_lines :: "gptu \<Rightarrow> bool" where
  "wf_lines s \<longleftrightarrow> (\<forall>i<number_of_timers s.
     (if f_irq_on (timers s i) = 0 then line_off (TIMER_INTERRUPT + i) (gptu_icu s)
      else occ s (i + 2) \<and> line_on (TIMER_INTERRUPT + i) (gptu_icu s)))"

definition gptu_wf :: "gptu \<Rightarrow> bool" where
  "gptu_wf s \<longleftrightarrow> wf_base s \<and> wf_pairs s \<and> wf_lines s"

lemma gptu_wf_line:
  "gptu_wf s \<Longrightarrow> i < number_of_timers s \<Longrightarrow>
     if f_irq_on (timers s i) = 0 then line_off (TIMER_INTERRUPT + i) (gptu_icu s)
     else occ s (i + 2) \<and> line_on (TIMER_INTERRUPT + i) (gptu_icu s)"
  unfolding gptu_wf_def wf_lines_def by blast

lemma MASK_SIZE_bit: "MASK_SIZE flag \<noteq> 0 \<longleftrightarrow> bit flag 0"
  by (simp add: MASK_SIZE_def and_one_eq odd_iff_mod_2_eq_one [symmetric] bit_0)

lemma bit_timer_mask:
  assumes "t + 1 < 32"
  shows "bit (timer_mask flag t) b \<longleftrightarrow> b = t \<or> MASK_SIZE flag \<noteq> 0 \<and> b = t + 1"
proof -
  have m: "(3 :: u32) = mask 2" by (simp add: mask_eq_exp_minus_1)
  show ?thesis unfolding timer_mask_def m using assms by (auto simp: bit_push_bit_iff bit_mask_iff bit_1_iff)
qed

section \<open>Requests keep the invariant\<close>

text \<open>What the configuration does to the fields of the invariant.\<close>

lemma request_irqs_fields:
  assumes "request_irqs task t flag a1 s = (r, s')"
  shows "number_of_timers s' = number_of_timers s" "occupation s' = occupation s" "f_gptu_on s' = f_gptu_on s"
    "tirq (timers s' i) = tirq (timers s i)" "tflag (timers s' i) = tflag (timers s i)"
    "\<exists>on. gptu_icu s' = (if on then enable_irq (tirq (timers s (t - 2))) (gptu_icu s) else gptu_icu s)
       \<and> (\<forall>i. f_irq_on (timers s' i) = (if on \<and> i = t - 2 then 1 else f_irq_on (timers s i)))"
proof -
  let ?on = "MASK_HANDLE flag \<noteq> 0 \<and> (MASK_HANDLE flag = TIMER_FLAG_SIGNAL
    \<or> MASK_HANDLE flag = TIMER_FLAG_CALLBACK_IN_IRQ \<and> arg1 (timers s (t - 2)) \<noteq> 0)"
  show "number_of_timers s' = number_of_timers s" "occupation s' = occupation s" "f_gptu_on s' = f_gptu_on s"
    "tirq (timers s' i) = tirq (timers s i)" "tflag (timers s' i) = tflag (timers s i)"
    using assms by (auto simp: request_irqs_def upd_timer_def Let_def split: if_splits)
  show "\<exists>on. gptu_icu s' = (if on then enable_irq (tirq (timers s (t - 2))) (gptu_icu s) else gptu_icu s)
       \<and> (\<forall>i. f_irq_on (timers s' i) = (if on \<and> i = t - 2 then 1 else f_irq_on (timers s i)))"
    by (rule exI [of _ ?on]) (use assms in \<open>auto simp: request_irqs_def upd_timer_def Let_def split: if_splits\<close>)
qed

lemma configure_fields:
  assumes "configure_timer awake task t flag v a1 a2 s = Inr s'"
  shows "number_of_timers s' = number_of_timers s" "occupation s' = occupation s" "f_gptu_on s' \<noteq> 0"
    "tirq (timers s' i) = tirq (timers s i)"
    "tflag (timers s' i) = (if i = t - 2 \<or> MASK_SIZE flag \<noteq> 0 \<and> i = t - 2 + 1 then flag else tflag (timers s i))"
    "\<exists>on. gptu_icu s' = (if on then enable_irq (tirq (timers s (t - 2))) (gptu_icu s) else gptu_icu s)
       \<and> (\<forall>i. f_irq_on (timers s' i) = (if on \<and> i = t - 2 then 1 else f_irq_on (timers s i)))"
proof -
  define s2 where "s2 = (let s1 = upd_timer (t - 2) (\<lambda>d. d\<lparr>tflag := flag, arg1 := a1, arg2 := a2\<rparr>) s
    in if MASK_SIZE flag \<noteq> 0 then upd_timer (t - 2 + 1) (\<lambda>d. d\<lparr>tflag := flag\<rparr>) s1 else s1)"
  obtain s3 where s3: "(if f_gptu_on s2 = 0 then map_sum id (\<lambda>s. s\<lparr>f_gptu_on := 1\<rparr>) (enable_gptu awake s2) else Inr s2) = Inr s3"
    using assms unfolding configure_timer_def s2_def Let_def by (auto split: sum.splits)
  obtain r s4 where s4: "request_irqs task t flag a1 s3 = (r, s4)" by force
  have s': "s' = s4\<lparr>gptu_con := (gptu_con s4)(t := con_reg flag), gptu_reload := (gptu_reload s4)(t := v),
      gptu_irnen := gptu_irnen s4 OR r\<rparr>"
    using assms s3 s4 unfolding configure_timer_def s2_def Let_def by simp
  have 3: "number_of_timers s3 = number_of_timers s2" "occupation s3 = occupation s2" "f_gptu_on s3 \<noteq> 0"
    "timers s3 = timers s2" "gptu_icu s3 = gptu_icu s2"
    using s3 by (auto simp: enable_gptu_def split: if_splits)
  have 2: "number_of_timers s2 = number_of_timers s" "occupation s2 = occupation s" "gptu_icu s2 = gptu_icu s"
    "tirq (timers s2 i) = tirq (timers s i)" "f_irq_on (timers s2 i) = f_irq_on (timers s i)"
    "tflag (timers s2 i) = (if i = t - 2 \<or> MASK_SIZE flag \<noteq> 0 \<and> i = t - 2 + 1 then flag else tflag (timers s i))" for i
    by (simp_all add: s2_def upd_timer_def Let_def)
  note 4 = request_irqs_fields [OF s4]
  show "number_of_timers s' = number_of_timers s" "occupation s' = occupation s" "f_gptu_on s' \<noteq> 0"
    "tirq (timers s' i) = tirq (timers s i)"
    "tflag (timers s' i) = (if i = t - 2 \<or> MASK_SIZE flag \<noteq> 0 \<and> i = t - 2 + 1 then flag else tflag (timers s i))"
    using 2 3 4(1-5) by (simp_all add: s')
  show "\<exists>on. gptu_icu s' = (if on then enable_irq (tirq (timers s (t - 2))) (gptu_icu s) else gptu_icu s)
       \<and> (\<forall>i. f_irq_on (timers s' i) = (if on \<and> i = t - 2 then 1 else f_irq_on (timers s i)))"
  proof -
    obtain on where "gptu_icu s4 = (if on then enable_irq (tirq (timers s3 (t - 2))) (gptu_icu s3) else gptu_icu s3)"
      "\<forall>i. f_irq_on (timers s4 i) = (if on \<and> i = t - 2 then 1 else f_irq_on (timers s3 i))" using 4(6) by blast
    then show ?thesis using 2 3 by (intro exI [of _ on]) (simp add: s')
  qed
qed

lemma configure_ok:
  "awake < 999999 \<Longrightarrow> \<exists>s'. configure_timer awake task t flag v a1 a2 s = Inr s'"
  by (auto simp: configure_timer_def enable_gptu_def Let_def split: prod.splits)

text \<open>One line changes; the others keep their state.\<close>

lemma wf_lines_at:
  assumes wf: "gptu_wf s" and n: "number_of_timers s' = number_of_timers s"
    and k: "k < number_of_timers s \<Longrightarrow> if f_irq_on (timers s' k) = 0 then line_off (TIMER_INTERRUPT + k) (gptu_icu s')
      else occ s' (k + 2) \<and> line_on (TIMER_INTERRUPT + k) (gptu_icu s')"
    and f: "\<And>i. i < number_of_timers s \<Longrightarrow> i \<noteq> k \<Longrightarrow> f_irq_on (timers s' i) = f_irq_on (timers s i)"
    and d: "\<And>i. i < number_of_timers s \<Longrightarrow> i \<noteq> k \<Longrightarrow>
      irq_descs (gptu_icu s') (TIMER_INTERRUPT + i) = irq_descs (gptu_icu s) (TIMER_INTERRUPT + i)"
    and o: "\<And>i. i < number_of_timers s \<Longrightarrow> i \<noteq> k \<Longrightarrow> f_irq_on (timers s i) \<noteq> 0 \<Longrightarrow> occ s (i + 2) \<Longrightarrow> occ s' (i + 2)"
  shows "wf_lines s'"
  unfolding wf_lines_def
proof (intro allI impI)
  fix i assume "i < number_of_timers s'"
  then have i: "i < number_of_timers s" using n by simp
  show "if f_irq_on (timers s' i) = 0 then line_off (TIMER_INTERRUPT + i) (gptu_icu s')
      else occ s' (i + 2) \<and> line_on (TIMER_INTERRUPT + i) (gptu_icu s')"
  proof (cases "i = k")
    case False
    then show ?thesis using gptu_wf_line [OF wf i] f [OF i] d [OF i] o [OF i] unfolding line_on_def line_off_def by presburger
  qed (use k i in blast)
qed

text \<open>A timer or a pair is added.\<close>

lemma wf_pairs_add:
  assumes wf: "gptu_wf s" and t: "2 \<le> t" "MASK_SIZE flag \<noteq> 0 \<Longrightarrow> even t \<and> t + 1 < 2 + number_of_timers s"
    and n: "number_of_timers s' = number_of_timers s"
    and occ': "\<And>b. occ s' b \<longleftrightarrow> occ s b \<or> b = t \<or> MASK_SIZE flag \<noteq> 0 \<and> b = t + 1"
    and fl: "\<And>i. tflag (timers s' i) = (if i = t - 2 \<or> MASK_SIZE flag \<noteq> 0 \<and> i = t - 2 + 1 then flag else tflag (timers s i))"
    and irq: "\<And>i. i \<noteq> t - 2 \<Longrightarrow> f_irq_on (timers s' i) = f_irq_on (timers s i)"
    and fr: "\<not> occ s t" "MASK_SIZE flag \<noteq> 0 \<Longrightarrow> \<not> occ s (t + 1)"
  shows "wf_pairs s'"
  unfolding wf_pairs_def
proof (intro allI impI)
  let ?w = "MASK_SIZE flag \<noteq> 0"
  have tt: "t - 2 + 2 = t" "t - 2 + 1 + 2 = t + 1" using t(1) by simp_all
  fix i assume i: "i < number_of_timers s'" "occ s' (i + 2) \<and> wide s' i"
  show "occ s' (partner i + 2) \<and> wide s' (partner i) \<and> (odd i \<longrightarrow> f_irq_on (timers s' i) = 0)"
  proof (cases "i = t - 2 \<or> ?w \<and> i = t - 2 + 1")
    case True
    have w: ?w using i(2) True fl by (auto simp: wide_def split: if_splits)
    then have e: "even t" "t + 1 < 2 + number_of_timers s" using t(2) by blast+
    then have p: "i = t - 2 \<and> partner i = t - 2 + 1 \<or> i = t - 2 + 1 \<and> partner i = t - 2"
      using True t(1) by (auto simp: partner_def)
    have "f_irq_on (timers s' i) = 0" if "odd i"
    proof -
      have i1: "i = t - 2 + 1" using that p e(1) t(1) by auto
      then have "i < number_of_timers s" "\<not> occ s (i + 2)" using e(2) tt fr(2) [OF w] t(1) by (simp_all only:) simp
      then show ?thesis using gptu_wf_line [OF wf, of i] irq [of i] i1 by (metis add_eq_self_zero zero_neq_one)
    qed
    then show ?thesis using p w fl tt by (auto simp: occ' wide_def)
  next
    case False
    then have o: "occ s (i + 2)" "wide s i" "i < number_of_timers s" "i \<noteq> t - 2"
      using i n fl t(1) by (auto simp: occ' wide_def split: if_splits)
    then have o2: "occ s (partner i + 2)" "wide s (partner i)" "odd i \<longrightarrow> f_irq_on (timers s i) = 0"
      using wf by (auto simp: gptu_wf_def wf_pairs_def)
    have "partner i \<noteq> t - 2" using o2(1) fr(1) tt(1) by metis
    moreover have "partner i \<noteq> t - 2 + 1" if ?w using o2(1) fr(2) [OF that] tt(2) by metis
    ultimately have "\<not> (partner i = t - 2 \<or> ?w \<and> partner i = t - 2 + 1)" by blast
    then show ?thesis using o2 o(4) False fl irq by (auto simp: occ' wide_def)
  qed
qed

lemma configure_wf:
  assumes wf: "gptu_wf s" and t: "2 \<le> t" "t < 2 + number_of_timers s" "MASK_SIZE flag \<noteq> 0 \<Longrightarrow> even t"
    and free: "occupation s AND timer_mask flag t = 0"
    and c: "configure_timer awake task t flag v a1 a2 (s\<lparr>occupation := occupation s OR timer_mask flag t\<rparr>) = Inr s'"
  shows "gptu_wf s'"
proof -
  let ?n = "number_of_timers s" and ?w = "MASK_SIZE flag \<noteq> 0" and ?u = "s\<lparr>occupation := occupation s OR timer_mask flag t\<rparr>"
  have n: "?n \<le> 12" "even ?n" using wf by (auto simp: gptu_wf_def wf_base_def)
  have t1: "t + 1 < 32" using t(2) n by simp
  have tw: "t + 1 < 2 + ?n" if ?w using t(2) t(3) [OF that] n(2) by presburger
  note f = configure_fields [OF c, simplified]
  have occ': "occ s' b \<longleftrightarrow> occ s b \<or> b = t \<or> ?w \<and> b = t + 1" for b
    using f(2) by (auto simp: bit_or_iff bit_timer_mask [OF t1])
  have nb: "\<not> (occ s b \<and> bit (timer_mask flag t) b)" for b
    using arg_cong [OF free, of "\<lambda>x. bit x b"] by (simp add: bit_and_iff)
  have fr: "\<not> occ s t" "?w \<Longrightarrow> \<not> occ s (t + 1)"
    using nb [of t] nb [of "t + 1"] by (auto simp: bit_timer_mask [OF t1])
  obtain on where o: "gptu_icu s' = (if on then enable_irq (tirq (timers ?u (t - 2))) (gptu_icu ?u) else gptu_icu ?u)"
    "\<forall>i. f_irq_on (timers s' i) = (if on \<and> i = t - 2 then 1 else f_irq_on (timers ?u i))" using f(6) by blast
  have irq: "tirq (timers s (t - 2)) = TIMER_INTERRUPT + (t - 2)" using wf t by (auto simp: gptu_wf_def wf_base_def)
  have on: "gptu_icu s' = (if on then enable_irq (TIMER_INTERRUPT + (t - 2)) (gptu_icu s) else gptu_icu s)"
    "f_irq_on (timers s' i) = (if on \<and> i = t - 2 then 1 else f_irq_on (timers s i))" for i
    using o irq by (cases on; simp)+
  have oth: "f_irq_on (timers s' i) = f_irq_on (timers s i)" if "i \<noteq> t - 2" for i using on(2) that by simp
  have "occupation s' \<noteq> 0" using occ' [of t] by auto
  then have "wf_base s'"
    using wf f(1,3,4) occ' t(1,2) tw by (auto simp: gptu_wf_def wf_base_def)
  moreover have "tflag (timers s' i) = (if i = t - 2 \<or> ?w \<and> i = t - 2 + 1 then flag else tflag (timers s i))" for i
    using f(5) [of i] by simp
  then have "wf_pairs s'" by (intro wf_pairs_add [OF wf t(1) _ f(1) occ' _ oth fr]) (use t(3) tw in auto)
  moreover have "wf_lines s'"
  proof (rule wf_lines_at [OF wf f(1), of "t - 2"])
    assume "t - 2 < ?n"
    then have off: "f_irq_on (timers s (t - 2)) = 0" "line_off (TIMER_INTERRUPT + (t - 2)) (gptu_icu s)"
      using gptu_wf_line [OF wf, of "t - 2"] fr(1) t(1) le_add_diff_inverse2 [of 2 t] by metis+
    show "if f_irq_on (timers s' (t - 2)) = 0 then line_off (TIMER_INTERRUPT + (t - 2)) (gptu_icu s')
      else occ s' (t - 2 + 2) \<and> line_on (TIMER_INTERRUPT + (t - 2)) (gptu_icu s')"
      unfolding le_add_diff_inverse2 [OF t(1)] using off on occ' [of t] enable_line by (cases on) simp_all
  qed (use oth on(1) occ' in \<open>auto simp: enable_line_other\<close>)
  ultimately show ?thesis by (simp add: gptu_wf_def)
qed

section \<open>Requests\<close>

text \<open>The search takes the first place, at the step of its width, that is free.\<close>

lemma find_timer_Some:
  assumes "find_timer flag oc limit a = Some t"
  shows "a \<le> t \<and> t < limit \<and> oc AND timer_mask flag t = 0 \<and> (MASK_SIZE flag \<noteq> 0 \<longrightarrow> even a \<longrightarrow> even t)"
  using assms
proof (induction flag oc limit a rule: find_timer.induct)
  case (1 flag oc limit a)
  then show ?case by (subst (asm) find_timer.simps) (auto split: if_splits)
qed

lemma find_timer_None:
  assumes "find_timer flag oc limit a = None" "a \<le> b" "b < limit" "MASK_SIZE flag \<noteq> 0 \<Longrightarrow> even (b - a)"
  shows "oc AND timer_mask flag b \<noteq> 0"
  using assms
proof (induction flag oc limit a rule: find_timer.induct)
  case (1 flag oc limit a)
  have a: "a < limit" "oc AND timer_mask flag a \<noteq> 0"
    using "1.prems" by (auto simp: find_timer.simps [of flag oc limit a] split: if_splits)
  let ?k = "if MASK_SIZE flag = 0 then 1 else 2 :: nat"
  have n: "find_timer flag oc limit (a + ?k) = None"
    using "1.prems"(1) a by (simp add: find_timer.simps [of flag oc limit a])
  show ?case
  proof (cases "a = b")
    case False
    then have "a + ?k \<le> b"
    proof (cases "MASK_SIZE flag = 0")
      case f: False
      then have "even (b - a)" "0 < b - a" using "1.prems"(2,4) False by auto
      then have "a + 2 \<le> b" by presburger
      then show ?thesis using f by simp
    qed (use "1.prems"(2) False in simp)
    moreover have "MASK_SIZE flag \<noteq> 0 \<Longrightarrow> even (b - (a + ?k))" using "1.prems"(4) by (auto simp: diff_diff_left [symmetric])
    ultimately show ?thesis using "1.IH" [OF a] n "1.prems"(3) by blast
  qed (use a in simp)
qed

lemma even_clear_low: "unat (x AND NOT 1 :: u32) = unat x - unat x mod 2"
proof -
  have "unat (x AND NOT 1) = unat (push_bit 1 (drop_bit 1 x))"
    by (rule arg_cong [of _ _ unat], rule bit_eqI)
      (auto simp: bit_and_iff bit_not_iff bit_push_bit_iff bit_drop_bit_eq bit_1_iff simp del: push_bit_Suc push_bit_of_1 One_nat_def)
  also have "\<dots> = 2 * (unat x div 2)"
    using u32_lt [of x] by (subst unat_push) (simp add: unat_drop)
  finally show ?thesis by (simp add: minus_mod_eq_mult_div)
qed

lemma request_timer_any:
  "unat timer < 2 \<Longrightarrow> request_timer awake task timer flag val a1 a2 s =
     (case find_timer flag (occupation s) (2 + number_of_timers s) 2 of
        None \<Rightarrow> Inr (- EBUSY, s)
      | Some t \<Rightarrow> map_sum id (Pair (int t)) (configure_timer awake task t flag (if MASK_SIZE flag = 0 then val AND 0xFFFF else val) a1 a2
          (s\<lparr>occupation := occupation s OR timer_mask flag t\<rparr>)))"
proof -
  assume t: "unat timer < 2"
  then have "unat (timer AND NOT 1) < 2" unfolding even_clear_low by simp
  then have "timer AND NOT 1 < 2" "timer < 2" using t by (simp_all add: word_less_nat_alt)
  then show ?thesis using t by (simp add: request_timer_def Let_def)
qed

text \<open>The outcome of a request, in all cases.\<close>

lemma request_cases:
  assumes wf: "gptu_wf s" and aw: "awake < 999999"
  obtains (invalid) "unat timer \<ge> 2 + number_of_timers s" "request_timer awake task timer flag val a1 a2 s = Inr (- EINVAL, s)"
  | (busy) "request_timer awake task timer flag val a1 a2 s = Inr (- EBUSY, s)"
      "\<forall>t. 2 \<le> t \<and> t < 2 + number_of_timers s \<and> (MASK_SIZE flag \<noteq> 0 \<longrightarrow> even t)
         \<and> (unat timer < 2 \<or> t = unat timer \<or> MASK_SIZE flag \<noteq> 0 \<and> t = unat timer - unat timer mod 2)
         \<longrightarrow> occupation s AND timer_mask flag t \<noteq> 0"
  | (given) t r s' where "request_timer awake task timer flag val a1 a2 s = Inr (r, s')"
      "r = (if unat timer < 2 then int t else 0)"
      "unat timer < 2 \<or> t = (if MASK_SIZE flag = 0 then unat timer else unat timer - unat timer mod 2)"
      "2 \<le> t" "t < 2 + number_of_timers s" "MASK_SIZE flag \<noteq> 0 \<Longrightarrow> even t" "occupation s AND timer_mask flag t = 0"
      "configure_timer awake task t flag (if MASK_SIZE flag = 0 then val AND 0xFFFF else val) a1 a2
         (s\<lparr>occupation := occupation s OR timer_mask flag t\<rparr>) = Inr s'"
proof (cases "unat timer \<ge> 2 + number_of_timers s")
  case True
  then show thesis by (intro invalid) (simp_all add: request_timer_def)
next
  case False
  let ?tm = "if MASK_SIZE flag = 0 then timer else timer AND NOT 1" and ?v = "if MASK_SIZE flag = 0 then val AND 0xFFFF else val"
  have tm: "unat ?tm = (if MASK_SIZE flag = 0 then unat timer else unat timer - unat timer mod 2)"
    by (simp only: even_clear_low if_distrib [of unat])
  have small: "?tm < FIRST_TIMER \<longleftrightarrow> unat timer < 2"
  proof -
    have "a - a mod 2 < 2 \<longleftrightarrow> a < 2" for a :: nat by presburger
    then show ?thesis by (simp only: word_less_nat_alt tm) simp
  qed
  have ev: "even (unat ?tm)" if "MASK_SIZE flag \<noteq> 0" using that tm by (simp add: even_iff_mod_2_eq_zero mod_0_imp_dvd minus_mod_eq_mult_div)
  define c where "c t = projr (configure_timer awake task t flag ?v a1 a2 (s\<lparr>occupation := occupation s OR timer_mask flag t\<rparr>))" for t
  have c: "configure_timer awake task t flag ?v a1 a2 (s\<lparr>occupation := occupation s OR timer_mask flag t\<rparr>) = Inr (c t)" for t
    using configure_ok [OF aw, of task t flag ?v a1 a2 "s\<lparr>occupation := occupation s OR timer_mask flag t\<rparr>"]
    unfolding c_def by auto
  show thesis
  proof (cases "unat timer < 2")
    case T: True
    show thesis
    proof (cases "find_timer flag (occupation s) (2 + number_of_timers s) 2")
      case None
      then have "request_timer awake task timer flag val a1 a2 s = Inr (- EBUSY, s)"
        using False T small by (simp add: request_timer_def Let_def)
      then show thesis using find_timer_None [OF None] by (intro busy) auto
    next
      case (Some t)
      then have "request_timer awake task timer flag val a1 a2 s = Inr (int t, c t)"
        using False T small c by (simp add: request_timer_def Let_def)
      then show thesis using find_timer_Some [OF Some] T c by (intro given [of "int t" "c t" t]) auto
    qed
  next
    case N: False
    show thesis
    proof (cases "occupation s AND timer_mask flag (unat ?tm) = 0")
      case True
      then have "request_timer awake task timer flag val a1 a2 s = Inr (0, c (unat ?tm))"
        using False N small c [of "unat ?tm"] by (simp add: request_timer_def Let_def)
      moreover have "2 \<le> unat ?tm" "unat ?tm < 2 + number_of_timers s"
        using small N False tm by (auto simp: word_less_nat_alt)
      ultimately show thesis using N True c [of "unat ?tm"] tm ev by (intro given [of 0 "c (unat ?tm)" "unat ?tm"]) simp_all
    next
      case F: False
      then have "request_timer awake task timer flag val a1 a2 s = Inr (- EBUSY, s)"
        using False N small by (simp add: request_timer_def Let_def)
      moreover have "occupation s AND timer_mask flag t \<noteq> 0"
        if "MASK_SIZE flag \<noteq> 0 \<longrightarrow> even t" "t = unat timer \<or> MASK_SIZE flag \<noteq> 0 \<and> t = unat timer - unat timer mod 2" for t
      proof -
        have "t = unat ?tm" using that tm by (auto split: if_splits)
        then show ?thesis using F by simp
      qed
      ultimately show thesis using N by (intro busy) auto
    qed
  qed
qed

section \<open>Freeing and the other operations keep the invariant\<close>

text \<open>What the shared check establishes.\<close>

lemma occupied_timer_Inr:
  assumes wf: "gptu_wf s" and o: "occupied_timer timer s = Inr (t, msk)"
  obtains "2 \<le> t" "t < 2 + number_of_timers s" "msk = timer_mask (tflag (timers s (t - 2))) t"
    "occ s t" "wide s (t - 2) \<Longrightarrow> even t \<and> t + 1 < 2 + number_of_timers s \<and> occ s (t + 1)"
    "t = (if wide s (unat timer - 2) then unat timer - unat timer mod 2 else unat timer)" "f_gptu_on s \<noteq> 0"
proof -
  let ?i = "unat timer - 2" let ?f = "tflag (timers s ?i)"
  have n: "even (number_of_timers s)" "number_of_timers s \<le> 12" using wf by (auto simp: gptu_wf_def wf_base_def)
  have g: "f_gptu_on s \<noteq> 0" "2 \<le> unat timer" "unat timer < 2 + number_of_timers s"
    and t: "t = unat (if MASK_SIZE ?f \<noteq> 0 then timer AND NOT 1 else timer)" and m: "msk = timer_mask ?f t"
    and z: "(occupation s AND msk) XOR msk = 0"
    using o by (auto simp: occupied_timer_def Let_def not_le not_less word_le_nat_alt split: if_splits)
  have t': "t = (if wide s ?i then unat timer - unat timer mod 2 else unat timer)"
    unfolding t wide_def by (simp only: even_clear_low if_distrib [of unat])
  have b: "occ s b" if "bit msk b" for b
    using arg_cong [OF z, of "\<lambda>x. bit x b"] that by (simp add: bit_xor_iff bit_and_iff)
  have t2: "2 \<le> t" "t < 2 + number_of_timers s" using g(2,3) unfolding t' by presburger+
  then have t32: "t + 1 < 32" using n by simp
  have ot: "occ s t" by (rule b) (simp add: m bit_timer_mask [OF t32])
  have same: "wide s (t - 2) \<longleftrightarrow> wide s ?i"
  proof (cases "wide s ?i")
    case True
    have o1: "occ s (t + 1)" by (rule b) (use True in \<open>simp add: m bit_timer_mask [OF t32] wide_def\<close>)
    have "unat timer = t \<or> unat timer = t + 1 \<and> even t" using True t' g(2) by presburger
    then show ?thesis
    proof
      assume u: "unat timer = t + 1 \<and> even t"
      then have i: "?i = t - 2 + 1" "?i < number_of_timers s" "?i + 2 = t + 1" using t2 g by simp_all
      then have "occ s (?i + 2) \<and> wide s ?i" using o1 True by (simp only:)
      then have "wide s (partner ?i)" using wf i(2) unfolding gptu_wf_def wf_pairs_def by blast
      moreover have "partner ?i = t - 2" using u i(1) t2(1) by (simp add: partner_def)
      ultimately show ?thesis using True by simp
    qed simp
  next
    case False
    then show ?thesis using t' by simp
  qed
  have "msk = timer_mask (tflag (timers s (t - 2))) t" using same unfolding m wide_def timer_mask_def by simp
  moreover have "even t \<and> t + 1 < 2 + number_of_timers s \<and> occ s (t + 1)" if "wide s (t - 2)"
  proof -
    have w: "wide s ?i" using that same by blast
    then have e: "even t" using t' by (simp add: minus_mod_eq_mult_div)
    moreover have "t + 1 < 2 + number_of_timers s" using e n(1) t2(2) by presburger
    moreover have "occ s (t + 1)" by (rule b) (use w in \<open>simp add: m bit_timer_mask [OF t32] wide_def\<close>)
    ultimately show ?thesis by blast
  qed
  ultimately show thesis using that t2 ot t' g(1) by blast
qed

text \<open>What freeing does to the fields of the invariant.\<close>

lemma free_fields:
  assumes "occupied_timer timer s = Inr (t, msk)" and "free_timer timer s = (r, s')"
  shows "r = 0" "number_of_timers s' = number_of_timers s" "occupation s' = occupation s AND NOT msk"
    "f_gptu_on s' = (if occupation s AND NOT msk = 0 then 0 else f_gptu_on s)"
    "tirq (timers s' i) = tirq (timers s i)" "tflag (timers s' i) = tflag (timers s i)"
    "f_irq_on (timers s' i) = (if i = t - 2 then 0 else f_irq_on (timers s i))"
    "gptu_icu s' = (if f_irq_on (timers s (t - 2)) \<noteq> 0 then disable_irq (tirq (timers s (t - 2))) (gptu_icu s) else gptu_icu s)"
  using assms by (auto simp: free_timer_def upd_timer_def disable_gptu_def Let_def split: if_splits)

text \<open>A timer or a pair is removed.\<close>

lemma wf_pairs_remove:
  assumes wf: "gptu_wf s" and n: "number_of_timers s' = number_of_timers s"
    and occ': "\<And>b. occ s' b \<longleftrightarrow> occ s b \<and> b \<noteq> t \<and> \<not> (wide s (t - 2) \<and> b = t + 1)"
    and wide': "\<And>i. wide s' i \<longleftrightarrow> wide s i" and e: "wide s (t - 2) \<Longrightarrow> even t"
    and irq: "\<And>i. f_irq_on (timers s' i) = (if i = t - 2 then 0 else f_irq_on (timers s i))"
  shows "wf_pairs s'"
  unfolding wf_pairs_def
proof (intro allI impI)
  fix i assume i: "i < number_of_timers s'" "occ s' (i + 2) \<and> wide s' i"
  then have o1: "occ s (i + 2)" "wide s i" "i < number_of_timers s" "i + 2 \<noteq> t" "\<not> (wide s (t - 2) \<and> i + 2 = t + 1)"
    using n occ' wide' by auto
  then have o2: "occ s (partner i + 2)" "wide s (partner i)" "odd i \<longrightarrow> f_irq_on (timers s i) = 0"
    using wf unfolding gptu_wf_def wf_pairs_def by blast+
  have "partner i + 2 \<noteq> t"
  proof
    assume a: "partner i + 2 = t"
    then have "partner i = t - 2" by simp
    then have "wide s (t - 2)" using o2(2) by simp
    then show False using a o1(5) e by (auto simp: partner_def split: if_splits)
  qed
  moreover have "\<not> (wide s (t - 2) \<and> partner i + 2 = t + 1)"
    using o1(4) e by (auto simp: partner_def split: if_splits)
  ultimately show "occ s' (partner i + 2) \<and> wide s' (partner i) \<and> (odd i \<longrightarrow> f_irq_on (timers s' i) = 0)"
    using o2 irq [of i] occ' wide' by simp
qed

lemma free_wf:
  assumes wf: "gptu_wf s" and f: "free_timer timer s = (r, s')"
  shows "gptu_wf s'"
proof (cases "occupied_timer timer s")
  case (Inl e)
  then show ?thesis using wf f by (simp add: free_timer_def)
next
  case (Inr p)
  obtain t msk where "p = (t, msk)" by force
  with Inr have o: "occupied_timer timer s = Inr (t, msk)" by simp
  show ?thesis
  proof (rule occupied_timer_Inr [OF wf o])
    let ?n = "number_of_timers s"
    assume t: "2 \<le> t" "t < 2 + ?n" and m: "msk = timer_mask (tflag (timers s (t - 2))) t" and ot: "occ s t"
      and w: "wide s (t - 2) \<Longrightarrow> even t \<and> t + 1 < 2 + ?n \<and> occ s (t + 1)" and g: "f_gptu_on s \<noteq> 0"
    note F = free_fields [OF o f]
    have n: "?n \<le> 12" using wf by (simp add: gptu_wf_def wf_base_def)
    then have t32: "t + 1 < 32" using t(2) by simp
    have t2: "t - 2 + 2 = t" "t - 2 < ?n" using t by simp_all
    have occ': "occ s' b \<longleftrightarrow> occ s b \<and> b \<noteq> t \<and> \<not> (wide s (t - 2) \<and> b = t + 1)" for b
    proof -
      have "bit (occupation s) b \<Longrightarrow> b < 32" using bit_imp_le_length [of "occupation s" b] by simp
      then show ?thesis unfolding F(3) m by (auto simp: bit_and_iff bit_not_iff bit_timer_mask [OF t32] wide_def)
    qed
    have wide': "wide s' i \<longleftrightarrow> wide s i" for i using F(6) by (simp add: wide_def)
    have half: "f_irq_on (timers s (t - 1)) = 0" if "wide s (t - 2)"
    proof -
      have p: "partner (t - 2) = t - 1" "t - 1 + 2 = t + 1" "odd (t - 1)" "t - 1 < ?n"
        using w [OF that] t(1) by (auto simp: partner_def)
      have "wide s (t - 1)" using wf that t2 ot p(1) unfolding gptu_wf_def wf_pairs_def by (metis)
      then show ?thesis using wf w [OF that] p(2-4) unfolding gptu_wf_def wf_pairs_def by (metis)
    qed
    have irq: "tirq (timers s (t - 2)) = TIMER_INTERRUPT + (t - 2)" using wf t2(2) by (simp add: gptu_wf_def wf_base_def)
    have "wf_base s'" using wf F(2-5) occ' g unfolding gptu_wf_def wf_base_def by simp
    moreover have "wf_pairs s'"
      by (rule wf_pairs_remove [OF wf F(2) occ' wide' _ F(7)]) (use w in auto)
    moreover have "wf_lines s'"
    proof (rule wf_lines_at [OF wf F(2), of "t - 2"])
      show "if f_irq_on (timers s' (t - 2)) = 0 then line_off (TIMER_INTERRUPT + (t - 2)) (gptu_icu s')
        else occ s' (t - 2 + 2) \<and> line_on (TIMER_INTERRUPT + (t - 2)) (gptu_icu s')"
        using gptu_wf_line [OF wf t2(2)] F(7,8) irq disable_line by (cases "f_irq_on (timers s (t - 2)) = 0") auto
      show "irq_descs (gptu_icu s') (TIMER_INTERRUPT + i) = irq_descs (gptu_icu s) (TIMER_INTERRUPT + i)" if "i \<noteq> t - 2" for i
        using that F(8) irq line_other(1) [of "TIMER_INTERRUPT + i" "TIMER_INTERRUPT + (t - 2)"] by auto
      show "occ s' (i + 2)" if "i \<noteq> t - 2" "f_irq_on (timers s i) \<noteq> 0" "occ s (i + 2)" for i
      proof -
        have "i + 2 \<noteq> t" "i + 2 = t + 1 \<Longrightarrow> i = t - 1" using that(1) by auto
        then show ?thesis using that half occ' [of "i + 2"] by metis
      qed
    qed (simp add: F(7))
    ultimately show ?thesis by (simp add: gptu_wf_def)
  qed
qed

text \<open>The invariant reads only some of the fields.\<close>

lemma gptu_wf_cong:
  assumes "gptu_wf s" "number_of_timers s' = number_of_timers s" "occupation s' = occupation s" "f_gptu_on s' = f_gptu_on s"
    "timers s' = timers s" "\<And>i. i < number_of_timers s \<Longrightarrow>
      irq_descs (gptu_icu s') (TIMER_INTERRUPT + i) = irq_descs (gptu_icu s) (TIMER_INTERRUPT + i)"
  shows "gptu_wf s'"
proof -
  have "wf_base s'" "wf_pairs s'" using assms unfolding gptu_wf_def wf_base_def wf_pairs_def wide_def by simp_all
  moreover have "wf_lines s'"
    by (rule wf_lines_at [OF assms(1,2), of "number_of_timers s"]) (use assms in auto)
  ultimately show ?thesis by (simp add: gptu_wf_def)
qed

lemma start_wf: "gptu_wf s \<Longrightarrow> gptu_wf (snd (start_timer timer b s))"
  by (erule gptu_wf_cong) (auto simp: start_timer_def split: sum.splits)

lemma stop_wf: "gptu_wf s \<Longrightarrow> gptu_wf (snd (stop_timer timer s))"
  by (erule gptu_wf_cong) (auto simp: stop_timer_def split: sum.splits)

lemma irq_handler_wf: "gptu_wf s \<Longrightarrow> gptu_wf (snd (timer_irq_handler irq dev s))"
  by (erule gptu_wf_cong) (auto simp: timer_irq_handler_def Let_def)

lemma request_wf_awake:
  assumes wf: "gptu_wf s" and aw: "awake < 999999" and r: "request_timer awake task timer flag val a1 a2 s = Inr (r, s')"
  shows "gptu_wf s'"
proof (cases rule: request_cases [OF wf aw, of timer task flag val a1 a2, case_names invalid busy given])
  case (given t r' s'')
  then show ?thesis using configure_wf [OF wf given(4-8)] r by simp
qed (use r wf in simp_all)

text \<open>A unit that does not wake up ends the request in a panic, unless it ran already.\<close>

lemma request_wf:
  assumes wf: "gptu_wf s" and r: "request_timer awake task timer flag val a1 a2 s = Inr (r, s')"
  shows "gptu_wf s'"
proof (cases "awake < 999999 \<or> f_gptu_on s \<noteq> 0")
  case True
  moreover have "request_timer awake task timer flag val a1 a2 s = request_timer 0 task timer flag val a1 a2 s" if "f_gptu_on s \<noteq> 0"
    using that by (simp add: request_timer_def configure_timer_def upd_timer_def Let_def split: option.splits)
  ultimately show ?thesis using request_wf_awake [OF wf _ r] request_wf_awake [OF wf, of 0 task timer flag val a1 a2 r s'] r by auto
next
  case False
  then have "s' = s" using r
    by (auto simp: request_timer_def configure_timer_def upd_timer_def enable_gptu_def Let_def split: if_splits option.splits)
  then show ?thesis using wf by simp
qed

lemma ioctl_wf:
  assumes wf: "gptu_wf s" and i: "gptu_ioctl awake task clock rd wr cmd p s = Inr (r, p', s')"
  shows "gptu_wf s'"
proof -
  have st: "(r, p', s') = store_timer p x \<Longrightarrow> s' = snd x" for x by (auto simp: store_timer_def split: if_splits)
  have rq: "gptu_wf s'" if "map_sum id (store_timer p) (request_timer awake task tm fl v a1 a2 s) = Inr (r, p', s')" for tm fl v a1 a2
  proof (cases "request_timer awake task tm fl v a1 a2 s")
    case (Inr b)
    then have "s' = snd b" using that st [of b] by simp
    then show ?thesis using request_wf [OF wf, of awake task tm fl v a1 a2 "fst b" "snd b"] Inr by simp
  qed (use that in simp)
  have f: "gptu_wf (snd (free_timer tm s))" for tm using free_wf [OF wf, of tm] by (cases "free_timer tm s") simp
  consider "cmd \<in> {1, 7, 8}" | "cmd \<in> {2, 3, 4}" | "cmd \<notin> {1, 2, 3, 4, 7, 8}" by blast
  then show ?thesis
  proof cases
    case 1
    then show ?thesis using i wf rq
      by (auto simp: gptu_ioctl_def set_timer_def set_counter_def store_timer_def Let_def split: if_splits)
  next
    case 2
    then show ?thesis using i wf f [of "p_timer p"] start_wf [OF wf, of "p_timer p" "p_flag p \<noteq> 0"] stop_wf [OF wf, of "p_timer p"]
      by (auto simp: gptu_ioctl_def split: if_splits prod.splits)
  next
    case 3
    then have "s' = s" using i by (auto simp: gptu_ioctl_def Let_def split: if_splits prod.splits option.splits)
    then show ?thesis using wf by simp
  qed
qed

section \<open>Initialisation establishes the invariant\<close>

lemma request_irq_on:
  "irq < 161 \<Longrightarrow> action (irq_descs c irq) = [] \<Longrightarrow>
     \<exists>c'. request_irq True irq a c = (0, c') \<and> line_on irq c' \<and> (\<forall>j. j \<noteq> irq \<longrightarrow> irq_descs c' j = irq_descs c j)"
  by (auto simp: request_irq_def line_on_def bit_and_iff bit_not_iff bit_or_iff bit_2_1)

lemma request_lines_ok:
  assumes "distinct is" "\<forall>i\<in>set is. i < 12 \<and> mem i \<and> action (irq_descs (gptu_icu s) (TIMER_INTERRUPT + i)) = []"
  shows "\<exists>s'. request_lines mem is s = Inr s' \<and> number_of_timers s' = number_of_timers s \<and> occupation s' = occupation s
    \<and> f_gptu_on s' = f_gptu_on s \<and> (\<forall>i. f_irq_on (timers s' i) = f_irq_on (timers s i))
    \<and> (\<forall>i\<in>set is. tirq (timers s' i) = TIMER_INTERRUPT + i \<and> line_off (TIMER_INTERRUPT + i) (gptu_icu s'))
    \<and> (\<forall>i. i \<notin> set is \<longrightarrow> tirq (timers s' i) = tirq (timers s i)
        \<and> irq_descs (gptu_icu s') (TIMER_INTERRUPT + i) = irq_descs (gptu_icu s) (TIMER_INTERRUPT + i))"
  using assms
proof (induction "is" arbitrary: s)
  case (Cons i "is")
  have lt: "TIMER_INTERRUPT + i < 161" using Cons.prems(2) by (simp add: TIMER_INTERRUPT_def)
  have fr: "action (irq_descs (gptu_icu s) (TIMER_INTERRUPT + i)) = []" "mem i" using Cons.prems(2) by simp_all
  obtain c where c: "request_irq True (TIMER_INTERRUPT + i) (of_nat i) (gptu_icu s) = (0, c)" "line_on (TIMER_INTERRUPT + i) c"
    "\<forall>j. j \<noteq> TIMER_INTERRUPT + i \<longrightarrow> irq_descs c j = irq_descs (gptu_icu s) j"
    using request_irq_on [OF lt fr(1)] by blast
  let ?u = "upd_timer i (\<lambda>d. d\<lparr>tirq := TIMER_INTERRUPT + i\<rparr>) (s\<lparr>gptu_icu := disable_irq (TIMER_INTERRUPT + i) c\<rparr>)"
  have st: "request_lines mem (i # is) s = request_lines mem is ?u" using c(1) fr(2) by simp
  have u: "number_of_timers ?u = number_of_timers s" "occupation ?u = occupation s" "f_gptu_on ?u = f_gptu_on s"
    "f_irq_on (timers ?u j) = f_irq_on (timers s j)" "tirq (timers ?u j) = (if j = i then TIMER_INTERRUPT + i else tirq (timers s j))" for j
    by (simp_all add: upd_timer_def)
  have off: "line_off (TIMER_INTERRUPT + i) (gptu_icu ?u)" using disable_line [OF c(2)] by (simp add: upd_timer_def)
  have oth: "irq_descs (gptu_icu ?u) (TIMER_INTERRUPT + j) = irq_descs (gptu_icu s) (TIMER_INTERRUPT + j)" if "j \<noteq> i" for j
    using c(3) that by (simp add: upd_timer_def line_other(1))
  have "\<forall>j\<in>set is. j < 12 \<and> mem j \<and> action (irq_descs (gptu_icu ?u) (TIMER_INTERRUPT + j)) = []"
    using Cons.prems oth by (metis distinct.simps(2) list.set_intros(2))
  then obtain s' where s': "request_lines mem is ?u = Inr s'" "number_of_timers s' = number_of_timers ?u" "occupation s' = occupation ?u"
    "f_gptu_on s' = f_gptu_on ?u" "\<forall>i. f_irq_on (timers s' i) = f_irq_on (timers ?u i)"
    "\<forall>i\<in>set is. tirq (timers s' i) = TIMER_INTERRUPT + i \<and> line_off (TIMER_INTERRUPT + i) (gptu_icu s')"
    "\<forall>i. i \<notin> set is \<longrightarrow> tirq (timers s' i) = tirq (timers ?u i)
        \<and> irq_descs (gptu_icu s') (TIMER_INTERRUPT + i) = irq_descs (gptu_icu ?u) (TIMER_INTERRUPT + i)"
    using Cons.IH [of ?u] Cons.prems(1) by (auto simp del: request_lines.simps)
  have "i \<notin> set is" using Cons.prems(1) by simp
  then have "tirq (timers s' i) = TIMER_INTERRUPT + i \<and> line_off (TIMER_INTERRUPT + i) (gptu_icu s')"
    using s'(7) u(5) off by (simp add: line_off_def)
  moreover have "\<forall>j. j \<notin> set (i # is) \<longrightarrow> tirq (timers s' j) = tirq (timers s j)
        \<and> irq_descs (gptu_icu s') (TIMER_INTERRUPT + j) = irq_descs (gptu_icu s) (TIMER_INTERRUPT + j)"
    using s'(7) u(5) oth by simp
  ultimately show ?case unfolding st using s'(1-6) u(1-4) by (intro exI [of _ s']) simp
qed simp

lemma init_wf:
  assumes "awake < 999999" "\<forall>i<12. mem i \<and> action (irq_descs (gptu_icu s) (TIMER_INTERRUPT + i)) = []"
  shows "\<exists>s'. danube_gptu_init awake gptu_id 0 mem s = Inr (0, s') \<and> gptu_wf s' \<and> occupation s' = 0
    \<and> number_of_timers s' = min 12 (2 * unat (drop_bit 5 (gptu_id AND 0xFF)))"
proof -
  let ?n = "unat (drop_bit 5 (gptu_id AND 0xFF)) * 2"
  let ?m = "if ?n > 12 then 12 else ?n"
  define u where "u = s\<lparr>occupation := 0, f_gptu_on := 0, timers := (\<lambda>_. zero_timer), gptu_irnen := 0, gptu_irncr := 0x0FFF,
    gptu_clc := 1, pmu_gpt_off := True, number_of_timers := ?m\<rparr>"
  have u: "number_of_timers u = ?m" "occupation u = 0" "f_gptu_on u = 0" "gptu_icu u = gptu_icu s" "timers u = (\<lambda>_. zero_timer)"
    by (simp_all add: u_def)
  have i: "danube_gptu_init awake gptu_id 0 mem s = map_sum id (Pair 0) (request_lines mem [0..<?m] u)"
    using assms(1) by (simp add: danube_gptu_init_def enable_gptu_def disable_gptu_def Let_def u_def)
  have "\<forall>i\<in>set [0..<?m]. i < 12 \<and> mem i \<and> action (irq_descs (gptu_icu u) (TIMER_INTERRUPT + i)) = []"
    using assms(2) u(4) by simp
  from request_lines_ok [OF distinct_upt this]
  obtain s' where s': "request_lines mem [0..<?m] u = Inr s'" "number_of_timers s' = ?m" "occupation s' = 0" "f_gptu_on s' = 0"
    "\<forall>i. f_irq_on (timers s' i) = 0"
    "\<forall>i\<in>set [0..<?m]. tirq (timers s' i) = TIMER_INTERRUPT + i \<and> line_off (TIMER_INTERRUPT + i) (gptu_icu s')"
    by (auto simp: u zero_timer_def)
  have "gptu_wf s'" using s'(2-6) by (simp add: gptu_wf_def wf_base_def wf_pairs_def wf_lines_def)
  then show ?thesis using i s'(1-3) by (intro exI [of _ s']) (simp add: min_def mult.commute)
qed

section \<open>Reachable states\<close>

text \<open>The calls of the driver's interface, the interrupt handler, and what the hardware and other drivers change meanwhile.\<close>

inductive gptu_step :: "gptu \<Rightarrow> gptu \<Rightarrow> bool" where
  Request: "request_timer awake task timer flag val a1 a2 s = Inr (r, s') \<Longrightarrow> gptu_step s s'"
| Set: "set_timer awake task clock timer freq cyc ext h a1 a2 s = Inr (r, s') \<Longrightarrow> gptu_step s s'"
| Count: "set_counter awake task timer b sync ext tr h a1 a2 s = Inr (r, s') \<Longrightarrow> gptu_step s s'"
| Free: "free_timer timer s = (r, s') \<Longrightarrow> gptu_step s s'"
| Start: "start_timer timer b s = (r, s') \<Longrightarrow> gptu_step s s'"
| Stop: "stop_timer timer s = (r, s') \<Longrightarrow> gptu_step s s'"
| Ioctl: "gptu_ioctl awake task clock rd wr cmd p s = Inr (r, p', s') \<Longrightarrow> gptu_step s s'"
| Interrupt: "timer_irq_handler irq dev s = (es, s') \<Longrightarrow> gptu_step s s'"
| Hardware: "gptu_step s (s\<lparr>gptu_con := con, gptu_count := count, gptu_irncr := cr\<rparr>)"
| Other: "(\<And>i. i < 12 \<Longrightarrow> irq_descs c (TIMER_INTERRUPT + i) = irq_descs (gptu_icu s) (TIMER_INTERRUPT + i)) \<Longrightarrow>
    gptu_step s (s\<lparr>gptu_icu := c\<rparr>)"

lemma gptu_step_wf: "gptu_step s s' \<Longrightarrow> gptu_wf s \<Longrightarrow> gptu_wf s'"
proof (induction rule: gptu_step.induct)
  case (Set awake task clock timer freq cyc ext h a1 a2 s r s')
  then show ?case using request_wf by (auto simp: set_timer_def Let_def split: if_splits)
next
  case (Count awake task timer b sync ext tr h a1 a2 s r s')
  then show ?case using request_wf by (auto simp: set_counter_def)
next
  case (Start timer b s r s')
  then show ?case using start_wf [of s timer b] by simp
next
  case (Stop timer s r s')
  then show ?case using stop_wf [of s timer] by simp
next
  case (Interrupt irq dev s es s')
  then show ?case using irq_handler_wf [of s irq dev] by simp
next
  case (Hardware s con count cr)
  then show ?case by (rule gptu_wf_cong) simp_all
next
  case (Other c s)
  have "number_of_timers s \<le> 12" using Other.prems by (simp add: gptu_wf_def wf_base_def)
  then show ?case using Other.hyps by (intro gptu_wf_cong [OF Other.prems]) simp_all
qed (rule request_wf free_wf ioctl_wf, assumption, assumption)+

definition demo_gptu :: gptu where
  "demo_gptu = \<lparr>number_of_timers = 0, occupation = 0, f_gptu_on = 0, timers = (\<lambda>_. zero_timer), gptu_con = (\<lambda>_. 0),
     gptu_run = (\<lambda>_. 0), gptu_reload = (\<lambda>_. 0), gptu_count = (\<lambda>_. 0), gptu_irnen = 0, gptu_irncr = 0, gptu_clc = 0,
     pmu_gpt_off = True, gptu_icu = demo_icu\<lparr>irq_descs := (\<lambda>_. \<lparr>status = 0, action = [], depth = 0\<rparr>)\<rparr>\<rparr>"



section \<open>Which timer a request gets\<close>

text \<open>A place for a request: a number of an existing timer, even for a pair, with all its bits free.\<close>

definition fits :: "u32 \<Rightarrow> gptu \<Rightarrow> nat \<Rightarrow> bool" where
  "fits flag s t \<longleftrightarrow> 2 \<le> t \<and> t < 2 + number_of_timers s \<and> (MASK_SIZE flag \<noteq> 0 \<longrightarrow> even t) \<and> occupation s AND timer_mask flag t = 0"

lemma find_timer_first:
  assumes "find_timer flag oc limit a = Some t" "a \<le> b" "b < t" "MASK_SIZE flag \<noteq> 0 \<Longrightarrow> even (b - a)"
  shows "oc AND timer_mask flag b \<noteq> 0"
proof -
  have "find_timer flag oc t a = None"
    using assms(1)
  proof (induction flag oc limit a rule: find_timer.induct)
    case (1 flag oc limit a)
    then show ?case
      by (subst find_timer.simps, subst (asm) (3) find_timer.simps) (auto split: if_splits dest: find_timer_Some)
  qed
  from find_timer_None [OF this assms(2,3)] assms(4) show ?thesis by blast
qed

lemma configure_regs:
  assumes "configure_timer awake task t flag v a1 a2 s = Inr s'"
  shows "gptu_con s' = (gptu_con s)(t := con_reg flag)" "gptu_reload s' = (gptu_reload s)(t := v)"
    "i \<noteq> t - 2 \<Longrightarrow> \<not> (MASK_SIZE flag \<noteq> 0 \<and> i = t - 2 + 1) \<Longrightarrow> timers s' i = timers s i"
  using assms by (auto simp: configure_timer_def enable_gptu_def request_irqs_def upd_timer_def Let_def split: if_splits sum.splits)


text \<open>A unit of six timers, the first of them in use.\<close>

definition demo_used :: gptu where
  "demo_used = demo_gptu\<lparr>number_of_timers := 6, occupation := 4, f_gptu_on := 1, timers := (\<lambda>i. zero_timer\<lparr>tirq := TIMER_INTERRUPT + i\<rparr>),
     gptu_icu := demo_icu\<lparr>irq_descs := (\<lambda>_. \<lparr>status = 2, action = [0], depth = 1\<rparr>)\<rparr>\<rparr>"

lemma demo_used_occ: "occ demo_used b \<longleftrightarrow> b = 2"
  using bit_exp_iff [where 'a = "32 word", of 2 b] by (auto simp: demo_used_def)

lemma demo_used_wf: "gptu_wf demo_used"
proof -
  have "wf_base demo_used" unfolding wf_base_def demo_used_occ by (simp add: demo_used_def)
  moreover have "wf_pairs demo_used" "wf_lines demo_used"
    by (simp_all add: wf_pairs_def wf_lines_def wide_def line_off_def demo_used_def zero_timer_def MASK_SIZE_def bit_2_1)
  ultimately show ?thesis by (simp add: gptu_wf_def)
qed


section \<open>Requesting and freeing\<close>

lemma given_occupied:
  assumes wf: "gptu_wf s" and t: "2 \<le> t" "t < 2 + number_of_timers s" "MASK_SIZE flag \<noteq> 0 \<Longrightarrow> even t"
    and c: "configure_timer awake task t flag v a1 a2 (s\<lparr>occupation := occupation s OR timer_mask flag t\<rparr>) = Inr s1"
    and u: "unat u = t \<or> MASK_SIZE flag \<noteq> 0 \<and> unat u = t + 1"
  shows "occupied_timer u s1 = Inr (t, timer_mask flag t)"
proof -
  note F = configure_fields [OF c, simplified]
  have n: "even (number_of_timers s)" using wf by (simp add: gptu_wf_def wf_base_def)
  have t1: "t + 1 < 2 + number_of_timers s" if "MASK_SIZE flag \<noteq> 0" using t(3) [OF that] t(2) n by presburger
  have fl: "tflag (timers s1 (unat u - 2)) = flag" using F(5) [of "unat u - 2"] u t(1) by auto
  have b: "2 \<le> unat u" "unat u < 2 + number_of_timers s" using u t t1 by auto
  have e: "unat (if MASK_SIZE flag \<noteq> 0 then u AND NOT 1 else u) = t"
    using u t(3) by (simp only: if_distrib [of unat] even_clear_low) (auto, presburger)
  have m: "(occupation s1 AND timer_mask flag t) XOR timer_mask flag t = 0"
    unfolding F(2) by (rule bit_eqI) (auto simp: bit_simps)
  show ?thesis using F(1,3) b e m unfolding occupied_timer_def fl
    by (simp add: Let_def word_less_nat_alt not_less)
qed

text \<open>Freeing the timer that a request returned, or that it asked for by number, succeeds and gives the map of
  occupied timers, the marks of the interrupt lines and the state of the unit (on or off) back as they were.\<close>

theorem request_free_round_trip:
  assumes wf: "gptu_wf s" and aw: "awake < 999999"
    and r: "request_timer awake task timer flag val a1 a2 s = Inr (r, s1)" and ok: "0 \<le> r"
    and f: "free_timer (if 0 < r then of_int r else timer) s1 = (r2, s2)"
  shows "r2 = 0 \<and> occupation s2 = occupation s \<and> (\<forall>i<number_of_timers s. f_irq_on (timers s2 i) = f_irq_on (timers s i))
    \<and> (f_gptu_on s2 = 0 \<longleftrightarrow> f_gptu_on s = 0) \<and> gptu_wf s2"
proof (cases rule: request_cases [OF wf aw, of timer task flag val a1 a2, case_names invalid busy given])
  case (given t r' s')
  then have r': "r = r'" "s' = s1" using r by auto
  let ?u = "if 0 < r then of_int r else timer :: u32" and ?m = "timer_mask flag t"
  have n: "number_of_timers s \<le> 12" using wf by (simp add: gptu_wf_def wf_base_def)
  have "unat ?u = t \<or> MASK_SIZE flag \<noteq> 0 \<and> unat ?u = t + 1"
  proof (cases "unat timer < 2")
    case True
    then have "r = int t" "0 < r" using given(2,4) r' by simp_all
    then show ?thesis using given(5) n by (simp add: unat_of_nat_u32)
  next
    case False
    then have "r = 0" "t = (if MASK_SIZE flag = 0 then unat timer else unat timer - unat timer mod 2)" using given(2,3) r' by simp_all
    then show ?thesis by (auto split: if_splits)
  qed
  then have o: "occupied_timer ?u s1 = Inr (t, ?m)"
    using given_occupied [OF wf given(4-6) given(8) [unfolded r']] by blast
  note C = configure_fields [OF given(8) [unfolded r'], simplified] and F = free_fields [OF o f]
  have "occupation s2 = occupation s"
    unfolding F(3) C(2) using given(7) by (intro bit_eqI) (auto simp: bit_simps bit_eq_iff)
  moreover have "f_irq_on (timers s2 i) = f_irq_on (timers s i)" if "i < number_of_timers s" for i
  proof (cases "i = t - 2")
    case True
    then have it: "i + 2 = t" using given(4) by simp
    have t32: "t + 1 < 32" using n given(5) by simp
    have "\<not> occ s t" using arg_cong [OF given(7), of "\<lambda>x. bit x t"] by (simp add: bit_and_iff bit_timer_mask [OF t32])
    then have "f_irq_on (timers s i) = 0" using gptu_wf_line [OF wf that] it by (metis (full_types))
    then show ?thesis using F(7) [of i] True by simp
  next
    case False
    then show ?thesis using F(7) [of i] C(6) by auto
  qed
  moreover have w2: "gptu_wf s2" using free_wf [OF request_wf [OF wf r] f] .
  ultimately show ?thesis using F(1) wf w2 by (auto simp: gptu_wf_def wf_base_def)
qed (use r ok in simp_all)

theorem request_free_round_trip_witness:
  "\<exists>s1 s2. request_timer 3 id 0 0x301 70000 17 9 demo_used = Inr (4, s1) \<and> free_timer 4 s1 = (0, s2) \<and> occupation s2 = 4"
proof -
  have "find_timer 0x301 (occupation demo_used) (2 + number_of_timers demo_used) 2 = Some 4"
    by (simp add: demo_used_def find_timer.simps timer_mask_def MASK_SIZE_def)
  moreover obtain s1 where
    "configure_timer 3 id 4 0x301 70000 17 9 (demo_used\<lparr>occupation := occupation demo_used OR timer_mask 0x301 4\<rparr>) = Inr s1"
    using configure_ok [of 3 id 4 "0x301" 70000 17 9] by auto
  ultimately have s1: "request_timer 3 id 0 0x301 70000 17 9 demo_used = Inr (4, s1)"
    by (simp add: request_timer_any MASK_SIZE_def)
  obtain r2 s2 where f: "free_timer 4 s1 = (r2, s2)" by force
  from request_free_round_trip [OF demo_used_wf _ s1, of r2 s2] f
  have "r2 = 0" "occupation s2 = 4" by (simp_all add: demo_used_def)
  then show ?thesis using s1 f by blast
qed

section \<open>Frequencies\<close>

text \<open>The nearest whole number of clock ticks to a period, for a frequency in thousandths of Hertz.\<close>

definition nearest_ticks :: "u32 \<Rightarrow> u32 \<Rightarrow> nat" where
  "nearest_ticks clock freq = (2 * (unat clock * 1000) + unat freq) div (2 * unat freq)"

lemma cal_divider_nearest:
  assumes f: "0 < freq" "freq \<le> 2 ^ 31" and q: "unat clock * 1000 div unat freq < 2 ^ 32"
  shows "unat (cal_divider clock freq) = nearest_ticks clock freq - 1"
proof -
  let ?n = "unat clock * 1000" and ?f = "unat freq"
  have f0: "0 < ?f" "?f \<le> 2 ^ 31" using f by (simp_all add: word_less_nat_alt word_le_nat_alt unat_gt_0)
  have m: "?n mod ?f < 2 ^ 31" using f0 mod_less_divisor [of ?f ?n] by linarith
  have d: "uint64_divide (uint64_multiply clock 1000) freq = (of_nat (?n div ?f), of_nat (?n mod ?f))"
    using divide_exact [OF f] multiply_exact [of clock 1000] u32_lt [of clock] by simp
  have "unat (push_bit 1 (of_nat (?n mod ?f)) :: u32) = 2 * (?n mod ?f)"
    using m by (subst unat_push) (simp add: unat_of_nat_u32)
  then have "(push_bit 1 (of_nat (?n mod ?f)) :: u32) < freq \<longleftrightarrow> 2 * (?n mod ?f) < ?f" by (simp only: word_less_nat_alt)
  moreover have u: "unat (of_nat (?n div ?f) :: u32) = ?n div ?f" using q by (simp add: unat_of_nat_u32)
  moreover have "unat (of_nat (?n div ?f) - 1 :: u32) = ?n div ?f - 1" if "0 < ?n div ?f"
    using u that by (subst unat_minus_one) auto
  ultimately show ?thesis
    unfolding cal_divider_def d nearest_ticks_def nearest_split [OF f0(1)]
    by (auto simp: word_less_nat_alt)
qed

lemma high_half_zero: "(x :: u32) AND NOT 0xFFFF = 0 \<longleftrightarrow> unat x < 2 ^ 16"
proof -
  have "x AND NOT 0xFFFF = push_bit 16 (drop_bit 16 x)"
  proof -
    have m: "(0xFFFF :: u32) = mask 16" by (simp add: mask_eq_exp_minus_1)
    show ?thesis unfolding m by (rule bit_eqI) (auto simp: bit_simps)
  qed
  moreover have "unat (push_bit 16 (drop_bit 16 x)) = unat x div 2 ^ 16 * 2 ^ 16"
    using u32_lt [of x] by (subst unat_push) (simp add: unat_drop)
  ultimately show ?thesis by (simp add: unat_eq_zero [symmetric] div_eq_0_iff)
qed

lemma set_flag_size:
  "MASK_SIZE ((if b then 1 else 0) OR (if cyc then 4 else 0) OR (if ext then 0x1000 else 0) OR 8 OR MASK_HANDLE h) \<noteq> 0 \<longleftrightarrow> b"
  by (auto simp: MASK_SIZE_bit MASK_HANDLE_def bit_simps)



end
