(* ===== verification/Led.thy ===== *)
theory Led
  imports Gpio Gptu
begin

text \<open>
  The driver of the LED controller (\<open>drivers/char/danube_led.c\<close>).  It shifts the states of up to 24 lights out over three port pins, or
  leaves two of the pins to the ADSL core.  Its state is the registers of the controller, its variables, and the two drivers it calls: the
  pins of \<open>Gpio\<close>, which it owns while lights are on, and the timers of \<open>Gptu\<close>, one of which can be its update clock.  Semaphore
  operations that would wait, a controller that does not wake up and the faults of the other drivers have no result.
\<close>

section \<open>State\<close>

record led =
  led_con0 :: u32
  led_con1 :: u32
  led_cpu0 :: u32
  led_cpu1 :: u32
  led_ar :: u32
  gpt_on :: u32
  gpt_freq :: u32
  adsl_on :: u32
  f_led_on :: u32
  led_module_id :: s32
  led_sem :: nat
  pmu_led_off :: bool
  led_gpio :: gpio
  led_gptu :: gptu

datatype led_fault = Waiting | No_Power | Ports port_fault | Timers gptu_fault

text \<open>What the hardware and the kernel answer during a call: the polls until the controller and the timer unit report that they run, the
  polls until an update of the lights is over, the clock of the timer unit, and \<open>find_task_by_pid\<close>.\<close>

record led_env =
  led_awake :: nat
  gpt_awake :: nat
  swu_polls :: nat
  fpi_clock :: u32
  find_task :: "u32 \<Rightarrow> u32"

record led_config_param =
  operation_mask :: u32
  lp_led :: u32
  lp_source :: u32
  blink_mask :: u32
  lp_blink :: u32
  update_clock :: u32
  fpid :: u32
  store_mode :: u32
  fpis :: u32
  data_offset :: u32
  number_of_enabled_led :: u32
  data_mask :: u32
  lp_data :: u32
  mips0_access_mask :: u32
  mips0_access :: u32
  f_data_clock_on_rising :: u32

abbreviation (input) CONFIG_OPERATION_UPDATE_SOURCE :: u32 where "CONFIG_OPERATION_UPDATE_SOURCE \<equiv> 0x0001"
abbreviation (input) CONFIG_OPERATION_BLINK :: u32 where "CONFIG_OPERATION_BLINK \<equiv> 0x0002"
abbreviation (input) CONFIG_OPERATION_UPDATE_CLOCK :: u32 where "CONFIG_OPERATION_UPDATE_CLOCK \<equiv> 0x0004"
abbreviation (input) CONFIG_OPERATION_STORE_MODE :: u32 where "CONFIG_OPERATION_STORE_MODE \<equiv> 0x0008"
abbreviation (input) CONFIG_OPERATION_SHIFT_CLOCK :: u32 where "CONFIG_OPERATION_SHIFT_CLOCK \<equiv> 0x0010"
abbreviation (input) CONFIG_OPERATION_DATA_OFFSET :: u32 where "CONFIG_OPERATION_DATA_OFFSET \<equiv> 0x0020"
abbreviation (input) CONFIG_OPERATION_NUMBER_OF_LED :: u32 where "CONFIG_OPERATION_NUMBER_OF_LED \<equiv> 0x0040"
abbreviation (input) CONFIG_OPERATION_DATA :: u32 where "CONFIG_OPERATION_DATA \<equiv> 0x0080"
abbreviation (input) CONFIG_OPERATION_MIPS0_ACCESS :: u32 where "CONFIG_OPERATION_MIPS0_ACCESS \<equiv> 0x0100"
abbreviation (input) CONFIG_DATA_CLOCK_EDGE :: u32 where "CONFIG_DATA_CLOCK_EDGE \<equiv> 0x0200"

text \<open>Sequencing of calls that may have no result.\<close>

definition and_then :: "'e + 'a \<Rightarrow> ('a \<Rightarrow> 'e + 'b) \<Rightarrow> 'e + 'b" where
  "and_then x f = (case x of Inl e \<Rightarrow> Inl e | Inr a \<Rightarrow> f a)"

lemma and_then_simps [simp]: "and_then (Inl e) f = Inl e" "and_then (Inr a) f = f a"
  by (simp_all add: and_then_def)

lemma and_then_Inr: "and_then x f = Inr y \<longleftrightarrow> (\<exists>a. x = Inr a \<and> f a = Inr y)"
  by (cases x) auto

definition led_down :: "led \<Rightarrow> led_fault + led" where
  "led_down s = (if led_sem s = 0 then Inl Waiting else Inr (s\<lparr>led_sem := led_sem s - 1\<rparr>))"

definition led_up :: "led \<Rightarrow> led" where
  "led_up s = s\<lparr>led_sem := led_sem s + 1\<rparr>"

section \<open>Register values\<close>

definition SET_BITS :: "u32 \<Rightarrow> nat \<Rightarrow> nat \<Rightarrow> u32 \<Rightarrow> u32" where
  "SET_BITS x msb lsb value =
     (x AND NOT ((push_bit (msb + 1) 1 - 1) XOR (push_bit lsb 1 - 1))) OR push_bit lsb (value AND (push_bit (1 + msb - lsb) 1 - 1))"

definition set_update_source :: "u32 \<Rightarrow> u32 \<Rightarrow> u32 \<Rightarrow> u32" where
  "set_update_source reg led source = (reg AND NOT (push_bit 24 (led AND 3))) OR push_bit 24 (source AND 3)"

definition set_blink_in_batch :: "u32 \<Rightarrow> u32 \<Rightarrow> u32 \<Rightarrow> u32" where
  "set_blink_in_batch reg msk blink = (reg AND NOT ((msk AND 0x00FFFFFF) OR 0x87000000)) OR (blink AND 0x00FFFFFF)"

definition set_data_clock_edge :: "u32 \<Rightarrow> u32 \<Rightarrow> u32" where
  "set_data_clock_edge reg f_on_rising_edge = (if f_on_rising_edge \<noteq> 0 then reg AND NOT (push_bit 26 1) else reg OR push_bit 26 1)"

definition set_update_clock :: "u32 \<Rightarrow> u32 \<Rightarrow> u32 \<Rightarrow> u32" where
  "set_update_clock reg clock divider =
     (if clock = 0 then reg AND NOT 0xC0000000
      else if clock = 1 then (reg AND NOT 0xC0000000) OR 0x40000000
      else if clock = 2 then (reg AND NOT 0xCF800000) OR 0x80000000 OR push_bit 23 (divider AND 0x1F)
      else reg)"

definition set_store_mode :: "u32 \<Rightarrow> u32 \<Rightarrow> u32" where
  "set_store_mode reg mode = (if mode \<noteq> 0 then reg OR push_bit 28 1 else reg AND NOT (push_bit 28 1))"

definition set_shift_clock :: "u32 \<Rightarrow> u32 \<Rightarrow> u32" where
  "set_shift_clock reg divider = SET_BITS reg 21 20 divider"

definition set_data_offset :: "u32 \<Rightarrow> u32 \<Rightarrow> u32" where
  "set_data_offset reg offset = SET_BITS reg 19 18 offset"

definition set_number_of_enabled_led :: "u32 \<Rightarrow> u32 \<Rightarrow> u32" where
  "set_number_of_enabled_led reg number =
     (let bit_mask = (if number > 16 then 7 else if number > 8 then 3 else if number \<noteq> 0 then 1 else 0)
      in (reg AND NOT 7) OR bit_mask)"

definition set_data_in_batch :: "u32 \<Rightarrow> u32 \<Rightarrow> u32 \<Rightarrow> u32" where
  "set_data_in_batch reg msk data = (reg AND NOT (msk AND 0x00FFFFFF)) OR (data AND 0x00FFFFFF)"

definition set_access_right :: "u32 \<Rightarrow> u32 \<Rightarrow> u32 \<Rightarrow> u32" where
  "set_access_right reg msk ar = (reg AND NOT (msk AND 0x00FFFFFF)) OR (NOT ar AND msk)"

section \<open>Power, pins and timers\<close>

definition enable_led :: "nat \<Rightarrow> led \<Rightarrow> led_fault + led" where
  "enable_led awake s = (if awake < 999999 then Inr (s\<lparr>pmu_led_off := False\<rparr>) else Inl No_Power)"

definition disable_led :: "led \<Rightarrow> led" where
  "disable_led s = s\<lparr>pmu_led_off := True\<rparr>"

text \<open>The pins, in the order in which they are reserved, and what is done with each, in order.\<close>

definition led_pins :: "u32 \<Rightarrow> (s32 \<times> s32) list" where
  "led_pins adsl = (if adsl \<noteq> 0 then [(0, 4), (0, 5)] else [(0, 6), (0, 5), (0, 4)])"

definition pin_calls :: "u32 \<Rightarrow> (s32 \<times> s32 \<times> pin_oper) list" where
  "pin_calls adsl =
     (if adsl \<noteq> 0 then
        [(0, 4, danube_port_clear_altsel0), (0, 4, danube_port_set_altsel1), (0, 4, danube_port_set_dir_out), (0, 4, danube_port_set_open_drain),
         (0, 5, danube_port_set_altsel0), (0, 5, danube_port_set_altsel1), (0, 5, danube_port_set_dir_out), (0, 5, danube_port_set_open_drain)]
      else
        [(0, 6, danube_port_set_altsel0), (0, 6, danube_port_clear_altsel1), (0, 6, danube_port_set_dir_out), (0, 6, danube_port_set_open_drain),
         (0, 5, danube_port_set_altsel0), (0, 5, danube_port_clear_altsel1), (0, 5, danube_port_set_dir_out), (0, 5, danube_port_set_open_drain),
         (0, 4, danube_port_set_altsel0), (0, 4, danube_port_clear_altsel1), (0, 4, danube_port_set_dir_out), (0, 4, danube_port_set_open_drain)])"

fun reserve_pins :: "(s32 \<times> s32) list \<Rightarrow> s32 \<Rightarrow> gpio \<Rightarrow> port_fault + s32 \<times> gpio" where
  "reserve_pins [] m g = Inr (0, g)"
| "reserve_pins ((port, pin) # ps) m g =
     and_then (danube_port_reserve_pin port pin m g) (\<lambda>(r, g1). map_sum id (apfst (\<lambda>ret. r OR ret)) (reserve_pins ps m g1))"

fun free_pins :: "(s32 \<times> s32) list \<Rightarrow> s32 \<Rightarrow> gpio \<Rightarrow> port_fault + gpio" where
  "free_pins [] m g = Inr g"
| "free_pins ((port, pin) # ps) m g = and_then (danube_port_free_pin port pin m g) (\<lambda>(r, g1). free_pins ps m g1)"

fun call_pins :: "(s32 \<times> s32 \<times> pin_oper) list \<Rightarrow> s32 \<Rightarrow> gpio \<Rightarrow> port_fault + gpio" where
  "call_pins [] m g = Inr g"
| "call_pins ((port, pin, oper) # ps) m g = and_then (oper port pin m g) (\<lambda>(r, g1). call_pins ps m g1)"

definition release_gpio_port :: "u32 \<Rightarrow> led \<Rightarrow> led_fault + led" where
  "release_gpio_port adsl s = map_sum Ports (\<lambda>g. s\<lparr>led_gpio := g\<rparr>) (free_pins (led_pins adsl) (led_module_id s) (led_gpio s))"

definition setup_gpio_port :: "u32 \<Rightarrow> led \<Rightarrow> led_fault + s32 \<times> led" where
  "setup_gpio_port adsl s =
     and_then (map_sum Ports id (reserve_pins (led_pins adsl) (led_module_id s) (led_gpio s)))
       (\<lambda>(ret, g). let s1 = s\<lparr>led_gpio := g\<rparr> in
          if ret \<noteq> 0 then map_sum id (Pair ret) (release_gpio_port adsl s1)
          else map_sum Ports (\<lambda>g. (0, s1\<lparr>led_gpio := g\<rparr>)) (call_pins (pin_calls adsl) (led_module_id s) g))"

definition TIMER :: "u32 \<Rightarrow> bool \<Rightarrow> u32" where
  "TIMER n X = n * 2 + (if X then 1 else 0)"

definition setup_gpt :: "led_env \<Rightarrow> u32 \<Rightarrow> u32 \<Rightarrow> led \<Rightarrow> led_fault + s32 \<times> led" where
  "setup_gpt env timer freq s =
     (let t = TIMER timer True in
      and_then (map_sum Timers id (set_timer (gpt_awake env) (find_task env) (fpi_clock env) t freq True False 0 0 0 (led_gptu s)))
        (\<lambda>(ret, u). if ret \<noteq> 0 then Inr (ret, s\<lparr>led_gptu := u\<rparr>)
           else case start_timer t False u of
             (ret, u1) \<Rightarrow> Inr (ret, s\<lparr>led_gptu := (if ret \<noteq> 0 then snd (free_timer t u1) else u1)\<rparr>)))"

definition release_gpt :: "u32 \<Rightarrow> led \<Rightarrow> led" where
  "release_gpt timer s =
     (let t = TIMER timer False in s\<lparr>led_gptu := snd (free_timer t (snd (stop_timer t (led_gptu s))))\<rparr>)"

definition turn_on_led :: "led_env \<Rightarrow> u32 \<Rightarrow> led \<Rightarrow> led_fault + s32 \<times> led" where
  "turn_on_led env adsl s =
     and_then (setup_gpio_port adsl s) (\<lambda>(ret, s1). if ret \<noteq> 0 then Inr (ret, s1) else map_sum id (Pair 0) (enable_led (led_awake env) s1))"

definition turn_off_led :: "u32 \<Rightarrow> led \<Rightarrow> led_fault + led" where
  "turn_off_led adsl s = map_sum id disable_led (release_gpio_port adsl s)"

section \<open>Updating, one light\<close>

text \<open>The loop that waits for the end of the update before, a hundred times; \<open>busy\<close> polls see it running.\<close>

fun update_loop :: "nat \<Rightarrow> nat \<Rightarrow> led \<Rightarrow> led_fault + s32 \<times> led" where
  "update_loop 0 busy s = Inr (- EBUSY, s)"
| "update_loop (Suc n) busy s =
     and_then (led_down (if busy = 0 then s\<lparr>led_con0 := led_con0 s AND NOT 0x80000000\<rparr> else s))
       (\<lambda>s1. if \<not> bit (led_con0 s1) 31 then Inr (0, led_up (s1\<lparr>led_con0 := led_con0 s1 OR 0x80000000\<rparr>))
             else update_loop n (busy - 1) (led_up s1))"

definition update_led :: "led_env \<Rightarrow> led \<Rightarrow> led_fault + s32 \<times> led" where
  "update_led env s = (if drop_bit 30 (led_con1 s) \<noteq> 0 then Inr (0, s) else update_loop 100 (swu_polls env) s)"

definition danube_led_set_blink :: "u32 \<Rightarrow> u32 \<Rightarrow> led \<Rightarrow> led_fault + s32 \<times> led" where
  "danube_led_set_blink led blink s =
     (if led > 23 then Inr (- EINVAL, s)
      else
        let bit_mask = push_bit (unat led) 1 in
        map_sum id (\<lambda>s1.
            let s2 = led_up (s1\<lparr>led_con0 := (if blink \<noteq> 0 then led_con0 s1 OR bit_mask else led_con0 s1 AND NOT bit_mask)\<rparr>) in
            (if led = 0 \<and> bit (led_con0 s2) 24 \<or> led = 1 \<and> bit (led_con0 s2) 25 then - EINVAL else 0, s2))
          (led_down s))"

definition danube_led_set_data :: "led_env \<Rightarrow> u32 \<Rightarrow> u32 \<Rightarrow> led \<Rightarrow> led_fault + s32 \<times> led" where
  "danube_led_set_data env led data s =
     (if led > 23 then Inr (- EINVAL, s)
      else
        let bit_mask = push_bit (unat led) 1 in
        and_then (led_down s) (\<lambda>s1.
          let s2 = led_up (s1\<lparr>led_cpu0 := (if data \<noteq> 0 then led_cpu0 s1 OR bit_mask else led_cpu0 s1 AND NOT bit_mask)\<rparr>) in
          if led_ar s1 AND bit_mask = 0 then update_led env s2 else Inr (0, s2)))"

section \<open>Configuration\<close>

text \<open>The local variables of the configuration: the new register values, which of them have changed, and what else is to be done.\<close>

record led_plan =
  reg_con0 :: u32
  reg_con1 :: u32
  reg_cpu0 :: u32
  reg_ar :: u32
  clean_con0 :: bool
  clean_con1 :: bool
  clean_cpu0 :: bool
  clean_ar :: bool
  f_setup_gpt2 :: bool
  f_software_update :: bool
  new_led_on :: u32
  new_adsl_on :: u32

definition first_plan :: "led \<Rightarrow> led_plan" where
  "first_plan s =
     \<lparr>reg_con0 = led_con0 s, reg_con1 = led_con1 s, reg_cpu0 = led_cpu0 s, reg_ar = led_ar s,
      clean_con0 = True, clean_con1 = True, clean_cpu0 = True, clean_ar = True,
      f_setup_gpt2 = False, f_software_update = (led_con0 s AND 0x80000000 = 0), new_led_on = f_led_on s, new_adsl_on = adsl_on s\<rparr>"

text \<open>The operations, each skipped unless selected; \<open>None\<close> is the jump to the end for invalid parameters.\<close>

definition plan_source :: "led_config_param \<Rightarrow> led_plan \<Rightarrow> led_plan option" where
  "plan_source p w =
     (if operation_mask p AND CONFIG_OPERATION_UPDATE_SOURCE = 0 then Some w
      else if lp_led p > 3 \<or> lp_source p > 3 then None
      else Some (w\<lparr>clean_con0 := False, reg_con0 := set_update_source (reg_con0 w) (lp_led p) (lp_source p), new_adsl_on := lp_source p\<rparr>))"

definition plan_blink :: "led_config_param \<Rightarrow> led_plan \<Rightarrow> led_plan option" where
  "plan_blink p w =
     (if operation_mask p AND CONFIG_OPERATION_BLINK = 0 then Some w
      else if blink_mask p AND 0xFF000000 \<noteq> 0 \<or> lp_blink p AND 0xFF000000 \<noteq> 0 then None
      else Some (w\<lparr>clean_con0 := False, reg_con0 := set_blink_in_batch (reg_con0 w) (blink_mask p) (lp_blink p)\<rparr>))"

definition plan_edge :: "led_config_param \<Rightarrow> led_plan \<Rightarrow> led_plan option" where
  "plan_edge p w =
     (if operation_mask p AND CONFIG_DATA_CLOCK_EDGE = 0 then Some w
      else Some (w\<lparr>clean_con0 := False, reg_con0 := set_data_clock_edge (reg_con0 w) (f_data_clock_on_rising p)\<rparr>))"

definition plan_clock :: "led_config_param \<Rightarrow> led_plan \<Rightarrow> led_plan option" where
  "plan_clock p w =
     (if operation_mask p AND CONFIG_OPERATION_UPDATE_CLOCK = 0 then Some w
      else if update_clock p > 2 \<or> update_clock p = 2 \<and> fpid p > 3 then None
      else Some (w\<lparr>clean_con1 := False, f_software_update := (update_clock p = 0),
                  f_setup_gpt2 := (if update_clock p = 1 then True else f_setup_gpt2 w),
                  reg_con1 := set_update_clock (reg_con1 w) (update_clock p) (fpid p)\<rparr>))"

definition plan_store :: "led_config_param \<Rightarrow> led_plan \<Rightarrow> led_plan option" where
  "plan_store p w =
     (if operation_mask p AND CONFIG_OPERATION_STORE_MODE = 0 then Some w
      else Some (w\<lparr>clean_con1 := False, reg_con1 := set_store_mode (reg_con1 w) (store_mode p)\<rparr>))"

definition plan_shift :: "led_config_param \<Rightarrow> led_plan \<Rightarrow> led_plan option" where
  "plan_shift p w =
     (if operation_mask p AND CONFIG_OPERATION_SHIFT_CLOCK = 0 then Some w
      else if fpis p > 3 then None
      else Some (w\<lparr>clean_con1 := False, reg_con1 := set_shift_clock (reg_con1 w) (fpis p)\<rparr>))"

definition plan_offset :: "led_config_param \<Rightarrow> led_plan \<Rightarrow> led_plan option" where
  "plan_offset p w =
     (if operation_mask p AND CONFIG_OPERATION_DATA_OFFSET = 0 then Some w
      else if data_offset p > 3 then None
      else Some (w\<lparr>clean_con1 := False, reg_con1 := set_data_offset (reg_con1 w) (data_offset p)\<rparr>))"

definition plan_number :: "led_config_param \<Rightarrow> led_plan \<Rightarrow> led_plan option" where
  "plan_number p w =
     (if operation_mask p AND CONFIG_OPERATION_NUMBER_OF_LED = 0 then Some w
      else if number_of_enabled_led p > 0x24 then None
      else Some (w\<lparr>new_led_on := (if number_of_enabled_led p \<noteq> 0 then 1 else 0), clean_con1 := False,
                  reg_con1 := set_number_of_enabled_led (reg_con1 w) (number_of_enabled_led p)\<rparr>))"

definition plan_data :: "led_config_param \<Rightarrow> led_plan \<Rightarrow> led_plan option" where
  "plan_data p w =
     (if operation_mask p AND CONFIG_OPERATION_DATA = 0 then Some w
      else if data_mask p AND 0xFF000000 \<noteq> 0 \<or> lp_data p AND 0xFF000000 \<noteq> 0 then None
      else
        let w1 = w\<lparr>clean_cpu0 := False, reg_cpu0 := set_data_in_batch (reg_cpu0 w) (data_mask p) (lp_data p)\<rparr> in
        Some (if f_software_update w1 then w1\<lparr>clean_con0 := False, reg_con0 := reg_con0 w1 OR 0x80000000\<rparr> else w1))"

definition plan_access :: "led_config_param \<Rightarrow> led_plan \<Rightarrow> led_plan option" where
  "plan_access p w =
     (if operation_mask p AND CONFIG_OPERATION_MIPS0_ACCESS = 0 then Some w
      else if mips0_access_mask p AND 0xFF000000 \<noteq> 0 \<or> mips0_access p AND 0xFF000000 \<noteq> 0 then None
      else Some (w\<lparr>clean_ar := False, reg_ar := set_access_right (reg_ar w) (mips0_access_mask p) (mips0_access p)\<rparr>))"

definition make_plan :: "led_config_param \<Rightarrow> led \<Rightarrow> led_plan option" where
  "make_plan p s =
     fold (\<lambda>f w. Option.bind w (f p))
       [plan_source, plan_blink, plan_edge, plan_clock, plan_store, plan_shift, plan_offset, plan_number, plan_data, plan_access]
       (Some (first_plan s))"

text \<open>The timer, the lights, and the registers.\<close>

definition config_gpt :: "led_env \<Rightarrow> led_config_param \<Rightarrow> led_plan \<Rightarrow> led \<Rightarrow> led_fault + s32 \<times> led" where
  "config_gpt env p w s =
     (if f_setup_gpt2 w \<and> new_adsl_on w = 0 then
        map_sum id (\<lambda>(ret, s1). if ret \<noteq> 0 then (ret, s1) else (0, s1\<lparr>gpt_on := 1\<rparr>))
          (if gpt_on s \<noteq> 0 then
             if gpt_freq s \<noteq> fpid p then setup_gpt env 2 (fpid p) ((release_gpt 2 s)\<lparr>gpt_on := 0\<rparr>) else Inr (0, s)
           else setup_gpt env 2 (fpid p) s)
      else Inr (0, if gpt_on s \<noteq> 0 then (release_gpt 2 s)\<lparr>gpt_on := 0\<rparr> else s))"

definition config_power :: "led_env \<Rightarrow> led_plan \<Rightarrow> led \<Rightarrow> led_fault + s32 \<times> led" where
  "config_power env w s =
     (let new_on = (if new_adsl_on w \<noteq> 0 then 1 else new_led_on w) in
      and_then (if new_on = 0 \<or> adsl_on s \<noteq> new_adsl_on w
                then map_sum id (\<lambda>s1. s1\<lparr>f_led_on := 0, adsl_on := 0\<rparr>) (turn_off_led (adsl_on s) s) else Inr s)
        (\<lambda>s1. if f_led_on s1 = 0 \<and> new_on \<noteq> 0
           then map_sum id (\<lambda>(ret, s2). if ret \<noteq> 0 then (ret, s2) else (0, s2\<lparr>adsl_on := new_adsl_on w, f_led_on := 1\<rparr>))
                  (turn_on_led env (new_adsl_on w) s1)
           else Inr (0, s1)))"

definition config_write :: "led_env \<Rightarrow> led_plan \<Rightarrow> led \<Rightarrow> led_fault + led" where
  "config_write env w s =
     map_sum id
       (\<lambda>s1. let s2 = s1\<lparr>led_ar := (if clean_ar w then led_ar s1 else reg_ar w),
                        led_cpu0 := (if clean_cpu0 w then led_cpu0 s1 else reg_cpu0 w),
                        led_con1 := (if clean_con1 w then led_con1 s1 else reg_con1 w),
                        led_con0 := (if clean_con0 w then led_con0 s1 else reg_con0 w)\<rparr>
             in if f_led_on s2 = 0 then disable_led s2 else s2)
       (if f_led_on s = 0 then enable_led (led_awake env) s else Inr s)"

definition danube_led_config :: "led_env \<Rightarrow> led_config_param option \<Rightarrow> led \<Rightarrow> led_fault + s32 \<times> led" where
  "danube_led_config env param s =
     (case param of None \<Rightarrow> Inr (- EINVAL, s)
      | Some p \<Rightarrow>
          and_then (led_down s) (\<lambda>s1.
            case make_plan p s1 of None \<Rightarrow> Inr (- EINVAL, led_up s1)
            | Some w \<Rightarrow>
                and_then (config_gpt env p w s1) (\<lambda>(ret, s2).
                  if ret \<noteq> 0 then Inr (ret, led_up s2)
                  else and_then (config_power env w s2) (\<lambda>(ret, s3).
                    if ret \<noteq> 0 then Inr (ret, led_up ((release_gpt 2 s3)\<lparr>gpt_on := 0\<rparr>))
                    else map_sum id (\<lambda>s4. (0, led_up s4)) (config_write env w s3)))))"

abbreviation (input) LED_CONFIG :: u32 where "LED_CONFIG \<equiv> 1"

definition led_ioctl :: "led_env \<Rightarrow> u32 \<Rightarrow> led_config_param \<Rightarrow> led \<Rightarrow> led_fault + s32 \<times> led" where
  "led_ioctl env cmd param s = (if cmd = LED_CONFIG then danube_led_config env (Some param) s else Inr (- EINVAL, s))"

section \<open>Initialisation\<close>

definition zero_param :: led_config_param where
  "zero_param = \<lparr>operation_mask = 0, lp_led = 0, lp_source = 0, blink_mask = 0, lp_blink = 0, update_clock = 0, fpid = 0, store_mode = 0,
     fpis = 0, data_offset = 0, number_of_enabled_led = 0, data_mask = 0, lp_data = 0, mips0_access_mask = 0, mips0_access = 0,
     f_data_clock_on_rising = 0\<rparr>"

text \<open>\<open>misc\<close> and \<open>misc_dynamic\<close> are the results of the two registrations, \<open>dynamic\<close> the minor number the second one gives.\<close>

definition danube_led_init :: "led_env \<Rightarrow> s32 \<Rightarrow> s32 \<Rightarrow> s32 \<Rightarrow> s32 \<Rightarrow> led \<Rightarrow> led_fault + s32 \<times> led" where
  "danube_led_init env misc misc_dynamic dynamic this_module s =
     and_then (enable_led (led_awake env) s) (\<lambda>s1.
       let s2 = (disable_led (s1\<lparr>led_ar := 0, led_cpu0 := 0, led_cpu1 := 0, led_con1 := 0, led_con0 := 0x84000000\<rparr>))\<lparr>led_sem := 0\<rparr>;
           ret = (if misc = - EBUSY then misc_dynamic else misc);
           minor = (if misc = - EBUSY then dynamic else 151)
       in if ret \<noteq> 0 then Inr (ret, s2)
          else
            let s3 = led_up (s2\<lparr>led_module_id := (if this_module \<noteq> 0 then this_module else 10 * 256 OR minor)\<rparr>);
                p1 = zero_param\<lparr>operation_mask := CONFIG_OPERATION_NUMBER_OF_LED, number_of_enabled_led := 16\<rparr>;
                p2 = p1\<lparr>operation_mask := CONFIG_OPERATION_DATA, data_mask := push_bit 4 1, lp_data := push_bit 4 1\<rparr>
            in and_then (danube_led_config env (Some p1) s3) (\<lambda>(r1, s4).
                 map_sum id (\<lambda>(r2, s5). (0, s5)) (danube_led_config env (Some p2) s4)))"

section \<open>Lists of pins\<close>

abbreviation (input) cells :: "(s32 \<times> s32) list \<Rightarrow> nat list" where "cells \<equiv> map (\<lambda>(p, q). pin_cell p q)"

lemma reserve_pins_spec:
  assumes "\<forall>(p, q)\<in>set ps. pin_ok p q" "distinct (cells ps)" "m \<noteq> 0"
  shows "reserve_pins ps m g =
    Inr (if \<forall>c\<in>set (cells ps). danube_port_pin_usage g c = 0 then 0 else - EBUSY,
      g\<lparr>danube_port_pin_usage := (\<lambda>c. if c \<in> set (cells ps) \<and> danube_port_pin_usage g c = 0 then m else danube_port_pin_usage g c)\<rparr>)"
  using assms
proof (induction ps arbitrary: g)
  case (Cons x ps)
  obtain p q where x: "x = (p, q)" by (cases x)
  let ?c = "pin_cell p q"
  have ok: "pin_ok p q" using Cons.prems(1) x by simp
  have ne: "?c \<notin> set (cells ps)" using Cons.prems(2) x by simp
  let ?g = "if danube_port_pin_usage g ?c = 0
    then g\<lparr>danube_port_pin_usage := (danube_port_pin_usage g)(?c := m)\<rparr> else g"
  have r: "danube_port_reserve_pin p q m g = Inr (if danube_port_pin_usage g ?c = 0 then 0 else - EBUSY, ?g)"
    using pin_accepted [OF ok] by (simp add: danube_port_reserve_pin_def)
  have all: "(\<forall>c\<in>set (cells ps). danube_port_pin_usage ?g c = 0) \<longleftrightarrow> (\<forall>c\<in>set (cells ps). danube_port_pin_usage g c = 0)"
  proof (intro ball_cong refl)
    fix c assume "c \<in> set (cells ps)"
    then have "c \<noteq> ?c" using ne by blast
    then show "danube_port_pin_usage ?g c = 0 \<longleftrightarrow> danube_port_pin_usage g c = 0" by simp
  qed
  have "reserve_pins ps m ?g =
    Inr (if \<forall>c\<in>set (cells ps). danube_port_pin_usage g c = 0 then 0 else - EBUSY,
      ?g\<lparr>danube_port_pin_usage := (\<lambda>c. if c \<in> set (cells ps) \<and> danube_port_pin_usage ?g c = 0 then m else danube_port_pin_usage ?g c)\<rparr>)"
    using Cons.IH [of ?g] Cons.prems unfolding all by simp
  moreover have "?g\<lparr>danube_port_pin_usage := (\<lambda>c. if c \<in> set (cells ps) \<and> danube_port_pin_usage ?g c = 0 then m else danube_port_pin_usage ?g c)\<rparr>
    = g\<lparr>danube_port_pin_usage := (\<lambda>c. if c \<in> set (cells (x # ps)) \<and> danube_port_pin_usage g c = 0 then m else danube_port_pin_usage g c)\<rparr>"
    using ne x by (auto intro!: gpio.equality ext)
  ultimately show ?case unfolding x by (auto simp: r)
qed simp

lemma free_pins_spec:
  assumes "\<forall>(p, q)\<in>set ps. pin_ok p q" "m \<noteq> 0"
  shows "free_pins ps m g =
    Inr (g\<lparr>danube_port_pin_usage := (\<lambda>c. if c \<in> set (cells ps) \<and> danube_port_pin_usage g c = m then 0 else danube_port_pin_usage g c)\<rparr>)"
  using assms
proof (induction ps arbitrary: g)
  case (Cons x ps)
  obtain p q where x: "x = (p, q)" by (cases x)
  let ?c = "pin_cell p q"
  let ?g = "if danube_port_pin_usage g ?c = m
    then g\<lparr>danube_port_pin_usage := (danube_port_pin_usage g)(?c := 0)\<rparr> else g"
  have "pin_ok p q" using Cons.prems(1) x by simp
  then have "\<exists>r. danube_port_free_pin p q m g = Inr (r, ?g)"
    using pin_accepted [of p q] by (simp add: danube_port_free_pin_def)
  moreover have "free_pins ps m ?g =
    Inr (?g\<lparr>danube_port_pin_usage := (\<lambda>c. if c \<in> set (cells ps) \<and> danube_port_pin_usage ?g c = m then 0 else danube_port_pin_usage ?g c)\<rparr>)"
    using Cons by simp
  moreover have "?g\<lparr>danube_port_pin_usage := (\<lambda>c. if c \<in> set (cells ps) \<and> danube_port_pin_usage ?g c = m then 0 else danube_port_pin_usage ?g c)\<rparr>
    = g\<lparr>danube_port_pin_usage := (\<lambda>c. if c \<in> set (cells (x # ps)) \<and> danube_port_pin_usage g c = m then 0 else danube_port_pin_usage g c)\<rparr>"
    using x assms(2) by (auto intro!: gpio.equality ext)
  ultimately show ?case unfolding x by (metis (no_types, lifting) and_then_simps(2) case_prod_conv free_pins.simps(2))
qed simp

text \<open>The bit of a pin in a register, and what a list of calls leaves there.\<close>

fun port_bit :: "gpio \<Rightarrow> s32 \<times> s32 \<times> u32 \<Rightarrow> bool" where
  "port_bit g (p, q, r) = bit (port_regs g (pin_reg p r)) (nat q)"

lemma pin_call:
  assumes op: "pin_operation oper r v" and ok: "pin_ok p q" and own: "danube_port_pin_usage g (pin_cell p q) = m"
  shows "\<exists>g'. oper p q m g = Inr (OK, g') \<and> danube_port_pin_usage g' = danube_port_pin_usage g
    \<and> (\<forall>p' q' r'. pin_ok p' q' \<longrightarrow> r' \<in> out_regs \<longrightarrow>
         port_bit g' (p', q', r') = (if (p', q', r') = (p, q, r) then v else port_bit g (p', q', r')))"
proof -
  from pin_operation.owner_call [OF op ok own] obtain g' where g': "oper p q m g = Inr (OK, g')"
    "danube_port_pin_usage g' = danube_port_pin_usage g" "\<forall>a. a \<noteq> pin_reg p r \<longrightarrow> port_regs g' a = port_regs g a"
    "\<forall>b<32. bit (port_regs g' (pin_reg p r)) b \<longleftrightarrow> (if b = nat q then v else bit (port_regs g (pin_reg p r)) b)" by blast
  have "port_bit g' (p', q', r') = (if (p', q', r') = (p, q, r) then v else port_bit g (p', q', r'))"
    if "pin_ok p' q'" "r' \<in> out_regs" for p' q' r'
  proof -
    have "nat q' < 32" "nat q' = nat q \<longleftrightarrow> q' = q" using that(1) ok by (auto simp: pin_ok_def)
    moreover have "pin_reg p' r' = pin_reg p r \<longleftrightarrow> p' = p \<and> r' = r"
      using pin_reg_inj [OF that(2) pin_operation.out_reg [OF op] that(1) ok] .
    ultimately show ?thesis using g'(3,4) by auto
  qed
  with g'(1,2) show ?thesis by blast
qed

lemma call_pins_spec:
  assumes "list_all2 (\<lambda>(p, q, oper) ((p', q', r), v). p' = p \<and> q' = q \<and> pin_ok p q \<and> pin_operation oper r v) calls tab"
    and "distinct (map fst tab)" "\<forall>(p, q, oper)\<in>set calls. danube_port_pin_usage g (pin_cell p q) = m"
  shows "\<exists>g'. call_pins calls m g = Inr g' \<and> danube_port_pin_usage g' = danube_port_pin_usage g
    \<and> (\<forall>(k, v)\<in>set tab. port_bit g' k = v)
    \<and> (\<forall>p q r. pin_ok p q \<longrightarrow> r \<in> out_regs \<longrightarrow> (p, q, r) \<notin> fst ` set tab \<longrightarrow> port_bit g' (p, q, r) = port_bit g (p, q, r))"
  using assms
proof (induction calls arbitrary: g tab)
  case (Cons x calls)
  obtain p q oper where x: "x = (p, q, oper)" by (cases x)
  from Cons.prems(1) x obtain r v tab' where t: "tab = ((p, q, r), v) # tab'" "pin_ok p q" "pin_operation oper r v"
    "list_all2 (\<lambda>(p, q, oper) ((p', q', r), v). p' = p \<and> q' = q \<and> pin_ok p q \<and> pin_operation oper r v) calls tab'"
    by (auto simp: list_all2_Cons1)
  have "danube_port_pin_usage g (pin_cell p q) = m" using Cons.prems(3) x by auto
  from pin_call [OF t(3,2) this] obtain g1 where g1: "oper p q m g = Inr (OK, g1)" "danube_port_pin_usage g1 = danube_port_pin_usage g"
    "\<forall>p' q' r'. pin_ok p' q' \<longrightarrow> r' \<in> out_regs \<longrightarrow>
       port_bit g1 (p', q', r') = (if (p', q', r') = (p, q, r) then v else port_bit g (p', q', r'))" by blast
  have "distinct (map fst tab')" "\<forall>(p, q, oper)\<in>set calls. danube_port_pin_usage g1 (pin_cell p q) = m"
    using Cons.prems(2,3) t(1) g1(2) by auto
  from Cons.IH [OF t(4) this] obtain g' where g': "call_pins calls m g1 = Inr g'" "danube_port_pin_usage g' = danube_port_pin_usage g1"
    "\<forall>(k, v)\<in>set tab'. port_bit g' k = v"
    "\<forall>p q r. pin_ok p q \<longrightarrow> r \<in> out_regs \<longrightarrow> (p, q, r) \<notin> fst ` set tab' \<longrightarrow> port_bit g' (p, q, r) = port_bit g1 (p, q, r)" by blast
  have "port_bit g' (p, q, r) = v"
    using g'(4) g1(3) t(2) pin_operation.out_reg [OF t(3)] Cons.prems(2) t(1) by auto
  then show ?case using g' g1 t(1) x by auto
qed simp

section \<open>The resources of the driver\<close>

text \<open>The pins of the two modes are to be set like this: register, and the level of the bit.\<close>

definition pin_setup :: "u32 \<Rightarrow> ((s32 \<times> s32 \<times> u32) \<times> bool) list" where
  "pin_setup adsl =
     (if adsl \<noteq> 0 then
        [((0, 4, DANUBE_PORT_ALTSEL0_REG), False), ((0, 4, DANUBE_PORT_ALTSEL1_REG), True), ((0, 4, DANUBE_PORT_DIR_REG), True),
         ((0, 4, DANUBE_PORT_OD_REG), True), ((0, 5, DANUBE_PORT_ALTSEL0_REG), True), ((0, 5, DANUBE_PORT_ALTSEL1_REG), True),
         ((0, 5, DANUBE_PORT_DIR_REG), True), ((0, 5, DANUBE_PORT_OD_REG), True)]
      else
        [((0, 6, DANUBE_PORT_ALTSEL0_REG), True), ((0, 6, DANUBE_PORT_ALTSEL1_REG), False), ((0, 6, DANUBE_PORT_DIR_REG), True),
         ((0, 6, DANUBE_PORT_OD_REG), True), ((0, 5, DANUBE_PORT_ALTSEL0_REG), True), ((0, 5, DANUBE_PORT_ALTSEL1_REG), False),
         ((0, 5, DANUBE_PORT_DIR_REG), True), ((0, 5, DANUBE_PORT_OD_REG), True), ((0, 4, DANUBE_PORT_ALTSEL0_REG), True),
         ((0, 4, DANUBE_PORT_ALTSEL1_REG), False), ((0, 4, DANUBE_PORT_DIR_REG), True), ((0, 4, DANUBE_PORT_OD_REG), True)])"

lemma led_pins_ok: "\<forall>(p, q)\<in>set (led_pins a). pin_ok p q" "distinct (cells (led_pins a))"
  "\<forall>c\<in>set (cells (led_pins a)). c < 32"
  by (auto simp: led_pins_def pin_ok_def pin_cell_def)

lemma pin_calls_setup:
  "list_all2 (\<lambda>(p, q, oper) ((p', q', r), v). p' = p \<and> q' = q \<and> pin_ok p q \<and> pin_operation oper r v) (pin_calls a) (pin_setup a)"
  using set_open_drain.pin_operation_axioms set_dir_out.pin_operation_axioms set_altsel0.pin_operation_axioms
    clear_altsel0.pin_operation_axioms set_altsel1.pin_operation_axioms clear_altsel1.pin_operation_axioms
  by (simp add: pin_calls_def pin_setup_def pin_ok_def)

lemma pin_setup_keys: "distinct (map fst (pin_setup a))"
  "((p, q, r), v) \<in> set (pin_setup a) \<Longrightarrow> (p, q) \<in> set (led_pins a) \<and> r \<in> out_regs"
  by (auto simp: pin_setup_def led_pins_def port_reg_defs out_regs_def)

lemma pin_calls_pins: "(p, q, oper) \<in> set (pin_calls a) \<Longrightarrow> (p, q) \<in> set (led_pins a)"
  by (auto simp: pin_calls_def led_pins_def split: if_splits)

definition owns :: "led \<Rightarrow> nat \<Rightarrow> bool" where
  "owns s c \<longleftrightarrow> danube_port_pin_usage (led_gpio s) c = led_module_id s"

definition led_inv :: "led \<Rightarrow> bool" where
  "led_inv s \<longleftrightarrow> led_module_id s \<noteq> 0 \<and> (pmu_led_off s \<longleftrightarrow> f_led_on s = 0) \<and> (f_led_on s = 0 \<longrightarrow> adsl_on s = 0)
     \<and> (\<forall>c<32. owns s c \<longleftrightarrow> f_led_on s \<noteq> 0 \<and> c \<in> set (cells (led_pins (adsl_on s))))
     \<and> (f_led_on s \<noteq> 0 \<longrightarrow> (\<forall>(k, v)\<in>set (pin_setup (adsl_on s)). port_bit (led_gpio s) k = v))
     \<and> gptu_wf (led_gptu s)"

text \<open>What no part of the configuration changes but the last.\<close>

definition led_regs :: "led \<Rightarrow> u32 \<times> u32 \<times> u32 \<times> u32 \<times> u32 \<times> u32 \<times> nat \<times> s32" where
  "led_regs s = (led_con0 s, led_con1 s, led_cpu0 s, led_cpu1 s, led_ar s, gpt_freq s, led_sem s, led_module_id s)"

lemma turned_off:
  assumes inv: "led_inv s"
  shows "\<exists>s1. turn_off_led (adsl_on s) s = Inr s1 \<and> led_inv (s1\<lparr>f_led_on := 0, adsl_on := 0\<rparr>) \<and> led_regs s1 = led_regs s"
proof -
  let ?m = "led_module_id s" and ?u = "danube_port_pin_usage (led_gpio s)"
  let ?g = "(led_gpio s)\<lparr>danube_port_pin_usage := (\<lambda>c. if c \<in> set (cells (led_pins (adsl_on s))) \<and> ?u c = ?m then 0 else ?u c)\<rparr>"
  have m: "?m \<noteq> 0" using inv by (simp add: led_inv_def)
  have "turn_off_led (adsl_on s) s = Inr (s\<lparr>led_gpio := ?g, pmu_led_off := True\<rparr>)"
    using free_pins_spec [OF led_pins_ok(1) m, of "adsl_on s" "led_gpio s"]
    by (simp add: turn_off_led_def release_gpio_port_def disable_led_def)
  moreover have "\<not> owns (s\<lparr>led_gpio := ?g, pmu_led_off := True, f_led_on := 0, adsl_on := 0\<rparr>) c" if "c < 32" for c
    using inv that m by (auto simp: led_inv_def owns_def)
  ultimately show ?thesis using inv by (auto simp: led_inv_def led_regs_def)
qed

lemma setup_gpio_port_spec:
  assumes inv: "led_inv s" "f_led_on s = 0"
  shows "setup_gpio_port a s = Inr (- EBUSY, s)
    \<or> (\<exists>g. setup_gpio_port a s = Inr (0, s\<lparr>led_gpio := g\<rparr>)
        \<and> led_inv (s\<lparr>led_gpio := g, pmu_led_off := False, adsl_on := a, f_led_on := 1\<rparr>))"
proof -
  let ?m = "led_module_id s" and ?u = "danube_port_pin_usage (led_gpio s)" and ?C = "set (cells (led_pins a))"
  have m: "?m \<noteq> 0" using inv by (simp add: led_inv_def)
  have none: "?u c \<noteq> ?m" if "c < 32" for c using inv that by (auto simp: led_inv_def owns_def)
  have C: "c < 32" if "c \<in> ?C" for c using led_pins_ok(3) that by blast
  let ?g = "(led_gpio s)\<lparr>danube_port_pin_usage := (\<lambda>c. if c \<in> ?C \<and> ?u c = 0 then ?m else ?u c)\<rparr>"
  note r = reserve_pins_spec [OF led_pins_ok(1,2) m, of a "led_gpio s"]
  show ?thesis
  proof (cases "\<forall>c\<in>?C. ?u c = 0")
    case False
    have "?g\<lparr>danube_port_pin_usage := (\<lambda>c. if c \<in> ?C \<and> danube_port_pin_usage ?g c = ?m then 0 else danube_port_pin_usage ?g c)\<rparr> = led_gpio s"
      using none C m by (intro gpio.equality ext) auto
    then have "release_gpio_port a (s\<lparr>led_gpio := ?g\<rparr>) = Inr s"
      using free_pins_spec [OF led_pins_ok(1) m, of a ?g] by (simp add: release_gpio_port_def)
    moreover have "reserve_pins (led_pins a) ?m (led_gpio s) = Inr (- EBUSY, ?g)" using r False by (simp only: if_False)
    ultimately show ?thesis by (simp add: setup_gpio_port_def Let_def)
  next
    case True
    then have own: "danube_port_pin_usage ?g c = ?m \<longleftrightarrow> c \<in> ?C" if "c < 32" for c using none [OF that] by auto
    have "\<forall>(p, q, oper)\<in>set (pin_calls a). danube_port_pin_usage ?g (pin_cell p q) = ?m"
    proof clarify
      fix p q oper assume "(p, q, oper) \<in> set (pin_calls a)"
      then have "pin_cell p q \<in> ?C" using pin_calls_pins by force
      then show "danube_port_pin_usage ?g (pin_cell p q) = ?m" using own C by blast
    qed
    from call_pins_spec [OF pin_calls_setup pin_setup_keys(1) this] obtain g' where
      g': "call_pins (pin_calls a) ?m ?g = Inr g'" "danube_port_pin_usage g' = danube_port_pin_usage ?g"
      "\<forall>(k, v)\<in>set (pin_setup a). port_bit g' k = v" by blast
    moreover have "reserve_pins (led_pins a) ?m (led_gpio s) = Inr (0, ?g)" using r unfolding if_P [OF True] .
    ultimately have "setup_gpio_port a s = Inr (0, s\<lparr>led_gpio := g'\<rparr>)" by (simp add: setup_gpio_port_def Let_def)
    moreover have "led_inv (s\<lparr>led_gpio := g', pmu_led_off := False, adsl_on := a, f_led_on := 1\<rparr>)"
      using inv own g'(2,3) m by (simp add: led_inv_def owns_def)
    ultimately show ?thesis by blast
  qed
qed

lemma turned_on:
  assumes inv: "led_inv s" "f_led_on s = 0" and on: "turn_on_led env a s = Inr (ret, s1)"
  shows "if ret = 0 then led_inv (s1\<lparr>adsl_on := a, f_led_on := 1\<rparr>) \<and> led_regs s1 = led_regs s else s1 = s"
  using setup_gpio_port_spec [OF inv, of a] on
  by (auto simp: turn_on_led_def enable_led_def led_regs_def split: if_splits)

lemma power_inv:
  assumes inv: "led_inv s" and c: "config_power env w s = Inr (ret, s')"
  shows "led_inv s' \<and> led_regs s' = led_regs s"
proof -
  let ?on = "if new_adsl_on w \<noteq> 0 then 1 else new_led_on w" and ?off = "\<lambda>s1. s1\<lparr>f_led_on := 0, adsl_on := 0\<rparr>"
  obtain s1 where t: "turn_off_led (adsl_on s) s = Inr s1" "led_inv (?off s1)" "led_regs s1 = led_regs s"
    using turned_off [OF inv] by blast
  define s2 where "s2 = (if ?on = 0 \<or> adsl_on s \<noteq> new_adsl_on w then ?off s1 else s)"
  have s2: "led_inv s2" "led_regs s2 = led_regs s" using t inv by (auto simp: s2_def led_regs_def)
  have e: "(if ?on = 0 \<or> adsl_on s \<noteq> new_adsl_on w then map_sum id ?off (turn_off_led (adsl_on s) s) else Inr s) = Inr s2"
    using t(1) by (simp add: s2_def)
  have "(if f_led_on s2 = 0 \<and> ?on \<noteq> 0
      then map_sum id (\<lambda>(ret, s2). if ret \<noteq> 0 then (ret, s2) else (0, s2\<lparr>adsl_on := new_adsl_on w, f_led_on := 1\<rparr>))
             (turn_on_led env (new_adsl_on w) s2)
      else Inr (0, s2)) = Inr (ret, s')"
    using c unfolding config_power_def Let_def e and_then_simps .
  then show ?thesis
    using s2 turned_on [OF s2(1), of env "new_adsl_on w"]
    by (cases "turn_on_led env (new_adsl_on w) s2") (auto simp: led_regs_def split: if_splits)
qed

text \<open>The timer functions keep the timer unit well-formed and change nothing else.\<close>

lemma free_wf_snd: "gptu_wf u \<Longrightarrow> gptu_wf (snd (free_timer t u))"
  using free_wf [of u t] by (cases "free_timer t u") simp

lemma released_gpt: "gptu_wf (led_gptu s) \<Longrightarrow> \<exists>u. release_gpt n s = s\<lparr>led_gptu := u\<rparr> \<and> gptu_wf u"
  unfolding release_gpt_def Let_def by (rule exI, rule conjI [OF refl], intro free_wf_snd stop_wf)

lemma set_up_gpt:
  assumes wf: "gptu_wf (led_gptu s)" and c: "setup_gpt env n freq s = Inr (ret, s')"
  shows "\<exists>u. s' = s\<lparr>led_gptu := u\<rparr> \<and> gptu_wf u"
proof -
  let ?t = "TIMER n True"
  from c obtain r u where u: "set_timer (gpt_awake env) (find_task env) (fpi_clock env) ?t freq True False 0 0 0 (led_gptu s) = Inr (r, u)"
    "(if r \<noteq> 0 then Inr (r, s\<lparr>led_gptu := u\<rparr>) else case start_timer ?t False u of
        (ret, u1) \<Rightarrow> Inr (ret, s\<lparr>led_gptu := (if ret \<noteq> 0 then snd (free_timer ?t u1) else u1)\<rparr>)) = (Inr (ret, s') :: led_fault + s32 \<times> led)"
    by (cases "set_timer (gpt_awake env) (find_task env) (fpi_clock env) ?t freq True False 0 0 0 (led_gptu s)")
      (auto simp: setup_gpt_def Let_def)
  have wu: "gptu_wf u" using gptu_step_wf [OF gptu_step.Set [OF u(1)] wf] .
  have w1: "gptu_wf (snd (start_timer ?t False u))" by (rule start_wf [OF wu])
  have "gptu_wf (snd (free_timer ?t (snd (start_timer ?t False u))))" by (rule free_wf_snd [OF w1])
  then show ?thesis using u(2) wu w1 by (auto split: if_splits prod.splits)
qed

lemma inv_gptu: "led_inv s \<Longrightarrow> gptu_wf u \<Longrightarrow> led_inv (s\<lparr>led_gptu := u, gpt_on := x\<rparr>)"
  "led_inv s \<Longrightarrow> led_inv (s\<lparr>gpt_on := x\<rparr>)" "led_inv s \<Longrightarrow> gptu_wf u \<Longrightarrow> led_inv (s\<lparr>led_gptu := u\<rparr>)"
  by (simp_all add: led_inv_def owns_def)

lemma gpt_inv:
  assumes inv: "led_inv s" and c: "config_gpt env p w s = Inr (ret, s')"
  shows "led_inv s' \<and> led_regs s' = led_regs s"
proof -
  have wf: "gptu_wf (led_gptu s)" using inv by (simp add: led_inv_def)
  obtain v where v: "release_gpt 2 s = s\<lparr>led_gptu := v\<rparr>" "gptu_wf v" using released_gpt [OF wf] by blast
  have st: "led_inv x \<and> led_regs x = led_regs s" if "setup_gpt env 2 (fpid p) s1 = Inr (r, x)" "s1 = s \<or> s1 = s\<lparr>led_gptu := v, gpt_on := 0\<rparr>" for r x s1
  proof -
    have "led_inv s1" "led_regs s1 = led_regs s" using that(2) inv inv_gptu v(2) by (auto simp: led_regs_def)
    moreover have "gptu_wf (led_gptu s1)" using that(2) wf v(2) by auto
    ultimately show ?thesis using set_up_gpt [OF _ that(1)] inv_gptu(3) by (auto simp: led_regs_def)
  qed
  have up: "led_inv (x\<lparr>gpt_on := y\<rparr>) \<and> led_regs (x\<lparr>gpt_on := y\<rparr>) = led_regs s" if "led_inv x \<and> led_regs x = led_regs s" for x y
    using that inv_gptu(2) by (auto simp: led_regs_def)
  let ?r = "if gpt_on s \<noteq> 0 then
      if gpt_freq s \<noteq> fpid p then setup_gpt env 2 (fpid p) ((release_gpt 2 s)\<lparr>gpt_on := 0\<rparr>) else Inr (0, s)
    else setup_gpt env 2 (fpid p) s"
  have r: "led_inv x \<and> led_regs x = led_regs s" if "?r = Inr (r, x)" for r x
    using that inv st [of s r x] st [of "s\<lparr>led_gptu := v, gpt_on := 0\<rparr>" r x] v(1) by (simp split: if_splits)
  show ?thesis
  proof (cases "f_setup_gpt2 w \<and> new_adsl_on w = 0")
    case True
    then obtain q x where "?r = Inr (q, x)" "s' = (if q \<noteq> 0 then x else x\<lparr>gpt_on := 1\<rparr>)"
      using c by (cases ?r) (auto simp: config_gpt_def split: if_splits)
    then show ?thesis using r up by (simp split: if_splits)
  next
    case False
    then have "s' = (if gpt_on s \<noteq> 0 then s\<lparr>led_gptu := v, gpt_on := 0\<rparr> else s)" using c v(1) by (simp add: config_gpt_def split: if_splits)
    then show ?thesis using inv inv_gptu(1) [OF inv v(2), of 0] by (simp add: led_regs_def)
  qed
qed

lemma config_write_Inr:
  assumes "config_write env w s = Inr s'"
  shows "s' = s\<lparr>led_ar := (if clean_ar w then led_ar s else reg_ar w), led_cpu0 := (if clean_cpu0 w then led_cpu0 s else reg_cpu0 w),
      led_con1 := (if clean_con1 w then led_con1 s else reg_con1 w), led_con0 := (if clean_con0 w then led_con0 s else reg_con0 w),
      pmu_led_off := (f_led_on s = 0 \<or> pmu_led_off s)\<rparr>"
proof (cases "f_led_on s = 0")
  case True
  then show ?thesis
    using assms by (cases "led_awake env < 999999") (simp_all add: config_write_def enable_led_def disable_led_def Let_def cong: if_cong del: if_split)
next
  case False
  then show ?thesis using assms by (auto simp: config_write_def Let_def simp del: if_split)
qed

lemma write_inv:
  assumes "led_inv s" "config_write env w s = Inr s'"
  shows "led_inv s' \<and> led_sem s' = led_sem s \<and> led_module_id s' = led_module_id s"
  unfolding config_write_Inr [OF assms(2)] using assms(1) by (simp add: led_inv_def owns_def del: if_split)

lemma inv_sem: "led_inv (s\<lparr>led_sem := n\<rparr>) = led_inv s"
  by (simp add: led_inv_def owns_def)

lemma config_inv:
  assumes inv: "led_inv s" and c: "danube_led_config env param s = Inr (ret, s')"
  shows "led_inv s' \<and> led_sem s' = led_sem s \<and> led_module_id s' = led_module_id s"
proof (cases param)
  case (Some p)
  let ?s1 = "s\<lparr>led_sem := led_sem s - 1\<rparr>"
  have n: "led_sem s \<noteq> 0" using c Some by (auto simp: danube_led_config_def led_down_def split: if_splits)
  have i1: "led_inv ?s1" using inv by (simp add: inv_sem)
  have fin: "led_inv (led_up x) \<and> led_sem (led_up x) = led_sem s \<and> led_module_id (led_up x) = led_module_id s"
    if "led_inv x" "led_sem x = led_sem s - 1" "led_module_id x = led_module_id s" for x
    using that n by (simp add: led_up_def inv_sem)
  show ?thesis
  proof (cases "make_plan p ?s1")
    case None
    then show ?thesis using c Some n fin [OF i1] by (simp add: danube_led_config_def led_down_def)
  next
    case plan: (Some w)
    from c Some n plan obtain r2 s2 where s2: "config_gpt env p w ?s1 = Inr (r2, s2)"
      "(if r2 \<noteq> 0 then Inr (r2, led_up s2)
        else and_then (config_power env w s2) (\<lambda>(ret, s3).
          if ret \<noteq> 0 then Inr (ret, led_up ((release_gpt 2 s3)\<lparr>gpt_on := 0\<rparr>))
          else map_sum id (\<lambda>s4. (0, led_up s4)) (config_write env w s3))) = Inr (ret, s')"
      by (auto simp: danube_led_config_def led_down_def and_then_Inr)
    note i2 = gpt_inv [OF i1 s2(1)]
    show ?thesis
    proof (cases "r2 = 0")
      case False
      then show ?thesis using s2(2) i2 fin by (auto simp: led_regs_def)
    next
      case True
      with s2(2) obtain r3 s3 where s3: "config_power env w s2 = Inr (r3, s3)"
        "(if r3 \<noteq> 0 then Inr (r3, led_up ((release_gpt 2 s3)\<lparr>gpt_on := 0\<rparr>))
          else map_sum id (\<lambda>s4. (0, led_up s4)) (config_write env w s3)) = Inr (ret, s')" by (auto simp: and_then_Inr)
      have i3: "led_inv s3" "led_regs s3 = led_regs ?s1" using power_inv [OF _ s3(1)] i2 by auto
      obtain v where v: "release_gpt 2 s3 = s3\<lparr>led_gptu := v\<rparr>" "gptu_wf v"
        using released_gpt [of s3 2] i3(1) by (auto simp: led_inv_def)
      show ?thesis using s3(2) fin [of "s3\<lparr>led_gptu := v, gpt_on := 0\<rparr>"] inv_gptu(1) [OF i3(1) v(2), of 0] i3 v(1) write_inv [OF i3(1)] fin
        by (auto simp: led_regs_def split: if_splits dest!: map_sum_InrD)
    qed
  qed
qed (use c inv in \<open>simp add: danube_led_config_def\<close>)

section \<open>Every call returns\<close>

lemma request_returns:
  assumes "gptu_wf u" "awake < 999999"
  shows "\<exists>x. request_timer awake task timer flag val a1 a2 u = Inr x"
  by (cases rule: request_cases [OF assms, of timer task flag val a1 a2]) auto

lemma setup_gpt_returns:
  assumes "gptu_wf (led_gptu s)" "gpt_awake env < 999999"
  shows "\<exists>ret s'. setup_gpt env n freq s = Inr (ret, s')"
proof -
  obtain x where "set_timer (gpt_awake env) (find_task env) (fpi_clock env) (TIMER n True) freq True False 0 0 0 (led_gptu s) = Inr x"
    unfolding set_timer_def Let_def using request_returns [OF assms] by (metis (mono_tags, lifting))
  then show ?thesis by (cases x) (auto simp: setup_gpt_def Let_def split: prod.splits)
qed

lemma gpt_returns:
  assumes inv: "led_inv s" and aw: "gpt_awake env < 999999"
  shows "\<exists>ret s'. config_gpt env p w s = Inr (ret, s')"
proof -
  have wf: "gptu_wf (led_gptu s)" using inv by (simp add: led_inv_def)
  obtain v where v: "release_gpt 2 s = s\<lparr>led_gptu := v\<rparr>" "gptu_wf v" using released_gpt [OF wf] by blast
  have "gptu_wf (led_gptu (s\<lparr>led_gptu := v, gpt_on := 0\<rparr>))" using v(2) by simp
  from setup_gpt_returns [OF this aw, of 2 "fpid p"] setup_gpt_returns [OF wf aw, of 2 "fpid p"] v(1)
  show ?thesis by (auto simp: config_gpt_def)
qed

lemma power_returns:
  assumes inv: "led_inv s" and aw: "led_awake env < 999999"
  shows "\<exists>ret s'. config_power env w s = Inr (ret, s')"
proof -
  let ?on = "if new_adsl_on w \<noteq> 0 then 1 else new_led_on w" and ?off = "\<lambda>s1. s1\<lparr>f_led_on := 0, adsl_on := 0\<rparr>"
  obtain s1 where t: "turn_off_led (adsl_on s) s = Inr s1" "led_inv (?off s1)" using turned_off [OF inv] by blast
  define s2 where "s2 = (if ?on = 0 \<or> adsl_on s \<noteq> new_adsl_on w then ?off s1 else s)"
  have e: "(if ?on = 0 \<or> adsl_on s \<noteq> new_adsl_on w then map_sum id ?off (turn_off_led (adsl_on s) s) else Inr s) = Inr s2"
    using t(1) by (simp add: s2_def)
  have "led_inv s2" using t(2) inv by (simp add: s2_def)
  then have "\<exists>ret x. turn_on_led env (new_adsl_on w) s2 = Inr (ret, x)" if "f_led_on s2 = 0"
    using setup_gpio_port_spec [OF _ that, of "new_adsl_on w"] aw by (auto simp: turn_on_led_def enable_led_def)
  then show ?thesis unfolding config_power_def Let_def e and_then_simps by auto
qed

lemma config_returns:
  assumes inv: "led_inv s" and sem: "led_sem s \<noteq> 0" and aw: "led_awake env < 999999" "gpt_awake env < 999999"
  shows "\<exists>ret s'. danube_led_config env param s = Inr (ret, s')"
proof (cases param)
  case (Some p)
  let ?s1 = "s\<lparr>led_sem := led_sem s - 1\<rparr>"
  have i1: "led_inv ?s1" using inv by (simp add: inv_sem)
  show ?thesis
  proof (cases "make_plan p ?s1")
    case plan: (Some w)
    obtain r2 s2 where g: "config_gpt env p w ?s1 = Inr (r2, s2)" using gpt_returns [OF i1 aw(2)] by blast
    then have "led_inv s2" using gpt_inv [OF i1] by blast
    then obtain r3 s3 where "config_power env w s2 = Inr (r3, s3)" using power_returns aw(1) by blast
    moreover have "\<exists>s4. config_write env w s3 = Inr s4" using aw(1) by (simp add: config_write_def enable_led_def)
    ultimately show ?thesis using Some plan g sem by (auto simp: danube_led_config_def led_down_def)
  qed (use Some sem in \<open>simp add: danube_led_config_def led_down_def\<close>)
qed (simp add: danube_led_config_def)

section \<open>Interleavings\<close>

lemma inv_con0: "led_inv (s\<lparr>led_con0 := x\<rparr>) = led_inv s" "led_inv (s\<lparr>led_cpu0 := x\<rparr>) = led_inv s"
  by (simp_all add: led_inv_def owns_def)

lemma update_inv:
  "update_loop n busy s = Inr (r, s') \<Longrightarrow> led_inv s \<Longrightarrow> led_inv s' \<and> led_sem s' = led_sem s \<and> led_module_id s' = led_module_id s"
proof (induction n busy s rule: update_loop.induct)
  case (2 n busy s)
  let ?s = "if busy = 0 then s\<lparr>led_con0 := led_con0 s AND NOT 0x80000000\<rparr> else s"
  have i: "led_inv ?s" "led_sem ?s = led_sem s" "led_module_id ?s = led_module_id s" using 2(3) by (simp_all add: inv_con0)
  then have n: "led_sem s \<noteq> 0" using 2(2) by (auto simp: led_down_def split: if_splits)
  let ?s1 = "?s\<lparr>led_sem := led_sem ?s - 1\<rparr>"
  have d: "led_down ?s = Inr ?s1" using n i(2) by (simp add: led_down_def)
  have i1: "led_inv (led_up ?s1)" "led_sem (led_up ?s1) = led_sem s" "led_module_id (led_up ?s1) = led_module_id s"
    using i n by (simp_all add: led_up_def inv_sem)
  show ?case
  proof (cases "bit (led_con0 ?s1) 31")
    case True
    then have "update_loop n (busy - 1) (led_up ?s1) = Inr (r, s')" using 2(2) d by simp
    then show ?thesis using 2(1) [of ?s1] True i1 by simp
  next
    case False
    then have "s' = led_up (?s1\<lparr>led_con0 := led_con0 ?s1 OR 0x80000000\<rparr>)" using 2(2) d by simp
    then show ?thesis using i1 by (simp add: led_up_def inv_con0 inv_sem)
  qed
qed simp

lemma up_down:
  "led_sem s \<noteq> 0 \<Longrightarrow> led_up (s\<lparr>led_sem := led_sem s - Suc 0, led_cpu0 := x\<rparr>) = s\<lparr>led_cpu0 := x\<rparr>"
  "led_sem s \<noteq> 0 \<Longrightarrow> led_up (s\<lparr>led_sem := led_sem s - Suc 0, led_con0 := x\<rparr>) = s\<lparr>led_con0 := x\<rparr>"
  by (simp_all add: led_up_def)

lemma set_data_Inr:
  assumes "danube_led_set_data env n d s = Inr (r, s')" "n \<le> 23"
  shows "led_sem s \<noteq> 0 \<and>
    (let b = push_bit (unat n) 1; s1 = s\<lparr>led_cpu0 := (if d \<noteq> 0 then led_cpu0 s OR b else led_cpu0 s AND NOT b)\<rparr>
     in (if led_ar s AND b = 0 then update_led env s1 else Inr (0, s1)) = Inr (r, s'))"
proof -
  have n: "\<not> 23 < n" using assms(2) by simp
  then have "led_sem s \<noteq> 0" using assms(1) by (cases "led_sem s = 0") (simp_all add: danube_led_set_data_def led_down_def Let_def)
  then show ?thesis using assms(1) n by (simp add: danube_led_set_data_def led_down_def Let_def up_down cong: if_cong del: if_split)
qed

lemma set_data_inv:
  assumes "danube_led_set_data env n d s = Inr (r, s')" "led_inv s"
  shows "led_inv s' \<and> led_sem s' = led_sem s \<and> led_module_id s' = led_module_id s"
proof (cases "n > 23")
  case False
  then obtain x where x: "(if led_ar s AND push_bit (unat n) 1 = 0 then update_led env (s\<lparr>led_cpu0 := x\<rparr>) else Inr (0, s\<lparr>led_cpu0 := x\<rparr>)) = Inr (r, s')"
    using set_data_Inr [OF assms(1)] unfolding Let_def not_less by blast
  then show ?thesis using assms(2) update_inv [of 100 "swu_polls env" "s\<lparr>led_cpu0 := x\<rparr>" r s']
    by (auto simp: update_led_def inv_con0 split: if_splits)
qed (use assms in \<open>simp add: danube_led_set_data_def\<close>)

lemma set_blink_inv:
  assumes "danube_led_set_blink n b s = Inr (r, s')" "led_inv s"
  shows "led_inv s' \<and> led_sem s' = led_sem s \<and> led_module_id s' = led_module_id s"
proof (cases "n > 23 \<or> led_sem s = 0")
  case False
  then have "s' = s\<lparr>led_con0 := (if b \<noteq> 0 then led_con0 s OR push_bit (unat n) 1 else led_con0 s AND NOT (push_bit (unat n) 1))\<rparr>"
    using assms(1) by (simp add: danube_led_set_blink_def led_down_def Let_def up_down cong: if_cong)
  then show ?thesis using assms(2) by (simp only: inv_con0) simp
next
  case True
  then show ?thesis using assms by (cases "n > 23") (simp_all add: danube_led_set_blink_def led_down_def Let_def)
qed

text \<open>Other modules do not come to own what they do not own under another number.\<close>

lemma oper_usage:
  assumes op: "pin_operation oper r v" and ok: "pin_ok p q" and c: "oper p q m g = Inr (ret, g')"
  shows "danube_port_pin_usage g' = danube_port_pin_usage g"
proof (cases "danube_port_pin_usage g (pin_cell p q) = m")
  case True
  then show ?thesis using pin_operation.owner_call [OF op ok True] c by auto
next
  case False
  then show ?thesis using pin_operation.denied [OF op ok False] c by simp
qed

lemma ioc_usage:
  assumes op: "pin_operation oper r v" and ok: "pin_ok p q" and c: "PORT_IOC_CALL p q oper g = Inr (ret, g')"
  shows "danube_port_pin_usage g' = danube_port_pin_usage g"
proof (cases "danube_port_pin_usage g (pin_cell p q) = 0")
  case True
  then show ?thesis using pin_operation.ioc_free [OF op ok True] c by auto
next
  case False
  then show ?thesis using pin_operation.ioc_busy [OF op ok False] c by simp
qed

lemma switch_usage:
  assumes ok: "pin_ok (io_port parm) (io_pin parm)" and c: "port_ioctl_switch cmd parm g = Inr (ret, parm', g')"
  shows "danube_port_pin_usage g' x = danube_port_pin_usage g x \<or> danube_port_pin_usage g' x = 0"
proof (cases rule: switch_cases [where cmd = cmd and parm = parm and s = g, case_names table input none])
  case (table nr r f t)
  let ?op = "if io_value parm = 0 then f else t"
  obtain r' v where op: "pin_operation ?op r' v" using ioc_table_operations [OF table(1)] by (cases "io_value parm = 0") auto
  have "map_sum id (\<lambda>(ret, s1). (ret, parm, s1)) (PORT_IOC_CALL (io_port parm) (io_pin parm) ?op g) = Inr (ret, parm', g')"
    using c switch_table(1) [OF table(1)] table(2) by simp
  then have "PORT_IOC_CALL (io_port parm) (io_pin parm) ?op g = Inr (ret, g')" by (auto dest!: map_sum_InrD)
  then show ?thesis using ioc_usage [OF op ok] by simp
next
  case input
  then show ?thesis using c ioc_input [OF ok, of g] by (auto split: if_splits)
qed (use c in simp)

lemma step_not_acquired:
  assumes "port_step M g g'" "m \<notin> M" "m \<noteq> 0" "danube_port_pin_usage g c \<noteq> m"
  shows "danube_port_pin_usage g' c \<noteq> m"
  using assms
proof (induction rule: port_step.induct)
  case (Reserve m' port pin s ret s')
  then show ?case by (auto simp: danube_port_reserve_pin_def split: if_splits)
next
  case (Free m' port pin s ret s')
  then show ?case by (auto simp: danube_port_free_pin_def split: if_splits)
next
  case (Change m' port pin oper s ret s')
  then show ?case using pin_opers_operation oper_usage by metis
next
  case (Ioctl parm user_ok cmd s ret parm' s')
  let ?s = "s\<lparr>port_sem := port_sem s - 1\<rparr>"
  show ?case
    using Ioctl switch_usage [of parm cmd ?s _ _ _ c]
    by (cases "port_ioctl_switch cmd parm ?s") (fastforce simp: danube_port_ioctl_def split: if_splits)+
qed simp

text \<open>The calls of the LED driver, and what other modules do with pins and timers and the controller with its update bit meanwhile.\<close>

inductive led_step :: "s32 set \<Rightarrow> led \<Rightarrow> led \<Rightarrow> bool" for M where
  Config: "danube_led_config env param s = Inr (r, s') \<Longrightarrow> led_step M s s'"
| Ioctl: "led_ioctl env cmd param s = Inr (r, s') \<Longrightarrow> led_step M s s'"
| Data: "danube_led_set_data env n d s = Inr (r, s') \<Longrightarrow> led_step M s s'"
| Blink: "danube_led_set_blink n b s = Inr (r, s') \<Longrightarrow> led_step M s s'"
| Pins: "port_step M (led_gpio s) g \<Longrightarrow> led_step M s (s\<lparr>led_gpio := g\<rparr>)"
| Unit: "gptu_step (led_gptu s) u \<Longrightarrow> led_step M s (s\<lparr>led_gptu := u\<rparr>)"
| Updated: "led_step M s (s\<lparr>led_con0 := led_con0 s AND NOT 0x80000000\<rparr>)"

lemma pins_inv:
  assumes inv: "led_inv s" and st: "port_step M (led_gpio s) g" and m: "led_module_id s \<notin> M"
  shows "led_inv (s\<lparr>led_gpio := g\<rparr>)"
proof -
  let ?m = "led_module_id s"
  have m0: "?m \<noteq> 0" using inv by (simp add: led_inv_def)
  have keep: "keeps_pin p q (led_gpio s) g" if "pin_ok p q" "danube_port_pin_usage (led_gpio s) (pin_cell p q) = ?m" for p q
    using step_keeps [OF st that m0 m] .
  have own: "owns (s\<lparr>led_gpio := g\<rparr>) c \<longleftrightarrow> owns s c" if "c < 32" for c
  proof
    assume "owns (s\<lparr>led_gpio := g\<rparr>) c"
    then show "owns s c" using step_not_acquired [OF st m m0, of c] by (auto simp: owns_def)
  next
    assume o: "owns s c"
    have "int (c div 16) * 16 + int (c mod 16) = int c" by presburger
    then have pc: "pin_cell (int (c div 16)) (int (c mod 16)) = c" by (simp add: pin_cell_def)
    have "pin_ok (int (c div 16)) (int (c mod 16))" using that by (simp add: pin_ok_def)
    from keep [OF this] o show "owns (s\<lparr>led_gpio := g\<rparr>) c" by (simp add: keeps_pin_def owns_def pc)
  qed
  have bits: "port_bit g k = v" if on: "f_led_on s \<noteq> 0" and k: "(k, v) \<in> set (pin_setup (adsl_on s))" for k v
  proof -
    obtain p q r where pqr: "k = (p, q, r)" by (cases k)
    have kk: "(p, q) \<in> set (led_pins (adsl_on s))" "r \<in> out_regs" using pin_setup_keys(2) k pqr by blast+
    then have ok: "pin_ok p q" using led_pins_ok(1) by fastforce
    have "pin_cell p q \<in> set (cells (led_pins (adsl_on s)))" using kk(1) by force
    then have "owns s (pin_cell p q)" using inv on pin_cell_ok [OF ok] unfolding led_inv_def by blast
    then have "port_bit g k = port_bit (led_gpio s) k" using keep [OF ok] kk(2) pqr by (simp add: keeps_pin_def owns_def)
    moreover have "port_bit (led_gpio s) k = v" using inv on k by (auto simp: led_inv_def)
    ultimately show ?thesis by simp
  qed
  show ?thesis using inv own bits by (auto simp: led_inv_def)
qed

lemma led_step_inv:
  assumes "led_step M s s'" "led_inv s" "led_module_id s \<notin> M"
  shows "led_inv s' \<and> led_sem s' = led_sem s \<and> led_module_id s' = led_module_id s"
  using assms
proof (cases rule: led_step.cases)
  case (Ioctl env cmd param r)
  then show ?thesis using config_inv [OF assms(2)] assms(2) by (auto simp: led_ioctl_def split: if_splits)
next
  case (Unit u)
  then show ?thesis using inv_gptu(3) [OF assms(2)] gptu_step_wf assms(2) by (auto simp: led_inv_def)
next
  case (Pins g)
  then show ?thesis using pins_inv [OF assms(2) _ assms(3)] by simp
next
  case Updated
  then show ?thesis using assms(2) by (simp add: inv_con0)
qed (use config_inv set_data_inv set_blink_inv assms(2) in blast)+

text \<open>The state in which the kernel loads the driver.\<close>

definition led_loaded :: "s32 \<Rightarrow> led \<Rightarrow> bool" where
  "led_loaded m s \<longleftrightarrow> gpt_on s = 0 \<and> adsl_on s = 0 \<and> f_led_on s = 0 \<and> gptu_wf (led_gptu s)
     \<and> (\<forall>c<32. danube_port_pin_usage (led_gpio s) c \<noteq> m)"

lemma init_inv:
  assumes m: "m \<noteq> 0" and ld: "led_loaded m s" and aw: "led_awake env < 999999" "gpt_awake env < 999999"
  shows "\<exists>s'. danube_led_init env 0 md dyn m s = Inr (0, s') \<and> led_inv s' \<and> led_sem s' = 1 \<and> led_module_id s' = m"
proof -
  let ?s = "s\<lparr>led_ar := 0, led_cpu0 := 0, led_cpu1 := 0, led_con1 := 0, led_con0 := 0x84000000, pmu_led_off := True, led_module_id := m, led_sem := 1\<rparr>"
  let ?p = "zero_param\<lparr>operation_mask := CONFIG_OPERATION_NUMBER_OF_LED, number_of_enabled_led := 16\<rparr>"
  let ?q = "?p\<lparr>operation_mask := CONFIG_OPERATION_DATA, data_mask := push_bit 4 1, lp_data := push_bit 4 1\<rparr>"
  have i: "led_inv ?s" using m ld by (simp add: led_inv_def led_loaded_def owns_def)
  obtain r4 s4 where 4: "danube_led_config env (Some ?p) ?s = Inr (r4, s4)" using config_returns [OF i _ aw] by fastforce
  have i4: "led_inv s4" "led_sem s4 = 1" "led_module_id s4 = m" using config_inv [OF i 4] by simp_all
  obtain r5 s5 where 5: "danube_led_config env (Some ?q) s4 = Inr (r5, s5)" using config_returns [OF i4(1) _ aw] i4(2) by fastforce
  have "danube_led_init env 0 md dyn m s = Inr (0, s5)"
    using m aw 4 5 by (simp add: danube_led_init_def enable_led_def disable_led_def led_up_def Let_def)
  then show ?thesis using config_inv [OF i4(1) 5] i4 by simp
qed

text \<open>C12: Pins, power and timers.  After a successful initialisation, in every state that any sequence of calls of the driver and any use of pins and
  timers by other modules lead to: no call waits for ever and each releases the semaphore again; the driver owns exactly
  the pins of its mode while lights are on and none otherwise, with the registers of these pins set for the mode; the controller is powered exactly while
  lights are on; and every configuration call returns.\<close>

theorem led_resources:
  assumes m: "m \<noteq> 0" "m \<notin> M" and ld: "led_loaded m s" and aw: "led_awake env < 999999" "gpt_awake env < 999999"
  shows "\<exists>s1. danube_led_init env 0 md dyn m s = Inr (0, s1) \<and>
    (\<forall>s2. (led_step M)\<^sup>*\<^sup>* s1 s2 \<longrightarrow> led_sem s2 = 1 \<and> (pmu_led_off s2 \<longleftrightarrow> f_led_on s2 = 0)
      \<and> (\<forall>c<32. danube_port_pin_usage (led_gpio s2) c = m \<longleftrightarrow> f_led_on s2 \<noteq> 0 \<and> c \<in> set (cells (led_pins (adsl_on s2))))
      \<and> (f_led_on s2 \<noteq> 0 \<longrightarrow> (\<forall>(k, v)\<in>set (pin_setup (adsl_on s2)). port_bit (led_gpio s2) k = v))
      \<and> (\<forall>param. \<exists>r s3. danube_led_config env param s2 = Inr (r, s3)))"
proof -
  obtain s1 where s1: "danube_led_init env 0 md dyn m s = Inr (0, s1)" "led_inv s1" "led_sem s1 = 1" "led_module_id s1 = m"
    using init_inv [OF m(1) ld aw] by blast
  have inv: "led_inv s2 \<and> led_sem s2 = 1 \<and> led_module_id s2 = m" if "(led_step M)\<^sup>*\<^sup>* s1 s2" for s2
    using that
  proof (induction rule: rtranclp_induct)
    case base
    then show ?case using s1 by simp
  next
    case (step x y)
    then show ?case using led_step_inv [OF step.hyps(2)] m(2) by simp
  qed
  show ?thesis
  proof (rule exI [of _ s1], rule conjI [OF s1(1)], rule allI, rule impI)
    fix s2 assume "(led_step M)\<^sup>*\<^sup>* s1 s2"
    from inv [OF this] have i: "led_inv s2" "led_sem s2 = 1" "led_module_id s2 = m" by auto
    have "\<exists>r s3. danube_led_config env param s2 = Inr (r, s3)" for param using config_returns [OF i(1) _ aw] i(2) by simp
    with i show "led_sem s2 = 1 \<and> (pmu_led_off s2 \<longleftrightarrow> f_led_on s2 = 0)
      \<and> (\<forall>c<32. danube_port_pin_usage (led_gpio s2) c = m \<longleftrightarrow> f_led_on s2 \<noteq> 0 \<and> c \<in> set (cells (led_pins (adsl_on s2))))
      \<and> (f_led_on s2 \<noteq> 0 \<longrightarrow> (\<forall>(k, v)\<in>set (pin_setup (adsl_on s2)). port_bit (led_gpio s2) k = v))
      \<and> (\<forall>param. \<exists>r s3. danube_led_config env param s2 = Inr (r, s3))"
      unfolding led_inv_def owns_def by simp
  qed
qed

definition demo_led_env :: led_env where
  "demo_led_env = \<lparr>led_awake = 3, gpt_awake = 3, swu_polls = 2, fpi_clock = 166666667, find_task = (\<lambda>_. 0)\<rparr>"

definition demo_led :: led where
  "demo_led = \<lparr>led_con0 = 0, led_con1 = 0, led_cpu0 = 0, led_cpu1 = 0, led_ar = 0, gpt_on = 0, gpt_freq = 0, adsl_on = 0, f_led_on = 0,
     led_module_id = 0, led_sem = 0, pmu_led_off = True, led_gpio = demo_gpio, led_gptu = demo_used\<rparr>"

lemma demo_led_loaded: "led_loaded 2711 demo_led"
  by (simp add: led_loaded_def demo_led_def demo_gpio_def demo_used_wf)

theorem led_resources_witness:
  "\<exists>s1. danube_led_init demo_led_env 0 0 0 2711 demo_led = Inr (0, s1) \<and> led_sem s1 = 1
    \<and> (danube_port_pin_usage (led_gpio s1) 6 = 2711 \<longleftrightarrow> f_led_on s1 \<noteq> 0 \<and> adsl_on s1 = 0)"
proof -
  have "2711 \<notin> {7 :: s32}" by simp
  from led_resources [OF _ this demo_led_loaded, of demo_led_env 0 0] obtain s1 where
    s1: "danube_led_init demo_led_env 0 0 0 2711 demo_led = Inr (0, s1)" "led_sem s1 = 1"
    "\<forall>c<32. danube_port_pin_usage (led_gpio s1) c = 2711 \<longleftrightarrow> f_led_on s1 \<noteq> 0 \<and> c \<in> set (cells (led_pins (adsl_on s1)))"
    by (auto simp: demo_led_env_def)
  from s1(3) [rule_format, of 6] have "danube_port_pin_usage (led_gpio s1) 6 = 2711 \<longleftrightarrow> f_led_on s1 \<noteq> 0 \<and> adsl_on s1 = 0"
    by (auto simp: led_pins_def pin_cell_def split: if_splits)
  with s1(1,2) show ?thesis by blast
qed

section \<open>The registers\<close>

text \<open>A function that replaces a field of a register.\<close>

locale field_update =
  fixes upd :: "u32 \<Rightarrow> u32" and F :: "nat set" and v :: "nat \<Rightarrow> bool"
  assumes bits: "n < 32 \<Longrightarrow> bit (upd x) n \<longleftrightarrow> (if n \<in> F then v n else bit x n)"
begin

lemma selected: "n < 32 \<Longrightarrow> bit (if sel then upd x else x) n \<longleftrightarrow> (if sel \<and> n \<in> F then v n else bit x n)"
  by (simp add: bits)

end

lemma led_masks: "(0x00FFFFFF :: u32) = mask 24" "(0xC0000000 :: u32) = push_bit 30 (mask 2)" "(0x1F :: u32) = mask 5"
  "(0xCF800000 :: u32) = push_bit 30 (mask 2) OR push_bit 23 (mask 5)" "(7 :: u32) = mask 3" "(3 :: u32) = mask 2"
  "(0x40000000 :: u32) = push_bit 30 1" "(0x80000000 :: u32) = push_bit 31 1"
  by (simp_all add: mask_eq_exp_minus_1)

lemma SET_BITS_bits:
  assumes "lsb \<le> msb" "msb < 31" "n < 32"
  shows "bit (SET_BITS x msb lsb k) n \<longleftrightarrow> (if lsb \<le> n \<and> n \<le> msb then bit k (n - lsb) else bit x n)"
proof -
  have m: "push_bit j 1 - 1 = (mask j :: u32)" for j by (simp add: mask_eq_exp_minus_1)
  show ?thesis using assms unfolding SET_BITS_def m
    by (auto simp: bit_simps)
qed

definition led_groups :: "u32 \<Rightarrow> u32" where
  "led_groups number = (if number > 16 then 7 else if number > 8 then 3 else if number \<noteq> 0 then 1 else 0)"

interpretation number_field: field_update "\<lambda>r. set_number_of_enabled_led r k" "{..<3}" "bit (led_groups k)" for k
proof
  fix n :: nat and x assume "n < 32"
  have "bit (led_groups k) n \<Longrightarrow> n < 3"
    by (auto simp: led_groups_def led_masks(5,6) bit_mask_iff bit_1_iff split: if_splits)
  moreover have "set_number_of_enabled_led x k = (x AND NOT (mask 3)) OR led_groups k"
    unfolding set_number_of_enabled_led_def led_groups_def Let_def by (simp add: mask_eq_exp_minus_1)
  ultimately show "bit (set_number_of_enabled_led x k) n \<longleftrightarrow> (if n \<in> {..<3} then bit (led_groups k) n else bit x n)"
    using \<open>n < 32\<close> by (auto simp: bit_simps)
qed

interpretation offset_field: field_update "\<lambda>r. set_data_offset r k" "{18, 19}" "\<lambda>n. bit k (n - 18)" for k
  by standard (auto simp: set_data_offset_def SET_BITS_bits)

interpretation shift_field: field_update "\<lambda>r. set_shift_clock r k" "{20, 21}" "\<lambda>n. bit k (n - 20)" for k
  by standard (auto simp: set_shift_clock_def SET_BITS_bits)

interpretation store_field: field_update "\<lambda>r. set_store_mode r k" "{28}" "\<lambda>n. k \<noteq> 0" for k
  by standard (auto simp: set_store_mode_def bit_simps simp del: push_bit_of_1)

interpretation data_field: field_update "\<lambda>r. set_data_in_batch r msk d" "{n. n < 24 \<and> (bit msk n \<or> bit d n)}" "bit d" for msk d
  by standard (auto simp: set_data_in_batch_def led_masks(1) bit_simps)

interpretation clock_field: field_update "\<lambda>r. set_update_clock r c d"
  "if c = 2 then {30, 31} \<union> {23..27} else if c \<le> 1 then {30, 31} else {}" "\<lambda>n. if 30 \<le> n then bit c (n - 30) else bit d (n - 23)" for c d
proof
  fix n :: nat and x assume n: "n < 32"
  have e: "set_update_clock x c d = (if c = 0 then x AND NOT (push_bit 30 (mask 2))
      else if c = 1 then (x AND NOT (push_bit 30 (mask 2))) OR push_bit 30 1
      else if c = 2 then (x AND NOT (push_bit 30 (mask 2) OR push_bit 23 (mask 5))) OR push_bit 31 1 OR push_bit 23 (d AND mask 5) else x)"
    unfolding set_update_clock_def led_masks(2,3,4,7,8) by (rule refl)
  have b2: "bit (2 :: u32) j \<longleftrightarrow> j = 1" for j using bit_exp_iff [where 'a = "32 word", of 1 j] by auto
  have "unat c = 0 \<or> unat c = 1 \<or> unat c = 2 \<or> unat c > 2" by linarith
  then consider "c = 0" | "c = 1" | "c = 2" | "c > 2" by (auto simp: word_unat_eq_iff word_less_nat_alt)
  then show "bit (set_update_clock x c d) n \<longleftrightarrow>
    (if n \<in> (if c = 2 then {30, 31} \<union> {23..27} else if c \<le> 1 then {30, 31} else {}) then if 30 \<le> n then bit c (n - 30) else bit d (n - 23) else bit x n)"
  proof cases
    case 1
    show ?thesis unfolding e using n 1 by (auto simp: bit_simps)
  next
    case 2
    show ?thesis unfolding e using n 2 by (auto simp: bit_simps simp del: push_bit_of_1)
  next
    case 3
    show ?thesis unfolding e using n 3 by (auto simp: bit_simps b2 simp del: push_bit_of_1)
  next
    case 4
    then have "\<not> c \<le> 1" "c \<noteq> 2" by (auto simp: word_less_nat_alt word_le_nat_alt)
    then show ?thesis by (auto simp: set_update_clock_def)
  qed
qed

interpretation access_field: field_update "\<lambda>r. set_access_right r (take_bit 24 msk) ar" "{n. n < 24 \<and> bit msk n}" "\<lambda>n. \<not> bit ar n" for msk ar
  by standard (auto simp: set_access_right_def led_masks(1) bit_simps)

interpretation source_field: field_update "\<lambda>r. set_update_source r l src"
  "{n. n \<in> {24, 25} \<and> (bit l (n - 24) \<or> bit src (n - 24))}" "\<lambda>n. bit src (n - 24)" for l src
  by standard (auto simp: set_update_source_def led_masks(6) bit_simps)

interpretation blink_field: field_update "\<lambda>r. set_blink_in_batch r msk b"
  "{n. n \<in> {24, 25, 26, 31} \<or> n < 24 \<and> (bit msk n \<or> bit b n)}" "\<lambda>n. n < 24 \<and> bit b n" for msk b
proof
  fix n :: nat and x assume n: "n < 32"
  have m: "(0x87000000 :: u32) = push_bit 24 (mask 3) OR push_bit 31 1" by (simp add: mask_eq_exp_minus_1)
  show "bit (set_blink_in_batch x msk b) n \<longleftrightarrow>
    (if n \<in> {n. n \<in> {24, 25, 26, 31} \<or> n < 24 \<and> (bit msk n \<or> bit b n)} then n < 24 \<and> bit b n else bit x n)"
    unfolding set_blink_in_batch_def m led_masks(1) using n by (auto simp: bit_simps simp del: push_bit_of_1)
qed

interpretation edge_field: field_update "\<lambda>r. set_data_clock_edge r k" "{26}" "\<lambda>n. k = 0" for k
  by standard (auto simp: set_data_clock_edge_def bit_simps simp del: push_bit_of_1)

interpretation swu_field: field_update "\<lambda>r. r OR 0x80000000" "{31}" "\<lambda>n. True"
  by standard (auto simp: led_masks(8) bit_simps simp del: push_bit_of_1)

abbreviation (input) sel :: "led_config_param \<Rightarrow> u32 \<Rightarrow> bool" where "sel p operation \<equiv> operation_mask p AND operation \<noteq> 0"

text \<open>What each stage of the plan does to the registers.  A register that is not marked as changed has its old value.\<close>

definition clean_kept :: "led \<Rightarrow> led_plan \<Rightarrow> bool" where
  "clean_kept s w \<longleftrightarrow> (clean_con0 w \<longrightarrow> reg_con0 w = led_con0 s) \<and> (clean_con1 w \<longrightarrow> reg_con1 w = led_con1 s)
     \<and> (clean_cpu0 w \<longrightarrow> reg_cpu0 w = led_cpu0 s) \<and> (clean_ar w \<longrightarrow> reg_ar w = led_ar s)"

lemmas stage_defs = plan_source_def plan_blink_def plan_edge_def plan_clock_def plan_store_def plan_shift_def plan_offset_def plan_number_def
  plan_data_def plan_access_def Let_def

lemma plan_clean:
  "plan_source p w = Some w' \<Longrightarrow> clean_kept s w \<Longrightarrow> clean_kept s w'"
  "plan_blink p w = Some w' \<Longrightarrow> clean_kept s w \<Longrightarrow> clean_kept s w'"
  "plan_edge p w = Some w' \<Longrightarrow> clean_kept s w \<Longrightarrow> clean_kept s w'"
  "plan_clock p w = Some w' \<Longrightarrow> clean_kept s w \<Longrightarrow> clean_kept s w'"
  "plan_store p w = Some w' \<Longrightarrow> clean_kept s w \<Longrightarrow> clean_kept s w'"
  "plan_shift p w = Some w' \<Longrightarrow> clean_kept s w \<Longrightarrow> clean_kept s w'"
  "plan_offset p w = Some w' \<Longrightarrow> clean_kept s w \<Longrightarrow> clean_kept s w'"
  "plan_number p w = Some w' \<Longrightarrow> clean_kept s w \<Longrightarrow> clean_kept s w'"
  "plan_data p w = Some w' \<Longrightarrow> clean_kept s w \<Longrightarrow> clean_kept s w'"
  "plan_access p w = Some w' \<Longrightarrow> clean_kept s w \<Longrightarrow> clean_kept s w'"
  unfolding clean_kept_def
  subgoal by (clarsimp simp: plan_source_def split: if_splits)
  subgoal by (clarsimp simp: plan_blink_def split: if_splits)
  subgoal by (clarsimp simp: plan_edge_def split: if_splits)
  subgoal by (clarsimp simp: plan_clock_def split: if_splits)
  subgoal by (clarsimp simp: plan_store_def split: if_splits)
  subgoal by (clarsimp simp: plan_shift_def split: if_splits)
  subgoal by (clarsimp simp: plan_offset_def split: if_splits)
  subgoal by (clarsimp simp: plan_number_def split: if_splits)
  subgoal by (cases "f_software_update w") (clarsimp simp: plan_data_def Let_def split: if_splits)+
  subgoal by (clarsimp simp: plan_access_def split: if_splits)
  done

lemma source_stage: "plan_source p w = Some w' \<Longrightarrow> reg_con1 w' = reg_con1 w \<and> reg_cpu0 w' = reg_cpu0 w \<and> reg_ar w' = reg_ar w
  \<and> f_software_update w' = f_software_update w
  \<and> reg_con0 w' = (if sel p CONFIG_OPERATION_UPDATE_SOURCE then set_update_source (reg_con0 w) (lp_led p) (lp_source p) else reg_con0 w)"
  by (auto simp: plan_source_def split: if_splits)

lemma blink_stage: "plan_blink p w = Some w' \<Longrightarrow> reg_con1 w' = reg_con1 w \<and> reg_cpu0 w' = reg_cpu0 w \<and> reg_ar w' = reg_ar w
  \<and> f_software_update w' = f_software_update w
  \<and> reg_con0 w' = (if sel p CONFIG_OPERATION_BLINK then set_blink_in_batch (reg_con0 w) (blink_mask p) (lp_blink p) else reg_con0 w)"
  by (auto simp: plan_blink_def split: if_splits)

lemma edge_stage: "plan_edge p w = Some w' \<Longrightarrow> reg_con1 w' = reg_con1 w \<and> reg_cpu0 w' = reg_cpu0 w \<and> reg_ar w' = reg_ar w
  \<and> f_software_update w' = f_software_update w
  \<and> reg_con0 w' = (if sel p CONFIG_DATA_CLOCK_EDGE then set_data_clock_edge (reg_con0 w) (f_data_clock_on_rising p) else reg_con0 w)"
  by (auto simp: plan_edge_def split: if_splits)

lemma clock_stage: "plan_clock p w = Some w' \<Longrightarrow> reg_con0 w' = reg_con0 w \<and> reg_cpu0 w' = reg_cpu0 w \<and> reg_ar w' = reg_ar w
  \<and> (f_software_update w' \<longleftrightarrow> (if sel p CONFIG_OPERATION_UPDATE_CLOCK then update_clock p = 0 else f_software_update w))
  \<and> (sel p CONFIG_OPERATION_UPDATE_CLOCK \<longrightarrow> update_clock p \<le> 2)
  \<and> reg_con1 w' = (if sel p CONFIG_OPERATION_UPDATE_CLOCK then set_update_clock (reg_con1 w) (update_clock p) (fpid p) else reg_con1 w)"
  by (auto simp: plan_clock_def split: if_splits)

lemma store_stage: "plan_store p w = Some w' \<Longrightarrow> reg_con0 w' = reg_con0 w \<and> reg_cpu0 w' = reg_cpu0 w \<and> reg_ar w' = reg_ar w
  \<and> f_software_update w' = f_software_update w
  \<and> reg_con1 w' = (if sel p CONFIG_OPERATION_STORE_MODE then set_store_mode (reg_con1 w) (store_mode p) else reg_con1 w)"
  by (auto simp: plan_store_def split: if_splits)

lemma shift_stage: "plan_shift p w = Some w' \<Longrightarrow> reg_con0 w' = reg_con0 w \<and> reg_cpu0 w' = reg_cpu0 w \<and> reg_ar w' = reg_ar w
  \<and> f_software_update w' = f_software_update w
  \<and> reg_con1 w' = (if sel p CONFIG_OPERATION_SHIFT_CLOCK then set_shift_clock (reg_con1 w) (fpis p) else reg_con1 w)"
  by (auto simp: plan_shift_def split: if_splits)

lemma offset_stage: "plan_offset p w = Some w' \<Longrightarrow> reg_con0 w' = reg_con0 w \<and> reg_cpu0 w' = reg_cpu0 w \<and> reg_ar w' = reg_ar w
  \<and> f_software_update w' = f_software_update w
  \<and> reg_con1 w' = (if sel p CONFIG_OPERATION_DATA_OFFSET then set_data_offset (reg_con1 w) (data_offset p) else reg_con1 w)"
  by (auto simp: plan_offset_def split: if_splits)

lemma number_stage: "plan_number p w = Some w' \<Longrightarrow> reg_con0 w' = reg_con0 w \<and> reg_cpu0 w' = reg_cpu0 w \<and> reg_ar w' = reg_ar w
  \<and> f_software_update w' = f_software_update w
  \<and> reg_con1 w' = (if sel p CONFIG_OPERATION_NUMBER_OF_LED then set_number_of_enabled_led (reg_con1 w) (number_of_enabled_led p) else reg_con1 w)"
  by (auto simp: plan_number_def split: if_splits)

lemma data_stage: "plan_data p w = Some w' \<Longrightarrow> reg_con1 w' = reg_con1 w \<and> reg_ar w' = reg_ar w
  \<and> reg_con0 w' = (if sel p CONFIG_OPERATION_DATA \<and> f_software_update w then reg_con0 w OR 0x80000000 else reg_con0 w)
  \<and> reg_cpu0 w' = (if sel p CONFIG_OPERATION_DATA then set_data_in_batch (reg_cpu0 w) (data_mask p) (lp_data p) else reg_cpu0 w)"
  by (auto simp: plan_data_def Let_def split: if_splits)

lemma upper_clear: "x AND 0xFF000000 = 0 \<Longrightarrow> take_bit 24 x = x" for x :: u32
proof (rule bit_word_eqI)
  fix n assume x: "x AND 0xFF000000 = 0" and n: "n < LENGTH(32)"
  have m: "(0xFF000000 :: u32) = push_bit 24 (mask 8)" by (simp add: mask_eq_exp_minus_1)
  have "\<not> (bit x n \<and> 24 \<le> n)" using arg_cong [OF x, of "\<lambda>y. bit y n"] n unfolding m by (auto simp: bit_simps)
  then show "bit (take_bit 24 x) n = bit x n" by (auto simp: bit_simps)
qed

lemma access_stage: "plan_access p w = Some w' \<Longrightarrow> reg_con1 w' = reg_con1 w \<and> reg_con0 w' = reg_con0 w \<and> reg_cpu0 w' = reg_cpu0 w
  \<and> reg_ar w' = (if sel p CONFIG_OPERATION_MIPS0_ACCESS then set_access_right (reg_ar w) (take_bit 24 (mips0_access_mask p)) (mips0_access p) else reg_ar w)"
  by (auto simp: plan_access_def upper_clear split: if_splits)

text \<open>The bits of the new registers.\<close>

definition con0_bits :: "led_config_param \<Rightarrow> u32 \<Rightarrow> nat \<Rightarrow> bool" where
  "con0_bits p old n =
     (if n = 31 \<and> sel p CONFIG_OPERATION_DATA \<and> (if sel p CONFIG_OPERATION_UPDATE_CLOCK then update_clock p = 0 else \<not> bit old 31) then True
      else if n = 26 \<and> sel p CONFIG_DATA_CLOCK_EDGE then f_data_clock_on_rising p = 0
      else if sel p CONFIG_OPERATION_BLINK \<and> n < 24 \<and> (bit (blink_mask p) n \<or> bit (lp_blink p) n) then bit (lp_blink p) n
      else if sel p CONFIG_OPERATION_BLINK \<and> n \<in> {24, 25, 26, 31} then False
      else if sel p CONFIG_OPERATION_UPDATE_SOURCE \<and> n \<in> {24, 25} \<and> (bit (lp_led p) (n - 24) \<or> bit (lp_source p) (n - 24))
        then bit (lp_source p) (n - 24)
      else bit old n)"

definition con1_bits :: "led_config_param \<Rightarrow> u32 \<Rightarrow> nat \<Rightarrow> bool" where
  "con1_bits p old n =
     (if sel p CONFIG_OPERATION_UPDATE_CLOCK \<and> n \<in> {30, 31} then bit (update_clock p) (n - 30)
      else if sel p CONFIG_OPERATION_UPDATE_CLOCK \<and> update_clock p = 2 \<and> n \<in> {23..27} then bit (fpid p) (n - 23)
      else if sel p CONFIG_OPERATION_STORE_MODE \<and> n = 28 then store_mode p \<noteq> 0
      else if sel p CONFIG_OPERATION_SHIFT_CLOCK \<and> n \<in> {20, 21} then bit (fpis p) (n - 20)
      else if sel p CONFIG_OPERATION_DATA_OFFSET \<and> n \<in> {18, 19} then bit (data_offset p) (n - 18)
      else if sel p CONFIG_OPERATION_NUMBER_OF_LED \<and> n < 3 then bit (led_groups (number_of_enabled_led p)) n
      else bit old n)"

lemma plan_registers:
  assumes "make_plan p s = Some w"
  shows "clean_kept s w" "n < 32 \<Longrightarrow> bit (reg_con0 w) n = con0_bits p (led_con0 s) n" "n < 32 \<Longrightarrow> bit (reg_con1 w) n = con1_bits p (led_con1 s) n"
    "n < 32 \<Longrightarrow> bit (reg_cpu0 w) n =
      (if sel p CONFIG_OPERATION_DATA \<and> n < 24 \<and> (bit (data_mask p) n \<or> bit (lp_data p) n) then bit (lp_data p) n else bit (led_cpu0 s) n)"
    "n < 32 \<Longrightarrow> bit (reg_ar w) n =
      (if sel p CONFIG_OPERATION_MIPS0_ACCESS \<and> n < 24 \<and> bit (mips0_access_mask p) n then \<not> bit (mips0_access p) n else bit (led_ar s) n)"
proof -
  obtain w1 w2 w3 w4 w5 w6 w7 w8 w9 where w: "plan_source p (first_plan s) = Some w1" "plan_blink p w1 = Some w2" "plan_edge p w2 = Some w3"
    "plan_clock p w3 = Some w4" "plan_store p w4 = Some w5" "plan_shift p w5 = Some w6" "plan_offset p w6 = Some w7" "plan_number p w7 = Some w8"
    "plan_data p w8 = Some w9" "plan_access p w9 = Some w"
    using assms by (auto simp: make_plan_def bind_eq_Some_conv)
  note st = source_stage [OF w(1)] blink_stage [OF w(2)] edge_stage [OF w(3)] clock_stage [OF w(4)] store_stage [OF w(5)] shift_stage [OF w(6)]
    offset_stage [OF w(7)] number_stage [OF w(8)] data_stage [OF w(9)] access_stage [OF w(10)]
  have f: "clean_kept s (first_plan s)" by (simp add: clean_kept_def first_plan_def)
  have "clean_kept s w4" using f w(1-4) plan_clean(1-4) by metis
  then show "clean_kept s w" using w(5-10) plan_clean(5-10) by metis
  assume n: "n < 32"
  have u: "f_software_update w8 \<longleftrightarrow> (if sel p CONFIG_OPERATION_UPDATE_CLOCK then update_clock p = 0 else \<not> bit (led_con0 s) 31)"
  proof -
    have "f_software_update (first_plan s) \<longleftrightarrow> \<not> bit (led_con0 s) 31"
      using and_exp_eq_0_iff_not_bit [of "led_con0 s" 31] by (simp add: first_plan_def)
    then show ?thesis using st by simp
  qed
  have c0: "reg_con0 (first_plan s) = led_con0 s" "reg_con1 (first_plan s) = led_con1 s" "reg_cpu0 (first_plan s) = led_cpu0 s"
    "reg_ar (first_plan s) = led_ar s" by (simp_all add: first_plan_def)
  note fields = source_field.selected [OF n] blink_field.selected [OF n] edge_field.selected [OF n] swu_field.selected [OF n]
    clock_field.selected [OF n] store_field.selected [OF n] shift_field.selected [OF n] offset_field.selected [OF n] number_field.selected [OF n]
    data_field.selected [OF n] access_field.selected [OF n]
  show "bit (reg_con0 w) n = con0_bits p (led_con0 s) n"
  proof -
    have "bit (reg_con0 w3) n = (if sel p CONFIG_DATA_CLOCK_EDGE \<and> n = 26 then f_data_clock_on_rising p = 0
      else if sel p CONFIG_OPERATION_BLINK \<and> (n \<in> {24, 25, 26, 31} \<or> n < 24 \<and> (bit (blink_mask p) n \<or> bit (lp_blink p) n))
        then n < 24 \<and> bit (lp_blink p) n
      else if sel p CONFIG_OPERATION_UPDATE_SOURCE \<and> n \<in> {24, 25} \<and> (bit (lp_led p) (n - 24) \<or> bit (lp_source p) (n - 24))
        then bit (lp_source p) (n - 24) else bit (led_con0 s) n)"
      using st(1-3) by (simp only: fields c0 mem_Collect_eq singleton_iff)
    moreover have "bit (reg_con0 w) n \<longleftrightarrow> (if (sel p CONFIG_OPERATION_DATA \<and> f_software_update w8) \<and> n = 31 then True else bit (reg_con0 w3) n)"
      using st(4-10) by (simp only: fields singleton_iff)
    ultimately show ?thesis unfolding con0_bits_def u by auto
  qed
  show "bit (reg_con1 w) n = con1_bits p (led_con1 s) n"
  proof -
    have "bit (reg_con1 w4) n = (if sel p CONFIG_OPERATION_UPDATE_CLOCK
        \<and> n \<in> (if update_clock p = 2 then {30, 31} \<union> {23..27} else if update_clock p \<le> 1 then {30, 31} else {})
      then if 30 \<le> n then bit (update_clock p) (n - 30) else bit (fpid p) (n - 23) else bit (led_con1 s) n)"
      using st(1-4) by (simp only: fields c0)
    moreover have "update_clock p \<le> 1 \<or> update_clock p = 2" if "sel p CONFIG_OPERATION_UPDATE_CLOCK"
    proof -
      have "unat (update_clock p) \<le> 2" using st(4) that by (simp add: word_le_nat_alt)
      then have "unat (update_clock p) \<le> 1 \<or> unat (update_clock p) = 2" by linarith
      then show ?thesis by (simp add: word_le_nat_alt word_unat_eq_iff)
    qed
    ultimately have c: "bit (reg_con1 w4) n = (if sel p CONFIG_OPERATION_UPDATE_CLOCK \<and> n \<in> {30, 31} then bit (update_clock p) (n - 30)
      else if sel p CONFIG_OPERATION_UPDATE_CLOCK \<and> update_clock p = 2 \<and> n \<in> {23..27} then bit (fpid p) (n - 23) else bit (led_con1 s) n)"
      by (cases "update_clock p = 2") auto
    have "bit (reg_con1 w) n = (if sel p CONFIG_OPERATION_NUMBER_OF_LED \<and> n \<in> {..<3} then bit (led_groups (number_of_enabled_led p)) n
      else if sel p CONFIG_OPERATION_DATA_OFFSET \<and> n \<in> {18, 19} then bit (data_offset p) (n - 18)
      else if sel p CONFIG_OPERATION_SHIFT_CLOCK \<and> n \<in> {20, 21} then bit (fpis p) (n - 20)
      else if sel p CONFIG_OPERATION_STORE_MODE \<and> n \<in> {28} then store_mode p \<noteq> 0 else bit (reg_con1 w4) n)"
      using st(5-10) by (simp only: fields)
    note b = this [unfolded c]
    consider "n < 3" | "n = 18" | "n = 19" | "n = 20" | "n = 21" | "n = 28" | "3 \<le> n" "n \<notin> {18, 19, 20, 21, 28}" by force
    then show ?thesis unfolding con1_bits_def b by cases simp_all
  qed
  show "bit (reg_cpu0 w) n =
      (if sel p CONFIG_OPERATION_DATA \<and> n < 24 \<and> (bit (data_mask p) n \<or> bit (lp_data p) n) then bit (lp_data p) n else bit (led_cpu0 s) n)"
    using st by (simp only: fields c0 mem_Collect_eq)
  show "bit (reg_ar w) n =
      (if sel p CONFIG_OPERATION_MIPS0_ACCESS \<and> n < 24 \<and> bit (mips0_access_mask p) n then \<not> bit (mips0_access p) n else bit (led_ar s) n)"
    using st by (simp only: fields c0 mem_Collect_eq)
qed

lemma config_registers:
  assumes inv: "led_inv s" and c: "danube_led_config env (Some p) s = Inr (0, s')"
  shows "\<exists>w. make_plan p s = Some w \<and> led_con0 s' = reg_con0 w \<and> led_con1 s' = reg_con1 w \<and> led_cpu0 s' = reg_cpu0 w \<and> led_ar s' = reg_ar w"
proof -
  let ?s1 = "s\<lparr>led_sem := led_sem s - 1\<rparr>"
  have n: "led_sem s \<noteq> 0" using c by (auto simp: danube_led_config_def led_down_def split: if_splits)
  have i1: "led_inv ?s1" using inv by (simp add: inv_sem)
  have m: "make_plan p ?s1 = make_plan p s" by (simp add: make_plan_def first_plan_def)
  obtain w where w: "make_plan p s = Some w" using c n m by (cases "make_plan p s") (simp_all add: danube_led_config_def led_down_def)
  from c n m w obtain r2 s2 where s2: "config_gpt env p w ?s1 = Inr (r2, s2)"
    "(if r2 \<noteq> 0 then Inr (r2, led_up s2)
      else and_then (config_power env w s2) (\<lambda>(ret, s3).
        if ret \<noteq> 0 then Inr (ret, led_up ((release_gpt 2 s3)\<lparr>gpt_on := 0\<rparr>))
        else map_sum id (\<lambda>s4. (0, led_up s4)) (config_write env w s3))) = Inr (0, s')"
    by (auto simp: danube_led_config_def led_down_def and_then_Inr)
  then obtain r3 s3 where s3: "config_power env w s2 = Inr (r3, s3)"
    "(if r3 \<noteq> 0 then Inr (r3, led_up ((release_gpt 2 s3)\<lparr>gpt_on := 0\<rparr>))
      else map_sum id (\<lambda>s4. (0, led_up s4)) (config_write env w s3)) = Inr (0, s')" by (auto simp: and_then_Inr split: if_splits)
  have "led_regs s3 = led_regs ?s1" using power_inv [OF _ s3(1)] gpt_inv [OF i1 s2(1)] by auto
  moreover from s3(2) obtain s4 where "config_write env w s3 = Inr s4" "s' = led_up s4" by (auto split: if_splits dest!: map_sum_InrD)
  ultimately show ?thesis using w plan_registers(1) [OF w] config_write_Inr [of env w s3 s4]
    by (simp add: led_up_def led_regs_def clean_kept_def)
qed


definition demo_led_param :: led_config_param where
  "demo_led_param = zero_param\<lparr>operation_mask := CONFIG_OPERATION_SHIFT_CLOCK OR CONFIG_OPERATION_DATA, fpis := 2, data_mask := 0x30, lp_data := 0x10\<rparr>"

definition demo_led_ready :: led where
  "demo_led_ready = demo_led\<lparr>led_module_id := 2711, led_sem := 1, led_cpu0 := 0x21\<rparr>"

lemma demo_led_ready_inv: "led_inv demo_led_ready"
  by (simp add: led_inv_def owns_def demo_led_ready_def demo_led_def demo_gpio_def demo_used_wf)

lemma demo_power:
  assumes "led_inv s" "f_led_on s = 0" "adsl_on s = 0" "new_adsl_on w = 0" "new_led_on w = 0"
  shows "\<exists>s1 s2. config_power demo_led_env w s = Inr (0, s1) \<and> config_write demo_led_env w s1 = Inr s2 \<and> gpt_freq s2 = gpt_freq s"
proof -
  obtain s1 where "turn_off_led (adsl_on s) s = Inr s1" using turned_off assms(1) by blast
  then have p: "config_power demo_led_env w s = Inr (0, s1\<lparr>f_led_on := 0, adsl_on := 0\<rparr>)" using assms(4,5) by (simp add: config_power_def)
  moreover obtain s4 where c: "config_write demo_led_env w (s1\<lparr>f_led_on := 0, adsl_on := 0\<rparr>) = Inr s4"
    by (auto simp: config_write_def enable_led_def demo_led_env_def)
  moreover have "gpt_freq s4 = gpt_freq s" using power_inv [OF assms(1) p] config_write_Inr [OF c] by (simp add: led_regs_def)
  ultimately show ?thesis by blast
qed

lemma demo_led_configured: "\<exists>s'. danube_led_config demo_led_env (Some demo_led_param) demo_led_ready = Inr (0, s')"
proof -
  let ?s = "demo_led_ready\<lparr>led_sem := 0\<rparr>"
  have "\<exists>w. make_plan demo_led_param ?s = Some w \<and> \<not> f_setup_gpt2 w \<and> new_adsl_on w = 0 \<and> new_led_on w = 0"
    by (simp add: make_plan_def stage_defs first_plan_def demo_led_param_def zero_param_def demo_led_ready_def demo_led_def)
  then obtain w where w: "make_plan demo_led_param ?s = Some w" "\<not> f_setup_gpt2 w" "new_adsl_on w = 0" "new_led_on w = 0" by blast
  have g: "config_gpt demo_led_env demo_led_param w ?s = Inr (0, ?s)" using w(2) by (simp add: config_gpt_def demo_led_ready_def demo_led_def)
  have "led_inv ?s" using demo_led_ready_inv by (simp add: inv_sem)
  moreover have "f_led_on ?s = 0" "adsl_on ?s = 0" by (simp_all add: demo_led_ready_def demo_led_def)
  ultimately obtain s1 s2 where "config_power demo_led_env w ?s = Inr (0, s1)" "config_write demo_led_env w s1 = Inr s2"
    using demo_power [OF _ _ _ w(3,4)] by blast
  moreover have "led_down demo_led_ready = Inr ?s" by (simp add: led_down_def demo_led_ready_def)
  ultimately show ?thesis using w(1) g by (auto simp: danube_led_config_def)
qed


section \<open>The timer that is never released\<close>

text \<open>Timer 2B is in use on its own.\<close>

definition timer_stuck :: "gptu \<Rightarrow> bool" where
  "timer_stuck u \<longleftrightarrow> gptu_wf u \<and> occ u 5 \<and> \<not> wide u 3"

lemma stuck_set_timer:
  assumes "timer_stuck u"
  shows "set_timer awake task clock 5 freq cyc ext h a1 a2 u \<in> {Inr (- EINVAL, u), Inr (- EBUSY, u)}"
proof -
  have n: "5 < 2 + number_of_timers u" and o: "occ u 5" using assms by (auto simp: timer_stuck_def gptu_wf_def wf_base_def)
  have t: "unat (5 AND NOT 1 :: u32) = 4" unfolding even_clear_low by simp
  then have t4: "\<not> 5 AND NOT 1 < (2 :: u32)" by (simp add: word_less_nat_alt)
  have m: "occupation u AND timer_mask flag (unat (if MASK_SIZE flag = 0 then 5 else 5 AND NOT 1 :: u32)) \<noteq> 0" for flag
  proof
    let ?t = "unat (if MASK_SIZE flag = 0 then 5 else 5 AND NOT 1 :: u32)"
    assume "occupation u AND timer_mask flag ?t = 0"
    from arg_cong [OF this, of "\<lambda>x. bit x 5"] o have "\<not> bit (timer_mask flag ?t) 5" by (simp add: bit_and_iff)
    moreover have "?t = (if MASK_SIZE flag = 0 then 5 else 4)" using t by simp
    ultimately show False using bit_timer_mask [of ?t flag 5] by (simp split: if_splits)
  qed
  have "request_timer awake task 5 flag val a1 a2 u = Inr (- EBUSY, u)" for flag val
    using n t4 m [of flag] by (cases "MASK_SIZE flag = 0") (simp_all add: request_timer_def Let_def)
  then show ?thesis by (simp add: set_timer_def Let_def)
qed

lemma stuck_setup:
  assumes "timer_stuck (led_gptu s)" and c: "setup_gpt env 2 freq s = Inr (ret, s')"
  shows "s' = s \<and> ret \<in> {- EINVAL, - EBUSY}"
proof -
  have t: "TIMER 2 True = 5" by (simp add: TIMER_def)
  from stuck_set_timer [OF assms(1), of "gpt_awake env" "find_task env" "fpi_clock env" freq True False 0 0 0] c
  show ?thesis unfolding setup_gpt_def Let_def t by auto
qed

lemma stuck_occupied:
  assumes st: "timer_stuck u" and o: "occupied_timer 4 u = Inr (t, msk)"
  shows "t = 4 \<and> \<not> bit msk 5"
proof (rule occupied_timer_Inr [OF _ o])
  show "gptu_wf u" using st by (simp add: timer_stuck_def)
  assume t: "t = (if wide u (unat (4 :: u32) - 2) then unat (4 :: u32) - unat (4 :: u32) mod 2 else unat (4 :: u32))"
    and m: "msk = timer_mask (tflag (timers u (t - 2))) t" and o4: "occ u t" and n: "t < 2 + number_of_timers u"
  have t4: "t = 4" using t by (simp split: if_splits)
  have "\<not> wide u 2"
  proof
    assume "wide u 2"
    then have "wide u (partner 2)" using st o4 n t4 by (auto simp: timer_stuck_def gptu_wf_def wf_pairs_def)
    then show False using st by (simp add: partner_def timer_stuck_def)
  qed
  then show ?thesis using t4 m bit_timer_mask [of 4 "tflag (timers u 2)" 5] by (simp add: wide_def)
qed

lemma stuck_release:
  assumes st: "timer_stuck (led_gptu s)"
  shows "timer_stuck (led_gptu (release_gpt 2 s))"
proof -
  let ?u = "led_gptu s"
  have t: "TIMER 2 False = 4" by (simp add: TIMER_def)
  have st1: "timer_stuck (snd (stop_timer 4 ?u))"
    using st stop_wf [of ?u 4] by (cases "occupied_timer 4 ?u") (auto simp: stop_timer_def timer_stuck_def wide_def)
  obtain r v where f: "free_timer 4 (snd (stop_timer 4 ?u)) = (r, v)" by force
  have "gptu_wf v" using free_wf [OF _ f] st1 by (simp add: timer_stuck_def)
  moreover have "occ v 5 \<and> \<not> wide v 3"
  proof (cases "occupied_timer 4 (snd (stop_timer 4 ?u))")
    case (Inl e)
    then show ?thesis using f st1 by (simp add: free_timer_def timer_stuck_def)
  next
    case (Inr p)
    obtain t msk where p: "p = (t, msk)" by force
    note F = free_fields [OF Inr [unfolded p] f]
    have "\<not> bit msk 5" using stuck_occupied [OF st1 Inr [unfolded p]] by simp
    then show ?thesis using st1 F(3) F(6) [of 3] by (simp add: timer_stuck_def wide_def bit_simps)
  qed
  ultimately have "timer_stuck v" by (simp add: timer_stuck_def)
  then show ?thesis using f by (simp add: release_gpt_def Let_def t)
qed

lemma stuck_config_gpt:
  assumes st: "timer_stuck (led_gptu s)" and c: "config_gpt env p w s = Inr (ret, s')"
  shows "timer_stuck (led_gptu s') \<and>
    (f_setup_gpt2 w \<and> new_adsl_on w = 0 \<and> (gpt_on s = 0 \<or> gpt_freq s \<noteq> fpid p) \<longrightarrow> ret \<in> {- EINVAL, - EBUSY})"
proof -
  let ?r = "(release_gpt 2 s)\<lparr>gpt_on := 0\<rparr>"
  have r: "timer_stuck (led_gptu ?r)" using stuck_release [OF st] by simp
  show ?thesis
  proof (cases "f_setup_gpt2 w \<and> new_adsl_on w = 0 \<and> (gpt_on s = 0 \<or> gpt_freq s \<noteq> fpid p)")
    case True
    let ?x = "if gpt_on s \<noteq> 0 then ?r else s"
    have x: "timer_stuck (led_gptu ?x)" using r st by simp
    have "map_sum id (\<lambda>(ret, s1). if ret \<noteq> 0 then (ret, s1) else (0, s1\<lparr>gpt_on := 1\<rparr>)) (setup_gpt env 2 (fpid p) ?x) = Inr (ret, s')"
      using c True by (auto simp: config_gpt_def split: if_splits)
    then obtain r1 s1 where s1: "setup_gpt env 2 (fpid p) ?x = Inr (r1, s1)" "(ret, s') = (if r1 \<noteq> 0 then (r1, s1) else (0, s1\<lparr>gpt_on := 1\<rparr>))"
      by (auto dest!: map_sum_InrD)
    from stuck_setup [OF x s1(1)] have "s1 = ?x" "r1 \<in> {- EINVAL, - EBUSY}" by blast+
    then show ?thesis using s1(2) x by (auto split: if_splits)
  next
    case False
    then show ?thesis using c st r by (auto simp: config_gpt_def split: if_splits)
  qed
qed

lemma release_pins_gptu: "release_gpio_port a s = Inr s' \<Longrightarrow> led_gptu s' = led_gptu s"
  by (cases "free_pins (led_pins a) (led_module_id s) (led_gpio s)") (auto simp: release_gpio_port_def)

lemma setup_pins_gptu:
  assumes "setup_gpio_port a s = Inr (ret, s')"
  shows "led_gptu s' = led_gptu s"
proof -
  obtain r g where "reserve_pins (led_pins a) (led_module_id s) (led_gpio s) = Inr (r, g)"
    using assms by (cases "reserve_pins (led_pins a) (led_module_id s) (led_gpio s)") (auto simp: setup_gpio_port_def)
  then show ?thesis using assms release_pins_gptu [of a "s\<lparr>led_gpio := g\<rparr>"]
    by (cases "r = 0"; cases "call_pins (pin_calls a) (led_module_id s) g") (auto simp: setup_gpio_port_def Let_def dest!: map_sum_InrD)
qed

lemma turn_gptu: "turn_off_led a s = Inr s1 \<Longrightarrow> led_gptu s1 = led_gptu s"
  "turn_on_led env a s = Inr (ret, s2) \<Longrightarrow> led_gptu s2 = led_gptu s"
  subgoal using release_pins_gptu [of a s] by (auto simp: turn_off_led_def disable_led_def dest!: map_sum_InrD)
  subgoal using setup_pins_gptu [of a s]
    by (cases "setup_gpio_port a s") (auto simp: turn_on_led_def enable_led_def split: if_splits)
  done

lemma power_gptu:
  assumes c: "config_power env w s = Inr (ret, s')"
  shows "led_gptu s' = led_gptu s"
proof -
  let ?on = "if new_adsl_on w \<noteq> 0 then 1 else new_led_on w" and ?off = "\<lambda>s1. s1\<lparr>f_led_on := 0, adsl_on := 0\<rparr>"
  from c obtain s1 where
    s1: "(if ?on = 0 \<or> adsl_on s \<noteq> new_adsl_on w then map_sum id ?off (turn_off_led (adsl_on s) s) else Inr s) = Inr s1" and
    s': "(if f_led_on s1 = 0 \<and> ?on \<noteq> 0
      then map_sum id (\<lambda>(ret, s2). if ret \<noteq> 0 then (ret, s2) else (0, s2\<lparr>adsl_on := new_adsl_on w, f_led_on := 1\<rparr>)) (turn_on_led env (new_adsl_on w) s1)
      else Inr (0, s1)) = Inr (ret, s')"
    unfolding config_power_def Let_def and_then_Inr by blast
  define off where "off \<longleftrightarrow> ?on = 0 \<or> adsl_on s \<noteq> new_adsl_on w"
  have "led_gptu s1 = led_gptu s"
    using s1 [folded off_def] turn_gptu(1) [of "adsl_on s" s] by (cases off) (auto dest!: map_sum_InrD)
  moreover have "led_gptu s' = led_gptu s1"
  proof (cases "f_led_on s1 = 0 \<and> ?on \<noteq> 0")
    case True
    then obtain r x where "turn_on_led env (new_adsl_on w) s1 = Inr (r, x)" "s' = (if r \<noteq> 0 then x else x\<lparr>adsl_on := new_adsl_on w, f_led_on := 1\<rparr>)"
      using s' by (auto split: if_splits dest!: map_sum_InrD)
    then show ?thesis using turn_gptu(2) by fastforce
  next
    case False
    then show ?thesis using s' by (simp only: if_False) simp
  qed
  ultimately show ?thesis by simp
qed

lemma plan_selects_gpt:
  assumes "make_plan p s = Some w" "operation_mask p AND CONFIG_OPERATION_UPDATE_CLOCK \<noteq> 0" "update_clock p = 1"
    and "(if operation_mask p AND CONFIG_OPERATION_UPDATE_SOURCE \<noteq> 0 then lp_source p else adsl_on s) = 0"
  shows "f_setup_gpt2 w \<and> new_adsl_on w = 0"
proof -
  obtain w1 w2 w3 w4 w5 w6 w7 w8 w9 where w: "plan_source p (first_plan s) = Some w1" "plan_blink p w1 = Some w2" "plan_edge p w2 = Some w3"
    "plan_clock p w3 = Some w4" "plan_store p w4 = Some w5" "plan_shift p w5 = Some w6" "plan_offset p w6 = Some w7" "plan_number p w7 = Some w8"
    "plan_data p w8 = Some w9" "plan_access p w9 = Some w"
    using assms(1) by (auto simp: make_plan_def bind_eq_Some_conv)
  have "new_adsl_on w1 = 0" using w(1) assms(4) by (auto simp: plan_source_def first_plan_def split: if_splits)
  then have "new_adsl_on w2 = 0" using w(2) by (auto simp: plan_blink_def split: if_splits)
  then have "new_adsl_on w3 = 0" using w(3) by (auto simp: plan_edge_def split: if_splits)
  then have "f_setup_gpt2 w4 \<and> new_adsl_on w4 = 0" using w(4) assms(2,3) by (auto simp: plan_clock_def split: if_splits)
  then have "f_setup_gpt2 w5 \<and> new_adsl_on w5 = 0" using w(5) by (auto simp: plan_store_def split: if_splits)
  then have "f_setup_gpt2 w6 \<and> new_adsl_on w6 = 0" using w(6) by (auto simp: plan_shift_def split: if_splits)
  then have "f_setup_gpt2 w7 \<and> new_adsl_on w7 = 0" using w(7) by (auto simp: plan_offset_def split: if_splits)
  then have "f_setup_gpt2 w8 \<and> new_adsl_on w8 = 0" using w(8) by (auto simp: plan_number_def split: if_splits)
  then have "f_setup_gpt2 w9 \<and> new_adsl_on w9 = 0" using w(9) by (auto simp: plan_data_def Let_def split: if_splits)
  then show ?thesis using w(10) by (auto simp: plan_access_def split: if_splits)
qed

lemma stuck_config:
  assumes st: "timer_stuck (led_gptu s)" and c: "danube_led_config env (Some p) s = Inr (ret, s')"
  shows "timer_stuck (led_gptu s') \<and>
    (operation_mask p AND CONFIG_OPERATION_UPDATE_CLOCK \<noteq> 0 \<and> update_clock p = 1
       \<and> (if operation_mask p AND CONFIG_OPERATION_UPDATE_SOURCE \<noteq> 0 then lp_source p else adsl_on s) = 0 \<and> (gpt_on s = 0 \<or> gpt_freq s \<noteq> fpid p)
     \<longrightarrow> ret \<in> {- EINVAL, - EBUSY})"
proof -
  let ?s1 = "s\<lparr>led_sem := led_sem s - 1\<rparr>"
  have n: "led_down s = Inr ?s1" using c by (auto simp: danube_led_config_def led_down_def split: if_splits)
  have st1: "timer_stuck (led_gptu ?s1)" using st by simp
  show ?thesis
  proof (cases "make_plan p ?s1")
    case None
    then show ?thesis using c n st by (auto simp: danube_led_config_def led_up_def)
  next
    case plan: (Some w)
    from c n plan obtain r2 s2 where s2: "config_gpt env p w ?s1 = Inr (r2, s2)"
      "(if r2 \<noteq> 0 then Inr (r2, led_up s2)
        else and_then (config_power env w s2) (\<lambda>(ret, s3).
          if ret \<noteq> 0 then Inr (ret, led_up ((release_gpt 2 s3)\<lparr>gpt_on := 0\<rparr>))
          else map_sum id (\<lambda>s4. (0, led_up s4)) (config_write env w s3))) = Inr (ret, s')"
      by (auto simp: danube_led_config_def and_then_Inr)
    note g = stuck_config_gpt [OF st1 s2(1)]
    show ?thesis
    proof (cases "r2 = 0")
      case False
      then have "ret = r2" "s' = led_up s2" using s2(2) by simp_all
      then show ?thesis using g plan_selects_gpt [OF plan] by (auto simp: led_up_def)
    next
      case True
      with s2(2) obtain r3 s3 where s3: "config_power env w s2 = Inr (r3, s3)"
        "(if r3 \<noteq> 0 then Inr (r3, led_up ((release_gpt 2 s3)\<lparr>gpt_on := 0\<rparr>))
          else map_sum id (\<lambda>s4. (0, led_up s4)) (config_write env w s3)) = Inr (ret, s')" by (auto simp: and_then_Inr)
      have t3: "timer_stuck (led_gptu s3)" using power_gptu [OF s3(1)] g by simp
      have "timer_stuck (led_gptu s')"
        using s3(2) t3 stuck_release [OF t3] config_write_Inr [of env w s3] by (auto simp: led_up_def split: if_splits dest!: map_sum_InrD)
      moreover have "\<not> (f_setup_gpt2 w \<and> new_adsl_on w = 0 \<and> (gpt_on s = 0 \<or> gpt_freq s \<noteq> fpid p))" using g True by auto
      ultimately show ?thesis using plan_selects_gpt [OF plan] by auto
    qed
  qed
qed

text \<open>A request for timer 2 with a period of 16 bits takes timer 2B alone.\<close>

lemma setup_sticks:
  assumes wf: "gptu_wf (led_gptu s)" and aw: "gpt_awake env < 999999" and c: "setup_gpt env 2 freq s = Inr (0, s')"
    and small: "cal_divider (fpi_clock env) freq < 0x10000"
  shows "timer_stuck (led_gptu s')"
proof -
  let ?u = "led_gptu s" and ?d = "cal_divider (fpi_clock env) freq"
  let ?set = "set_timer (gpt_awake env) (find_task env) (fpi_clock env) 5 freq True False 0 0 0 ?u"
  have t: "TIMER 2 True = 5" by (simp add: TIMER_def)
  obtain r u where u: "?set = Inr (r, u)" using c unfolding setup_gpt_def Let_def t by (cases ?set) auto
  have r: "r = 0" and s': "led_gptu s' = snd (start_timer 5 False u)"
    using c u unfolding setup_gpt_def Let_def t by (auto split: if_splits prod.splits)
  have d: "?d \<noteq> 0" using u r by (auto simp: set_timer_def)
  have "?d AND NOT 0xFFFF = 0" unfolding high_half_zero using small by (simp add: word_less_nat_alt)
  then have rq: "request_timer (gpt_awake env) (find_task env) 5 12 ?d 0 0 ?u = Inr (0, u)"
    using u r d by (simp add: set_timer_def MASK_HANDLE_def)
  have z: "MASK_SIZE 12 = 0" by (simp add: MASK_SIZE_def)
  have "occ u 5 \<and> \<not> wide u 3"
  proof (cases rule: request_cases [OF wf aw, of 5 "find_task env" 12 ?d 0 0, case_names invalid busy given])
    case (given t r' x)
    have x: "x = u" "t = 5" using given(1,3) rq z by simp_all
    have "occ u 5" using configure_fields(2) [OF given(8)] x z by (simp add: bit_or_iff bit_timer_mask)
    moreover have "tflag (timers u 3) = 12" using configure_fields(5) [OF given(8), of 3] x by simp
    ultimately show ?thesis using z by (simp add: wide_def)
  qed (use rq in simp_all)
  moreover have "gptu_wf u" using gptu_step_wf [OF gptu_step.Set [OF u] wf] .
  ultimately have "timer_stuck u" by (simp add: timer_stuck_def)
  then show ?thesis unfolding s' using start_wf [of u 5 False]
    by (cases "occupied_timer 5 u") (auto simp: start_timer_def timer_stuck_def wide_def)
qed

lemma config_sticks:
  assumes inv: "led_inv s" and aw: "gpt_awake env < 999999" and off: "gpt_on s = 0" and c: "danube_led_config env (Some p) s = Inr (0, s')"
    and clk: "operation_mask p AND CONFIG_OPERATION_UPDATE_CLOCK \<noteq> 0" "update_clock p = 1"
    and src: "(if operation_mask p AND CONFIG_OPERATION_UPDATE_SOURCE \<noteq> 0 then lp_source p else adsl_on s) = 0"
    and small: "cal_divider (fpi_clock env) (fpid p) < 0x10000"
  shows "timer_stuck (led_gptu s')"
proof -
  let ?s1 = "s\<lparr>led_sem := led_sem s - 1\<rparr>"
  have n: "led_down s = Inr ?s1" using c by (auto simp: danube_led_config_def led_down_def split: if_splits)
  obtain w where w: "make_plan p ?s1 = Some w" using c n by (cases "make_plan p ?s1") (simp_all add: danube_led_config_def)
  have sel: "f_setup_gpt2 w \<and> new_adsl_on w = 0" by (rule plan_selects_gpt [OF w clk]) (use src in \<open>simp split: if_splits\<close>)
  from c n w obtain r2 s2 where s2: "config_gpt env p w ?s1 = Inr (r2, s2)"
    "(if r2 \<noteq> 0 then Inr (r2, led_up s2)
      else and_then (config_power env w s2) (\<lambda>(ret, s3).
        if ret \<noteq> 0 then Inr (ret, led_up ((release_gpt 2 s3)\<lparr>gpt_on := 0\<rparr>))
        else map_sum id (\<lambda>s4. (0, led_up s4)) (config_write env w s3))) = Inr (0, s')"
    by (auto simp: danube_led_config_def and_then_Inr)
  then obtain r3 s3 where s3: "config_power env w s2 = Inr (r3, s3)" "r2 = 0"
    "(if r3 \<noteq> 0 then Inr (r3, led_up ((release_gpt 2 s3)\<lparr>gpt_on := 0\<rparr>))
      else map_sum id (\<lambda>s4. (0, led_up s4)) (config_write env w s3)) = Inr (0, s')" by (auto simp: and_then_Inr split: if_splits)
  have "\<exists>x. setup_gpt env 2 (fpid p) ?s1 = Inr (0, x) \<and> s2 = x\<lparr>gpt_on := 1\<rparr>"
    using s2(1) s3(2) off sel by (auto simp: config_gpt_def split: if_splits dest!: map_sum_InrD)
  then have "timer_stuck (led_gptu s2)" using setup_sticks [OF _ aw _ small, of ?s1] inv by (auto simp: led_inv_def)
  then have "timer_stuck (led_gptu s3)" using power_gptu [OF s3(1)] by simp
  moreover from s3(3) obtain s4 where "config_write env w s3 = Inr s4" "s' = led_up s4" by (auto split: if_splits dest!: map_sum_InrD)
  ultimately show ?thesis using config_write_Inr [of env w s3 s4] by (simp add: led_up_def)
qed

text \<open>Calls of the driver, with anything in between that leaves the timers alone.\<close>

inductive led_own :: "led \<Rightarrow> led \<Rightarrow> bool" where
  Configured: "danube_led_config env param s = Inr (r, s') \<Longrightarrow> led_own s s'"
| Other: "led_gptu s' = led_gptu s \<Longrightarrow> led_own s s'"


definition demo_clock_param :: led_config_param where
  "demo_clock_param = zero_param\<lparr>operation_mask := CONFIG_OPERATION_UPDATE_SOURCE OR CONFIG_OPERATION_UPDATE_CLOCK, update_clock := 1, fpid := 10000000\<rparr>"

lemma demo_divider: "cal_divider (fpi_clock demo_led_env) 10000000 = 16666"
proof -
  have "unat (cal_divider 166666667 10000000) = 16666"
    using cal_divider_nearest [of 10000000 166666667] by (simp add: nearest_ticks_def)
  then show ?thesis by (simp add: demo_led_env_def word_unat_eq_iff)
qed

lemma demo_led_setup: "\<exists>u. setup_gpt demo_led_env 2 10000000 (demo_led_ready\<lparr>led_sem := 0\<rparr>) = Inr (0, demo_led_ready\<lparr>led_sem := 0, led_gptu := u\<rparr>)"
proof -
  let ?u = "demo_used\<lparr>occupation := occupation demo_used OR timer_mask 12 5\<rparr>"
  have u: "led_gptu demo_led_ready = demo_used" by (simp add: demo_led_ready_def demo_led_def)
  have z: "MASK_SIZE 12 = 0" by (simp add: MASK_SIZE_def)
  obtain v where v: "configure_timer 3 (\<lambda>_. 0) 5 12 16666 0 0 ?u = Inr v" using configure_ok [of 3 "\<lambda>_. 0" 5 12 16666 0 0 ?u] by auto
  then have "request_timer 3 (\<lambda>_. 0) 5 12 16666 0 0 demo_used = Inr (0, v)"
    by (simp add: request_timer_def Let_def z timer_mask_def demo_used_def)
  then have s: "set_timer 3 (\<lambda>_. 0) 166666667 5 10000000 True False 0 0 0 demo_used = Inr (0, v)"
    using demo_divider by (simp add: set_timer_def MASK_HANDLE_def demo_led_env_def)
  have "occupied_timer 5 v = Inr (5, timer_mask 12 5)"
    by (rule given_occupied [OF demo_used_wf _ _ _ v]) (simp_all add: z demo_used_def)
  then show ?thesis using s u by (auto simp: setup_gpt_def TIMER_def Let_def demo_led_env_def start_timer_def)
qed

lemma demo_clock_selected:
  "\<exists>s0. danube_led_config demo_led_env (Some demo_clock_param) demo_led_ready = Inr (0, s0) \<and> gpt_freq s0 = 0 \<and> led_inv s0 \<and> led_sem s0 = 1"
proof -
  let ?s = "demo_led_ready\<lparr>led_sem := 0\<rparr>" and ?p = demo_clock_param
  have "\<exists>w. make_plan ?p ?s = Some w \<and> f_setup_gpt2 w \<and> new_adsl_on w = 0 \<and> new_led_on w = 0"
    by (simp add: make_plan_def stage_defs first_plan_def demo_clock_param_def zero_param_def demo_led_ready_def demo_led_def)
  then obtain w where w: "make_plan ?p ?s = Some w" "f_setup_gpt2 w" "new_adsl_on w = 0" "new_led_on w = 0" by blast
  have i: "led_inv ?s" using demo_led_ready_inv by (simp add: inv_sem)
  obtain u where u: "setup_gpt demo_led_env 2 10000000 ?s = Inr (0, ?s\<lparr>led_gptu := u\<rparr>)" using demo_led_setup by blast
  let ?s1 = "?s\<lparr>led_gptu := u, gpt_on := 1\<rparr>"
  have "fpid ?p = 10000000" "gpt_on ?s = 0" by (simp_all add: demo_clock_param_def demo_led_ready_def demo_led_def)
  then have g: "config_gpt demo_led_env ?p w ?s = Inr (0, ?s1)" using w(2,3) u by (simp add: config_gpt_def)
  have "led_inv ?s1" using gpt_inv [OF i g] by simp
  moreover have "f_led_on ?s1 = 0" "adsl_on ?s1 = 0" "gpt_freq ?s1 = 0" by (simp_all add: demo_led_ready_def demo_led_def)
  ultimately obtain s1 s2 where s: "config_power demo_led_env w ?s1 = Inr (0, s1)" "config_write demo_led_env w s1 = Inr s2" "gpt_freq s2 = 0"
    using demo_power [OF _ _ _ w(3,4)] by metis
  have "led_down demo_led_ready = Inr ?s" by (simp add: led_down_def demo_led_ready_def)
  then have c: "danube_led_config demo_led_env (Some ?p) demo_led_ready = Inr (0, led_up s2)" using w(1) g s by (simp add: danube_led_config_def)
  show ?thesis using c s(3) config_inv [OF demo_led_ready_inv c] by (auto simp: led_up_def demo_led_ready_def)
qed


end
