(* ===== verification/Fifo_Spec.thy ===== *)
theory Fifo_Spec
  imports Prelude
begin

text \<open>
  The contract that every queue of the dual-core message path keeps: the mailbox FIFOs in shared
  SRAM, the buffer rings of the MPS buffer pools and the ring of received messages.  A queue
  is described by a relation between its concrete state and the list of elements it holds, a put
  that may be refused and a get.  The clients' fact, that any interleaving of puts and gets
  delivers the accepted elements exactly once and in order, is proved once here.
\<close>

section \<open>Sequences of operations on a queue\<close>

datatype 'm queue_op = Put 'm | Get

fun run_queue ::
  "('m \<Rightarrow> 's \<Rightarrow> bool \<times> 's) \<Rightarrow> ('s \<Rightarrow> 'm option \<times> 's) \<Rightarrow> 's \<Rightarrow> 'm queue_op list
    \<Rightarrow> 'm list \<times> 'm list \<times> 's" where
  "run_queue put get s [] = ([], [], s)"
| "run_queue put get s (Put x # ops) =
     (let (ok, s1) = put x s; (ins, outs, s2) = run_queue put get s1 ops
      in (if ok then x # ins else ins, outs, s2))"
| "run_queue put get s (Get # ops) =
     (let (r, s1) = get s; (ins, outs, s2) = run_queue put get s1 ops
      in (ins, (case r of None \<Rightarrow> outs | Some x \<Rightarrow> x # outs), s2))"

definition puts_valid :: "('m \<Rightarrow> bool) \<Rightarrow> 'm queue_op list \<Rightarrow> bool" where
  "puts_valid valid ops \<longleftrightarrow> (\<forall>x. Put x \<in> set ops \<longrightarrow> valid x)"

lemma puts_valid_Nil [simp]: "puts_valid v []"
  by (simp add: puts_valid_def)

lemma puts_valid_Put [simp]: "puts_valid v (Put x # ops) \<longleftrightarrow> v x \<and> puts_valid v ops"
  by (auto simp: puts_valid_def)

lemma puts_valid_Get [simp]: "puts_valid v (Get # ops) \<longleftrightarrow> puts_valid v ops"
  by (auto simp: puts_valid_def)

section \<open>The queue contract\<close>

locale lossless_queue =
  fixes rel :: "'s \<Rightarrow> 'm list \<Rightarrow> bool"
    and valid :: "'m \<Rightarrow> bool"
    and put :: "'m \<Rightarrow> 's \<Rightarrow> bool \<times> 's"
    and get :: "'s \<Rightarrow> 'm option \<times> 's"
  assumes put_accept: "rel s q \<Longrightarrow> valid x \<Longrightarrow> put x s = (True, s') \<Longrightarrow> rel s' (q @ [x])"
    and put_refuse: "rel s q \<Longrightarrow> valid x \<Longrightarrow> put x s = (False, s') \<Longrightarrow> rel s' q"
    and get_some: "rel s q \<Longrightarrow> get s = (Some x, s') \<Longrightarrow> \<exists>q'. q = x # q' \<and> rel s' q'"
    and get_none: "rel s q \<Longrightarrow> get s = (None, s') \<Longrightarrow> q = [] \<and> rel s' []"
begin

lemma get_Nil: "rel s [] \<Longrightarrow> fst (get s) = None"
  using get_some by (cases "get s"; cases "fst (get s)") fastforce+

lemma get_Cons:
  assumes "rel s (x # q)"
  obtains s' where "get s = (Some x, s')" and "rel s' q"
proof (cases "get s")
  case (Pair r s')
  show thesis
  proof (cases r)
    case None
    with Pair get_none assms show thesis by blast
  next
    case (Some y)
    with Pair get_some assms have "y = x" "rel s' q" by blast+
    with Pair Some that show thesis by simp
  qed
qed

lemma run_exactly_once:
  assumes "rel s q" and "puts_valid valid ops" and "run_queue put get s ops = (ins, outs, s')"
  shows "\<exists>q'. q @ ins = outs @ q' \<and> rel s' q'"
  using assms
proof (induction ops arbitrary: s q ins outs)
  case Nil
  then show ?case by simp
next
  case (Cons p ops)
  show ?case
  proof (cases p)
    case (Put x)
    obtain ok s1 where p1: "put x s = (ok, s1)" by (cases "put x s")
    obtain i o1 where r1: "run_queue put get s1 ops = (i, o1, s')"
      and io: "ins = (if ok then x # i else i)" "outs = o1"
      using Cons.prems(3) Put p1 by (auto split: prod.splits)
    have v: "valid x" "puts_valid valid ops" using Cons.prems(2) Put by auto
    show ?thesis
    proof (cases ok)
      case True
      with put_accept Cons.prems(1) v(1) p1 have "rel s1 (q @ [x])" by simp
      from Cons.IH [OF this v(2) r1] io True show ?thesis by simp
    next
      case False
      with put_refuse Cons.prems(1) v(1) p1 have "rel s1 q" by simp
      from Cons.IH [OF this v(2) r1] io False show ?thesis by simp
    qed
  next
    case Get
    obtain r s1 where g1: "get s = (r, s1)" by (cases "get s")
    obtain i o1 where r1: "run_queue put get s1 ops = (i, o1, s')"
      and io: "ins = i" "outs = (case r of None \<Rightarrow> o1 | Some x \<Rightarrow> x # o1)"
      using Cons.prems(3) Get g1 by (auto split: prod.splits)
    have v: "puts_valid valid ops" using Cons.prems(2) Get by auto
    show ?thesis
    proof (cases r)
      case None
      with get_none [OF Cons.prems(1)] g1 have "q = []" "rel s1 []" by auto
      from Cons.IH [OF this(2) v r1] io None \<open>q = []\<close> show ?thesis by simp
    next
      case (Some x)
      with get_some [OF Cons.prems(1)] g1 obtain q1 where "q = x # q1" "rel s1 q1" by auto
      from Cons.IH [OF this(2) v r1] io Some \<open>q = x # q1\<close> show ?thesis by simp
    qed
  qed
qed

end

end
