(* ===== verification/Mps_Fifo.thy ===== *)
theory Mps_Fifo
  imports Fifo_Spec
begin

text \<open>
  The mailbox FIFOs of the dual-core driver (\<open>mps_tpe_device.c\<close>, section "FIFO Managment", and
  the structures of \<open>mps_tpe_device.h\<close> and \<open>mps_dualcore.h\<close>).  A FIFO is a region of the
  SRAM shared by both CPUs, in which messages of varying length are laid out one after the other;
  the read and write offsets are themselves words of that SRAM.  Readers and writers agree on two
  bits of a message's second header word: bit 15 says that a message is ready, bit 14 that the
  writer wrapped to the start of the region.  The SRAM is one memory, so that what an operation
  does to the other FIFOs can be stated.  All offsets count 32-bit words, as the pointer
  arithmetic on \<open>u32 *\<close> does.
\<close>

section \<open>Data\<close>

record mps_fifo =
  pstart :: nat
  pend :: nat
  pwrite_off :: nat
  pread_off :: nat
  fifo_size :: nat
  min_space :: nat

text \<open>The bit fields of \<open>mps_message\<close> on the big-endian core: the first header word is
  \<open>msg_type\<close> (8 bits), \<open>msg_seqno\<close> (8) and \<open>msg_cmd\<close> (16), most significant first; the second is
  \<open>msg_prio\<close> (8), \<open>msg_pad\<close> (1), \<open>msg_rsrv\<close> (7), \<open>msg_ready\<close> (1), \<open>msg_next_wrapped\<close> (1),
  \<open>msg_res6\<close> (6) and \<open>msg_len\<close> (8).\<close>

definition msg_type :: "u32 \<Rightarrow> nat" where
  "msg_type v0 = unat (drop_bit 24 v0)"

definition msg_seqno :: "u32 \<Rightarrow> nat" where
  "msg_seqno v0 = unat (drop_bit 16 v0 AND 0xFF)"

definition msg_cmd :: "u32 \<Rightarrow> nat" where
  "msg_cmd v0 = unat (v0 AND 0xFFFF)"

definition msg_ready :: "u32 \<Rightarrow> bool" where
  "msg_ready v1 \<longleftrightarrow> bit v1 15"

definition msg_next_wrapped :: "u32 \<Rightarrow> bool" where
  "msg_next_wrapped v1 \<longleftrightarrow> bit v1 14"

definition msg_len :: "u32 \<Rightarrow> nat" where
  "msg_len v1 = unat (v1 AND 0xFF)"

definition MPS_MSGHDR_LEN :: nat where
  "MPS_MSGHDR_LEN = 8"

text \<open>\<open>(length + 3) >> 2\<close>, the number of words of a message of \<open>length\<close> bytes.\<close>

definition msg_4bytes :: "nat \<Rightarrow> nat" where
  "msg_4bytes len = u32_add len 3 div 4"

definition MPS_MIN_MARGIN :: nat where
  "MPS_MIN_MARGIN = 2"

abbreviation rd_off :: "mps_fifo \<Rightarrow> mem \<Rightarrow> nat" where
  "rd_off f m \<equiv> unat (m (pread_off f))"

abbreviation wr_off :: "mps_fifo \<Rightarrow> mem \<Rightarrow> nat" where
  "wr_off f m \<equiv> unat (m (pwrite_off f))"

text \<open>The second header word of the entry at offset \<open>k\<close> (\<open>val1\<close> of \<open>mps_message_alias\<close>).\<close>

abbreviation val1 :: "mps_fifo \<Rightarrow> nat \<Rightarrow> nat" where
  "val1 f k \<equiv> pstart f + k + 1"

section \<open>Operations\<close>

definition ifx_mpsdrv_fifo_clear :: "mps_fifo \<Rightarrow> mem \<Rightarrow> mem" where
  "ifx_mpsdrv_fifo_clear f m = m(pread_off f := 0, pwrite_off f := 0)"

definition ifx_mpsdrv_fifo_not_empty :: "mps_fifo \<Rightarrow> mem \<Rightarrow> bool \<times> mem" where
  "ifx_mpsdrv_fifo_not_empty f m =
     (if msg_next_wrapped (m (val1 f (rd_off f m)))
      then let m' = m(pread_off f := 0) in (msg_ready (m' (val1 f 0)), m')
      else (msg_ready (m (val1 f (rd_off f m))), m))"

definition ifx_mpsdrv_fifo_mem_available :: "mps_fifo \<Rightarrow> mem \<Rightarrow> nat" where
  "ifx_mpsdrv_fifo_mem_available f m =
     (if rd_off f m > wr_off f m
      then u32_shl (u32_sub (rd_off f m) (wr_off f m)) 2
      else u32_sub (fifo_size f) (u32_shl (u32_sub (wr_off f m) (rd_off f m)) 2))"

definition ifx_mpsdrv_fifo_mem_request :: "mps_fifo \<Rightarrow> nat \<Rightarrow> mem \<Rightarrow> bool" where
  "ifx_mpsdrv_fifo_mem_request f bytes m \<longleftrightarrow> ifx_mpsdrv_fifo_mem_available f m \<ge> bytes"

definition ifx_mpsdrv_fifo_read_ptr_inc :: "mps_fifo \<Rightarrow> nat \<Rightarrow> mem \<Rightarrow> mem" where
  "ifx_mpsdrv_fifo_read_ptr_inc f increment m =
     (if increment > fifo_size f then m
      else
        let a = val1 f (rd_off f m); m1 = m(a := m a AND NOT 0x8000)
        in m1(pread_off f := m1 (pread_off f) + of_nat increment))"

text \<open>The returned \<open>mps_message *\<close> is the word address of the message, \<open>None\<close> is \<open>NULL\<close>.\<close>

definition ifx_mpsdrv_fifo_read :: "mps_fifo \<Rightarrow> mem \<Rightarrow> nat option \<times> mem" where
  "ifx_mpsdrv_fifo_read f m =
     (let (pMsg, m1) =
        (if msg_next_wrapped (m (val1 f (rd_off f m)))
         then (pstart f, m(pread_off f := 0))
         else (pstart f + rd_off f m, m))
      in (if \<not> msg_ready (m1 (pMsg + 1)) then (None, m1) else (Some pMsg, m1)))"

text \<open>The end of \<open>ifx_mpsdrv_fifo_write\<close>, once the place of the message is known: copy its words,
  mark it ready, advance the write offset and empty the header that follows.\<close>

definition fifo_write_entry :: "mps_fifo \<Rightarrow> u32 list \<Rightarrow> nat \<Rightarrow> nat \<Rightarrow> mem \<Rightarrow> mem" where
  "fifo_write_entry f data n pWrtMsg m =
     (let m1 = copy_words m pWrtMsg (take n data);
          m2 = m1(pWrtMsg + 1 := m1 (pWrtMsg + 1) OR 0x8000);
          m3 = m2(pwrite_off f := m2 (pwrite_off f) + of_nat n);
          nxt = pstart f + wr_off f m3
      in m3(nxt := 0, nxt + 1 := 0))"

definition ifx_mpsdrv_fifo_write :: "mps_fifo \<Rightarrow> u32 list \<Rightarrow> nat \<Rightarrow> mem \<Rightarrow> s32 \<times> mem" where
  "ifx_mpsdrv_fifo_write f data len m =
     (if len > fifo_size f then (ERROR, m)
      else if msg_ready (m (val1 f (wr_off f m))) then (ERROR, m)
      else
        let n = msg_4bytes len in
        if wr_off f m < rd_off f m then
          if u32_add (u32_add (wr_off f m) n) MPS_MIN_MARGIN > rd_off f m then (ERROR, m)
          else (OK, fifo_write_entry f data n (pstart f + wr_off f m) m)
        else if u32_add (u32_add (wr_off f m) n) MPS_MIN_MARGIN \<ge> fifo_size f div 4 then
          let m1 = m(val1 f (wr_off f m) := 0x4000);
              m2 = m1(pwrite_off f := 0)
          in if msg_ready (m2 (val1 f 0)) then (ERROR, m2)
             else if u32_add (u32_add (wr_off f m2) n) MPS_MIN_MARGIN > rd_off f m2 then (ERROR, m2)
             else (OK, fifo_write_entry f data n (pstart f) m2)
        else (OK, fifo_write_entry f data n (pstart f + wr_off f m) m))"

text \<open>The body shared by the four branches of \<open>ifx_mpsdrv_mbx_rcv\<close>: read the entry, copy its
  words to the caller's buffer and release it.\<close>

definition fifo_rcv :: "mps_fifo \<Rightarrow> mem \<Rightarrow> u32 list option \<times> mem" where
  "fifo_rcv f m =
     (case ifx_mpsdrv_fifo_read f m of
        (None, m1) \<Rightarrow> (None, m1)
      | (Some pRcvMsg, m1) \<Rightarrow>
          if msg_ready (m1 (pRcvMsg + 1)) then
            let n = msg_4bytes (MPS_MSGHDR_LEN + msg_len (m1 (pRcvMsg + 1)))
            in (Some (words_at m1 pRcvMsg n), ifx_mpsdrv_fifo_read_ptr_inc f n m1)
          else (None, m1))"

lemmas fifo_op_defs =
  ifx_mpsdrv_fifo_clear_def ifx_mpsdrv_fifo_not_empty_def ifx_mpsdrv_fifo_mem_available_def
  ifx_mpsdrv_fifo_mem_request_def ifx_mpsdrv_fifo_read_ptr_inc_def ifx_mpsdrv_fifo_read_def
  fifo_write_entry_def ifx_mpsdrv_fifo_write_def fifo_rcv_def

section \<open>Messages and the layout of a FIFO\<close>

text \<open>A message as the driver builds it: its words, as many as its own length field says, with
  the ready bit set and the wrap bit clear.\<close>

definition msg_words :: "u32 \<Rightarrow> nat" where
  "msg_words v1 = msg_4bytes (MPS_MSGHDR_LEN + msg_len v1)"

definition wf_msg :: "u32 list \<Rightarrow> bool" where
  "wf_msg ws \<longleftrightarrow> length ws = msg_words (ws ! 1) \<and> msg_ready (ws ! 1) \<and> \<not> msg_next_wrapped (ws ! 1)"

text \<open>The region of a FIFO, and the FIFOs whose offsets lie outside their own region.\<close>

definition fifo_words :: "mps_fifo \<Rightarrow> nat" where
  "fifo_words f = fifo_size f div 4"

definition region :: "mps_fifo \<Rightarrow> nat set" where
  "region f = {pstart f..<pstart f + fifo_words f}"

definition wf_fifo :: "mps_fifo \<Rightarrow> bool" where
  "wf_fifo f \<longleftrightarrow> 4 \<le> fifo_words f \<and> fifo_size f < 2 ^ 31 \<and> pread_off f \<noteq> pwrite_off f
     \<and> pread_off f \<notin> region f \<and> pwrite_off f \<notin> region f"

text \<open>Messages \<open>ms\<close> laid out from offset \<open>p\<close> up to offset \<open>e\<close>.\<close>

fun segment :: "mps_fifo \<Rightarrow> mem \<Rightarrow> nat \<Rightarrow> u32 list list \<Rightarrow> nat \<Rightarrow> bool" where
  "segment f m p [] e \<longleftrightarrow> p = e"
| "segment f m p (w # ws) e \<longleftrightarrow>
     wf_msg w \<and> words_at m (pstart f + p) (length w) = w \<and> segment f m (p + length w) ws e"

text \<open>The two shapes of a FIFO: the writer is ahead of the reader, or it wrapped and the reader
  still has to reach the entry that carries the wrap bit.\<close>

definition straight :: "mps_fifo \<Rightarrow> mem \<Rightarrow> nat \<Rightarrow> nat \<Rightarrow> u32 list list \<Rightarrow> bool" where
  "straight f m r w q \<longleftrightarrow> segment f m r q w \<and> w + 2 \<le> fifo_words f
     \<and> \<not> msg_ready (m (val1 f w)) \<and> (0 < w \<longrightarrow> \<not> msg_next_wrapped (m (val1 f w)))
     \<and> (0 < r \<longrightarrow> 2 \<le> r \<and> \<not> msg_ready (m (val1 f 0)))"

definition wrapped :: "mps_fifo \<Rightarrow> mem \<Rightarrow> nat \<Rightarrow> nat \<Rightarrow> u32 list list \<Rightarrow> bool" where
  "wrapped f m r w q \<longleftrightarrow> (\<exists>q1 q2 k. q = q1 @ q2 \<and> segment f m r q1 k \<and> segment f m 0 q2 w
     \<and> k + 2 \<le> fifo_words f \<and> \<not> msg_ready (m (val1 f k)) \<and> msg_next_wrapped (m (val1 f k))
     \<and> (if w = 0 then (if r = 0 then q1 \<noteq> [] else 2 \<le> r \<and> \<not> msg_ready (m (val1 f 0)))
        else w + 2 \<le> r \<and> \<not> msg_ready (m (val1 f w)) \<and> \<not> msg_next_wrapped (m (val1 f w))))"

definition fifo_holds :: "mps_fifo \<Rightarrow> mem \<Rightarrow> u32 list list \<Rightarrow> bool" where
  "fifo_holds f m q \<longleftrightarrow> straight f m (rd_off f m) (wr_off f m) q
     \<or> wrapped f m (rd_off f m) (wr_off f m) q"

section \<open>Header bits\<close>

lemma bit_ready_mask: "bit (0x8000 :: u32) n \<longleftrightarrow> n = 15"
proof -
  have "(0x8000 :: u32) = 2 ^ 15" by simp
  then show ?thesis by (simp only: bit_exp_iff) auto
qed

lemma msg_ready_set [simp]: "msg_ready (v OR 0x8000)"
  by (simp add: msg_ready_def bit_or_iff bit_ready_mask)

lemma msg_ready_clear [simp]: "\<not> msg_ready (v AND NOT 0x8000)"
  by (simp add: msg_ready_def bit_and_iff bit_not_iff)

lemma msg_ready_clear' [simp]: "\<not> msg_ready (v AND - 32769)"
  using msg_ready_clear [of v] by simp

lemma msg_next_wrapped_set [simp]: "msg_next_wrapped (v OR 0x8000) = msg_next_wrapped v"
  by (simp add: msg_next_wrapped_def bit_or_iff)

lemma msg_next_wrapped_clear [simp]: "msg_next_wrapped (v AND NOT 0x8000) = msg_next_wrapped v"
  by (simp add: msg_next_wrapped_def bit_and_iff bit_not_iff)

lemma wrap_mark_bits [simp]: "\<not> msg_ready 0x4000" "msg_next_wrapped 0x4000"
  by (simp_all add: msg_ready_def msg_next_wrapped_def)

lemma zero_header_bits [simp]: "\<not> msg_ready 0" "\<not> msg_next_wrapped 0"
  by (simp_all add: msg_ready_def msg_next_wrapped_def)

lemma set_ready_idem: "msg_ready v \<Longrightarrow> v OR 0x8000 = v"
  by (rule bit_word_eqI) (simp only: msg_ready_def bit_or_iff bit_ready_mask, blast)

lemma msg_len_le: "msg_len v \<le> 255"
proof -
  have "v AND 0xFF \<le> (0xFF :: u32)" by (rule word_and_le1)
  then show ?thesis by (simp add: msg_len_def word_le_nat_alt)
qed

lemma msg_len_set [simp]: "msg_len (v OR 0x8000) = msg_len v"
proof -
  have "(0x8000 :: u32) AND 0xFF = 0" by simp
  then show ?thesis by (simp add: msg_len_def bit.conj_disj_distrib2)
qed

lemma msg_words_eq: "msg_words v = (11 + msg_len v) div 4"
  using msg_len_le [of v] by (simp add: msg_words_def msg_4bytes_def MPS_MSGHDR_LEN_def)

lemma msg_words_bounds: "2 \<le> msg_words v" "msg_words v \<le> 66"
  using msg_len_le [of v] by (simp_all add: msg_words_eq)

section \<open>Segments of messages\<close>

lemma wf_msg_length: "wf_msg w \<Longrightarrow> 2 \<le> length w \<and> length w \<le> 66"
  using msg_words_bounds [of "w ! 1"] by (simp add: wf_msg_def)

lemma segment_le: "segment f m p q e \<Longrightarrow> p \<le> e"
  by (induction q arbitrary: p) fastforce+

lemma segment_Cons_le:
  assumes "segment f m p (w # q) e"
  shows "p + length w \<le> e" and "p + 2 \<le> e"
  using assms segment_le [of f m "p + length w" q e] wf_msg_length [of w] by auto

lemma segment_nonempty: "segment f m p q e \<Longrightarrow> q \<noteq> [] \<Longrightarrow> p + 2 \<le> e"
  using segment_Cons_le(2) by (cases q) blast+

lemma segment_header:
  assumes "segment f m p (w # q) e"
  shows "m (val1 f p) = w ! 1"
proof -
  from assms have "words_at m (pstart f + p) (length w) = w" "2 \<le> length w"
    by (auto dest: wf_msg_length)
  then show ?thesis by (metis Suc_1 Suc_le_lessD add.assoc words_at_nth)
qed

lemma segment_head_bits:
  assumes "segment f m p q e" and "q \<noteq> []"
  shows "msg_ready (m (val1 f p))" and "\<not> msg_next_wrapped (m (val1 f p))"
proof -
  from assms(2) obtain w q' where q: "q = w # q'" by (cases q) auto
  with assms(1) have "m (val1 f p) = w ! 1" "wf_msg w" using segment_header by auto
  then show "msg_ready (m (val1 f p))" "\<not> msg_next_wrapped (m (val1 f p))"
    by (simp_all add: wf_msg_def)
qed

lemma segment_cong:
  assumes "\<And>x. pstart f + p \<le> x \<Longrightarrow> x < pstart f + e \<Longrightarrow> m' x = m x"
    and "segment f m p q e"
  shows "segment f m' p q e"
  using assms
proof (induction q arbitrary: p)
  case (Cons w q)
  from Cons.prems(2) have le: "p + length w \<le> e" by (rule segment_Cons_le)
  have "words_at m' (pstart f + p) (length w) = words_at m (pstart f + p) (length w)"
    using Cons.prems(1) le by (intro words_at_cong) simp
  moreover have "segment f m' (p + length w) q e"
    using Cons.prems by (intro Cons.IH) auto
  ultimately show ?case using Cons.prems(2) by simp
qed simp

lemma segment_append:
  "segment f m p (q1 @ q2) e \<longleftrightarrow> (\<exists>k. segment f m p q1 k \<and> segment f m k q2 e)"
  by (induction q1 arbitrary: p) auto

lemma segment_snoc:
  "segment f m p (q @ [w]) e \<longleftrightarrow> (\<exists>k. segment f m p q k \<and> wf_msg w
     \<and> words_at m (pstart f + k) (length w) = w \<and> e = k + length w)"
  by (auto simp: segment_append)

lemma wf_fifo_small: "wf_fifo f \<Longrightarrow> fifo_words f < 2 ^ 30"
  by (auto simp: wf_fifo_def fifo_words_def)

lemma wf_fifo_outside:
  assumes "wf_fifo f"
  shows "pread_off f < pstart f \<or> pstart f + fifo_words f \<le> pread_off f"
    and "pwrite_off f < pstart f \<or> pstart f + fifo_words f \<le> pwrite_off f"
    and "pread_off f \<noteq> pwrite_off f"
  using assms by (auto simp: wf_fifo_def region_def)

section \<open>Effect of writing an entry\<close>

lemma fifo_write_entry_effect:
  assumes f: "wf_fifo f" and w: "wr_off f m = w" and ws: "wf_msg ws"
    and fits: "w + length ws + 2 \<le> fifo_words f"
    and m': "m' = fifo_write_entry f ws (length ws) (pstart f + w) m"
  shows "wr_off f m' = w + length ws"
    and "words_at m' (pstart f + w) (length ws) = ws"
    and "m' (val1 f (w + length ws)) = 0"
    and "x \<noteq> pwrite_off f \<Longrightarrow> x < pstart f + w \<or> pstart f + w + length ws + 2 \<le> x \<Longrightarrow> m' x = m x"
proof -
  let ?a = "pstart f + w" and ?n = "length ws"
  let ?m1 = "copy_words m ?a ws"
  have n: "2 \<le> ?n" using wf_msg_length ws by simp
  note small = wf_fifo_small [OF f] and out = wf_fifo_outside(2) [OF f]
  have hdr: "?m1 (?a + 1) = ws ! 1"
    using n copy_words_nth [of 1 ws m ?a] by simp
  have m2: "?m1(?a + 1 := ?m1 (?a + 1) OR 0x8000) = ?m1"
    using hdr ws set_ready_idem [of "ws ! 1"] by (auto simp: wf_msg_def)
  have pw: "?m1 (pwrite_off f) = m (pwrite_off f)"
    using out fits by (intro copy_words_outside) auto
  have sum: "unat (m (pwrite_off f) + of_nat ?n) = w + ?n"
    using w fits small unat_add_u32 [of "m (pwrite_off f)" ?n] by simp
  have eq: "m' = ?m1(pwrite_off f := m (pwrite_off f) + of_nat ?n,
                     pstart f + (w + ?n) := 0, pstart f + (w + ?n) + 1 := 0)"
    unfolding m' fifo_write_entry_def Let_def
    by (simp only: take_all order_refl m2 pw sum fun_upd_same)
  show "wr_off f m' = w + ?n" using out fits sum by (auto simp: eq)
  show "m' (val1 f (w + ?n)) = 0" by (simp add: eq)
  show "words_at m' ?a ?n = ws"
  proof -
    have "words_at m' ?a ?n = words_at ?m1 ?a ?n"
      using out fits by (intro words_at_cong) (auto simp: eq)
    then show ?thesis by (simp add: words_at_copy_words)
  qed
  assume "x \<noteq> pwrite_off f" "x < ?a \<or> ?a + ?n + 2 \<le> x"
  then show "m' x = m x" by (auto simp: eq copy_words_outside)
qed

section \<open>Writing keeps the layout\<close>

lemma fifo_holds_bounds:
  assumes "fifo_holds f m q"
  shows "wr_off f m + 2 \<le> fifo_words f" and "rd_off f m + 2 \<le> fifo_words f"
proof -
  show "wr_off f m + 2 \<le> fifo_words f"
    using assms segment_le by (fastforce simp: fifo_holds_def straight_def wrapped_def split: if_splits)
  show "rd_off f m + 2 \<le> fifo_words f"
    using assms segment_le by (fastforce simp: fifo_holds_def straight_def wrapped_def)
qed

text \<open>Within these bounds no offset computation of the write wraps around.\<close>

lemma fifo_write_eval:
  assumes f: "wf_fifo f" and h: "fifo_holds f m q" and ws: "wf_msg ws"
    and len: "len = MPS_MSGHDR_LEN + msg_len (ws ! 1)" and wr: "w = wr_off f m" and rr: "r = rd_off f m"
  shows "ifx_mpsdrv_fifo_write f ws len m =
     (if len > fifo_size f then (ERROR, m)
      else if msg_ready (m (val1 f w)) then (ERROR, m)
      else if w < r then
        if w + length ws + 2 > r then (ERROR, m)
        else (OK, fifo_write_entry f ws (length ws) (pstart f + w) m)
      else if w + length ws + 2 \<ge> fifo_words f then
        (let m2 = m(val1 f w := 0x4000, pwrite_off f := 0)
         in if msg_ready (m2 (val1 f 0)) then (ERROR, m2)
            else if length ws + 2 > r then (ERROR, m2)
            else (OK, fifo_write_entry f ws (length ws) (pstart f + 0) m2))
      else (OK, fifo_write_entry f ws (length ws) (pstart f + w) m))"
proof -
  have n: "msg_4bytes len = length ws" "length ws \<le> 66"
    using ws wf_msg_length [OF ws] by (simp_all add: wf_msg_def msg_words_def len)
  have "w + 2 \<le> fifo_words f" using fifo_holds_bounds [OF h] wr by simp
  with n wf_fifo_small [OF f] have sums: "u32_add (u32_add w (length ws)) 2 = w + length ws + 2"
    "u32_add (u32_add 0 (length ws)) 2 = length ws + 2"
    by simp_all
  have "pread_off f \<noteq> val1 f w" "pread_off f \<noteq> pwrite_off f"
    using wf_fifo_outside [OF f] \<open>w + 2 \<le> fifo_words f\<close> by auto
  then have keep: "rd_off f (m(val1 f w := 0x4000, pwrite_off f := 0)) = r"
    by (simp add: rr)
  show ?thesis
    unfolding ifx_mpsdrv_fifo_write_def n(1) MPS_MIN_MARGIN_def Let_def wr [symmetric] rr [symmetric]
    using sums keep by (simp add: fifo_words_def)
qed

lemma segment_unchanged:
  assumes "segment f m p q e"
    and "\<And>x. pstart f + p \<le> x \<Longrightarrow> x < pstart f + e \<Longrightarrow> m' x = m x"
  shows "segment f m' p q e"
  using segment_cong [OF assms(2,1)] by blast

lemma wrappedI:
  assumes "segment f m r q1 k" and "segment f m 0 q2 w" and "k + 2 \<le> fifo_words f"
    and "\<not> msg_ready (m (val1 f k))" and "msg_next_wrapped (m (val1 f k))"
    and "w = 0 \<Longrightarrow> r = 0 \<Longrightarrow> q1 \<noteq> []"
    and "w = 0 \<Longrightarrow> 0 < r \<Longrightarrow> 2 \<le> r \<and> \<not> msg_ready (m (val1 f 0))"
    and "0 < w \<Longrightarrow> w + 2 \<le> r \<and> \<not> msg_ready (m (val1 f w)) \<and> \<not> msg_next_wrapped (m (val1 f w))"
  shows "wrapped f m r w (q1 @ q2)"
  unfolding wrapped_def
proof (intro exI conjI)
  show "if w = 0 then if r = 0 then q1 \<noteq> [] else 2 \<le> r \<and> \<not> msg_ready (m (val1 f 0))
    else w + 2 \<le> r \<and> \<not> msg_ready (m (val1 f w)) \<and> \<not> msg_next_wrapped (m (val1 f w))"
    using assms(6-8) by auto
qed (use assms in auto)

lemma straight_append:
  assumes f: "wf_fifo f" and s: "straight f m r w q" and ws: "wf_msg ws" and w: "wr_off f m = w"
    and fits: "w + length ws + 2 < fifo_words f"
    and m': "m' = fifo_write_entry f ws (length ws) (pstart f + w) m"
  shows "straight f m' r (w + length ws) (q @ [ws])"
proof -
  note e = fifo_write_entry_effect [OF f w ws less_imp_le [OF fits] m']
  have n: "2 \<le> length ws" using wf_msg_length [OF ws] by simp
  note out = wf_fifo_outside(2) [OF f]
  have le: "r \<le> w" using s segment_le [of f m r q w] by (simp add: straight_def)
  have sg: "segment f m r q w" using s by (simp add: straight_def)
  have "segment f m' r q w"
    using fits out by (intro segment_unchanged [OF sg] e(4)) auto
  moreover have "m' (val1 f 0) = m (val1 f 0)" if "0 < r"
    using that s le fits out by (intro e(4)) (auto simp: straight_def)
  ultimately show ?thesis
    using s ws fits n e(3) by (auto simp: straight_def segment_snoc e(2))
qed

lemma wrapped_append:
  assumes f: "wf_fifo f" and s: "wrapped f m r w q" and ws: "wf_msg ws" and w: "wr_off f m = w"
    and fits: "w + length ws + 2 \<le> r"
    and m': "m' = fifo_write_entry f ws (length ws) (pstart f + w) m"
  shows "wrapped f m' r (w + length ws) (q @ [ws])"
proof -
  from s obtain q1 q2 k where q: "q = q1 @ q2" and s1: "segment f m r q1 k" and s2: "segment f m 0 q2 w"
    and k: "k + 2 \<le> fifo_words f" "\<not> msg_ready (m (val1 f k))" "msg_next_wrapped (m (val1 f k))"
    by (auto simp: wrapped_def)
  have rk: "r \<le> k" using s1 by (rule segment_le)
  have n: "2 \<le> length ws" using wf_msg_length [OF ws] by simp
  note out = wf_fifo_outside(2) [OF f]
  have "w + length ws + 2 \<le> fifo_words f" using fits rk k by simp
  note e = fifo_write_entry_effect [OF f w ws this m']
  have "segment f m' r q1 k"
    using fits k out by (intro segment_unchanged [OF s1] e(4)) auto
  moreover have "segment f m' 0 q2 w"
    using fits rk k out by (intro segment_unchanged [OF s2] e(4)) auto
  then have "segment f m' 0 (q2 @ [ws]) (w + length ws)"
    using ws e(2) by (auto simp: segment_snoc)
  moreover have "m' (val1 f k) = m (val1 f k)"
    using fits rk k out by (intro e(4)) auto
  ultimately show ?thesis
    unfolding q append_assoc using k fits n e(3) by (intro wrappedI [of _ _ _ _ k]) simp_all
qed

lemma straight_wrap:
  assumes f: "wf_fifo f" and s: "straight f m r w q" and r: "0 < r \<or> q \<noteq> []"
    and m2: "m2 = m(val1 f w := 0x4000, pwrite_off f := 0)"
  shows "wrapped f m2 r 0 q"
proof -
  note out = wf_fifo_outside(2) [OF f]
  have sg: "segment f m r q w" and w: "w + 2 \<le> fifo_words f"
    and r0: "0 < r \<longrightarrow> 2 \<le> r \<and> \<not> msg_ready (m (val1 f 0))"
    using s by (auto simp: straight_def)
  have le: "r \<le> w" using sg by (rule segment_le)
  have "segment f m2 r q w"
    using w out by (intro segment_unchanged [OF sg]) (auto simp: m2)
  moreover have "\<not> msg_ready (m2 (val1 f w))" "msg_next_wrapped (m2 (val1 f w))"
    using out w by (auto simp: m2)
  moreover have "2 \<le> r \<and> \<not> msg_ready (m2 (val1 f 0))" if "0 < r"
    using that r0 le out w by (auto simp: m2)
  ultimately show ?thesis
    using w r wrappedI [of f m2 r q w "[]" 0] by auto
qed

lemma fifo_write_accept:
  assumes f: "wf_fifo f" and h: "fifo_holds f m q" and ws: "wf_msg ws"
    and wr: "ifx_mpsdrv_fifo_write f ws (MPS_MSGHDR_LEN + msg_len (ws ! 1)) m = (OK, m')"
  shows "fifo_holds f m' (q @ [ws])"
proof -
  let ?w = "wr_off f m" and ?r = "rd_off f m" and ?n = "length ws"
  note ev = wr [unfolded fifo_write_eval [OF f h ws refl refl refl]]
  note out = wf_fifo_outside [OF f] and bnd = fifo_holds_bounds [OF h]
  have nr: "\<not> msg_ready (m (val1 f ?w))" using ev by (auto split: if_splits)
  have n: "2 \<le> ?n" using wf_msg_length [OF ws] by simp
  have rd: "rd_off f (fifo_write_entry f ws ?n (pstart f + w) m1) = rd_off f m1"
    if "wr_off f m1 = w" "w + ?n + 2 \<le> fifo_words f" for w m1
    using fifo_write_entry_effect(4) [where m = m1 and x = "pread_off f", OF f that(1) ws that(2) refl]
      out that(2) by auto
  have wo: "wr_off f (fifo_write_entry f ws ?n (pstart f + w) m1) = w + ?n"
    if "wr_off f m1 = w" "w + ?n + 2 \<le> fifo_words f" for w m1
    by (rule fifo_write_entry_effect(1) [where m = m1, OF f that(1) ws that(2) refl])
  from h consider (st) "straight f m ?r ?w q" | (wr) "wrapped f m ?r ?w q"
    by (auto simp: fifo_holds_def)
  then show ?thesis
  proof cases
    case st
    then have le: "?r \<le> ?w" using segment_le [of f m ?r q ?w] by (simp add: straight_def)
    show ?thesis
    proof (cases "?w + ?n + 2 < fifo_words f")
      case True
      with ev le nr have m': "m' = fifo_write_entry f ws ?n (pstart f + ?w) m"
        by (auto split: if_splits)
      have "straight f m' ?r (?w + ?n) (q @ [ws])"
        by (rule straight_append [OF f st ws refl True m'])
      then show ?thesis
        using rd [of m ?w] wo [of m ?w] True by (simp add: fifo_holds_def m')
    next
      case False
      define m2 where "m2 = m(val1 f ?w := 0x4000, pwrite_off f := 0)"
      from ev le nr False have fits: "?n + 2 \<le> ?r"
        and m': "m' = fifo_write_entry f ws ?n (pstart f + 0) m2"
        by (auto simp: Let_def m2_def split: if_splits)
      have w2: "wr_off f m2 = 0" and r2: "rd_off f m2 = ?r"
        using out bnd by (auto simp: m2_def)
      have "wrapped f m2 ?r 0 q" using straight_wrap [OF f st _ m2_def] fits by simp
      from wrapped_append [OF f this ws w2 _ m'] fits have "wrapped f m' ?r ?n (q @ [ws])" by simp
      moreover have "?n + 2 \<le> fifo_words f" using fits bnd by simp
      ultimately show ?thesis
        using rd [of m2 0] wo [of m2 0] w2 r2 by (simp add: fifo_holds_def m')
    qed
  next
    case wr
    have lt: "?w < ?r"
    proof (rule ccontr)
      assume "\<not> ?w < ?r"
      with wr obtain q1 k where "segment f m 0 q1 k" "q1 \<noteq> []" "?w = 0" "?r = 0"
        by (auto simp: wrapped_def split: if_splits)
      with nr segment_head_bits(1) [of f m 0 q1 k] show False by simp
    qed
    with ev nr have m': "m' = fifo_write_entry f ws ?n (pstart f + ?w) m"
      and fits: "?w + ?n + 2 \<le> ?r"
      by (auto split: if_splits)
    have "wrapped f m' ?r (?w + ?n) (q @ [ws])"
      by (rule wrapped_append [OF f wr ws refl fits m'])
    then show ?thesis
      using rd [of m ?w] wo [of m ?w] fits bnd by (simp add: fifo_holds_def m')
  qed
qed

lemma fifo_write_refuse:
  assumes f: "wf_fifo f" and h: "fifo_holds f m q" and ws: "wf_msg ws"
    and wr: "ifx_mpsdrv_fifo_write f ws (MPS_MSGHDR_LEN + msg_len (ws ! 1)) m = (rc, m')"
    and rc: "rc \<noteq> OK"
  shows "fifo_holds f m' q"
proof -
  let ?w = "wr_off f m" and ?r = "rd_off f m"
  define m2 where "m2 = m(val1 f ?w := 0x4000, pwrite_off f := 0)"
  note ev = wr [unfolded fifo_write_eval [OF f h ws refl refl refl]]
  note out = wf_fifo_outside [OF f] and bnd = fifo_holds_bounds [OF h]
  from ev rc consider (same) "m' = m"
    | (wrap) "m' = m2" "\<not> ?w < ?r" "\<not> msg_ready (m (val1 f ?w))"
    by (auto simp: Let_def m2_def split: if_splits)
  then show ?thesis
  proof cases
    case same
    with h show ?thesis by simp
  next
    case wrap
    have w2: "wr_off f m2 = 0" and r2: "rd_off f m2 = ?r"
      using out bnd by (auto simp: m2_def)
    from h consider (st) "straight f m ?r ?w q" | (wr) "wrapped f m ?r ?w q"
      by (auto simp: fifo_holds_def)
    then show ?thesis
    proof cases
      case st
      show ?thesis
      proof (cases "0 < ?r \<or> q \<noteq> []")
        case True
        from straight_wrap [OF f st True m2_def] show ?thesis
          using w2 r2 wrap(1) by (simp add: fifo_holds_def)
      next
        case False
        with st have "?r = 0" "?w = 0" "q = []" by (auto simp: straight_def)
        moreover have "\<not> msg_ready (m2 (val1 f 0))"
          using out(2) bnd \<open>?w = 0\<close> by (auto simp: m2_def)
        ultimately show ?thesis
          using w2 r2 wrap(1) bnd by (simp add: fifo_holds_def straight_def)
      qed
    next
      case wr
      with wrap(2) obtain q1 k where "segment f m 0 q1 k" "q1 \<noteq> []" "?w = 0"
        by (auto simp: wrapped_def split: if_splits)
      with wrap(3) segment_head_bits(1) [of f m 0 q1 k] show ?thesis by simp
    qed
  qed
qed

section \<open>Reading keeps the layout\<close>

text \<open>Following the wrap bit of the entry at the read offset changes the shape, not the content.\<close>

lemma fifo_skip_wrap:
  assumes f: "wf_fifo f" and h: "fifo_holds f m q"
    and wr: "msg_next_wrapped (m (val1 f (rd_off f m)))" and m1: "m1 = m(pread_off f := 0)"
  shows "straight f m1 0 (wr_off f m1) q" and "wr_off f m1 = wr_off f m" and "rd_off f m1 = 0"
proof -
  let ?w = "wr_off f m" and ?r = "rd_off f m"
  note out = wf_fifo_outside [OF f] and bnd = fifo_holds_bounds [OF h]
  show w1: "wr_off f m1 = ?w" and r1: "rd_off f m1 = 0" using out by (auto simp: m1)
  have same: "m1 (val1 f k) = m (val1 f k)" if "k + 2 \<le> fifo_words f" for k
    using out that by (auto simp: m1)
  have seg: "segment f m1 p q' e" if "segment f m p q' e" "e \<le> fifo_words f" for p q' e
    using that(2) out by (intro segment_unchanged [OF that(1)]) (auto simp: m1)
  from h consider (st) "straight f m ?r ?w q" | (wr) "wrapped f m ?r ?w q"
    by (auto simp: fifo_holds_def)
  then show "straight f m1 0 (wr_off f m1) q"
  proof cases
    case st
    then have sg: "segment f m ?r q ?w" by (simp add: straight_def)
    with wr have q: "q = []" using segment_head_bits(2) [of f m ?r q ?w] by blast
    with sg wr st have "?w = 0" by (auto simp: straight_def)
    with st q same [of 0] bnd show ?thesis unfolding w1 by (simp add: straight_def)
  next
    case wr: wr
    then obtain q1 q2 k where q: "q = q1 @ q2" and s1: "segment f m ?r q1 k"
      and s2: "segment f m 0 q2 ?w"
      and sh: "if ?w = 0 then (if ?r = 0 then q1 \<noteq> [] else 2 \<le> ?r \<and> \<not> msg_ready (m (val1 f 0)))
        else ?w + 2 \<le> ?r \<and> \<not> msg_ready (m (val1 f ?w)) \<and> \<not> msg_next_wrapped (m (val1 f ?w))"
      unfolding wrapped_def by blast
    have "q1 = []" using segment_head_bits(2) [OF s1] assms(3) by blast
    moreover from this sh have "\<not> msg_ready (m (val1 f ?w))" by (auto split: if_splits)
    moreover have "0 < ?w \<Longrightarrow> \<not> msg_next_wrapped (m (val1 f ?w))" using sh by auto
    ultimately show ?thesis
      unfolding w1 using seg [OF s2] bnd same [of ?w] q by (simp add: straight_def)
  qed
qed

text \<open>Without a wrap bit at the read offset, the entry there is the oldest message, if any.\<close>

lemma fifo_front:
  assumes h: "fifo_holds f m q" and nw: "\<not> msg_next_wrapped (m (val1 f (rd_off f m)))"
  shows "q = [] \<Longrightarrow> \<not> msg_ready (m (val1 f (rd_off f m)))"
    and "q = x # q' \<Longrightarrow> wf_msg x \<and> words_at m (pstart f + rd_off f m) (length x) = x
      \<and> rd_off f m + length x + 2 \<le> fifo_words f"
proof -
  have "\<exists>q1 q2 e. q = q1 @ q2 \<and> segment f m (rd_off f m) q1 e \<and> (q1 = [] \<longrightarrow> q = []) \<and>
     e + 2 \<le> fifo_words f \<and>
     (q1 = [] \<longrightarrow> \<not> msg_ready (m (val1 f (rd_off f m))))"
    using h unfolding fifo_holds_def
  proof
    assume "straight f m (rd_off f m) (wr_off f m) q"
    then show ?thesis
      by (intro exI [of _ q] exI [of _ "[]"] exI [of _ "wr_off f m"]) (auto simp: straight_def)
  next
    assume "wrapped f m (rd_off f m) (wr_off f m) q"
    then obtain q1 q2 k where "q = q1 @ q2" "segment f m (rd_off f m) q1 k"
      "msg_next_wrapped (m (val1 f k))" "k + 2 \<le> fifo_words f"
      by (auto simp: wrapped_def)
    moreover from this nw have "q1 \<noteq> []" by auto
    ultimately show ?thesis by blast
  qed
  then obtain q1 q2 e where q: "q = q1 @ q2" "segment f m (rd_off f m) q1 e" "q1 = [] \<longrightarrow> q = []"
     "q1 = [] \<longrightarrow> \<not> msg_ready (m (val1 f (rd_off f m)))" and e: "e + 2 \<le> fifo_words f"
    by blast
  show "q = [] \<Longrightarrow> \<not> msg_ready (m (val1 f (rd_off f m)))" using q by simp
  assume "q = x # q'"
  with q(1,3) obtain q1' where q1: "q1 = x # q1'" by (cases q1) auto
  with q(2) e segment_Cons_le(1) [of f m "rd_off f m" x q1' e]
  show "wf_msg x \<and> words_at m (pstart f + rd_off f m) (length x) = x
      \<and> rd_off f m + length x + 2 \<le> fifo_words f"
    by simp
qed

lemma fifo_release:
  assumes f: "wf_fifo f" and h: "fifo_holds f m (x # q)"
    and nw: "\<not> msg_next_wrapped (m (val1 f (rd_off f m)))"
  shows "fifo_holds f (ifx_mpsdrv_fifo_read_ptr_inc f (length x) m) q"
proof -
  let ?r = "rd_off f m" and ?w = "wr_off f m" and ?n = "length x"
  define m1 where "m1 = m(val1 f ?r := m (val1 f ?r) AND NOT 0x8000)"
  define m' where "m' = m1(pread_off f := m1 (pread_off f) + of_nat ?n)"
  note out = wf_fifo_outside [OF f] and bnd = fifo_holds_bounds [OF h]
  have x: "wf_msg x" using fifo_front(2) [OF h nw refl] by simp
  have n: "2 \<le> ?n" "?n \<le> 66" using wf_msg_length [OF x] by auto
  have rd1: "m1 (pread_off f) = m (pread_off f)" using out bnd by (auto simp: m1_def)
  have rd': "rd_off f m' = ?r + ?n"
    using rd1 unat_add_u32 [of "m (pread_off f)" ?n] bnd wf_fifo_small [OF f] n by (simp add: m'_def)
  have wr': "wr_off f m' = ?w" using out bnd by (auto simp: m'_def m1_def)
  have same: "m' y = m y" if "pstart f \<le> y" "y < pstart f + fifo_words f" "y \<noteq> val1 f ?r" for y
    using that out by (auto simp: m'_def m1_def)
  have clr: "\<not> msg_ready (m' (val1 f ?r))" using out bnd by (auto simp: m'_def m1_def)
  have seg: "segment f m' p q' e"
    if "segment f m p q' e" "e \<le> fifo_words f" "?r + 2 \<le> p \<or> e \<le> ?r" for p q' e
    using that(2,3) by (intro segment_unchanged [OF that(1)] same) auto
  from h consider (st) "straight f m ?r ?w (x # q)" | (wr) "wrapped f m ?r ?w (x # q)"
    by (auto simp: fifo_holds_def)
  then have "fifo_holds f m' q"
  proof cases
    case st
    then have s: "segment f m (?r + ?n) q ?w" and w: "?w + 2 \<le> fifo_words f"
      and sg: "segment f m ?r (x # q) ?w"
      by (auto simp: straight_def)
    have le: "?r + ?n \<le> ?w" using sg by (rule segment_Cons_le)
    have "m' (val1 f ?w) = m (val1 f ?w)" using le n w by (intro same) auto
    moreover have "\<not> msg_ready (m' (val1 f 0))"
    proof (cases "?r = 0")
      case False
      with st have "\<not> msg_ready (m (val1 f 0))" by (simp add: straight_def)
      moreover have "m' (val1 f 0) = m (val1 f 0)" using False w by (intro same) auto
      ultimately show ?thesis by simp
    qed (use clr in simp)
    ultimately have "straight f m' (?r + ?n) ?w q"
      using st seg [OF s] n w by (auto simp: straight_def)
    then show ?thesis by (simp add: fifo_holds_def rd' wr')
  next
    case wr
    then obtain q1 q2 k where q: "x # q = q1 @ q2" and s1: "segment f m ?r q1 k"
      and s2: "segment f m 0 q2 ?w" and k: "k + 2 \<le> fifo_words f" "\<not> msg_ready (m (val1 f k))"
        "msg_next_wrapped (m (val1 f k))"
      and sh: "if ?w = 0 then (if ?r = 0 then q1 \<noteq> [] else 2 \<le> ?r \<and> \<not> msg_ready (m (val1 f 0)))
        else ?w + 2 \<le> ?r \<and> \<not> msg_ready (m (val1 f ?w)) \<and> \<not> msg_next_wrapped (m (val1 f ?w))"
      unfolding wrapped_def by blast
    from k nw s1 have "q1 \<noteq> []" by auto
    with q obtain q1' where q1: "q1 = x # q1'" "q = q1' @ q2" by (cases q1) auto
    with s1 have s: "segment f m (?r + ?n) q1' k" and le: "?r + ?n \<le> k"
      using segment_Cons_le(1) [of f m ?r x q1' k] by auto
    have "m' (val1 f k) = m (val1 f k)" using le n k by (intro same) auto
    moreover have "?w + 2 \<le> ?r \<and> m' (val1 f ?w) = m (val1 f ?w)" if "0 < ?w"
      using that sh bnd by (auto intro!: same)
    moreover have "\<not> msg_ready (m' (val1 f 0))" if "?w = 0"
    proof (cases "?r = 0")
      case False
      with that sh have "\<not> msg_ready (m (val1 f 0))" by simp
      moreover have "m' (val1 f 0) = m (val1 f 0)" using False bnd by (intro same) auto
      ultimately show ?thesis by simp
    qed (use clr in simp)
    moreover have "segment f m' 0 q2 ?w" using seg [OF s2] sh bnd by (auto split: if_splits)
    ultimately have "wrapped f m' (?r + ?n) ?w (q1' @ q2)"
      using k sh n seg [OF s] by (intro wrappedI [of _ _ _ _ k]) (auto split: if_splits)
    then show ?thesis using q1 by (simp add: fifo_holds_def rd' wr')
  qed
  moreover have "?n \<le> fifo_size f"
    using fifo_front(2) [OF h nw refl] div_le_dividend [of "fifo_size f" 4]
    unfolding fifo_words_def by linarith
  ultimately show ?thesis
    by (simp add: ifx_mpsdrv_fifo_read_ptr_inc_def Let_def m'_def m1_def)
qed

lemma fifo_read_holds:
  assumes f: "wf_fifo f" and h: "fifo_holds f m q" and rd: "ifx_mpsdrv_fifo_read f m = (res, m1)"
  shows "fifo_holds f m1 q"
    and "res = (if q = [] then None else Some (pstart f + rd_off f m1))"
    and "q \<noteq> [] \<Longrightarrow> \<not> msg_next_wrapped (m1 (val1 f (rd_off f m1)))"
    and "q = [] \<Longrightarrow> straight f m1 (rd_off f m1) (wr_off f m1) []"
proof -
  let ?wr = "msg_next_wrapped (m (val1 f (rd_off f m)))"
  have m1: "m1 = (if ?wr then m(pread_off f := 0) else m)"
    using rd by (auto simp: ifx_mpsdrv_fifo_read_def split: if_splits)
  have res: "res = (if msg_ready (m1 (val1 f (rd_off f m1))) then Some (pstart f + rd_off f m1) else None)"
    using rd by (auto simp: ifx_mpsdrv_fifo_read_def m1 split: if_splits)
  have st: "straight f m1 0 (wr_off f m1) q" "rd_off f m1 = 0" if ?wr
    using fifo_skip_wrap [OF f h that, of m1] m1 that by simp_all
  show h1: "fifo_holds f m1 q" using h st m1 by (auto simp: fifo_holds_def)
  have nw: "\<not> msg_next_wrapped (m1 (val1 f (rd_off f m1)))" if "\<not> ?wr \<or> q \<noteq> []"
  proof (cases ?wr)
    case True
    with that st have "segment f m1 0 q (wr_off f m1)" "q \<noteq> []" by (simp_all add: straight_def)
    from segment_head_bits(2) [OF this] st True show ?thesis by simp
  qed (use m1 in simp)
  then show "q \<noteq> [] \<Longrightarrow> \<not> msg_next_wrapped (m1 (val1 f (rd_off f m1)))" by blast
  show "straight f m1 (rd_off f m1) (wr_off f m1) []" if "q = []"
  proof (cases ?wr)
    case True
    with st that show ?thesis by simp
  next
    case False
    with h1 nw that have "\<not> wrapped f m1 (rd_off f m1) (wr_off f m1) []"
      by (auto simp: wrapped_def)
    with h1 that show ?thesis by (simp add: fifo_holds_def)
  qed
  have "msg_ready (m1 (val1 f (rd_off f m1))) \<longleftrightarrow> q \<noteq> []"
  proof (cases q)
    case Nil
    show ?thesis
    proof (cases ?wr)
      case True
      with st Nil have "\<not> msg_ready (m1 (val1 f 0))" "rd_off f m1 = 0" by (auto simp: straight_def)
      with Nil show ?thesis by simp
    next
      case False
      with fifo_front(1) [OF h1 nw Nil] Nil show ?thesis by simp
    qed
  next
    case (Cons x q')
    with nw have nw1: "\<not> msg_next_wrapped (m1 (val1 f (rd_off f m1)))" by simp
    from fifo_front(2) [OF h1 nw1 Cons] have x: "wf_msg x"
      and wd: "words_at m1 (pstart f + rd_off f m1) (length x) = x" by auto
    have "1 < length x" using wf_msg_length [OF x] by simp
    then have "m1 (pstart f + rd_off f m1 + 1) = x ! 1" using wd words_at_nth by metis
    with x Cons show ?thesis by (simp add: wf_msg_def)
  qed
  with res show "res = (if q = [] then None else Some (pstart f + rd_off f m1))" by simp
qed

lemma fifo_not_empty_read:
  "ifx_mpsdrv_fifo_not_empty f m = (case ifx_mpsdrv_fifo_read f m of (r, m1) \<Rightarrow> (r \<noteq> None, m1))"
  by (simp add: ifx_mpsdrv_fifo_not_empty_def ifx_mpsdrv_fifo_read_def Let_def)

lemma fifo_not_empty_holds:
  assumes f: "wf_fifo f" and h: "fifo_holds f m q" and ne: "ifx_mpsdrv_fifo_not_empty f m = (b, m1)"
  shows "fifo_holds f m1 q" and "b \<longleftrightarrow> q \<noteq> []"
    and "q = [] \<Longrightarrow> straight f m1 (rd_off f m1) (wr_off f m1) []"
proof -
  obtain r m1' where rd: "ifx_mpsdrv_fifo_read f m = (r, m1')" by (cases "ifx_mpsdrv_fifo_read f m")
  with ne have "m1' = m1" "b \<longleftrightarrow> r \<noteq> None" by (simp_all add: fifo_not_empty_read)
  with fifo_read_holds [OF f h rd] show "fifo_holds f m1 q" "b \<longleftrightarrow> q \<noteq> []"
    "q = [] \<Longrightarrow> straight f m1 (rd_off f m1) (wr_off f m1) []"
    by auto
qed

lemma fifo_rcv_holds:
  assumes f: "wf_fifo f" and h: "fifo_holds f m q" and rc: "fifo_rcv f m = (res, m')"
  shows "case q of [] \<Rightarrow> res = None \<and> fifo_holds f m' [] | x # q' \<Rightarrow> res = Some x \<and> fifo_holds f m' q'"
proof -
  obtain p m1 where rd: "ifx_mpsdrv_fifo_read f m = (p, m1)" by (cases "ifx_mpsdrv_fifo_read f m")
  note r = fifo_read_holds [OF f h rd]
  show ?thesis
  proof (cases q)
    case Nil
    with r rc rd show ?thesis by (simp add: fifo_rcv_def)
  next
    case (Cons x q')
    with r(3) have nw: "\<not> msg_next_wrapped (m1 (val1 f (rd_off f m1)))" by simp
    from fifo_front(2) [OF r(1) nw Cons] have x: "wf_msg x"
      and wd: "words_at m1 (pstart f + rd_off f m1) (length x) = x" by auto
    have "1 < length x" using wf_msg_length [OF x] by simp
    then have hd: "m1 (pstart f + rd_off f m1 + 1) = x ! 1" using wd words_at_nth by metis
    have "res = Some x" "m' = ifx_mpsdrv_fifo_read_ptr_inc f (length x) m1"
      using rc x wd unfolding fifo_rcv_def rd r(2) using Cons
      by (auto simp: hd [simplified] wf_msg_def msg_words_def Let_def)
    moreover have "fifo_holds f (ifx_mpsdrv_fifo_read_ptr_inc f (length x) m1) q'"
      using fifo_release [OF f, of m1 x q'] nw r(1) Cons by simp
    ultimately show ?thesis using Cons by simp
  qed
qed

section \<open>What an operation leaves alone\<close>

definition footprint :: "mps_fifo \<Rightarrow> nat set" where
  "footprint f = region f \<union> {pread_off f, pwrite_off f}"

lemma fifo_holds_cong:
  assumes eq: "\<And>x. x \<in> footprint f \<Longrightarrow> m' x = m x" and h: "fifo_holds f m q"
  shows "fifo_holds f m' q"
proof -
  have offs: "rd_off f m' = rd_off f m" "wr_off f m' = wr_off f m"
    using eq by (auto simp: footprint_def)
  have reg: "m' x = m x" if "pstart f \<le> x" "x < pstart f + fifo_words f" for x
    using eq that by (auto simp: footprint_def region_def)
  have seg: "segment f m' p q' e" if "segment f m p q' e" "e \<le> fifo_words f" for p q' e
    using that(2) by (intro segment_unchanged [OF that(1)] reg) auto
  have hdr: "m' (val1 f k) = m (val1 f k)" if "k + 2 \<le> fifo_words f" for k
    using that by (intro reg) auto
  from h consider (st) "straight f m (rd_off f m) (wr_off f m) q"
    | (wr) "wrapped f m (rd_off f m) (wr_off f m) q"
    by (auto simp: fifo_holds_def)
  then show ?thesis
  proof cases
    case st
    then have "straight f m' (rd_off f m) (wr_off f m) q"
      using seg hdr [of "wr_off f m"] hdr [of 0] by (auto simp: straight_def)
    then show ?thesis by (simp add: fifo_holds_def offs)
  next
    case wr
    let ?r = "rd_off f m" and ?w = "wr_off f m"
    from wr obtain q1 q2 k where q: "q = q1 @ q2" and s1: "segment f m ?r q1 k"
      and s2: "segment f m 0 q2 ?w" and k: "k + 2 \<le> fifo_words f" "\<not> msg_ready (m (val1 f k))"
        "msg_next_wrapped (m (val1 f k))"
      and sh: "if ?w = 0 then (if ?r = 0 then q1 \<noteq> [] else 2 \<le> ?r \<and> \<not> msg_ready (m (val1 f 0)))
        else ?w + 2 \<le> ?r \<and> \<not> msg_ready (m (val1 f ?w)) \<and> \<not> msg_next_wrapped (m (val1 f ?w))"
      unfolding wrapped_def by blast
    have bnd: "?w + 2 \<le> fifo_words f" using fifo_holds_bounds [OF h] by simp
    have "wrapped f m' ?r ?w (q1 @ q2)"
      using seg [OF s1] seg [OF s2] k sh bnd hdr [of k] hdr [of 0] hdr [of ?w]
      by (intro wrappedI [of _ _ _ _ k]) (auto split: if_splits)
    then show ?thesis by (simp add: fifo_holds_def offs q)
  qed
qed

lemma fifo_write_frame:
  assumes f: "wf_fifo f" and h: "fifo_holds f m q" and ws: "wf_msg ws"
    and wr: "ifx_mpsdrv_fifo_write f ws (MPS_MSGHDR_LEN + msg_len (ws ! 1)) m = (rc, m')"
    and x: "x \<notin> footprint f"
  shows "m' x = m x"
proof -
  let ?w = "wr_off f m" and ?r = "rd_off f m" and ?n = "length ws"
  define m2 where "m2 = m(val1 f ?w := 0x4000, pwrite_off f := 0)"
  note ev = wr [unfolded fifo_write_eval [OF f h ws refl refl refl] Let_def, folded m2_def]
  note bnd = fifo_holds_bounds [OF h] and out = wf_fifo_outside [OF f]
  have x': "x \<noteq> pwrite_off f" "x < pstart f \<or> pstart f + fifo_words f \<le> x"
    using x by (auto simp: footprint_def region_def)
  have m2: "m2 x = m x" using x' bnd by (auto simp: m2_def)
  have entry: "fifo_write_entry f ws ?n (pstart f + w) m1 x = m1 x"
    if "wr_off f m1 = w" "w + ?n + 2 \<le> fifo_words f" for w m1
    using fifo_write_entry_effect(4) [where m = m1 and x = x, OF f that(1) ws that(2) refl] x' that(2)
    by auto
  have "wr_off f m2 = 0" using out by (simp add: m2_def)
  with ev m2 entry [of m ?w] entry [of m2 0] bnd show ?thesis
    by (auto split: if_splits)
qed

lemma fifo_read_frame:
  assumes rd: "ifx_mpsdrv_fifo_read f m = (r, m1)" and x: "x \<notin> footprint f"
  shows "m1 x = m x"
  using rd x by (auto simp: ifx_mpsdrv_fifo_read_def footprint_def split: if_splits)

lemma fifo_read_ptr_inc_frame:
  assumes h: "fifo_holds f m q" and x: "x \<notin> footprint f"
  shows "ifx_mpsdrv_fifo_read_ptr_inc f n m x = m x"
  using x fifo_holds_bounds(2) [OF h]
  by (auto simp: ifx_mpsdrv_fifo_read_ptr_inc_def footprint_def region_def Let_def)

lemma fifo_rcv_frame:
  assumes f: "wf_fifo f" and h: "fifo_holds f m q" and x: "x \<notin> footprint f"
  shows "snd (fifo_rcv f m) x = m x"
proof -
  obtain r m1 where rd: "ifx_mpsdrv_fifo_read f m = (r, m1)" by (cases "ifx_mpsdrv_fifo_read f m")
  note r = fifo_read_holds [OF f h rd]
  show ?thesis
    using fifo_read_frame [OF rd x] fifo_read_ptr_inc_frame [OF r(1) x]
    by (auto simp: fifo_rcv_def rd Let_def split: option.splits)
qed

lemma segment_length: "segment f m p q e \<Longrightarrow> p + 2 * length q \<le> e"
proof (induction q arbitrary: p)
  case (Cons w q)
  then have "2 \<le> length w" "p + length w + 2 * length q \<le> e"
    using wf_msg_length [of w] by auto
  then show ?case by simp
qed simp

lemma fifo_holds_length: "fifo_holds f m q \<Longrightarrow> 2 * length q \<le> fifo_words f"
proof -
  assume h: "fifo_holds f m q"
  let ?r = "rd_off f m" and ?w = "wr_off f m"
  from h consider "straight f m ?r ?w q" | "wrapped f m ?r ?w q" by (auto simp: fifo_holds_def)
  then show ?thesis
  proof cases
    case 1
    then have "segment f m ?r q ?w" "?w + 2 \<le> fifo_words f" by (simp_all add: straight_def)
    with segment_length show ?thesis by force
  next
    case 2
    then obtain q1 q2 k where q: "q = q1 @ q2" "segment f m ?r q1 k" "segment f m 0 q2 ?w" "k + 2 \<le> fifo_words f"
      "?w = 0 \<or> ?w + 2 \<le> ?r" unfolding wrapped_def by (auto split: if_splits)
    from segment_length [OF q(2)] segment_length [OF q(3)] q(1,4,5) show ?thesis by auto
  qed
qed

text \<open>Two memories that differ at most in the footprint of a FIFO.\<close>

definition same_outside :: "mps_fifo \<Rightarrow> mem \<Rightarrow> mem \<Rightarrow> bool" where
  "same_outside f m m' \<longleftrightarrow> (\<forall>x. x \<notin> footprint f \<longrightarrow> m' x = m x)"

lemma same_outside_refl [simp]: "same_outside f m m"
  by (simp add: same_outside_def)

lemma same_outside_trans: "same_outside f m1 m2 \<Longrightarrow> same_outside f m2 m3 \<Longrightarrow> same_outside f m1 m3"
  by (simp add: same_outside_def)

text \<open>A FIFO that its reader has emptied: the offsets are equal, no stale entry is marked ready.\<close>

definition drained :: "mps_fifo \<Rightarrow> mem \<Rightarrow> bool" where
  "drained f m \<longleftrightarrow> straight f m (rd_off f m) (wr_off f m) []"

lemma drained_holds: "drained f m \<Longrightarrow> fifo_holds f m []"
  by (simp add: drained_def fifo_holds_def)

lemma drained_offsets: "drained f m \<Longrightarrow> rd_off f m = wr_off f m"
  by (simp add: drained_def straight_def)

lemma same_outside_other:
  assumes s: "same_outside f m m'" and d: "footprint f \<inter> footprint g = {}"
  shows "fifo_holds g m q \<Longrightarrow> fifo_holds g m' q" and "drained g m \<Longrightarrow> drained g m'"
proof -
  have eq: "m' x = m x" if "x \<in> footprint g" for x using s d that by (auto simp: same_outside_def)
  then show "fifo_holds g m q \<Longrightarrow> fifo_holds g m' q" by (rule fifo_holds_cong)
  have "m' (pread_off g) = m (pread_off g)" "m' (pwrite_off g) = m (pwrite_off g)"
    using eq by (auto simp: footprint_def)
  moreover have hdr: "m' (val1 g k) = m (val1 g k)" if "k + 2 \<le> fifo_words g" for k
    using that by (intro eq) (auto simp: footprint_def region_def)
  ultimately show "drained g m \<Longrightarrow> drained g m'"
    using hdr [of 0] hdr [of "wr_off g m"] by (auto simp: drained_def straight_def)
qed

text \<open>A drained FIFO accepts every message of at most half its region less two words.\<close>

lemma write_drained:
  assumes f: "wf_fifo f" and d: "drained f m" and ws: "wf_msg ws" and fits: "2 * length ws + 4 \<le> fifo_words f"
  shows "\<exists>m'. ifx_mpsdrv_fifo_write f ws (MPS_MSGHDR_LEN + msg_len (ws ! 1)) m = (OK, m')"
proof -
  let ?len = "MPS_MSGHDR_LEN + msg_len (ws ! 1)" and ?w = "wr_off f m"
  note st = d [unfolded drained_def] and r = drained_offsets [OF d]
  have "?len \<le> 4 * length ws"
    using ws by (simp add: wf_msg_def msg_words_eq MPS_MSGHDR_LEN_def)
  then have len: "?len \<le> fifo_size f" using fits by (simp add: fifo_words_def)
  have "\<not> msg_ready ((m(val1 f ?w := 0x4000, pwrite_off f := 0)) (val1 f 0))"
    using st r by (auto simp: straight_def)
  with st r len fits
  have "fst (ifx_mpsdrv_fifo_write f ws ?len m) = OK"
    unfolding fifo_write_eval [OF f drained_holds [OF d] ws refl refl refl] by (auto simp: straight_def Let_def)
  then show ?thesis by (cases "ifx_mpsdrv_fifo_write f ws ?len m") auto
qed

section \<open>The mailbox FIFO as a queue\<close>

text \<open>The writer passes the byte length that the header announces, as \<open>ifx_mpsdrv_mbx_send\<close> does.\<close>

definition fifo_put :: "mps_fifo \<Rightarrow> u32 list \<Rightarrow> mem \<Rightarrow> bool \<times> mem" where
  "fifo_put f ws m = (case ifx_mpsdrv_fifo_write f ws (MPS_MSGHDR_LEN + msg_len (ws ! 1)) m of
     (rc, m') \<Rightarrow> (rc = OK, m'))"

interpretation mbx: lossless_queue "\<lambda>m q. wf_fifo f \<and> fifo_holds f m q" wf_msg "fifo_put f" "fifo_rcv f"
  for f
proof unfold_locales
  fix s q x s'
  show "wf_fifo f \<and> fifo_holds f s q \<Longrightarrow> wf_msg x \<Longrightarrow> fifo_put f x s = (True, s')
      \<Longrightarrow> wf_fifo f \<and> fifo_holds f s' (q @ [x])"
    using fifo_write_accept by (auto simp: fifo_put_def split: prod.splits)
  show "wf_fifo f \<and> fifo_holds f s q \<Longrightarrow> wf_msg x \<Longrightarrow> fifo_put f x s = (False, s')
      \<Longrightarrow> wf_fifo f \<and> fifo_holds f s' q"
    using fifo_write_refuse by (auto simp: fifo_put_def split: prod.splits)
  show "wf_fifo f \<and> fifo_holds f s q \<Longrightarrow> fifo_rcv f s = (Some x, s')
      \<Longrightarrow> \<exists>q'. q = x # q' \<and> wf_fifo f \<and> fifo_holds f s' q'"
    using fifo_rcv_holds [of f s q "Some x" s'] by (auto split: list.splits)
  show "wf_fifo f \<and> fifo_holds f s q \<Longrightarrow> fifo_rcv f s = (None, s')
      \<Longrightarrow> q = [] \<and> wf_fifo f \<and> fifo_holds f s' []"
    using fifo_rcv_holds [of f s q None s'] by (auto split: list.splits)
qed

lemma fifo_holds_empty:
  assumes "rd_off f m = wr_off f m" and "wr_off f m = 0" and "4 \<le> fifo_words f"
    and "\<not> msg_ready (m (val1 f 0))"
  shows "fifo_holds f m []"
  using assms by (simp add: fifo_holds_def straight_def)

text \<open>A FIFO of the size of the command mailbox, for the concrete instances below.\<close>

definition demo_fifo :: mps_fifo where
  "demo_fifo = \<lparr>pstart = 16, pend = 31, pwrite_off = 9, pread_off = 8, fifo_size = 64, min_space = 64\<rparr>"

definition demo_msg :: "u32 list" where
  "demo_msg = [0x01140100, 0x00008008, 0x11223344, 0x00000040]"

lemma demo_facts: "wf_fifo demo_fifo" "fifo_holds demo_fifo (\<lambda>_. 0) []" "wf_msg demo_msg"
proof -
  show "wf_fifo demo_fifo" by (simp add: wf_fifo_def demo_fifo_def fifo_words_def region_def)
  show "fifo_holds demo_fifo (\<lambda>_. 0) []"
    by (rule fifo_holds_empty) (simp_all add: demo_fifo_def fifo_words_def)
  show "wf_msg demo_msg"
    by (simp add: wf_msg_def demo_msg_def msg_words_def msg_4bytes_def MPS_MSGHDR_LEN_def msg_len_def
      msg_ready_def msg_next_wrapped_def)
qed

section \<open>Properties\<close>

text \<open>C3: Every message that the writer's \<open>ifx_mpsdrv_fifo_write\<close> accepts is delivered to the
  reader exactly once, unchanged and in order, over any interleaving of sends and receives, also
  when the writer wraps around and when sends are refused in between; whatever is not yet
  delivered is still in the FIFO.\<close>

theorem mailbox_exactly_once:
  assumes "wf_fifo f" and "fifo_holds f m q" and "puts_valid wf_msg ops"
    and "run_queue (fifo_put f) (fifo_rcv f) m ops = (sent, received, m')"
  shows "\<exists>pending. q @ sent = received @ pending \<and> fifo_holds f m' pending"
  using mbx.run_exactly_once [of f m q ops sent received m'] assms by blast

theorem mailbox_exactly_once_witness:
  "\<exists>sent received m' pending.
     run_queue (fifo_put demo_fifo) (fifo_rcv demo_fifo) (\<lambda>_. 0)
       [Put demo_msg, Put demo_msg, Get, Put demo_msg] = (sent, received, m')
     \<and> [] @ sent = received @ pending \<and> fifo_holds demo_fifo m' pending"
proof -
  let ?ops = "[Put demo_msg, Put demo_msg, Get, Put demo_msg]"
  obtain sent received m' where r:
    "run_queue (fifo_put demo_fifo) (fifo_rcv demo_fifo) (\<lambda>_. 0) ?ops = (sent, received, m')"
    by (cases "run_queue (fifo_put demo_fifo) (fifo_rcv demo_fifo) (\<lambda>_. 0) ?ops")
  have "puts_valid wf_msg ?ops" using demo_facts by simp
  from mailbox_exactly_once [OF demo_facts(1,2) this r] r show ?thesis by blast
qed

text \<open>C7: Sending into or receiving from one mailbox FIFO leaves the content of every other FIFO
  whose region and offset words do not overlap with it, although all of them live in the same
  SRAM.\<close>

theorem mailbox_noninterference:
  assumes "wf_fifo f" and "fifo_holds f m q" and "wf_msg ws"
    and "fifo_holds g m qg" and "footprint f \<inter> footprint g = {}"
  shows "fifo_holds g (snd (ifx_mpsdrv_fifo_write f ws (MPS_MSGHDR_LEN + msg_len (ws ! 1)) m)) qg
    \<and> fifo_holds g (snd (fifo_rcv f m)) qg"
proof
  let ?wr = "ifx_mpsdrv_fifo_write f ws (MPS_MSGHDR_LEN + msg_len (ws ! 1)) m"
  have "snd ?wr x = m x" if "x \<in> footprint g" for x
    using fifo_write_frame [OF assms(1-3), of "fst ?wr" "snd ?wr" x] assms(5) that by auto
  then show "fifo_holds g (snd ?wr) qg" using fifo_holds_cong assms(4) by blast
  have "snd (fifo_rcv f m) x = m x" if "x \<in> footprint g" for x
    using fifo_rcv_frame [OF assms(1,2)] assms(5) that by blast
  then show "fifo_holds g (snd (fifo_rcv f m)) qg" using fifo_holds_cong assms(4) by blast
qed

theorem mailbox_noninterference_witness:
  "fifo_holds (demo_fifo\<lparr>pstart := 32, pwrite_off := 11, pread_off := 10\<rparr>)
     (snd (ifx_mpsdrv_fifo_write demo_fifo demo_msg (MPS_MSGHDR_LEN + msg_len (demo_msg ! 1)) (\<lambda>_. 0))) []"
proof -
  let ?g = "demo_fifo\<lparr>pstart := 32, pwrite_off := 11, pread_off := 10\<rparr>"
  have "fifo_holds ?g (\<lambda>_. 0) []"
    by (rule fifo_holds_empty) (simp_all add: demo_fifo_def fifo_words_def)
  moreover have "footprint demo_fifo \<inter> footprint ?g = {}"
    by (auto simp: footprint_def region_def demo_fifo_def fifo_words_def)
  ultimately show ?thesis using mailbox_noninterference [OF demo_facts] by blast
qed

text \<open>C6: Once the reader has found the FIFO empty, a message of at most half the region less two
  words is always accepted, wherever in the region the offsets are; for the 64-byte command FIFO
  that is every message of up to six words, the size of \<open>mps_data_message\<close>.\<close>

theorem mailbox_accepts_when_drained:
  assumes f: "wf_fifo f" and h: "fifo_holds f m q" and ws: "wf_msg ws"
    and ne: "ifx_mpsdrv_fifo_not_empty f m = (False, m1)"
    and fits: "2 * length ws + 4 \<le> fifo_words f"
  shows "\<exists>m'. ifx_mpsdrv_fifo_write f ws (MPS_MSGHDR_LEN + msg_len (ws ! 1)) m1 = (OK, m')
    \<and> fifo_holds f m' [ws]"
proof -
  have q: "q = []" using fifo_not_empty_holds(2) [OF f h ne] by simp
  then have d: "drained f m1" using fifo_not_empty_holds(3) [OF f h ne] by (simp add: drained_def)
  from write_drained [OF f d ws fits] fifo_write_accept [OF f drained_holds [OF d] ws] show ?thesis by auto
qed

theorem mailbox_accepts_when_drained_witness:
  "\<exists>m'. ifx_mpsdrv_fifo_write demo_fifo demo_msg (MPS_MSGHDR_LEN + msg_len (demo_msg ! 1)) (\<lambda>_. 0) = (OK, m')
    \<and> fifo_holds demo_fifo m' [demo_msg]"
proof -
  have "ifx_mpsdrv_fifo_not_empty demo_fifo (\<lambda>_. 0) = (False, \<lambda>_. 0)"
    by (simp add: ifx_mpsdrv_fifo_not_empty_def)
  then show ?thesis
    using mailbox_accepts_when_drained [OF demo_facts] by (simp add: demo_msg_def demo_fifo_def fifo_words_def)
qed

text \<open>C13: \<open>ifx_mpsdrv_fifo_clear\<close> resets the two offsets only.  A message that was waiting at the
  start of the region keeps its ready bit, so right after the clear the FIFO still reports data and
  the next receive delivers the old message.\<close>

theorem fifo_clear_redelivers:
  assumes f: "wf_fifo f" and h: "fifo_holds f m (x # q)" and r: "rd_off f m = 0"
    and nw: "\<not> msg_next_wrapped (m (val1 f 0))"
  shows "fst (ifx_mpsdrv_fifo_not_empty f (ifx_mpsdrv_fifo_clear f m))
    \<and> fst (fifo_rcv f (ifx_mpsdrv_fifo_clear f m)) = Some x"
proof -
  let ?m = "ifx_mpsdrv_fifo_clear f m"
  note out = wf_fifo_outside [OF f]
  from fifo_front(2) [OF h] nw r have x: "wf_msg x"
    and wd: "words_at m (pstart f) (length x) = x" and le: "length x + 2 \<le> fifo_words f"
    by auto
  have "1 < length x" using wf_msg_length [OF x] by simp
  then have hd: "m (pstart f + 1) = x ! 1" using wd words_at_nth by metis
  have reg: "?m y = m y" if "pstart f \<le> y" "y < pstart f + fifo_words f" for y
    using that out by (auto simp: ifx_mpsdrv_fifo_clear_def)
  have h0: "?m (Suc (pstart f)) = x ! 1" using hd reg [of "pstart f + 1"] le by simp
  have r0: "rd_off f ?m = 0" by (simp add: ifx_mpsdrv_fifo_clear_def)
  have "words_at ?m (pstart f) (length x) = x"
    using wd le words_at_cong [of "pstart f" "length x" ?m m] reg by auto
  with x r0 h0 show ?thesis
    by (simp add: ifx_mpsdrv_fifo_not_empty_def fifo_rcv_def ifx_mpsdrv_fifo_read_def wf_msg_def
      msg_words_def Let_def)
qed

theorem fifo_clear_redelivers_witness:
  "\<exists>m. fifo_holds demo_fifo m [demo_msg]
     \<and> fst (fifo_rcv demo_fifo (ifx_mpsdrv_fifo_clear demo_fifo m)) = Some demo_msg"
proof -
  let ?wr = "ifx_mpsdrv_fifo_write demo_fifo demo_msg (MPS_MSGHDR_LEN + msg_len (demo_msg ! 1)) (\<lambda>_. 0)"
  have rc: "fst ?wr = OK" and r0: "rd_off demo_fifo (snd ?wr) = 0"
    and nw: "\<not> msg_next_wrapped (snd ?wr (val1 demo_fifo 0))"
    by (simp_all add: ifx_mpsdrv_fifo_write_def fifo_write_entry_def demo_fifo_def demo_msg_def
      MPS_MSGHDR_LEN_def MPS_MIN_MARGIN_def msg_4bytes_def msg_len_def msg_next_wrapped_def)
  have h: "fifo_holds demo_fifo (snd ?wr) [demo_msg]"
    using fifo_write_accept [OF demo_facts, of "snd ?wr"] rc by (cases ?wr) simp
  from fifo_clear_redelivers [OF demo_facts(1) h r0 nw] h show ?thesis by blast
qed

text \<open>The guard of \<open>ifx_mpsdrv_fifo_read_ptr_inc\<close> compares an increment counted in words with
  the FIFO size in bytes, so an increment of more words than the region has passes it and moves the
  read offset out of the region.\<close>

theorem read_ptr_inc_guard_units:
  assumes f: "wf_fifo f" and r: "rd_off f m + 2 \<le> fifo_words f"
    and n: "fifo_words f < n" "n \<le> fifo_size f"
  shows "rd_off f (ifx_mpsdrv_fifo_read_ptr_inc f n m) = rd_off f m + n
    \<and> pstart f + rd_off f (ifx_mpsdrv_fifo_read_ptr_inc f n m) \<notin> region f"
proof -
  have "pread_off f \<noteq> val1 f (rd_off f m)" using wf_fifo_outside(1) [OF f] r by auto
  moreover have "rd_off f m + n < 2 ^ 32"
    using n r f by (auto simp: wf_fifo_def fifo_words_def)
  ultimately have "rd_off f (ifx_mpsdrv_fifo_read_ptr_inc f n m) = rd_off f m + n"
    using n unat_add_u32 [of "m (pread_off f)" n]
    by (simp add: ifx_mpsdrv_fifo_read_ptr_inc_def Let_def)
  with n show ?thesis by (simp add: region_def)
qed

theorem read_ptr_inc_guard_units_witness:
  "rd_off demo_fifo (ifx_mpsdrv_fifo_read_ptr_inc demo_fifo 17 (\<lambda>_. 0)) = 17
   \<and> pstart demo_fifo + 17 \<notin> region demo_fifo"
  using read_ptr_inc_guard_units [OF demo_facts(1), of "\<lambda>_. 0" 17]
  by (simp add: demo_fifo_def fifo_words_def region_def)

end
