(* ===== verification/Mps_Ring.thy ===== *)
theory Mps_Ring
  imports Fifo_Spec
begin

text \<open>
  The circular buffer queues of the MPS buffer pools (\<open>mps_tpe_buffer.h\<close>: \<open>MPS_BUFF_HEAD\<close> and the
  queue macros; \<open>mps_tpe_buffer.c\<close>: \<open>mps_queue_init\<close>, \<open>mps_queue_free\<close>, \<open>mps_queue_tail\<close>,
  \<open>mps_dequeue_head\<close>, \<open>mps_topup_q_list\<close>).  A queue for \<open>maxcount\<close> elements has
  \<open>maxcount + 1\<close> slots.  Buffers are their 32-bit addresses, 0 being \<open>NULL\<close>.  The kernel's
  allocators are an environment: the addresses they will return, in order (0 for a failed request),
  and the log of what was given back to which release function.
\<close>

section \<open>Kernel allocators\<close>

datatype free_fn = Kfree | Kfree_skb | Dev_kfree_skb_any

record heap =
  upcoming :: "u32 list"
  freed :: "(free_fn \<times> u32) list"

fun kalloc :: "heap \<Rightarrow> u32 \<times> heap" where
  "kalloc h = (case upcoming h of [] \<Rightarrow> (0, h) | p # ps \<Rightarrow> (p, h\<lparr>upcoming := ps\<rparr>))"

declare kalloc.simps [simp del]

definition kfree_as :: "free_fn \<Rightarrow> u32 \<Rightarrow> heap \<Rightarrow> heap" where
  "kfree_as fn p h = h\<lparr>freed := freed h @ [(fn, p)]\<rparr>"

definition mps_inv_alloc :: "heap \<Rightarrow> u32 \<times> heap" where
  "mps_inv_alloc h = (let (p, h') = kalloc h in (KSEG1ADDR p, h'))"

section \<open>Queue heads and the queue macros\<close>

text \<open>\<open>circular_buf\<close> is the address of the slot array, \<open>slots\<close> what the array holds.\<close>

record mps_buff_head =
  circular_buf :: u32
  slots :: "nat \<Rightarrow> u32"
  maxcount :: nat
  rpos :: nat
  wpos :: nat

definition MPS_NEXT_Q_POS :: "nat \<Rightarrow> nat \<Rightarrow> nat" where
  "MPS_NEXT_Q_POS pos mx = (if pos < mx then pos + 1 else 0)"

definition MPS_SET_Q_ITEM :: "mps_buff_head \<Rightarrow> u32 \<Rightarrow> mps_buff_head" where
  "MPS_SET_Q_ITEM q node = q\<lparr>slots := (slots q)(wpos q := node)\<rparr>"

definition MPS_GET_Q_ITEM :: "mps_buff_head \<Rightarrow> u32" where
  "MPS_GET_Q_ITEM q = slots q (rpos q)"

text \<open>The macros take a queue pointer that may be \<open>NULL\<close>.\<close>

definition MPS_IS_Q_FULL :: "mps_buff_head option \<Rightarrow> bool" where
  "MPS_IS_Q_FULL qp \<longleftrightarrow> (case qp of None \<Rightarrow> False
     | Some q \<Rightarrow> MPS_NEXT_Q_POS (wpos q) (maxcount q) = rpos q)"

definition MPS_IS_Q_EMPTY :: "mps_buff_head option \<Rightarrow> bool" where
  "MPS_IS_Q_EMPTY qp \<longleftrightarrow> (case qp of None \<Rightarrow> True | Some q \<Rightarrow> rpos q = wpos q)"

definition MPS_GET_Q_COUNT :: "mps_buff_head \<Rightarrow> nat" where
  "MPS_GET_Q_COUNT q = (if rpos q \<le> wpos q then wpos q - rpos q
     else u32_sub (u32_add (u32_add (wpos q) 1) (maxcount q)) (rpos q))"

section \<open>Operations\<close>

text \<open>The release loop walks from \<open>rpos\<close> to \<open>wpos\<close>.  The positions it visits repeat after
  \<open>maxcount + 2\<close> steps, so with that much fuel \<open>None\<close> means that the loop does not end.\<close>

fun queue_free_loop ::
  "nat \<Rightarrow> mps_buff_head \<Rightarrow> nat \<Rightarrow> nat \<Rightarrow> free_fn \<Rightarrow> nat \<Rightarrow> heap \<Rightarrow> (nat \<times> nat \<times> heap) option" where
  "queue_free_loop fuel q rp wp fn count h =
     (if rp = wp then Some (rp, count, h)
      else case fuel of 0 \<Rightarrow> None
        | Suc fuel' \<Rightarrow> queue_free_loop fuel' q (MPS_NEXT_Q_POS rp (maxcount q)) wp fn (count + 1)
            (kfree_as fn (slots q rp) h))"

declare queue_free_loop.simps [simp del]

definition mps_queue_free ::
  "mps_buff_head option \<Rightarrow> bool \<Rightarrow> free_fn \<Rightarrow> heap \<Rightarrow> (s32 \<times> mps_buff_head option \<times> heap) option" where
  "mps_queue_free qp free_circular_buf fn h = (case qp of
     None \<Rightarrow> Some (0, None, h)
   | Some q \<Rightarrow>
      (case (if circular_buf q \<noteq> 0 then queue_free_loop (maxcount q + 2) q (rpos q) (wpos q) fn 0 h
             else Some (rpos q, 0, h)) of
         None \<Rightarrow> None
       | Some (rp, count, h1) \<Rightarrow>
           Some (int count, Some (q\<lparr>rpos := rp\<rparr>),
             if free_circular_buf then kfree_as Kfree (circular_buf q) h1 else h1)))"

text \<open>The fill loop of \<open>mps_queue_init\<close> for slots \<open>i\<close> to \<open>n - 1\<close>; its flag says whether an
  allocation failed, at which slot.\<close>

function queue_fill :: "nat \<Rightarrow> nat \<Rightarrow> mps_buff_head \<Rightarrow> heap \<Rightarrow> nat option \<times> mps_buff_head \<times> heap" where
  "queue_fill i n q h =
     (if i < n then
        let (p, h1) = kalloc h; q1 = q\<lparr>slots := (slots q)(i := p)\<rparr>
        in if p = 0 then (Some i, q1, h1) else queue_fill (i + 1) n q1 h1
      else (None, q, h))"
  by pat_completeness auto
termination
  by (relation "measure (\<lambda>(i, n, q, h). n - i)") auto

declare queue_fill.simps [simp del]

text \<open>\<open>junk\<close> is what the freshly allocated slot array holds before it is written.\<close>

definition mps_queue_init ::
  "(nat \<Rightarrow> u32) \<Rightarrow> nat \<Rightarrow> nat \<Rightarrow> mps_buff_head \<Rightarrow> heap \<Rightarrow> (s32 \<times> mps_buff_head \<times> heap) option" where
  "mps_queue_init junk sz num_entries q h =
     (if circular_buf q \<noteq> 0 then Some (- EEXIST, q, h)
      else
        let (cb, h1) = mps_inv_alloc h; q1 = q\<lparr>circular_buf := cb, slots := junk\<rparr> in
        if cb = 0 then Some (- ENOMEM, q1, h1)
        else if sz \<noteq> 0 then
          (case queue_fill 0 num_entries (q1\<lparr>rpos := 0\<rparr>) h1 of
             (Some i, q2, h2) \<Rightarrow>
               (case mps_queue_free (Some (q2\<lparr>maxcount := i, wpos := i\<rparr>)) True Dev_kfree_skb_any h2 of
                  Some (_, Some q3, h3) \<Rightarrow> Some (- ENOMEM, q3, h3)
                | _ \<Rightarrow> None)
           | (None, q2, h2) \<Rightarrow> Some (0, q2\<lparr>wpos := num_entries, maxcount := num_entries\<rparr>, h2))
        else Some (0, q1\<lparr>slots := (\<lambda>i. if i < num_entries + 1 then 0 else junk i),
                        wpos := 0, rpos := 0, maxcount := num_entries\<rparr>, h1))"

definition mps_queue_tail :: "u32 \<Rightarrow> mps_buff_head option \<Rightarrow> s32 \<times> mps_buff_head option" where
  "mps_queue_tail buf qp = (case qp of
     None \<Rightarrow> (- EINVAL, None)
   | Some q \<Rightarrow>
       if MPS_IS_Q_FULL (Some q) then (- ENOMEM, Some q)
       else let q1 = MPS_SET_Q_ITEM q buf
            in (0, Some (q1\<lparr>wpos := MPS_NEXT_Q_POS (wpos q1) (maxcount q1)\<rparr>)))"

definition mps_dequeue_head :: "mps_buff_head option \<Rightarrow> u32 \<times> mps_buff_head option" where
  "mps_dequeue_head qp = (case qp of
     None \<Rightarrow> (0, None)
   | Some q \<Rightarrow>
       if MPS_IS_Q_EMPTY (Some q) then (0, Some q)
       else let m_buf = MPS_GET_Q_ITEM q; q1 = q\<lparr>slots := (slots q)(rpos q := 0xEEEEEEEE)\<rparr>
            in (m_buf, Some (q1\<lparr>rpos := MPS_NEXT_Q_POS (rpos q1) (maxcount q1)\<rparr>)))"

text \<open>\<open>count\<close> and \<open>wp\<close> are the C function's locals.\<close>

function topup_loop :: "nat \<Rightarrow> nat \<Rightarrow> mps_buff_head \<Rightarrow> heap \<Rightarrow> nat \<times> mps_buff_head \<times> heap" where
  "topup_loop count wp q h =
     (if count < maxcount q then
        let (mps_buf, h1) = kalloc h
        in if mps_buf = 0 then (count, q\<lparr>wpos := wp\<rparr>, h1)
           else let q1 = MPS_SET_Q_ITEM q mps_buf; wp1 = MPS_NEXT_Q_POS wp (maxcount q1)
                in topup_loop (count + 1) wp1 (q1\<lparr>wpos := wp1\<rparr>) h1
      else (count, q, h))"
  by pat_completeness auto
termination
  by (relation "measure (\<lambda>(count, wp, q, h). maxcount q - count)")
     (auto simp: MPS_SET_Q_ITEM_def)

declare topup_loop.simps [simp del]

definition mps_topup_q_list :: "mps_buff_head \<Rightarrow> heap \<Rightarrow> s32 \<times> mps_buff_head \<times> heap" where
  "mps_topup_q_list q h =
     (let org_count = MPS_GET_Q_COUNT q; (count, q1, h1) = topup_loop org_count (wpos q) q h
      in (int count - int org_count, q1, h1))"

section \<open>Queues and the lists they hold\<close>

definition ring_inv :: "mps_buff_head \<Rightarrow> bool" where
  "ring_inv q \<longleftrightarrow> rpos q \<le> maxcount q \<and> wpos q \<le> maxcount q \<and> maxcount q < 2 ^ 31"

definition ring_len :: "mps_buff_head \<Rightarrow> nat" where
  "ring_len q = (if rpos q \<le> wpos q then wpos q - rpos q else wpos q + 1 + maxcount q - rpos q)"

text \<open>The position \<open>i\<close> steps after \<open>p\<close>.\<close>

definition ring_pos :: "mps_buff_head \<Rightarrow> nat \<Rightarrow> nat" where
  "ring_pos q i = (if rpos q + i \<le> maxcount q then rpos q + i else rpos q + i - (maxcount q + 1))"

definition ring_list :: "mps_buff_head \<Rightarrow> u32 list" where
  "ring_list q = map (\<lambda>i. slots q (ring_pos q i)) [0..<ring_len q]"

lemmas queue_macro_defs = MPS_NEXT_Q_POS_def MPS_SET_Q_ITEM_def MPS_GET_Q_ITEM_def
  MPS_IS_Q_FULL_def MPS_IS_Q_EMPTY_def

lemma ring_len_le: "ring_inv q \<Longrightarrow> ring_len q \<le> maxcount q"
  by (auto simp: ring_inv_def ring_len_def)

lemma length_ring_list [simp]: "length (ring_list q) = ring_len q"
  by (simp add: ring_list_def)

lemma queue_count: "ring_inv q \<Longrightarrow> MPS_GET_Q_COUNT q = ring_len q"
  by (auto simp: ring_inv_def MPS_GET_Q_COUNT_def ring_len_def)

lemma queue_full_iff: "ring_inv q \<Longrightarrow> MPS_IS_Q_FULL (Some q) \<longleftrightarrow> ring_len q = maxcount q"
  by (auto simp: ring_inv_def queue_macro_defs ring_len_def)

lemma queue_empty_iff: "ring_inv q \<Longrightarrow> MPS_IS_Q_EMPTY (Some q) \<longleftrightarrow> ring_list q = []"
  by (auto simp: ring_inv_def queue_macro_defs ring_list_def ring_len_def)

lemma ring_enqueue:
  assumes inv: "ring_inv q" and room: "ring_len q < maxcount q"
    and q': "q' = q\<lparr>slots := (slots q)(wpos q := x), wpos := MPS_NEXT_Q_POS (wpos q) (maxcount q)\<rparr>"
  shows "ring_inv q'" and "ring_list q' = ring_list q @ [x]" and "ring_len q' = ring_len q + 1"
proof -
  show "ring_inv q'" using inv by (auto simp: ring_inv_def MPS_NEXT_Q_POS_def q')
  show len: "ring_len q' = ring_len q + 1"
    using inv room by (auto simp: ring_inv_def ring_len_def MPS_NEXT_Q_POS_def q' split: if_splits)
  have pos: "ring_pos q' i = ring_pos q i" for i by (simp add: ring_pos_def q')
  have last: "ring_pos q (ring_len q) = wpos q"
    using inv by (auto simp: ring_inv_def ring_pos_def ring_len_def)
  have other: "ring_pos q i \<noteq> wpos q" if "i < ring_len q" for i
    using inv room that by (auto simp: ring_inv_def ring_pos_def ring_len_def split: if_splits)
  have "slots q' (ring_pos q i) = slots q (ring_pos q i)" if "i < ring_len q" for i
    using other [OF that] by (simp add: q')
  moreover have "slots q' (ring_pos q (ring_len q)) = x" by (simp add: last q')
  ultimately show "ring_list q' = ring_list q @ [x]"
    by (simp add: ring_list_def len pos)
qed

lemma ring_step:
  assumes inv: "ring_inv q" and ne: "rpos q \<noteq> wpos q"
    and q': "q' = q\<lparr>rpos := MPS_NEXT_Q_POS (rpos q) (maxcount q)\<rparr>"
  shows "ring_inv q'" and "ring_list q = slots q (rpos q) # ring_list q'"
    and "ring_len q = Suc (ring_len q')"
proof -
  show "ring_inv q'" using inv by (auto simp: ring_inv_def MPS_NEXT_Q_POS_def q')
  show len: "ring_len q = Suc (ring_len q')"
    using inv ne by (auto simp: ring_inv_def ring_len_def MPS_NEXT_Q_POS_def q' split: if_splits)
  have "ring_pos q (Suc i) = ring_pos q' i" if "i < ring_len q'" for i
    using inv that by (auto simp: ring_inv_def ring_pos_def ring_len_def MPS_NEXT_Q_POS_def q' split: if_splits)
  moreover have "ring_pos q 0 = rpos q" using inv by (simp add: ring_pos_def ring_inv_def)
  ultimately show "ring_list q = slots q (rpos q) # ring_list q'"
    unfolding ring_list_def len by (simp add: q' upt_conv_Cons map_Suc_upt [symmetric] del: upt_Suc)
qed

text \<open>A slot outside the occupied part can be overwritten.\<close>

lemma ring_list_slot:
  assumes "ring_inv q" and "\<And>i. i < ring_len q \<Longrightarrow> ring_pos q i \<noteq> k"
  shows "ring_list (q\<lparr>slots := (slots q)(k := v)\<rparr>) = ring_list q"
proof -
  let ?q = "q\<lparr>slots := (slots q)(k := v)\<rparr>"
  have "ring_len ?q = ring_len q" "\<And>i. ring_pos ?q i = ring_pos q i"
    by (simp_all add: ring_len_def ring_pos_def)
  with assms(2) show ?thesis by (simp add: ring_list_def)
qed

lemma ring_dequeue:
  assumes inv: "ring_inv q" and ne: "rpos q \<noteq> wpos q"
    and q': "q' = q\<lparr>slots := (slots q)(rpos q := v), rpos := MPS_NEXT_Q_POS (rpos q) (maxcount q)\<rparr>"
  shows "ring_inv q'" and "ring_list q = slots q (rpos q) # ring_list q'"
proof -
  define q1 where "q1 = q\<lparr>rpos := MPS_NEXT_Q_POS (rpos q) (maxcount q)\<rparr>"
  note st = ring_step [OF inv ne q1_def]
  have "ring_pos q1 i \<noteq> rpos q" if "i < ring_len q1" for i
    using inv that st(1,3) ring_len_le [OF inv]
    by (auto simp: q1_def ring_inv_def ring_pos_def MPS_NEXT_Q_POS_def split: if_splits)
  from ring_list_slot [OF st(1) this] have "ring_list (q1\<lparr>slots := (slots q1)(rpos q := v)\<rparr>) = ring_list q1" .
  moreover have "q1\<lparr>slots := (slots q1)(rpos q := v)\<rparr> = q'" by (simp add: q' q1_def)
  ultimately have "ring_list q' = ring_list q1" by simp
  with st show "ring_list q = slots q (rpos q) # ring_list q'" by simp
  show "ring_inv q'" using st(1) by (simp add: q' q1_def ring_inv_def)
qed

section \<open>The queue operations keep the contract\<close>

lemma queue_tail_full:
  "ring_inv q \<Longrightarrow> ring_len q = maxcount q \<Longrightarrow> mps_queue_tail x (Some q) = (- ENOMEM, Some q)"
  by (simp add: mps_queue_tail_def queue_full_iff)

lemma queue_tail_room:
  assumes "ring_inv q" and "ring_len q \<noteq> maxcount q"
  obtains q' where "mps_queue_tail x (Some q) = (0, Some q')" "ring_inv q'"
    "ring_list q' = ring_list q @ [x]" "maxcount q' = maxcount q"
proof -
  let ?q = "q\<lparr>slots := (slots q)(wpos q := x), wpos := MPS_NEXT_Q_POS (wpos q) (maxcount q)\<rparr>"
  have "ring_len q < maxcount q" using assms ring_len_le [of q] by simp
  note e = ring_enqueue [OF assms(1) this refl, of x]
  have "mps_queue_tail x (Some q) = (0, Some ?q)"
    using assms queue_full_iff [of q] by (simp add: mps_queue_tail_def MPS_SET_Q_ITEM_def Let_def)
  with e that [of ?q] show thesis by simp
qed

lemma dequeue_head_empty:
  "ring_inv q \<Longrightarrow> ring_list q = [] \<Longrightarrow> mps_dequeue_head (Some q) = (0, Some q)"
  by (simp add: mps_dequeue_head_def queue_empty_iff)

lemma dequeue_head_Cons:
  assumes inv: "ring_inv q" and "ring_list q = x # xs"
  obtains q' where "mps_dequeue_head (Some q) = (x, Some q')" "ring_inv q'" "ring_list q' = xs"
    "maxcount q' = maxcount q"
proof -
  let ?q = "q\<lparr>slots := (slots q)(rpos q := 0xEEEEEEEE), rpos := MPS_NEXT_Q_POS (rpos q) (maxcount q)\<rparr>"
  have ne: "rpos q \<noteq> wpos q" using assms queue_empty_iff [OF inv] by (auto simp: MPS_IS_Q_EMPTY_def)
  note d = ring_dequeue [OF inv ne refl, of "0xEEEEEEEE"]
  have "mps_dequeue_head (Some q) = (x, Some ?q)"
    using d(2) assms(2) ne by (simp add: mps_dequeue_head_def queue_macro_defs Let_def)
  with d assms(2) that [of ?q] show thesis by simp
qed

text \<open>The ring as a queue of buffers; \<open>NULL\<close> is not a buffer.\<close>

definition ring_put :: "u32 \<Rightarrow> mps_buff_head \<Rightarrow> bool \<times> mps_buff_head" where
  "ring_put x q = (case mps_queue_tail x (Some q) of (rc, q') \<Rightarrow> (rc = 0, case q' of None \<Rightarrow> q | Some q1 \<Rightarrow> q1))"

definition ring_get :: "mps_buff_head \<Rightarrow> u32 option \<times> mps_buff_head" where
  "ring_get q = (case mps_dequeue_head (Some q) of
     (p, q') \<Rightarrow> (if p = 0 then None else Some p, case q' of None \<Rightarrow> q | Some q1 \<Rightarrow> q1))"

interpretation ring: lossless_queue
  "\<lambda>q xs. ring_inv q \<and> ring_list q = xs \<and> 0 \<notin> set xs" "\<lambda>x. x \<noteq> 0" ring_put ring_get
proof unfold_locales
  fix s q x s'
  show "ring_inv s \<and> ring_list s = q \<and> 0 \<notin> set q \<Longrightarrow> x \<noteq> 0 \<Longrightarrow> ring_put x s = (True, s')
     \<Longrightarrow> ring_inv s' \<and> ring_list s' = q @ [x] \<and> 0 \<notin> set (q @ [x])"
    using queue_tail_full [of s x] queue_tail_room [of s x]
    by (cases "ring_len s = maxcount s") (fastforce simp: ring_put_def)+
  show "ring_inv s \<and> ring_list s = q \<and> 0 \<notin> set q \<Longrightarrow> x \<noteq> 0 \<Longrightarrow> ring_put x s = (False, s')
     \<Longrightarrow> ring_inv s' \<and> ring_list s' = q \<and> 0 \<notin> set q"
    using queue_tail_full [of s x] queue_tail_room [of s x]
    by (cases "ring_len s = maxcount s") (fastforce simp: ring_put_def)+
  show "ring_inv s \<and> ring_list s = q \<and> 0 \<notin> set q \<Longrightarrow> ring_get s = (Some x, s')
     \<Longrightarrow> \<exists>q'. q = x # q' \<and> ring_inv s' \<and> ring_list s' = q' \<and> 0 \<notin> set q'"
    using dequeue_head_empty [of s] dequeue_head_Cons [of s]
    by (cases q) (fastforce simp: ring_get_def)+
  show "ring_inv s \<and> ring_list s = q \<and> 0 \<notin> set q \<Longrightarrow> ring_get s = (None, s')
     \<Longrightarrow> q = [] \<and> ring_inv s' \<and> ring_list s' = [] \<and> 0 \<notin> set []"
    using dequeue_head_empty [of s] dequeue_head_Cons [of s]
    by (cases q) (fastforce simp: ring_get_def)+
qed

section \<open>Topping up\<close>

text \<open>The buffers a top-up of \<open>room\<close> places takes from an allocator: all up to the first
  failed request.\<close>

definition obtained :: "nat \<Rightarrow> heap \<Rightarrow> u32 list" where
  "obtained room h = takeWhile (\<lambda>p. p \<noteq> 0) (take room (upcoming h))"

lemma obtained_0 [simp]: "obtained 0 h = []"
  by (simp add: obtained_def)

lemma obtained_none: "fst (kalloc h) = 0 \<Longrightarrow> obtained room h = []"
  by (cases room; cases "upcoming h") (auto simp: obtained_def kalloc.simps)

lemma obtained_Suc:
  "kalloc h = (p, h1) \<Longrightarrow> p \<noteq> 0 \<Longrightarrow> obtained (Suc room) h = p # obtained room h1"
  by (cases "upcoming h") (auto simp: obtained_def kalloc.simps)

lemma obtained_valid: "0 \<notin> set (obtained room h)"
  by (auto simp: obtained_def dest: set_takeWhileD)

lemma length_obtained: "length (obtained room h) \<le> room"
  unfolding obtained_def using length_takeWhile_le [of _ "take room (upcoming h)"] by simp

lemma obtained_all: "0 \<notin> set (upcoming h) \<Longrightarrow> room \<le> length (upcoming h) \<Longrightarrow> length (obtained room h) = room"
  by (subst obtained_def, subst takeWhile_eq_all_conv [THEN iffD2]) (auto dest: in_set_takeD)

text \<open>Allocations an environment will still serve.\<close>

definition stock :: "heap \<Rightarrow> u32 list" where
  "stock h = filter (\<lambda>p. p \<noteq> 0) (upcoming h)"

lemma stock_kalloc:
  "kalloc h = (p, h1) \<Longrightarrow> stock h = (if p = 0 then [] else [p]) @ stock h1 \<and> freed h1 = freed h"
  by (cases "upcoming h") (auto simp: stock_def kalloc.simps)

lemma topup_loop_stop: "maxcount q \<le> count \<Longrightarrow> topup_loop count wp q h = (count, q, h)"
  by (subst topup_loop.simps) simp

lemma topup_loop_fail:
  "count < maxcount q \<Longrightarrow> kalloc h = (0, h1) \<Longrightarrow> topup_loop count wp q h = (count, q\<lparr>wpos := wp\<rparr>, h1)"
  by (subst topup_loop.simps) simp

lemma topup_loop_more:
  "count < maxcount q \<Longrightarrow> kalloc h = (p, h1) \<Longrightarrow> p \<noteq> 0 \<Longrightarrow> topup_loop count wp q h =
     topup_loop (count + 1) (MPS_NEXT_Q_POS wp (maxcount (MPS_SET_Q_ITEM q p)))
       ((MPS_SET_Q_ITEM q p)\<lparr>wpos := MPS_NEXT_Q_POS wp (maxcount (MPS_SET_Q_ITEM q p))\<rparr>) h1"
  by (subst topup_loop.simps) (simp add: Let_def)

lemma topup_loop_spec:
  assumes "ring_inv q" and "wp = wpos q" and "count = ring_len q"
    and "topup_loop count wp q h = (c', q', h')"
  shows "ring_inv q' \<and> maxcount q' = maxcount q \<and> circular_buf q' = circular_buf q
    \<and> ring_list q' = ring_list q @ obtained (maxcount q - ring_len q) h
    \<and> c' = count + length (obtained (maxcount q - ring_len q) h)
    \<and> stock h = obtained (maxcount q - ring_len q) h @ stock h' \<and> freed h' = freed h"
  using assms
proof (induction count wp q h rule: topup_loop.induct)
  case (1 count wp q h)
  show ?case
  proof (cases "ring_len q < maxcount q")
    case False
    then show ?thesis using "1.prems" ring_len_le [of q] by (auto simp: topup_loop_stop)
  next
    case room: True
    obtain p h1 where k: "kalloc h = (p, h1)" by (cases "kalloc h")
    show ?thesis
    proof (cases "p = 0")
      case True
      then show ?thesis
        using "1.prems" room k obtained_none [of h] stock_kalloc [OF k]
        by (auto simp: topup_loop_fail)
    next
      case False
      define q1 where "q1 = MPS_SET_Q_ITEM q p"
      define q2 where "q2 = q1\<lparr>wpos := MPS_NEXT_Q_POS wp (maxcount q1)\<rparr>"
      have q2: "q2 = q\<lparr>slots := (slots q)(wpos q := p), wpos := MPS_NEXT_Q_POS (wpos q) (maxcount q)\<rparr>"
        by (simp add: q2_def q1_def MPS_SET_Q_ITEM_def "1.prems")
      note e = ring_enqueue [OF "1.prems"(1) room q2]
      have run: "topup_loop (count + 1) (MPS_NEXT_Q_POS wp (maxcount q1)) q2 h1 = (c', q', h')"
        using "1.prems" room k False topup_loop_more [OF _ k, of count q wp] by (simp add: q1_def q2_def)
      have m: "maxcount q2 = maxcount q" "circular_buf q2 = circular_buf q" by (simp_all add: q2)
      have suc: "maxcount q - ring_len q = Suc (maxcount q2 - ring_len q2)" using room e(3) m by simp
      have "ring_inv q' \<and> maxcount q' = maxcount q2 \<and> circular_buf q' = circular_buf q2
        \<and> ring_list q' = ring_list q2 @ obtained (maxcount q2 - ring_len q2) h1
        \<and> c' = count + 1 + length (obtained (maxcount q2 - ring_len q2) h1)
        \<and> stock h1 = obtained (maxcount q2 - ring_len q2) h1 @ stock h' \<and> freed h' = freed h1"
      proof (rule "1.IH" [where x = "(p, h1)" and xa = p and y = h1 and xb = q1 and xc = "MPS_NEXT_Q_POS wp (maxcount q1)", folded q2_def])
        show "count < maxcount q" using room "1.prems" by simp
      qed (use k False e run "1.prems" in \<open>simp_all add: q1_def q2_def\<close>)
      then show ?thesis
        using e(2) m k False obtained_Suc [OF k False] stock_kalloc [OF k] by (simp add: suc)
    qed
  qed
qed

lemma topup_q_list_spec:
  assumes "ring_inv q" and "mps_topup_q_list q h = (rc, q', h')"
  shows "ring_inv q'" and "maxcount q' = maxcount q" and "circular_buf q' = circular_buf q"
    and "ring_list q' = ring_list q @ obtained (maxcount q - ring_len q) h"
    and "rc = int (length (obtained (maxcount q - ring_len q) h))"
    and "stock h = obtained (maxcount q - ring_len q) h @ stock h'"
    and "freed h' = freed h"
proof -
  obtain c where l: "topup_loop (ring_len q) (wpos q) q h = (c, q', h')" and rc: "rc = int c - int (ring_len q)"
    using assms by (auto simp: mps_topup_q_list_def queue_count Let_def split: prod.splits)
  note t = topup_loop_spec [OF assms(1) refl refl l]
  show "ring_inv q'" "maxcount q' = maxcount q" "circular_buf q' = circular_buf q" "freed h' = freed h"
    "ring_list q' = ring_list q @ obtained (maxcount q - ring_len q) h"
    "stock h = obtained (maxcount q - ring_len q) h @ stock h'"
    using t by blast+
  show "rc = int (length (obtained (maxcount q - ring_len q) h))" using t rc by simp
qed

section \<open>Releasing\<close>

lemma queue_free_loop_spec:
  assumes "ring_inv q" and "ring_len q \<le> fuel" and "slots q0 = slots q" and "maxcount q0 = maxcount q"
  shows "queue_free_loop fuel q0 (rpos q) (wpos q) fn c h =
    Some (wpos q, c + ring_len q, h\<lparr>freed := freed h @ map (Pair fn) (ring_list q)\<rparr>)"
  using assms
proof (induction fuel arbitrary: q c h)
  case 0
  then have "rpos q = wpos q" by (auto simp: ring_inv_def ring_len_def split: if_splits)
  with 0 show ?case by (simp add: queue_free_loop.simps ring_list_def)
next
  case (Suc fuel)
  show ?case
  proof (cases "rpos q = wpos q")
    case True
    then show ?thesis by (simp add: queue_free_loop.simps ring_list_def ring_len_def)
  next
    case False
    define q1 where "q1 = q\<lparr>rpos := MPS_NEXT_Q_POS (rpos q) (maxcount q)\<rparr>"
    note st = ring_step [OF Suc.prems(1) False q1_def]
    have "queue_free_loop fuel q0 (rpos q1) (wpos q1) fn (c + 1) (kfree_as fn (slots q (rpos q)) h) =
      Some (wpos q1, c + 1 + ring_len q1, (kfree_as fn (slots q (rpos q)) h)\<lparr>freed :=
        freed (kfree_as fn (slots q (rpos q)) h) @ map (Pair fn) (ring_list q1)\<rparr>)"
      by (rule Suc.IH) (use st Suc.prems in \<open>simp_all add: q1_def\<close>)
    then show ?thesis
      using st False Suc.prems
      by (simp add: queue_free_loop.simps [of "Suc fuel"] kfree_as_def) (simp add: q1_def)
  qed
qed

lemma queue_free_spec:
  assumes "ring_inv q" and "circular_buf q \<noteq> 0"
  shows "mps_queue_free (Some q) fcb fn h =
    Some (int (ring_len q), Some (q\<lparr>rpos := wpos q\<rparr>),
      h\<lparr>freed := freed h @ map (Pair fn) (ring_list q) @ (if fcb then [(Kfree, circular_buf q)] else [])\<rparr>)"
  using assms queue_free_loop_spec [OF assms(1) _ refl refl, of "maxcount q + 2" fn 0 h] ring_len_le [of q]
  by (simp add: mps_queue_free_def kfree_as_def)

lemma ring_list_drained [simp]: "ring_list (q\<lparr>rpos := wpos q\<rparr>) = []"
  by (simp add: ring_list_def ring_len_def)

lemma ring_inv_drained: "ring_inv q \<Longrightarrow> ring_inv (q\<lparr>rpos := wpos q\<rparr>)"
  by (simp add: ring_inv_def)

section \<open>Initialisation\<close>

lemma inv_alloc_uncached: "fst (mps_inv_alloc h) \<noteq> 0"
  by (auto simp: mps_inv_alloc_def KSEG1ADDR_def or_eq_0_iff split: prod.splits)

lemma queue_fill_stop: "n \<le> i \<Longrightarrow> queue_fill i n q h = (None, q, h)"
  by (subst queue_fill.simps) simp

lemma queue_fill_fail:
  "i < n \<Longrightarrow> kalloc h = (0, h1) \<Longrightarrow> queue_fill i n q h = (Some i, q\<lparr>slots := (slots q)(i := 0)\<rparr>, h1)"
  by (subst queue_fill.simps) simp

lemma queue_fill_more:
  "i < n \<Longrightarrow> kalloc h = (p, h1) \<Longrightarrow> p \<noteq> 0 \<Longrightarrow>
     queue_fill i n q h = queue_fill (i + 1) n (q\<lparr>slots := (slots q)(i := p)\<rparr>) h1"
  by (subst queue_fill.simps) (simp add: Let_def)

lemma queue_fill_spec:
  assumes "queue_fill i n q h = (r, q', h')" and "i \<le> n"
  shows "maxcount q' = maxcount q \<and> rpos q' = rpos q \<and> wpos q' = wpos q \<and> circular_buf q' = circular_buf q
    \<and> (\<forall>k < i. slots q' k = slots q k) \<and> freed h' = freed h
    \<and> map (slots q') [i..<i + length (obtained (n - i) h)] = obtained (n - i) h
    \<and> r = (if length (obtained (n - i) h) = n - i then None else Some (i + length (obtained (n - i) h)))
    \<and> stock h = obtained (n - i) h @ stock h'"
  using assms
proof (induction i n q h rule: queue_fill.induct)
  case (1 i n q h)
  show ?case
  proof (cases "i < n")
    case False
    then show ?thesis using "1.prems" by (auto simp: queue_fill_stop)
  next
    case less: True
    obtain p h1 where k: "kalloc h = (p, h1)" by (cases "kalloc h")
    define q1 where "q1 = q\<lparr>slots := (slots q)(i := p)\<rparr>"
    show ?thesis
    proof (cases "p = 0")
      case True
      then show ?thesis
        using "1.prems" less k obtained_none [of h] stock_kalloc [OF k]
        by (auto simp: queue_fill_fail)
    next
      case False
      let ?ob = "obtained (n - (i + 1)) h1"
      have suc: "n - i = Suc (n - (i + 1))" using less by simp
      have run: "queue_fill (i + 1) n q1 h1 = (r, q', h')"
        using "1.prems" less k False queue_fill_more [OF _ k, of i n q] by (simp add: q1_def)
      have IH: "maxcount q' = maxcount q1 \<and> rpos q' = rpos q1 \<and> wpos q' = wpos q1 \<and> circular_buf q' = circular_buf q1
        \<and> (\<forall>k < i + 1. slots q' k = slots q1 k) \<and> freed h' = freed h1
        \<and> map (slots q') [i + 1..<i + 1 + length ?ob] = ?ob
        \<and> r = (if length ?ob = n - (i + 1) then None else Some (i + 1 + length ?ob))
        \<and> stock h1 = ?ob @ stock h'"
        by (rule "1.IH" [where x = "(p, h1)" and xa = p and y = h1 and xb = q1])
           (use less k False run in \<open>simp_all add: q1_def\<close>)
      have at: "slots q' i = p" using IH by (simp add: q1_def)
      have "map (slots q') [i..<i + Suc (length ?ob)] = p # ?ob"
        using IH at by (subst upt_conv_Cons) simp_all
      then show ?thesis
        using IH k False obtained_Suc [OF k False] stock_kalloc [OF k] less
        by (simp add: suc q1_def)
    qed
  qed
qed

lemma ring_list_prefix: "rpos q = 0 \<Longrightarrow> wpos q \<le> maxcount q \<Longrightarrow> ring_list q = map (slots q) [0..<wpos q]"
  by (simp add: ring_list_def ring_len_def ring_pos_def)

lemma queue_init_exists:
  "circular_buf q \<noteq> 0 \<Longrightarrow> mps_queue_init junk sz n q h = Some (- EEXIST, q, h)"
  by (simp add: mps_queue_init_def)

text \<open>The two outcomes of filling a fresh queue, from the supply of buffers alone.\<close>

lemma queue_init_fresh:
  assumes "circular_buf q = 0" and "sz \<noteq> 0" and n: "n < 2 ^ 31"
    and cb: "mps_inv_alloc h = (cb, h1)"
  shows "\<exists>q' h'. mps_queue_init junk sz n q h =
      Some (if length (obtained n h1) = n then 0 else - ENOMEM, q', h')
    \<and> ring_inv q' \<and> circular_buf q' = cb \<and> cb \<noteq> 0 \<and> stock h1 = obtained n h1 @ stock h'
    \<and> (if length (obtained n h1) = n
       then ring_list q' = obtained n h1 \<and> maxcount q' = n \<and> freed h' = freed h1
       else ring_list q' = [] \<and>
         freed h' = freed h1 @ map (Pair Dev_kfree_skb_any) (obtained n h1) @ [(Kfree, cb)])"
proof -
  let ?ob = "obtained n h1"
  have cb0: "cb \<noteq> 0" using inv_alloc_uncached [of h] cb by simp
  let ?q1 = "q\<lparr>circular_buf := cb, slots := junk\<rparr>"
  obtain r q2 h2 where f: "queue_fill 0 n (?q1\<lparr>rpos := 0\<rparr>) h1 = (r, q2, h2)"
    by (cases "queue_fill 0 n (?q1\<lparr>rpos := 0\<rparr>) h1")
  note s = queue_fill_spec [OF f, simplified]
  show ?thesis
  proof (cases "length ?ob = n")
    case True
    let ?q = "q2\<lparr>wpos := n, maxcount := n\<rparr>"
    have "ring_list ?q = ?ob" using s True by (subst ring_list_prefix) simp_all
    moreover have "ring_inv ?q" using s n by (simp add: ring_inv_def)
    ultimately show ?thesis
      using assms s f True cb0 by (simp add: mps_queue_init_def Let_def)
  next
    case False
    let ?i = "length ?ob" and ?q = "q2\<lparr>maxcount := length ?ob, wpos := length ?ob\<rparr>"
    have inv: "ring_inv ?q" using s n length_obtained [of n h1] by (simp add: ring_inv_def)
    have list: "ring_list ?q = ?ob" using s by (subst ring_list_prefix) simp_all
    have len: "ring_len ?q = ?i" using list length_ring_list [of ?q] by simp
    have "circular_buf ?q \<noteq> 0" using s cb0 by simp
    note fr = queue_free_spec [OF inv this, of True Dev_kfree_skb_any h2, unfolded list len]
    show ?thesis
      using assms s f False cb0 fr ring_inv_drained [OF inv] ring_list_drained [of ?q]
      by (simp add: mps_queue_init_def Let_def stock_def)
  qed
qed

text \<open>A ring for three buffers, for the concrete instances below.\<close>

definition demo_ring :: mps_buff_head where
  "demo_ring = \<lparr>circular_buf = 0xA0001000, slots = (\<lambda>_. 0), maxcount = 3, rpos = 2, wpos = 2\<rparr>"

lemma demo_ring_facts: "ring_inv demo_ring" "ring_list demo_ring = []" "ring_len demo_ring = 0"
  by (simp_all add: demo_ring_def ring_inv_def ring_list_def ring_len_def)

section \<open>Properties\<close>

text \<open>C9: A buffer ring hands out every buffer that \<open>mps_queue_tail\<close> accepted exactly once and in
  order over any sequence of \<open>mps_queue_tail\<close> and \<open>mps_dequeue_head\<close> calls, wrap-around and
  refusals included, and what it has not handed out it still holds.\<close>

theorem ring_exactly_once:
  assumes "ring_inv q" and "0 \<notin> set (ring_list q)" and "puts_valid (\<lambda>x. x \<noteq> 0) ops"
    and "run_queue ring_put ring_get q ops = (queued, got, q')"
  shows "ring_inv q' \<and> ring_list q @ queued = got @ ring_list q'"
  using ring.run_exactly_once [of q "ring_list q" ops queued got q'] assms by blast

theorem ring_exactly_once_witness:
  "\<exists>q'. run_queue ring_put ring_get demo_ring
      [Put 11, Put 12, Get, Put 13, Put 14, Put 15, Get] = ([11, 12, 13, 14], [11, 12], q')
     \<and> ring_list demo_ring @ [11, 12, 13, 14] = [11, 12] @ ring_list q'"
proof -
  let ?ops = "[Put 11, Put 12, Get, Put 13, Put 14, Put 15, Get]"
  obtain q' where "run_queue ring_put ring_get demo_ring ?ops = ([11, 12, 13, 14], [11, 12], q')"
    by (simp add: ring_put_def ring_get_def mps_queue_tail_def mps_dequeue_head_def queue_macro_defs demo_ring_def)
  with ring_exactly_once [of demo_ring ?ops] demo_ring_facts show ?thesis by fastforce
qed

text \<open>C11: \<open>mps_topup_q_list\<close> appends the buffers the allocator delivers, in order, until the ring is
  full or a request fails; it returns their number, keeps what the ring held, and takes nothing
  from the allocator that it does not queue.\<close>

theorem topup_appends:
  assumes "ring_inv q" and "mps_topup_q_list q h = (rc, q', h')"
  shows "ring_inv q' \<and> ring_list q' = ring_list q @ obtained (maxcount q - ring_len q) h
    \<and> rc = int (ring_len q') - int (ring_len q)
    \<and> stock h = obtained (maxcount q - ring_len q) h @ stock h'"
proof -
  note t = topup_q_list_spec [OF assms]
  have "ring_len q' = ring_len q + length (obtained (maxcount q - ring_len q) h)"
    using arg_cong [OF t(4), of length] by simp
  with t show ?thesis by simp
qed

theorem topup_appends_witness:
  "\<exists>rc q' h'. mps_topup_q_list demo_ring \<lparr>upcoming = [21, 22, 0, 23], freed = []\<rparr> = (rc, q', h')
     \<and> ring_list q' = [21, 22] \<and> rc = 2 \<and> stock h' = [23]"
proof -
  let ?h = "\<lparr>upcoming = [21, 22, 0, 23], freed = []\<rparr>"
  obtain rc q' h' where r: "mps_topup_q_list demo_ring ?h = (rc, q', h')"
    by (cases "mps_topup_q_list demo_ring ?h")
  have ob: "obtained (maxcount demo_ring - ring_len demo_ring) ?h = [21, 22]"
    by (simp add: obtained_def demo_ring_def ring_len_def)
  have t: "ring_list q' = [21, 22]" "rc = int (ring_len q')" "stock ?h = [21, 22] @ stock h'"
    using topup_appends [OF demo_ring_facts(1) r] unfolding ob by (simp_all add: demo_ring_facts)
  moreover have "ring_len q' = 2" using t(1) length_ring_list [of q'] by simp
  ultimately show ?thesis using r by (auto simp: stock_def)
qed

text \<open>Releasing a ring gives every buffer it holds to the release function once, in order,
  returns their number and leaves the ring empty; the loop always ends.\<close>

theorem queue_free_releases_all:
  assumes "ring_inv q" and "circular_buf q \<noteq> 0"
  shows "\<exists>q'. mps_queue_free (Some q) False fn h =
      Some (int (ring_len q), Some q', h\<lparr>freed := freed h @ map (Pair fn) (ring_list q)\<rparr>)
    \<and> ring_inv q' \<and> ring_list q' = [] \<and> maxcount q' = maxcount q"
  using queue_free_spec [OF assms, of False fn h] ring_inv_drained [OF assms(1)] by simp

theorem queue_free_releases_all_witness:
  "\<exists>q'. mps_queue_free (Some (demo_ring\<lparr>slots := of_nat, wpos := 1\<rparr>)) False Dev_kfree_skb_any
       \<lparr>upcoming = [], freed = []\<rparr> =
     Some (3, Some q', \<lparr>upcoming = [], freed =
       [(Dev_kfree_skb_any, 2), (Dev_kfree_skb_any, 3), (Dev_kfree_skb_any, 0)]\<rparr>) \<and> ring_list q' = []"
proof -
  let ?q = "demo_ring\<lparr>slots := of_nat, wpos := 1\<rparr>"
  have f: "ring_inv ?q" "circular_buf ?q \<noteq> 0" "ring_len ?q = 3" "ring_list ?q = [2, 3, 0]"
    by (simp_all add: demo_ring_def ring_inv_def ring_len_def ring_list_def ring_pos_def numeral_3_eq_3 [symmetric] upt_rec)
  from queue_free_releases_all [OF f(1,2), of Dev_kfree_skb_any "\<lparr>upcoming = [], freed = []\<rparr>"]
  show ?thesis unfolding f(3,4) by auto
qed

text \<open>Filling a fresh queue of \<open>n\<close> entries either succeeds, with exactly the first \<open>n\<close> buffers
  the allocator delivers, or fails with \<open>-ENOMEM\<close> and gives back every buffer it had taken and the
  slot array; but the queue head keeps the address of the released array, so that every later
  initialisation is refused with \<open>-EEXIST\<close>.\<close>

theorem queue_init_outcome:
  assumes "circular_buf q = 0" and "sz \<noteq> 0" and "n < 2 ^ 31" and "mps_inv_alloc h = (cb, h1)"
  shows "\<exists>rc q' h'. mps_queue_init junk sz n q h = Some (rc, q', h') \<and> ring_inv q' \<and>
    (if length (obtained n h1) = n
     then rc = 0 \<and> ring_list q' = obtained n h1 \<and> freed h' = freed h1
     else rc = - ENOMEM \<and> ring_list q' = []
       \<and> freed h' = freed h1 @ map (Pair Dev_kfree_skb_any) (obtained n h1) @ [(Kfree, cb)]
       \<and> mps_queue_init junk' sz' n' q' h'' = Some (- EEXIST, q', h''))"
proof -
  from queue_init_fresh [OF assms, of junk] obtain q' h' where r:
    "mps_queue_init junk sz n q h = Some (if length (obtained n h1) = n then 0 else - ENOMEM, q', h')"
    "ring_inv q'" "circular_buf q' \<noteq> 0"
    "if length (obtained n h1) = n
     then ring_list q' = obtained n h1 \<and> maxcount q' = n \<and> freed h' = freed h1
     else ring_list q' = [] \<and>
       freed h' = freed h1 @ map (Pair Dev_kfree_skb_any) (obtained n h1) @ [(Kfree, cb)]"
    by auto
  show ?thesis
    by (rule exI [of _ "if length (obtained n h1) = n then 0 else - ENOMEM"], rule exI [of _ q'], rule exI [of _ h'])
       (use r queue_init_exists [OF r(3)] in \<open>simp split: if_splits\<close>)
qed

theorem queue_init_outcome_witness:
  "\<exists>q' h'. mps_queue_init (\<lambda>_. 0) 1600 3 (demo_ring\<lparr>circular_buf := 0\<rparr>)
      \<lparr>upcoming = [0x1000, 0x2000, 0x3000, 0], freed = []\<rparr> = Some (- ENOMEM, q', h')
    \<and> freed h' = [(Dev_kfree_skb_any, 0x2000), (Dev_kfree_skb_any, 0x3000), (Kfree, 0xA0001000)]
    \<and> mps_queue_init (\<lambda>_. 0) 1600 3 q' \<lparr>upcoming = [0x1000], freed = []\<rparr> =
        Some (- EEXIST, q', \<lparr>upcoming = [0x1000], freed = []\<rparr>)"
proof -
  let ?h = "\<lparr>upcoming = [0x1000, 0x2000, 0x3000, 0], freed = []\<rparr>"
  let ?h1 = "\<lparr>upcoming = [0x2000, 0x3000, 0], freed = []\<rparr>"
  have a: "mps_inv_alloc ?h = (0xA0001000, ?h1)"
    by (simp add: mps_inv_alloc_def kalloc.simps KSEG1ADDR_def PHYSADDR_def)
  have ob: "obtained 3 ?h1 = [0x2000, 0x3000]" by (simp add: obtained_def)
  from queue_init_outcome [OF _ _ _ a, of "demo_ring\<lparr>circular_buf := 0\<rparr>" 1600 3 "\<lambda>_. 0"
      "\<lambda>_. 0" 1600 3 "\<lparr>upcoming = [0x1000], freed = []\<rparr>"]
  show ?thesis unfolding ob by auto
qed

end
