(* ===== verification/Mps_Pool.thy ===== *)
theory Mps_Pool
  imports Mps_Ring "HOL-Library.Multiset"
begin

text \<open>
  The MPS buffer pools (\<open>mps_tpe_buffer.c\<close>): CPU0 fills the allocation rings of each service's pool
  with socket buffers and releases what CPU1 put on the free rings; CPU1 takes buffers from the
  allocation ring and returns them on a free ring, all in memory that both CPUs share.  The state
  is the array of pools with the file's static counters and the kernel's allocators.  A service
  sequence number is a byte.  A result is \<open>Inl\<close> when the code would dereference \<open>NULL\<close>, index
  an array outside its bounds or never return.
\<close>

section \<open>State\<close>

datatype fault = Null_deref | Out_of_bounds | No_return

record mps_bufsize_entry =
  alloc_q :: "mps_buff_head option"
  free_q :: "mps_buff_head option"
  bufsize :: nat

record mps_buff_pool_head =
  sizes_count :: nat
  free_hit_count :: nat
  alloc_hit_count :: nat
  buff_array :: "mps_bufsize_entry list"
  default_free_list :: "mps_buff_head option"
  malloc_buf_alloc_list :: "mps_buff_head option"
  malloc_buf_free_list :: "mps_buff_head option"
  malloc_buf_size :: nat
  tot_free_count :: nat

text \<open>\<open>mps_buff_pool_array\<close> is a pointer that CPU1 learns from CPU0; before that it is \<open>NULL\<close>.\<close>

record mps_pools =
  mps_buff_pool_array :: "(u8 \<Rightarrow> mps_buff_pool_head option) option"
  fast_allocs :: nat
  fast_frees :: nat
  fast_mallocs :: nat
  fast_malloc_frees :: nat
  mps_list_book_keep_x :: int
  timer_started :: bool
  kernel :: heap

definition MPS_CPU_0_ID :: nat where "MPS_CPU_0_ID = 0"
definition MPS_CPU_1_ID :: nat where "MPS_CPU_1_ID = 1"

definition MPS_MAX_SELECTORS :: nat where "MPS_MAX_SELECTORS = 256"

definition MPS_BOOK_KEEPING_THRESH :: nat where "MPS_BOOK_KEEPING_THRESH = 5"

definition CPU1_RAM_PHYADDR_BEGIN :: u32 where "CPU1_RAM_PHYADDR_BEGIN = 0x03400000"

definition MPS_GET_BUF_POOL :: "mps_pools \<Rightarrow> u8 \<Rightarrow> mps_buff_pool_head option" where
  "MPS_GET_BUF_POOL s seq = (case mps_buff_pool_array s of None \<Rightarrow> None | Some a \<Rightarrow> a seq)"

text \<open>The writes through the pool pointer.\<close>

definition set_pool :: "mps_pools \<Rightarrow> u8 \<Rightarrow> mps_buff_pool_head \<Rightarrow> mps_pools" where
  "set_pool s seq pool = s\<lparr>mps_buff_pool_array := map_option (\<lambda>a. a(seq := Some pool)) (mps_buff_pool_array s)\<rparr>"

section \<open>The book-keeping lock\<close>

definition atomic_dec_and_test :: "int \<Rightarrow> bool \<times> int" where
  "atomic_dec_and_test x = (x - 1 = 0, x - 1)"

definition acquire_lock_nb :: "int \<Rightarrow> nat \<times> int" where
  "acquire_lock_nb lock = (case atomic_dec_and_test lock of
     (zero, lock1) \<Rightarrow> if zero then (1, lock1) else (0, lock1 + 1))"

definition release_lock :: "int \<Rightarrow> int" where
  "release_lock lock = lock + 1"

section \<open>Initialisation on CPU0\<close>

definition ifx_mps_buff_pool_array_get :: "mps_pools \<Rightarrow> (u8 \<Rightarrow> mps_buff_pool_head option) option" where
  "ifx_mps_buff_pool_array_get s = mps_buff_pool_array s"

definition empty_entry :: mps_bufsize_entry where
  "empty_entry = \<lparr>alloc_q = None, free_q = None, bufsize = 0\<rparr>"

definition zero_head :: mps_buff_head where
  "zero_head = \<lparr>circular_buf = 0, slots = (\<lambda>_. 0), maxcount = 0, rpos = 0, wpos = 0\<rparr>"

text \<open>The build for CPU0.  Four allocations: the pool, the head of its default free list, the
  slots of that list and the array of size entries.\<close>

definition ifx_mps_buff_pool_init ::
  "(nat \<Rightarrow> u32) \<Rightarrow> nat \<Rightarrow> u8 \<Rightarrow> nat \<Rightarrow> nat \<Rightarrow> mps_pools \<Rightarrow> fault + s32 \<times> mps_pools" where
  "ifx_mps_buff_pool_init junk cpu_id seq sizes def_freeq_len s =
     (if cpu_id \<noteq> MPS_CPU_0_ID then Inr (- EINVAL, s)
      else case mps_buff_pool_array s of
        None \<Rightarrow> Inl Null_deref
      | Some a \<Rightarrow>
          if a seq \<noteq> None then Inr (- EEXIST, s)
          else
            let (_, h1) = mps_inv_alloc (kernel s); (_, h2) = mps_inv_alloc h1 in
            case mps_queue_init junk 0 def_freeq_len zero_head h2 of
              None \<Rightarrow> Inl No_return
            | Some (_, dfl, h3) \<Rightarrow>
                let (_, h4) = mps_inv_alloc h3;
                    pool = \<lparr>sizes_count = sizes, free_hit_count = 0, alloc_hit_count = 0,
                      buff_array = replicate sizes empty_entry, default_free_list = Some dfl,
                      malloc_buf_alloc_list = None, malloc_buf_free_list = None,
                      malloc_buf_size = 0, tot_free_count = 0\<rparr>
                in Inr (0, (set_pool s seq pool)\<lparr>timer_started := True, kernel := h4\<rparr>))"

definition mps_get_buf_size_entry ::
  "mps_buff_pool_head \<Rightarrow> nat \<Rightarrow> fault + mps_bufsize_entry \<times> mps_buff_pool_head" where
  "mps_get_buf_size_entry pool sz = (case buff_array pool of
     [] \<Rightarrow> Inl Out_of_bounds
   | e # es \<Rightarrow>
       let e1 = (if sz \<noteq> 0 \<and> bufsize e = 0 then e\<lparr>bufsize := sz\<rparr> else e)
       in Inr (e1, pool\<lparr>buff_array := e1 # es\<rparr>))"

definition set_entry0 :: "mps_buff_pool_head \<Rightarrow> mps_bufsize_entry \<Rightarrow> mps_buff_pool_head" where
  "set_entry0 pool e = pool\<lparr>buff_array := e # tl (buff_array pool)\<rparr>"

definition ifx_mps_queue_init ::
  "(nat \<Rightarrow> u32) \<Rightarrow> nat \<Rightarrow> u8 \<Rightarrow> nat \<Rightarrow> nat \<Rightarrow> bool \<Rightarrow> mps_pools \<Rightarrow> fault + s32 \<times> mps_pools" where
  "ifx_mps_queue_init junk cpu_id seq sz num_entries isfreeq s =
     (if cpu_id \<noteq> MPS_CPU_0_ID then Inr (- EINVAL, s)
      else case MPS_GET_BUF_POOL s seq of
        None \<Rightarrow> Inr (- ENOMEM, s)
      | Some pool0 \<Rightarrow>
        (case mps_get_buf_size_entry pool0 sz of
           Inl f \<Rightarrow> Inl f
         | Inr (e, pool) \<Rightarrow>
           let qp = (if isfreeq then free_q e else alloc_q e);
               (q, h1) = (case qp of None \<Rightarrow> (zero_head, snd (mps_inv_alloc (kernel s)))
                                   | Some q0 \<Rightarrow> (q0, kernel s))
           in case mps_queue_init junk sz num_entries q h1 of
                None \<Rightarrow> Inl No_return
              | Some (rc, q', h2) \<Rightarrow>
                  let e' = (if isfreeq then e\<lparr>free_q := Some q'\<rparr> else e\<lparr>alloc_q := Some q'\<rparr>)
                  in Inr (rc, (set_pool s seq (set_entry0 pool e'))\<lparr>kernel := h2\<rparr>)))"

text \<open>The results of the two queue initialisations are ignored.\<close>

definition ifx_mps_malloc_buff_pool_init ::
  "(nat \<Rightarrow> u32) \<Rightarrow> nat \<Rightarrow> u8 \<Rightarrow> nat \<Rightarrow> nat \<Rightarrow> nat \<Rightarrow> mps_pools \<Rightarrow> fault + s32 \<times> mps_pools" where
  "ifx_mps_malloc_buff_pool_init junk cpu_id seq alloc_size num_alloc_nodes num_free_nodes s =
     (if cpu_id \<noteq> MPS_CPU_0_ID then Inr (- EINVAL, s)
      else case MPS_GET_BUF_POOL s seq of
        None \<Rightarrow> Inr (- ENOMEM, s)
      | Some pool \<Rightarrow>
        (case malloc_buf_free_list pool of
           None \<Rightarrow> Inl Null_deref
         | Some fq \<Rightarrow>
           (case mps_queue_init junk 0 num_free_nodes fq (kernel s) of
              None \<Rightarrow> Inl No_return
            | Some (_, fq', h1) \<Rightarrow>
              (case malloc_buf_alloc_list pool of
                 None \<Rightarrow> Inl Null_deref
               | Some aq \<Rightarrow>
                 (case mps_queue_init junk alloc_size num_alloc_nodes aq h1 of
                    None \<Rightarrow> Inl No_return
                  | Some (_, aq', h2) \<Rightarrow>
                      Inr (0, (set_pool s seq (pool\<lparr>malloc_buf_free_list := Some fq',
                            malloc_buf_alloc_list := Some aq'\<rparr>))\<lparr>kernel := h2\<rparr>))))))"

definition mps_buff_pool_free :: "u8 \<Rightarrow> mps_pools \<Rightarrow> s32" where
  "mps_buff_pool_free seq s = (if MPS_GET_BUF_POOL s seq \<noteq> None then - EEXIST else 0)"

section \<open>Allocation and release on CPU1\<close>

definition ifx_mps_is_mps_buffer :: "u32 \<Rightarrow> nat" where
  "ifx_mps_is_mps_buffer buf = (if PHYSADDR buf < CPU1_RAM_PHYADDR_BEGIN then 1 else 0)"

definition ifx_mps_fast_alloc_mps_buf ::
  "nat \<Rightarrow> nat \<Rightarrow> u8 \<Rightarrow> mps_pools \<Rightarrow> fault + u32 \<times> mps_pools" where
  "ifx_mps_fast_alloc_mps_buf cpu_id sz seq s =
     (if cpu_id = MPS_CPU_0_ID then Inr (0, s)
      else case MPS_GET_BUF_POOL s seq of
        None \<Rightarrow> Inr (0, s)
      | Some pool0 \<Rightarrow>
        (case mps_get_buf_size_entry pool0 sz of
           Inl f \<Rightarrow> Inl f
         | Inr (e, pool) \<Rightarrow>
           let (mps_buf, q') = mps_dequeue_head (alloc_q e);
               s1 = set_pool s seq (set_entry0 pool (e\<lparr>alloc_q := q'\<rparr>))
           in if mps_buf = 0 then Inr (0, s1)
              else Inr (mps_buf, s1\<lparr>fast_allocs := u32_add (fast_allocs s1) 1\<rparr>)))"

text \<open>\<open>truesize\<close> is the size field that the buffer's header holds.\<close>

definition ifx_mps_fast_free_mps_buf ::
  "nat \<Rightarrow> (u32 \<Rightarrow> nat) \<Rightarrow> u32 \<Rightarrow> u8 \<Rightarrow> mps_pools \<Rightarrow> fault + s32 \<times> mps_pools" where
  "ifx_mps_fast_free_mps_buf cpu_id truesize buf seq s =
     (if buf = 0 then Inr (- EINVAL, s)
      else if cpu_id = MPS_CPU_0_ID then Inr (- 1, s)
      else if ifx_mps_is_mps_buffer buf = 0 then
        Inr (0, s\<lparr>kernel := kfree_as Dev_kfree_skb_any buf (kernel s)\<rparr>)
      else case MPS_GET_BUF_POOL s seq of
        None \<Rightarrow> Inr (- ENOMEM, s)
      | Some pool0 \<Rightarrow>
        (case mps_get_buf_size_entry pool0 (truesize buf) of
           Inl f \<Rightarrow> Inl f
         | Inr (e, pool) \<Rightarrow>
           let (rc, pool') =
             (if free_q e \<noteq> None
              then (case mps_queue_tail buf (free_q e) of
                      (rc, q') \<Rightarrow> (rc, set_entry0 pool (e\<lparr>free_q := q'\<rparr>)))
              else (case mps_queue_tail buf (default_free_list pool) of
                      (rc, q') \<Rightarrow> (rc, pool\<lparr>default_free_list := q'\<rparr>)))
           in let s1 = set_pool s seq pool'
              in if rc < 0 then Inr (- 1, s1)
                 else Inr (0, s1\<lparr>fast_frees := u32_add (fast_frees s1) 1\<rparr>)))"

definition ifx_mps_fast_alloc_malloc_buf :: "nat \<Rightarrow> u8 \<Rightarrow> mps_pools \<Rightarrow> u32 \<times> mps_pools" where
  "ifx_mps_fast_alloc_malloc_buf cpu_id seq s =
     (if cpu_id = MPS_CPU_0_ID then (0, s)
      else case MPS_GET_BUF_POOL s seq of
        None \<Rightarrow> (0, s)
      | Some pool \<Rightarrow>
          let (mps_buf, q') = mps_dequeue_head (malloc_buf_alloc_list pool);
              s1 = set_pool s seq (pool\<lparr>malloc_buf_alloc_list := q'\<rparr>)
          in (mps_buf, s1\<lparr>fast_mallocs := u32_add (fast_mallocs s1) 1\<rparr>))"

definition ifx_mps_fast_free_malloc_buf :: "nat \<Rightarrow> u32 \<Rightarrow> u8 \<Rightarrow> mps_pools \<Rightarrow> s32 \<times> mps_pools" where
  "ifx_mps_fast_free_malloc_buf cpu_id buf seq s =
     (if buf = 0 then (- EINVAL, s)
      else if cpu_id = MPS_CPU_0_ID then (- 1, s)
      else case MPS_GET_BUF_POOL s seq of
        None \<Rightarrow> (- ENOMEM, s)
      | Some pool \<Rightarrow>
          let (rc, q') = mps_queue_tail buf (malloc_buf_free_list pool);
              s1 = set_pool s seq (pool\<lparr>malloc_buf_free_list := q'\<rparr>)
          in if rc < 0 then (- 1, s1)
             else (0, s1\<lparr>fast_malloc_frees := u32_add (fast_malloc_frees s1) 1\<rparr>))"

section \<open>Book-keeping on CPU0\<close>

definition ifx_cpu0_release_q_list ::
  "mps_buff_head option \<Rightarrow> free_fn \<Rightarrow> heap \<Rightarrow> fault + s32 \<times> mps_buff_head option \<times> heap" where
  "ifx_cpu0_release_q_list qp fn h = (case qp of
     None \<Rightarrow> Inr (0, None, h)
   | Some q \<Rightarrow> (case mps_queue_free (Some q) False fn h of
       None \<Rightarrow> Inl No_return | Some r \<Rightarrow> Inr r))"

definition add_count :: "nat \<Rightarrow> s32 \<Rightarrow> nat" where
  "add_count tot c = (if c > 0 then u32_add tot (nat c) else tot)"

text \<open>The loop over the size entries, for the entries from the current index on and the number
  still to visit.\<close>

fun release_entries ::
  "nat \<Rightarrow> mps_bufsize_entry list \<Rightarrow> nat \<Rightarrow> heap \<Rightarrow> fault + nat \<times> mps_bufsize_entry list \<times> heap" where
  "release_entries 0 es tot h = Inr (tot, es, h)"
| "release_entries (Suc n) [] tot h = Inl Out_of_bounds"
| "release_entries (Suc n) (e # es) tot h =
     (case ifx_cpu0_release_q_list (free_q e) Dev_kfree_skb_any h of
        Inl f \<Rightarrow> Inl f
      | Inr (c, q', h1) \<Rightarrow>
        (case release_entries n es (add_count tot c) h1 of
           Inl f \<Rightarrow> Inl f
         | Inr (tot', es', h2) \<Rightarrow> Inr (tot', e\<lparr>free_q := q'\<rparr> # es', h2)))"

definition release_pool :: "mps_buff_pool_head \<Rightarrow> heap \<Rightarrow> fault + nat \<times> mps_buff_pool_head \<times> heap" where
  "release_pool pool h =
     (case release_entries (sizes_count pool) (buff_array pool) 0 h of
        Inl f \<Rightarrow> Inl f
      | Inr (tot, es, h1) \<Rightarrow>
        (case ifx_cpu0_release_q_list (default_free_list pool) Dev_kfree_skb_any h1 of
           Inl f \<Rightarrow> Inl f
         | Inr (c, dq, h2) \<Rightarrow>
           let tot_count = add_count tot c in
           (case ifx_cpu0_release_q_list (malloc_buf_free_list pool) Kfree h2 of
              Inl f \<Rightarrow> Inl f
            | Inr (_, mq, h3) \<Rightarrow>
                Inr (tot_count, pool\<lparr>buff_array := es, default_free_list := dq,
                  tot_free_count := u32_add (tot_free_count pool) tot_count,
                  malloc_buf_free_list := mq\<rparr>, h3))))"

definition ifx_cpu0_release_q_lists :: "nat \<Rightarrow> u8 \<Rightarrow> mps_pools \<Rightarrow> fault + s32 \<times> mps_pools" where
  "ifx_cpu0_release_q_lists cpu_id seq s =
     (if cpu_id \<noteq> MPS_CPU_0_ID then Inr (- 1, s)
      else case MPS_GET_BUF_POOL s seq of
        None \<Rightarrow> Inr (- ENOMEM, s)
      | Some pool0 \<Rightarrow>
          let pool = pool0\<lparr>free_hit_count := u32_add (free_hit_count pool0) 1\<rparr> in
          if free_hit_count pool > MPS_BOOK_KEEPING_THRESH then
            let pool1 = pool\<lparr>free_hit_count := 0\<rparr>;
                (zero, x1) = atomic_dec_and_test (mps_list_book_keep_x s)
            in if \<not> zero then Inr (0, (set_pool s seq pool1)\<lparr>mps_list_book_keep_x := x1 + 1\<rparr>)
               else (case release_pool pool1 (kernel s) of
                       Inl f \<Rightarrow> Inl f
                     | Inr (tot, pool2, h') \<Rightarrow>
                         Inr (int tot, (set_pool s seq pool2)\<lparr>mps_list_book_keep_x := x1 + 1, kernel := h'\<rparr>))
          else Inr (0, set_pool s seq pool))"

definition ifx_cpu0_topup_q_list ::
  "mps_bufsize_entry \<Rightarrow> heap \<Rightarrow> fault + s32 \<times> mps_bufsize_entry \<times> heap" where
  "ifx_cpu0_topup_q_list e h = (case alloc_q e of
     None \<Rightarrow> Inl Null_deref
   | Some q \<Rightarrow>
       if maxcount q = 0 then Inr (0, e, h)
       else let (c, q', h') = mps_topup_q_list q h in Inr (c, e\<lparr>alloc_q := Some q'\<rparr>, h'))"

fun topup_entries ::
  "nat \<Rightarrow> mps_bufsize_entry list \<Rightarrow> s32 \<Rightarrow> heap \<Rightarrow> fault + s32 \<times> mps_bufsize_entry list \<times> heap" where
  "topup_entries 0 es tot h = Inr (tot, es, h)"
| "topup_entries (Suc n) [] tot h = Inl Out_of_bounds"
| "topup_entries (Suc n) (e # es) tot h =
     (case ifx_cpu0_topup_q_list e h of
        Inl f \<Rightarrow> Inl f
      | Inr (c, e', h1) \<Rightarrow>
        (case topup_entries n es (if c > 0 then tot + c else tot) h1 of
           Inl f \<Rightarrow> Inl f
         | Inr (tot', es', h2) \<Rightarrow> Inr (tot', e' # es', h2)))"

definition ifx_cpu0_topup_q_lists :: "nat \<Rightarrow> u8 \<Rightarrow> mps_pools \<Rightarrow> fault + s32 \<times> mps_pools" where
  "ifx_cpu0_topup_q_lists cpu_id seq s =
     (if cpu_id \<noteq> MPS_CPU_0_ID then Inr (- 1, s)
      else case MPS_GET_BUF_POOL s seq of
        None \<Rightarrow> Inr (- ENOMEM, s)
      | Some pool0 \<Rightarrow>
          let pool = pool0\<lparr>alloc_hit_count := u32_add (alloc_hit_count pool0) 1\<rparr> in
          if alloc_hit_count pool > MPS_BOOK_KEEPING_THRESH then
            let pool1 = pool\<lparr>alloc_hit_count := 0\<rparr>;
                (zero, x1) = atomic_dec_and_test (mps_list_book_keep_x s)
            in if \<not> zero then Inr (0, (set_pool s seq pool1)\<lparr>mps_list_book_keep_x := x1 + 1\<rparr>)
               else (case topup_entries (sizes_count pool1) (buff_array pool1) 0 (kernel s) of
                       Inl f \<Rightarrow> Inl f
                     | Inr (tot, es, h') \<Rightarrow>
                         Inr (tot, (set_pool s seq (pool1\<lparr>buff_array := es\<rparr>))
                           \<lparr>mps_list_book_keep_x := x1 + 1, kernel := h'\<rparr>))
          else Inr (0, set_pool s seq pool))"

text \<open>The timer of CPU0 visits every pool.\<close>

fun timer_loop :: "nat list \<Rightarrow> mps_pools \<Rightarrow> fault + mps_pools" where
  "timer_loop [] s = Inr s"
| "timer_loop (i # is) s =
     (if MPS_GET_BUF_POOL s (of_nat i) = None then timer_loop is s
      else case ifx_cpu0_topup_q_lists MPS_CPU_0_ID (of_nat i) s of
        Inl f \<Rightarrow> Inl f
      | Inr (_, s1) \<Rightarrow>
        (case ifx_cpu0_release_q_lists MPS_CPU_0_ID (of_nat i) s1 of
           Inl f \<Rightarrow> Inl f
         | Inr (_, s2) \<Rightarrow> timer_loop is s2))"

definition mps_timer_handler :: "mps_pools \<Rightarrow> fault + mps_pools" where
  "mps_timer_handler s = timer_loop [0..<MPS_MAX_SELECTORS] s"

definition mps_set_mps_buffer_identity :: "u32 \<Rightarrow> s32 \<Rightarrow> s32" where
  "mps_set_mps_buffer_identity buf reset = 0"

definition mps_identity_destructor :: "nat \<Rightarrow> u32 \<Rightarrow> s32" where
  "mps_identity_destructor cpu_id buf = int cpu_id"

definition ifx_mps_set_mps_buffer_identity :: "nat \<Rightarrow> u32 \<Rightarrow> s32 \<Rightarrow> s32" where
  "ifx_mps_set_mps_buffer_identity cpu_id buf reset = (if cpu_id = MPS_CPU_0_ID then - 1 else 0)"

section \<open>Who owns a buffer\<close>

definition ring_ok :: "mps_buff_head \<Rightarrow> bool" where
  "ring_ok q \<longleftrightarrow> ring_inv q \<and> circular_buf q \<noteq> 0 \<and> 0 \<notin> set (ring_list q)"

definition opt_ok :: "mps_buff_head option \<Rightarrow> bool" where
  "opt_ok qp \<longleftrightarrow> (case qp of None \<Rightarrow> True | Some q \<Rightarrow> ring_ok q)"

definition opt_bufs :: "mps_buff_head option \<Rightarrow> u32 list" where
  "opt_bufs qp = (case qp of None \<Rightarrow> [] | Some q \<Rightarrow> ring_list q)"

definition entry_ok :: "mps_bufsize_entry \<Rightarrow> bool" where
  "entry_ok e \<longleftrightarrow> alloc_q e \<noteq> None \<and> opt_ok (alloc_q e) \<and> opt_ok (free_q e)"

definition entry_bufs :: "mps_bufsize_entry \<Rightarrow> u32 multiset" where
  "entry_bufs e = mset (opt_bufs (alloc_q e)) + mset (opt_bufs (free_q e))"

definition pool_ok :: "mps_buff_pool_head \<Rightarrow> bool" where
  "pool_ok p \<longleftrightarrow> buff_array p \<noteq> [] \<and> length (buff_array p) = sizes_count p
     \<and> list_all entry_ok (buff_array p) \<and> opt_ok (default_free_list p)
     \<and> opt_ok (malloc_buf_alloc_list p) \<and> opt_ok (malloc_buf_free_list p)"

definition pool_bufs :: "mps_buff_pool_head \<Rightarrow> u32 multiset" where
  "pool_bufs p = sum_list (map entry_bufs (buff_array p)) + mset (opt_bufs (default_free_list p))
     + mset (opt_bufs (malloc_buf_alloc_list p)) + mset (opt_bufs (malloc_buf_free_list p))"

definition heap_bufs :: "heap \<Rightarrow> u32 multiset" where
  "heap_bufs h = mset (stock h) + mset (map snd (freed h))"

text \<open>Every pool is initialised; all the buffers the system knows of: still with the allocator,
  given back to it, or in one of the rings.\<close>

definition pools_ok :: "mps_pools \<Rightarrow> bool" where
  "pools_ok s \<longleftrightarrow> (\<forall>i p. MPS_GET_BUF_POOL s i = Some p \<longrightarrow> pool_ok p)"

definition owned :: "mps_pools \<Rightarrow> u32 multiset" where
  "owned s = heap_bufs (kernel s) +
     (\<Sum>i\<in>UNIV. case MPS_GET_BUF_POOL s i of None \<Rightarrow> {#} | Some p \<Rightarrow> pool_bufs p)"

lemmas opt_defs = opt_ok_def opt_bufs_def

lemma opt_dequeue:
  assumes "opt_ok qp" and "mps_dequeue_head qp = (p, q')"
  shows "opt_ok q' \<and> mset (opt_bufs q') + (if p = 0 then {#} else {#p#}) = mset (opt_bufs qp)
    \<and> (q' = None \<longleftrightarrow> qp = None)"
proof (cases qp)
  case None
  with assms show ?thesis by (auto simp: mps_dequeue_head_def MPS_IS_Q_EMPTY_def opt_defs)
next
  case (Some q)
  with assms have inv: "ring_inv q" "circular_buf q \<noteq> 0" "0 \<notin> set (ring_list q)"
    by (auto simp: opt_ok_def ring_ok_def)
  show ?thesis
  proof (cases "ring_list q")
    case Nil
    with dequeue_head_empty inv Some assms show ?thesis by auto
  next
    case (Cons x xs)
    from dequeue_head_Cons [OF inv(1) Cons] obtain q2 where
      q2: "mps_dequeue_head (Some q) = (x, Some q2)" "ring_inv q2" "ring_list q2 = xs" by metis
    then have "circular_buf q2 = circular_buf q"
      by (auto simp: mps_dequeue_head_def Let_def split: if_splits)
    with q2 assms Some inv Cons show ?thesis by (auto simp: opt_defs ring_ok_def)
  qed
qed

lemma opt_enqueue:
  assumes "opt_ok qp" and "x \<noteq> 0" and "mps_queue_tail x qp = (rc, q')"
  shows "opt_ok q' \<and> mset (opt_bufs q') = mset (opt_bufs qp) + (if rc < 0 then {#} else {#x#})
    \<and> (q' = None \<longleftrightarrow> qp = None)"
proof (cases qp)
  case None
  with assms show ?thesis by (auto simp: mps_queue_tail_def opt_defs)
next
  case (Some q)
  with assms have inv: "ring_inv q" "circular_buf q \<noteq> 0" "0 \<notin> set (ring_list q)"
    by (auto simp: opt_ok_def ring_ok_def)
  show ?thesis
  proof (cases "ring_len q = maxcount q")
    case True
    with queue_tail_full [OF inv(1)] Some assms show ?thesis by auto
  next
    case False
    from queue_tail_room [OF inv(1) False, of x] obtain q2 where
      q2: "mps_queue_tail x (Some q) = (0, Some q2)" "ring_inv q2" "ring_list q2 = ring_list q @ [x]" by metis
    then have "circular_buf q2 = circular_buf q"
      by (auto simp: mps_queue_tail_def MPS_SET_Q_ITEM_def Let_def split: if_splits)
    with q2 assms Some inv show ?thesis by (auto simp: opt_defs ring_ok_def)
  qed
qed

lemma opt_release:
  assumes "opt_ok qp"
  shows "\<exists>q'. ifx_cpu0_release_q_list qp fn h =
      Inr (int (length (opt_bufs qp)), q', h\<lparr>freed := freed h @ map (Pair fn) (opt_bufs qp)\<rparr>)
    \<and> opt_ok q' \<and> opt_bufs q' = [] \<and> (q' = None \<longleftrightarrow> qp = None)"
proof (cases qp)
  case None
  then show ?thesis by (simp add: ifx_cpu0_release_q_list_def opt_defs)
next
  case (Some q)
  with assms have inv: "ring_inv q" "circular_buf q \<noteq> 0" by (auto simp: opt_ok_def ring_ok_def)
  show ?thesis
    using queue_free_spec [OF inv, of False fn h] ring_inv_drained [OF inv(1)] inv Some
    by (simp add: ifx_cpu0_release_q_list_def opt_defs ring_ok_def)
qed

lemma entry_topup:
  assumes "entry_ok e"
  shows "\<exists>c e' h'. ifx_cpu0_topup_q_list e h = Inr (c, e', h') \<and> entry_ok e'
    \<and> heap_bufs h' + entry_bufs e' = heap_bufs h + entry_bufs e"
proof -
  from assms obtain q where q: "alloc_q e = Some q" "ring_inv q" "circular_buf q \<noteq> 0" "0 \<notin> set (ring_list q)"
    by (auto simp: entry_ok_def opt_ok_def ring_ok_def)
  obtain c q' h' where t: "mps_topup_q_list q h = (c, q', h')" by (cases "mps_topup_q_list q h")
  show ?thesis
  proof (cases "maxcount q = 0")
    case True
    with q assms show ?thesis by (simp add: ifx_cpu0_topup_q_list_def)
  next
    case False
    with topup_q_list_spec [OF q(2) t] q assms t obtained_valid show ?thesis
      by (simp add: ifx_cpu0_topup_q_list_def entry_ok_def entry_bufs_def heap_bufs_def opt_defs ring_ok_def)
  qed
qed

lemma chain_bags:
  "h2 + s' = h1 + s \<Longrightarrow> h1 + e' = h + e \<Longrightarrow> h2 + (e' + s') = h + (e + s)" for h :: "'a multiset"
  by (simp add: multiset_eq_iff) (metis add.assoc add.commute)

lemma topup_entries_ok:
  assumes "list_all entry_ok es" and "n \<le> length es"
  shows "\<exists>t es' h'. topup_entries n es tot h = Inr (t, es', h') \<and> list_all entry_ok es'
    \<and> length es' = length es
    \<and> heap_bufs h' + sum_list (map entry_bufs es') = heap_bufs h + sum_list (map entry_bufs es)"
  using assms
proof (induction n es tot h rule: topup_entries.induct)
  case (3 n e es tot h)
  then obtain c e' h1 where e: "ifx_cpu0_topup_q_list e h = Inr (c, e', h1)" "entry_ok e'"
    "heap_bufs h1 + entry_bufs e' = heap_bufs h + entry_bufs e"
    using entry_topup [of e h] by auto
  obtain t es' h2 where r: "topup_entries n es (if c > 0 then tot + c else tot) h1 = Inr (t, es', h2)"
    "list_all entry_ok es'" "length es' = length es"
    "heap_bufs h2 + sum_list (map entry_bufs es') = heap_bufs h1 + sum_list (map entry_bufs es)"
    using "3.IH" [OF e(1) refl refl] "3.prems" by auto
  have "heap_bufs h2 + (entry_bufs e' + sum_list (map entry_bufs es')) =
      heap_bufs h + (entry_bufs e + sum_list (map entry_bufs es))"
    using chain_bags [OF r(4) e(3)] .
  with e r show ?case by simp
qed simp_all

lemma heap_bufs_freed: "heap_bufs (h\<lparr>freed := freed h @ map (Pair fn) ps\<rparr>) = heap_bufs h + mset ps"
  by (simp add: heap_bufs_def stock_def comp_def)

lemma release_entries_ok:
  assumes "list_all entry_ok es" and "n \<le> length es"
  shows "\<exists>t es' h'. release_entries n es tot h = Inr (t, es', h') \<and> list_all entry_ok es'
    \<and> length es' = length es
    \<and> heap_bufs h' + sum_list (map entry_bufs es') = heap_bufs h + sum_list (map entry_bufs es)"
  using assms
proof (induction n es tot h rule: release_entries.induct)
  case (3 n e es tot h)
  let ?h1 = "h\<lparr>freed := freed h @ map (Pair Dev_kfree_skb_any) (opt_bufs (free_q e))\<rparr>"
  let ?c = "int (length (opt_bufs (free_q e)))"
  from 3 obtain q' where q: "ifx_cpu0_release_q_list (free_q e) Dev_kfree_skb_any h = Inr (?c, q', ?h1)"
    "opt_ok q'" "opt_bufs q' = []"
    using opt_release [of "free_q e" Dev_kfree_skb_any h] by (auto simp: entry_ok_def)
  obtain t es' h2 where r: "release_entries n es (add_count tot ?c) ?h1 = Inr (t, es', h2)"
    "list_all entry_ok es'" "length es' = length es"
    "heap_bufs h2 + sum_list (map entry_bufs es') = heap_bufs ?h1 + sum_list (map entry_bufs es)"
    using "3.IH" [OF q(1) refl refl] "3.prems" by auto
  have "heap_bufs ?h1 + entry_bufs (e\<lparr>free_q := q'\<rparr>) = heap_bufs h + entry_bufs e"
    using q(3) by (simp add: heap_bufs_freed entry_bufs_def)
  note b = chain_bags [OF r(4) this]
  have "entry_ok (e\<lparr>free_q := q'\<rparr>)" using "3.prems" q by (simp add: entry_ok_def)
  with b q r show ?case by simp
qed simp_all

definition others :: "mps_pools \<Rightarrow> u8 \<Rightarrow> u32 multiset" where
  "others s seq = (\<Sum>i\<in>UNIV - {seq}. case MPS_GET_BUF_POOL s i of None \<Rightarrow> {#} | Some p \<Rightarrow> pool_bufs p)"

lemma owned_split:
  "MPS_GET_BUF_POOL s seq = Some p \<Longrightarrow> owned s = heap_bufs (kernel s) + pool_bufs p + others s seq"
  unfolding owned_def others_def by (subst sum.remove [of UNIV seq]) (simp_all add: add.assoc)

text \<open>An operation on one pool: what it does to that pool and the allocator decides what it does to
  the system.\<close>

lemma pool_update:
  assumes get: "MPS_GET_BUF_POOL s seq = Some p" and ok: "pools_ok s" "pool_ok p'"
    and arr: "mps_buff_pool_array s' = mps_buff_pool_array (set_pool s seq p')"
    and bal: "heap_bufs (kernel s') + pool_bufs p' + G = heap_bufs (kernel s) + pool_bufs p + L"
  shows "pools_ok s' \<and> owned s' + G = owned s + L"
proof
  have get': "MPS_GET_BUF_POOL s' i = (if i = seq then Some p' else MPS_GET_BUF_POOL s i)" for i
    using get arr by (auto simp: MPS_GET_BUF_POOL_def set_pool_def split: option.splits)
  then show "pools_ok s'" using ok by (auto simp: pools_ok_def)
  have "others s' seq = others s seq" unfolding others_def by (rule sum.cong) (auto simp: get')
  then have "owned s' = heap_bufs (kernel s') + pool_bufs p' + others s seq"
    using owned_split [of s' seq p'] get' by simp
  with owned_split [OF get] bal show "owned s' + G = owned s + L"
    by (metis (no_types, lifting) add.assoc add.commute)
qed

lemma entry_cases:
  assumes "pool_ok p"
  obtains e es where "buff_array p = e # es" and "entry_ok e" and "list_all entry_ok es"
    and "\<And>sz. \<exists>e1. mps_get_buf_size_entry p sz = Inr (e1, p\<lparr>buff_array := e1 # es\<rparr>)
       \<and> alloc_q e1 = alloc_q e \<and> free_q e1 = free_q e"
  using assms by (cases "buff_array p") (auto simp: pool_ok_def mps_get_buf_size_entry_def Let_def)

section \<open>The contract of the pool operations\<close>

text \<open>What an operation promises on initialised pools: it returns, keeps them initialised, and
  every buffer is accounted for, where \<open>gain\<close> and \<open>loss\<close> say what its caller receives and hands
  over for a given result.\<close>

locale pool_op =
  fixes run :: "mps_pools \<Rightarrow> fault + 'r \<times> mps_pools"
    and gain :: "'r \<Rightarrow> u32 multiset"
    and loss :: "'r \<Rightarrow> u32 multiset"
  assumes contract: "pools_ok s \<Longrightarrow>
    \<exists>r s'. run s = Inr (r, s') \<and> pools_ok s' \<and> owned s' + gain r = owned s + loss r"
begin

lemma returns: "pools_ok s \<Longrightarrow> \<exists>r s'. run s = Inr (r, s')"
  using contract by blast

lemma keeps_ok: "pools_ok s \<Longrightarrow> run s = Inr (r, s') \<Longrightarrow> pools_ok s'"
  using contract by force

lemma conserves: "pools_ok s \<Longrightarrow> run s = Inr (r, s') \<Longrightarrow> owned s' + gain r = owned s + loss r"
  using contract by force

end

text \<open>Both book-keeping operations count calls and do their work, under the lock, in every sixth.\<close>

lemma book_keeping:
  assumes get: "MPS_GET_BUF_POOL s seq = Some p" and ok: "pools_ok s"
    and cnt: "pool_ok p1" "pool_bufs p1 = pool_bufs p" "pool_ok p2" "pool_bufs p2 = pool_bufs p"
    and work: "pool_ok p3" "heap_bufs h + pool_bufs p3 = heap_bufs (kernel s) + pool_bufs p"
    and run: "op = (if hit then if mps_list_book_keep_x s = 1
         then Inr (r, (set_pool s seq p3)\<lparr>mps_list_book_keep_x := 1, kernel := h\<rparr>)
         else Inr (0, (set_pool s seq p2)\<lparr>mps_list_book_keep_x := mps_list_book_keep_x s\<rparr>)
       else Inr (0, set_pool s seq p1))"
  shows "\<exists>r s'. op = Inr (r, s') \<and> pools_ok s' \<and> owned s' + {#} = owned s + {#}"
proof -
  have 1: "pools_ok s' \<and> owned s' + {#} = owned s + {#}"
    if "s' = set_pool s seq p1" for s'
    using that cnt by (intro pool_update [OF get ok cnt(1)]) (simp_all add: set_pool_def)
  have 2: "pools_ok s' \<and> owned s' + {#} = owned s + {#}"
    if "s' = (set_pool s seq p2)\<lparr>mps_list_book_keep_x := mps_list_book_keep_x s\<rparr>" for s'
    using that cnt by (intro pool_update [OF get ok cnt(3)]) (simp_all add: set_pool_def)
  have 3: "pools_ok s' \<and> owned s' + {#} = owned s + {#}"
    if "s' = (set_pool s seq p3)\<lparr>mps_list_book_keep_x := 1, kernel := h\<rparr>" for s'
    using that work by (intro pool_update [OF get ok work(1)]) (simp_all add: set_pool_def)
  from 1 2 3 show ?thesis unfolding run by auto
qed

interpretation topup: pool_op "ifx_cpu0_topup_q_lists cpu_id seq" "\<lambda>_. {#}" "\<lambda>_. {#}" for cpu_id seq
proof
  fix s assume ok: "pools_ok s"
  show "\<exists>r s'. ifx_cpu0_topup_q_lists cpu_id seq s = Inr (r, s') \<and> pools_ok s'
    \<and> owned s' + {#} = owned s + {#}"
  proof (cases "cpu_id = MPS_CPU_0_ID \<and> MPS_GET_BUF_POOL s seq \<noteq> None")
    case False
    then show ?thesis using ok by (auto simp: ifx_cpu0_topup_q_lists_def split: option.splits)
  next
    case True
    then obtain p where p: "MPS_GET_BUF_POOL s seq = Some p" by auto
    with ok have pok: "pool_ok p" by (auto simp: pools_ok_def)
    obtain t es h where t: "topup_entries (sizes_count p) (buff_array p) 0 (kernel s) = Inr (t, es, h)"
      "list_all entry_ok es" "length es = length (buff_array p)"
      "heap_bufs h + sum_list (map entry_bufs es) = heap_bufs (kernel s) + sum_list (map entry_bufs (buff_array p))"
      using topup_entries_ok [of "buff_array p" "sizes_count p" 0 "kernel s"] pok by (auto simp: pool_ok_def)
    let ?hit = "u32_add (alloc_hit_count p) 1"
    show ?thesis
    proof (rule book_keeping [OF p ok])
      show "pool_ok (p\<lparr>alloc_hit_count := ?hit\<rparr>)" "pool_bufs (p\<lparr>alloc_hit_count := ?hit\<rparr>) = pool_bufs p"
        "pool_ok (p\<lparr>alloc_hit_count := 0\<rparr>)" "pool_bufs (p\<lparr>alloc_hit_count := 0\<rparr>) = pool_bufs p"
        using pok by (simp_all add: pool_ok_def pool_bufs_def)
      show "pool_ok (p\<lparr>alloc_hit_count := 0, buff_array := es\<rparr>)" using pok t by (auto simp: pool_ok_def)
      show "heap_bufs h + pool_bufs (p\<lparr>alloc_hit_count := 0, buff_array := es\<rparr>) =
          heap_bufs (kernel s) + pool_bufs p"
        using t(4) by (simp add: pool_bufs_def multiset_eq_iff)
      show "ifx_cpu0_topup_q_lists cpu_id seq s = (if ?hit > MPS_BOOK_KEEPING_THRESH
        then if mps_list_book_keep_x s = 1
          then Inr (t, (set_pool s seq (p\<lparr>alloc_hit_count := 0, buff_array := es\<rparr>))
            \<lparr>mps_list_book_keep_x := 1, kernel := h\<rparr>)
          else Inr (0, (set_pool s seq (p\<lparr>alloc_hit_count := 0\<rparr>))\<lparr>mps_list_book_keep_x := mps_list_book_keep_x s\<rparr>)
        else Inr (0, set_pool s seq (p\<lparr>alloc_hit_count := ?hit\<rparr>)))"
        using True p t(1) by (simp add: ifx_cpu0_topup_q_lists_def atomic_dec_and_test_def Let_def)
    qed
  qed
qed

lemma release_pool_ok:
  assumes "pool_ok p"
  shows "\<exists>t p' h'. release_pool p h = Inr (t, p', h') \<and> pool_ok p'
    \<and> heap_bufs h' + pool_bufs p' = heap_bufs h + pool_bufs p"
proof -
  obtain t es h1 where e: "release_entries (sizes_count p) (buff_array p) 0 h = Inr (t, es, h1)"
    "list_all entry_ok es" "length es = length (buff_array p)"
    "heap_bufs h1 + sum_list (map entry_bufs es) = heap_bufs h + sum_list (map entry_bufs (buff_array p))"
    using release_entries_ok [of "buff_array p" "sizes_count p" 0 h] assms by (auto simp: pool_ok_def)
  obtain c dq h2 where d: "ifx_cpu0_release_q_list (default_free_list p) Dev_kfree_skb_any h1 = Inr (c, dq, h2)"
    "opt_ok dq" "opt_bufs dq = []" "heap_bufs h2 = heap_bufs h1 + mset (opt_bufs (default_free_list p))"
    using opt_release [of "default_free_list p" Dev_kfree_skb_any h1] assms
    by (auto simp: pool_ok_def heap_bufs_freed)
  obtain c' mq h3 where m: "ifx_cpu0_release_q_list (malloc_buf_free_list p) Kfree h2 = Inr (c', mq, h3)"
    "opt_ok mq" "opt_bufs mq = []" "heap_bufs h3 = heap_bufs h2 + mset (opt_bufs (malloc_buf_free_list p))"
    using opt_release [of "malloc_buf_free_list p" Kfree h2] assms
    by (auto simp: pool_ok_def heap_bufs_freed)
  let ?p = "p\<lparr>buff_array := es, default_free_list := dq, tot_free_count :=
    u32_add (tot_free_count p) (add_count t c), malloc_buf_free_list := mq\<rparr>"
  have "release_pool p h = Inr (add_count t c, ?p, h3)"
    using e d m by (simp add: release_pool_def Let_def)
  moreover have "pool_ok ?p" using assms e d m by (auto simp: pool_ok_def)
  moreover have "heap_bufs h3 + pool_bufs ?p = heap_bufs h + pool_bufs p"
    using e(4) d m by (simp add: pool_bufs_def multiset_eq_iff)
  ultimately show ?thesis by blast
qed

interpretation release: pool_op "ifx_cpu0_release_q_lists cpu_id seq" "\<lambda>_. {#}" "\<lambda>_. {#}" for cpu_id seq
proof
  fix s assume ok: "pools_ok s"
  show "\<exists>r s'. ifx_cpu0_release_q_lists cpu_id seq s = Inr (r, s') \<and> pools_ok s'
    \<and> owned s' + {#} = owned s + {#}"
  proof (cases "cpu_id = MPS_CPU_0_ID \<and> MPS_GET_BUF_POOL s seq \<noteq> None")
    case False
    then show ?thesis using ok by (auto simp: ifx_cpu0_release_q_lists_def split: option.splits)
  next
    case True
    then obtain p where p: "MPS_GET_BUF_POOL s seq = Some p" by auto
    with ok have pok: "pool_ok p" by (auto simp: pools_ok_def)
    have same: "pool_ok (p\<lparr>free_hit_count := n\<rparr>)" "pool_bufs (p\<lparr>free_hit_count := n\<rparr>) = pool_bufs p" for n
      using pok by (simp_all add: pool_ok_def pool_bufs_def)
    obtain t p' h where t: "release_pool (p\<lparr>free_hit_count := 0\<rparr>) (kernel s) = Inr (t, p', h)" "pool_ok p'"
      "heap_bufs h + pool_bufs p' = heap_bufs (kernel s) + pool_bufs p"
      using release_pool_ok [OF same(1) [of 0], of "kernel s"] same(2) by auto
    show ?thesis
      by (rule book_keeping [OF p ok same [of "u32_add (free_hit_count p) 1"] same [of 0] t(2,3),
            where hit = "u32_add (free_hit_count p) 1 > MPS_BOOK_KEEPING_THRESH" and r = "int t"])
         (use True p t(1) in \<open>simp add: ifx_cpu0_release_q_lists_def atomic_dec_and_test_def Let_def\<close>)
  qed
qed

text \<open>Taking and returning buffers changes one ring of one pool.\<close>

lemma entry0_update:
  assumes "pool_ok p" and "buff_array p = e # es" and "entry_ok e'"
    and "entry_bufs e' + G = entry_bufs e + L"
  shows "pool_ok (p\<lparr>buff_array := e' # es\<rparr>)"
    and "pool_bufs (p\<lparr>buff_array := e' # es\<rparr>) + G = pool_bufs p + L"
  using assms by (simp_all add: pool_ok_def pool_bufs_def multiset_eq_iff add.commute add.left_commute)

interpretation fast_alloc: pool_op "ifx_mps_fast_alloc_mps_buf cpu_id sz seq"
  "\<lambda>p. if p = 0 then {#} else {#p#}" "\<lambda>_. {#}" for cpu_id sz seq
proof
  fix s assume ok: "pools_ok s"
  show "\<exists>r s'. ifx_mps_fast_alloc_mps_buf cpu_id sz seq s = Inr (r, s') \<and> pools_ok s'
    \<and> owned s' + (if r = 0 then {#} else {#r#}) = owned s + {#}"
  proof (cases "cpu_id \<noteq> MPS_CPU_0_ID \<and> MPS_GET_BUF_POOL s seq \<noteq> None")
    case False
    then show ?thesis using ok by (auto simp: ifx_mps_fast_alloc_mps_buf_def split: option.splits)
  next
    case True
    then obtain p where p: "MPS_GET_BUF_POOL s seq = Some p" by auto
    with ok have pok: "pool_ok p" by (auto simp: pools_ok_def)
    obtain e es e1 where e: "buff_array p = e # es" "entry_ok e"
      "mps_get_buf_size_entry p sz = Inr (e1, p\<lparr>buff_array := e1 # es\<rparr>)"
      "alloc_q e1 = alloc_q e" "free_q e1 = free_q e"
      using entry_cases [OF pok] by metis
    obtain b q where d: "mps_dequeue_head (alloc_q e) = (b, q)" by (cases "mps_dequeue_head (alloc_q e)")
    let ?e = "e1\<lparr>alloc_q := q\<rparr>" and ?G = "if b = 0 then {#} else {#b#}"
    have "entry_ok ?e" "entry_bufs ?e + ?G = entry_bufs e + {#}"
      using opt_dequeue [OF _ d] e by (auto simp: entry_ok_def entry_bufs_def)
    note u = entry0_update [OF pok e(1) this]
    let ?s = "set_pool s seq (p\<lparr>buff_array := ?e # es\<rparr>)"
    let ?t = "if b = 0 then ?s else ?s\<lparr>fast_allocs := u32_add (fast_allocs ?s) 1\<rparr>"
    have "pools_ok ?t \<and> owned ?t + ?G = owned s + {#}"
      by (rule pool_update [OF p ok u(1)]) (use u(2) in \<open>simp_all add: set_pool_def add.assoc\<close>)
    moreover have "ifx_mps_fast_alloc_mps_buf cpu_id sz seq s = Inr (b, ?t)"
      using True p e d by (simp add: ifx_mps_fast_alloc_mps_buf_def set_entry0_def Let_def)
    ultimately show ?thesis by blast
  qed
qed

lemma free_to_pool:
  assumes ok: "pools_ok s" and p: "MPS_GET_BUF_POOL s seq = Some p" and b: "buf \<noteq> 0"
    and run: "cpu_id \<noteq> MPS_CPU_0_ID" "ifx_mps_is_mps_buffer buf \<noteq> 0"
  shows "\<exists>r s'. ifx_mps_fast_free_mps_buf cpu_id truesize buf seq s = Inr (r, s') \<and> pools_ok s'
    \<and> owned s' + {#} = owned s + (if r = 0 then {#buf#} else {#})"
proof -
  from ok p have pok: "pool_ok p" by (auto simp: pools_ok_def)
  obtain e es e1 where e: "buff_array p = e # es" "entry_ok e"
    "mps_get_buf_size_entry p (truesize buf) = Inr (e1, p\<lparr>buff_array := e1 # es\<rparr>)"
    "alloc_q e1 = alloc_q e" "free_q e1 = free_q e"
    using entry_cases [OF pok] by metis
  let ?qp = "if free_q e \<noteq> None then free_q e else default_free_list p"
  obtain rc q where d: "mps_queue_tail buf ?qp = (rc, q)" by (cases "mps_queue_tail buf ?qp")
  have "opt_ok ?qp" using pok e by (auto simp: pool_ok_def entry_ok_def)
  note en = opt_enqueue [OF this b d]
  let ?L = "if rc < 0 then {#} else {#buf#}"
  define p' where "p' = (if free_q e \<noteq> None then p\<lparr>buff_array := e1\<lparr>free_q := q\<rparr> # es\<rparr>
    else p\<lparr>buff_array := e1 # es, default_free_list := q\<rparr>)"
  have p': "pool_ok p' \<and> pool_bufs p' + {#} = pool_bufs p + ?L"
  proof (cases "free_q e = None")
    case False
    then have "entry_ok (e1\<lparr>free_q := q\<rparr>)" "entry_bufs (e1\<lparr>free_q := q\<rparr>) + {#} = entry_bufs e + ?L"
      using en e by (auto simp: entry_ok_def entry_bufs_def)
    from entry0_update [OF pok e(1) this] False show ?thesis by (simp add: p'_def)
  next
    case True
    then show ?thesis
      using en e pok by (auto simp: p'_def pool_ok_def pool_bufs_def entry_ok_def entry_bufs_def)
  qed
  let ?s = "set_pool s seq p'"
  let ?t = "if rc < 0 then ?s else ?s\<lparr>fast_frees := u32_add (fast_frees ?s) 1\<rparr>"
  have "pools_ok ?t \<and> owned ?t + {#} = owned s + ?L"
    by (rule pool_update [OF p ok conjunct1 [OF p']]) (use p' in \<open>simp_all add: set_pool_def add.assoc\<close>)
  moreover have "ifx_mps_fast_free_mps_buf cpu_id truesize buf seq s = Inr (if rc < 0 then - 1 else 0, ?t)"
    using run b p e d by (auto simp: ifx_mps_fast_free_mps_buf_def p'_def set_entry0_def Let_def)
  ultimately show ?thesis by auto
qed

interpretation fast_free: pool_op "ifx_mps_fast_free_mps_buf cpu_id truesize buf seq"
  "\<lambda>_. {#}" "\<lambda>rc. if rc = 0 then {#buf#} else {#}" for cpu_id truesize buf seq
proof
  fix s assume ok: "pools_ok s"
  have k: "pools_ok (s\<lparr>kernel := h\<rparr>) = pools_ok s" for h
    by (simp add: pools_ok_def MPS_GET_BUF_POOL_def)
  have own: "owned (s\<lparr>kernel := kfree_as fn x (kernel s)\<rparr>) = owned s + {#x#}" for fn x
    by (simp add: owned_def MPS_GET_BUF_POOL_def kfree_as_def heap_bufs_def stock_def)
  show "\<exists>r s'. ifx_mps_fast_free_mps_buf cpu_id truesize buf seq s = Inr (r, s') \<and> pools_ok s'
    \<and> owned s' + {#} = owned s + (if r = 0 then {#buf#} else {#})"
  proof (cases "buf \<noteq> 0 \<and> cpu_id \<noteq> MPS_CPU_0_ID \<and> ifx_mps_is_mps_buffer buf \<noteq> 0 \<and> MPS_GET_BUF_POOL s seq \<noteq> None")
    case True
    then show ?thesis using free_to_pool [OF ok] by blast
  next
    case False
    then show ?thesis
      using ok k own by (auto simp: ifx_mps_fast_free_mps_buf_def split: option.splits)
        (rule exI [of _ "- ENOMEM"], simp)
  qed
qed

lemma alloc_malloc_ok:
  assumes ok: "pools_ok s"
  shows "pools_ok (snd (ifx_mps_fast_alloc_malloc_buf cpu_id seq s))
    \<and> owned (snd (ifx_mps_fast_alloc_malloc_buf cpu_id seq s))
        + (if fst (ifx_mps_fast_alloc_malloc_buf cpu_id seq s) = 0 then {#}
           else {#fst (ifx_mps_fast_alloc_malloc_buf cpu_id seq s)#}) = owned s"
proof (cases "cpu_id \<noteq> MPS_CPU_0_ID \<and> MPS_GET_BUF_POOL s seq \<noteq> None")
  case False
  then show ?thesis using ok by (auto simp: ifx_mps_fast_alloc_malloc_buf_def split: option.splits)
next
  case True
  then obtain p where p: "MPS_GET_BUF_POOL s seq = Some p" by auto
  with ok have pok: "pool_ok p" by (auto simp: pools_ok_def)
  obtain b q where d: "mps_dequeue_head (malloc_buf_alloc_list p) = (b, q)"
    by (cases "mps_dequeue_head (malloc_buf_alloc_list p)")
  let ?p = "p\<lparr>malloc_buf_alloc_list := q\<rparr>" and ?G = "if b = 0 then {#} else {#b#}"
  have o: "opt_ok q \<and> mset (opt_bufs q) + ?G = mset (opt_bufs (malloc_buf_alloc_list p))"
    using opt_dequeue [OF _ d] pok by (simp add: pool_ok_def)
  then have pk: "pool_ok ?p" and bal: "pool_bufs ?p + ?G = pool_bufs p + {#}"
    using pok by (auto simp: pool_ok_def pool_bufs_def multiset_eq_iff)
  let ?s = "(set_pool s seq ?p)\<lparr>fast_mallocs := u32_add (fast_mallocs (set_pool s seq ?p)) 1\<rparr>"
  have "pools_ok ?s \<and> owned ?s + ?G = owned s + {#}"
    by (rule pool_update [OF p ok pk]) (use bal in \<open>simp_all add: set_pool_def add.assoc\<close>)
  then show ?thesis
    using True p d by (simp add: ifx_mps_fast_alloc_malloc_buf_def Let_def split: if_splits)
qed

interpretation fast_malloc: pool_op "\<lambda>s. Inr (ifx_mps_fast_alloc_malloc_buf cpu_id seq s)"
  "\<lambda>p. if p = 0 then {#} else {#p#}" "\<lambda>_. {#}" for cpu_id seq
proof
  fix s assume "pools_ok s"
  then show "\<exists>r s'. Inr (ifx_mps_fast_alloc_malloc_buf cpu_id seq s) = Inr (r, s') \<and> pools_ok s'
    \<and> owned s' + (if r = 0 then {#} else {#r#}) = owned s + {#}"
    using alloc_malloc_ok [of s cpu_id seq]
    by (cases "ifx_mps_fast_alloc_malloc_buf cpu_id seq s") (simp split: if_splits)
qed

lemma free_malloc_ok:
  assumes ok: "pools_ok s"
  shows "pools_ok (snd (ifx_mps_fast_free_malloc_buf cpu_id buf seq s))
    \<and> owned (snd (ifx_mps_fast_free_malloc_buf cpu_id buf seq s)) = owned s
        + (if fst (ifx_mps_fast_free_malloc_buf cpu_id buf seq s) = 0 then {#buf#} else {#})"
proof (cases "buf \<noteq> 0 \<and> cpu_id \<noteq> MPS_CPU_0_ID \<and> MPS_GET_BUF_POOL s seq \<noteq> None")
  case False
  then show ?thesis using ok by (auto simp: ifx_mps_fast_free_malloc_buf_def split: option.splits)
next
  case True
  then obtain p where p: "MPS_GET_BUF_POOL s seq = Some p" by auto
  with ok have pok: "pool_ok p" by (auto simp: pools_ok_def)
  obtain rc q where d: "mps_queue_tail buf (malloc_buf_free_list p) = (rc, q)"
    by (cases "mps_queue_tail buf (malloc_buf_free_list p)")
  let ?p = "p\<lparr>malloc_buf_free_list := q\<rparr>" and ?L = "if rc < 0 then {#} else {#buf#}"
  have o: "opt_ok q \<and> mset (opt_bufs q) = mset (opt_bufs (malloc_buf_free_list p)) + ?L"
    using opt_enqueue [OF _ _ d] pok True by (simp add: pool_ok_def)
  then have pk: "pool_ok ?p" and bal: "pool_bufs ?p + {#} = pool_bufs p + ?L"
    using pok by (auto simp: pool_ok_def pool_bufs_def)
  let ?s = "set_pool s seq ?p"
  let ?t = "if rc < 0 then ?s else ?s\<lparr>fast_malloc_frees := u32_add (fast_malloc_frees ?s) 1\<rparr>"
  have "pools_ok ?t \<and> owned ?t + {#} = owned s + ?L"
    by (rule pool_update [OF p ok pk]) (use bal in \<open>simp_all add: set_pool_def add.assoc\<close>)
  then show ?thesis
    using True p d by (simp add: ifx_mps_fast_free_malloc_buf_def Let_def split: if_splits)
qed

interpretation fast_free_malloc: pool_op "\<lambda>s. Inr (ifx_mps_fast_free_malloc_buf cpu_id buf seq s)"
  "\<lambda>_. {#}" "\<lambda>rc. if rc = 0 then {#buf#} else {#}" for cpu_id buf seq
proof
  fix s assume "pools_ok s"
  then show "\<exists>r s'. Inr (ifx_mps_fast_free_malloc_buf cpu_id buf seq s) = Inr (r, s') \<and> pools_ok s'
    \<and> owned s' + {#} = owned s + (if r = 0 then {#buf#} else {#})"
    using free_malloc_ok [of s cpu_id buf seq]
    by (cases "ifx_mps_fast_free_malloc_buf cpu_id buf seq s") (simp split: if_splits)
qed

section \<open>The two CPUs at work\<close>

text \<open>A state of the system: the pools and the buffers that code on CPU1 holds.\<close>

inductive pool_step :: "(u32 \<Rightarrow> nat) \<Rightarrow> mps_pools \<times> u32 multiset \<Rightarrow> mps_pools \<times> u32 multiset \<Rightarrow> bool"
  for truesize where
  Topup: "ifx_cpu0_topup_q_lists MPS_CPU_0_ID seq s = Inr (rc, s') \<Longrightarrow> pool_step truesize (s, H) (s', H)"
| Release: "ifx_cpu0_release_q_lists MPS_CPU_0_ID seq s = Inr (rc, s') \<Longrightarrow> pool_step truesize (s, H) (s', H)"
| Alloc: "ifx_mps_fast_alloc_mps_buf MPS_CPU_1_ID sz seq s = Inr (p, s')
    \<Longrightarrow> pool_step truesize (s, H) (s', if p = 0 then H else add_mset p H)"
| Free: "p \<in># H \<Longrightarrow> ifx_mps_fast_free_mps_buf MPS_CPU_1_ID truesize p seq s = Inr (rc, s')
    \<Longrightarrow> pool_step truesize (s, H) (s', if rc = 0 then H - {#p#} else H)"
| Alloc_malloc: "ifx_mps_fast_alloc_malloc_buf MPS_CPU_1_ID seq s = (p, s')
    \<Longrightarrow> pool_step truesize (s, H) (s', if p = 0 then H else add_mset p H)"
| Free_malloc: "p \<in># H \<Longrightarrow> ifx_mps_fast_free_malloc_buf MPS_CPU_1_ID p seq s = (rc, s')
    \<Longrightarrow> pool_step truesize (s, H) (s', if rc = 0 then H - {#p#} else H)"

lemma pool_step_conserves:
  assumes "pool_step truesize (s, H) (s', H')" and ok: "pools_ok s"
  shows "pools_ok s' \<and> owned s' + H' = owned s + H"
  using assms(1)
proof (cases rule: pool_step.cases)
  case Topup
  then show ?thesis using topup.keeps_ok [OF ok] topup.conserves [OF ok] by fastforce
next
  case Release
  then show ?thesis using release.keeps_ok [OF ok] release.conserves [OF ok] by fastforce
next
  case (Alloc sz seq p)
  then show ?thesis using fast_alloc.keeps_ok [OF ok Alloc(2)] fast_alloc.conserves [OF ok Alloc(2)] by auto
next
  case (Free p seq rc)
  then show ?thesis
    using fast_free.keeps_ok [OF ok Free(3)] fast_free.conserves [OF ok Free(3)] by auto
next
  case (Alloc_malloc seq p)
  then show ?thesis using alloc_malloc_ok [OF ok, of MPS_CPU_1_ID seq] by auto
next
  case (Free_malloc p seq rc)
  then show ?thesis using free_malloc_ok [OF ok, of MPS_CPU_1_ID p seq] by auto
qed

lemma pool_steps_conserve:
  assumes "(pool_step truesize)\<^sup>*\<^sup>* c c'" and "pools_ok (fst c)"
  shows "pools_ok (fst c') \<and> owned (fst c') + snd c' = owned (fst c) + snd c"
  using assms
proof (induction rule: rtranclp_induct)
  case (step c1 c2)
  then show ?case using pool_step_conserves [of truesize "fst c1" "snd c1" "fst c2" "snd c2"] by simp
qed simp

lemma timer_loop_ok:
  "pools_ok s \<Longrightarrow> \<exists>s'. timer_loop is s = Inr s' \<and> (pool_step truesize)\<^sup>*\<^sup>* (s, H) (s', H)"
proof (induction "is" arbitrary: s)
  case (Cons i "is")
  show ?case
  proof (cases "MPS_GET_BUF_POOL s (of_nat i) = None")
    case True
    then show ?thesis using Cons by simp
  next
    case False
    obtain r1 s1 where t: "ifx_cpu0_topup_q_lists MPS_CPU_0_ID (of_nat i) s = Inr (r1, s1)"
      using topup.returns [OF Cons.prems] by blast
    note ok1 = topup.keeps_ok [OF Cons.prems t]
    obtain r2 s2 where r: "ifx_cpu0_release_q_lists MPS_CPU_0_ID (of_nat i) s1 = Inr (r2, s2)"
      using release.returns [OF ok1] by blast
    obtain s' where l: "timer_loop is s2 = Inr s'" "(pool_step truesize)\<^sup>*\<^sup>* (s2, H) (s', H)"
      using Cons.IH [OF release.keeps_ok [OF ok1 r]] by blast
    have "pool_step truesize (s, H) (s1, H)" "pool_step truesize (s1, H) (s2, H)"
      using t r by (auto intro: pool_step.intros)
    with l False t r show ?thesis by (auto intro: converse_rtranclp_into_rtranclp)
  qed
qed simp

section \<open>Interleavings on the book-keeping lock\<close>

text \<open>The atomic steps that the book-keeping of any number of contexts makes on
  \<open>mps_list_book_keep_x\<close>: the test on entry, which sends a context into the section or to the label
  \<open>lbl_ret_ok\<close>, and the increment there.\<close>

datatype lock_phase = Idle | In_section | Backing_off

inductive lock_step :: "int \<times> (nat \<Rightarrow> lock_phase) \<Rightarrow> int \<times> (nat \<Rightarrow> lock_phase) \<Rightarrow> bool" where
  Enter: "ph i = Idle \<Longrightarrow> atomic_dec_and_test x = (zero, x') \<Longrightarrow>
    lock_step (x, ph) (x', ph(i := if zero then In_section else Backing_off))"
| Leave: "ph i \<noteq> Idle \<Longrightarrow> lock_step (x, ph) (x + 1, ph(i := Idle))"

definition lock_inv :: "int \<times> (nat \<Rightarrow> lock_phase) \<Rightarrow> bool" where
  "lock_inv c \<longleftrightarrow> finite {i. snd c i \<noteq> Idle} \<and> fst c = 1 - int (card {i. snd c i \<noteq> Idle})
     \<and> (\<forall>i j. snd c i = In_section \<longrightarrow> snd c j = In_section \<longrightarrow> i = j)"

lemma lock_inv_step:
  assumes "lock_step c c'" and "lock_inv c"
  shows "lock_inv c'"
  using assms
proof (cases rule: lock_step.cases)
  case (Enter ph i x zero x')
  let ?B = "{j. ph j \<noteq> Idle}"
  have B: "{j. (ph(i := if zero then In_section else Backing_off)) j \<noteq> Idle} = insert i ?B" by auto
  have fin: "finite ?B" "x = 1 - int (card ?B)" using assms(2) Enter(1) by (auto simp: lock_inv_def)
  have card: "card (insert i ?B) = Suc (card ?B)" using fin Enter(3) by simp
  have empty: "?B = {}" if zero
  proof -
    have "card ?B = 0" using that Enter(4) fin by (simp add: atomic_dec_and_test_def)
    then show ?thesis using fin by simp
  qed
  have "j = k" if "(ph(i := if zero then In_section else Backing_off)) j = In_section"
    "(ph(i := if zero then In_section else Backing_off)) k = In_section" for j k
    using that empty assms(2) Enter(1) by (auto simp: lock_inv_def split: if_splits)
  then show ?thesis
    using Enter fin card B by (auto simp: lock_inv_def atomic_dec_and_test_def simp del: fun_upd_apply)
next
  case (Leave ph i x)
  let ?B = "{j. ph j \<noteq> Idle}"
  have B: "{j. (ph(i := Idle)) j \<noteq> Idle} = ?B - {i}" by auto
  have fin: "finite ?B" "x = 1 - int (card ?B)" using assms(2) Leave(1) by (auto simp: lock_inv_def)
  have "0 < card ?B" using Leave(3) fin(1) by (auto simp: card_gt_0_iff)
  then have "int (card (?B - {i})) = int (card ?B) - 1" using Leave(3) fin(1) by simp
  moreover have "j = k" if "(ph(i := Idle)) j = In_section" "(ph(i := Idle)) k = In_section" for j k
    using that assms(2) Leave(1) by (auto simp: lock_inv_def split: if_splits)
  ultimately show ?thesis
    using Leave fin B by (auto simp: lock_inv_def simp del: fun_upd_apply)
qed

lemma lock_inv_steps: "lock_step\<^sup>*\<^sup>* c c' \<Longrightarrow> lock_inv c \<Longrightarrow> lock_inv c'"
  by (induction rule: rtranclp_induct) (auto intro: lock_inv_step)

lemma lock_inv_init: "lock_inv (1, \<lambda>_. Idle)"
  by (simp add: lock_inv_def)

section \<open>A pool in use\<close>

text \<open>One service with an allocation ring that holds two buffers of CPU0's memory.\<close>

definition demo_pool :: mps_buff_pool_head where
  "demo_pool = \<lparr>sizes_count = 1, free_hit_count = 0, alloc_hit_count = 0,
     buff_array = [\<lparr>alloc_q = Some (demo_ring\<lparr>slots := (\<lambda>i. if i = 2 then 0x80100000 else 0x80200000),
       rpos := 2, wpos := 0\<rparr>), free_q = None, bufsize = 1600\<rparr>],
     default_free_list = Some demo_ring, malloc_buf_alloc_list = None, malloc_buf_free_list = None,
     malloc_buf_size = 0, tot_free_count = 0\<rparr>"

definition demo_pools :: mps_pools where
  "demo_pools = \<lparr>mps_buff_pool_array = Some (\<lambda>i. if i = 7 then Some demo_pool else None), fast_allocs = 0,
     fast_frees = 0, fast_mallocs = 0, fast_malloc_frees = 0, mps_list_book_keep_x = 1,
     timer_started = True, kernel = \<lparr>upcoming = [0x80300000], freed = []\<rparr>\<rparr>"

lemma demo_pool_ok: "pool_ok demo_pool" "pool_bufs demo_pool = {#0x80100000, 0x80200000#}"
  by (simp_all add: demo_pool_def pool_ok_def pool_bufs_def entry_ok_def entry_bufs_def opt_defs ring_ok_def
    ring_inv_def ring_list_def ring_len_def ring_pos_def demo_ring_def upt_rec)

lemma demo_get: "MPS_GET_BUF_POOL demo_pools i = (if i = 7 then Some demo_pool else None)"
  by (simp add: MPS_GET_BUF_POOL_def demo_pools_def)

lemma demo_pools_ok: "pools_ok demo_pools"
  by (simp add: pools_ok_def demo_get demo_pool_ok)

lemma demo_owned: "owned demo_pools = {#0x80300000, 0x80100000, 0x80200000#}"
proof -
  have "others demo_pools 7 = {#}" unfolding others_def by (rule sum.neutral) (simp add: demo_get)
  moreover have "kernel demo_pools = \<lparr>upcoming = [0x80300000], freed = []\<rparr>" by (simp add: demo_pools_def)
  ultimately show ?thesis
    using owned_split [of demo_pools 7 demo_pool] by (simp add: demo_get demo_pool_ok heap_bufs_def stock_def)
qed

lemma demo_alloc:
  "\<exists>s. ifx_mps_fast_alloc_mps_buf MPS_CPU_1_ID 1600 7 demo_pools = Inr (0x80100000, s)"
  by (simp add: ifx_mps_fast_alloc_mps_buf_def demo_get MPS_CPU_0_ID_def MPS_CPU_1_ID_def demo_pool_def
    mps_get_buf_size_entry_def mps_dequeue_head_def queue_macro_defs demo_ring_def Let_def)

section \<open>Properties\<close>

text \<open>C4: Over every sequence of top-ups and releases on CPU0 and allocations and frees on CPU1, on
  any services and interleaved in any way, no buffer is lost or duplicated: the allocator's buffers,
  those in the rings, those that CPU1 holds and those given back are always the same collection.
  If the allocator never hands out a buffer twice, then no buffer is released twice, and none that
  CPU1 holds has been released.\<close>

theorem pool_no_double_free:
  assumes ok: "pools_ok s0" and steps: "(pool_step truesize)\<^sup>*\<^sup>* (s0, H0) (s, H)"
    and once: "\<And>x. count (owned s0 + H0) x \<le> 1"
  shows "owned s + H = owned s0 + H0 \<and> distinct (map snd (freed (kernel s)))
    \<and> set_mset H \<inter> set (map snd (freed (kernel s))) = {}"
proof -
  have c: "owned s + H = owned s0 + H0" using pool_steps_conserve [OF steps] ok by simp
  define F where "F = map snd (freed (kernel s))"
  have le: "count (mset F) x + count H x \<le> 1" for x
    using once [of x] unfolding c [symmetric] F_def by (simp add: owned_def heap_bufs_def)
  have "count (mset F) x = (if x \<in> set F then 1 else 0)" for x
  proof (cases "x \<in> set F")
    case True
    then have "0 < count (mset F) x" by (rule count_mset_gt_0)
    with le [of x] show ?thesis unfolding if_P [OF True] by linarith
  qed simp
  then have "distinct F" by (simp add: distinct_count_atmost_1)
  moreover have "x \<notin> set F" if "x \<in># H" for x
  proof -
    have "count (mset F) x = 0" using that le [of x] count_greater_zero_iff [of H x] by linarith
    then show ?thesis by simp
  qed
  ultimately have "distinct F \<and> set_mset H \<inter> set F = {}" by blast
  with c show ?thesis by (simp only: F_def)
qed

theorem pool_no_double_free_witness:
  "\<exists>s. (pool_step (\<lambda>_. 1600))\<^sup>*\<^sup>* (demo_pools, {#}) (s, {#0x80100000#})
     \<and> owned s + {#0x80100000#} = {#0x80300000, 0x80100000, 0x80200000#}
     \<and> distinct (map snd (freed (kernel s)))"
proof -
  from demo_alloc obtain s where "ifx_mps_fast_alloc_mps_buf MPS_CPU_1_ID 1600 7 demo_pools = Inr (0x80100000, s)" by blast
  from pool_step.Alloc [OF this, of "\<lambda>_. 1600" "{#}"]
  have st: "(pool_step (\<lambda>_. 1600))\<^sup>*\<^sup>* (demo_pools, {#}) (s, {#0x80100000#})" by (simp add: r_into_rtranclp)
  moreover have "count (owned demo_pools + {#}) x \<le> 1" for x by (simp add: demo_owned)
  ultimately show ?thesis using pool_no_double_free [OF demo_pools_ok st] demo_owned by auto
qed

text \<open>C13: On initialised pools the periodic book-keeping of CPU0 over all 256 services always
  returns, keeps the pools well-formed and loses no buffer.\<close>

theorem timer_handler_safe:
  assumes "pools_ok s"
  shows "\<exists>s'. mps_timer_handler s = Inr s' \<and> pools_ok s' \<and> owned s' = owned s"
proof -
  obtain s' where "timer_loop [0..<MPS_MAX_SELECTORS] s = Inr s'"
    "(pool_step (\<lambda>_. 0))\<^sup>*\<^sup>* (s, {#}) (s', {#})"
    using timer_loop_ok [OF assms] by blast
  then show ?thesis
    using pool_steps_conserve [of "\<lambda>_. 0" "(s, {#})" "(s', {#})"] assms by (simp add: mps_timer_handler_def)
qed

theorem timer_handler_safe_witness:
  "\<exists>s'. mps_timer_handler demo_pools = Inr s' \<and> owned s' = {#0x80300000, 0x80100000, 0x80200000#}"
  using timer_handler_safe [OF demo_pools_ok] demo_owned by auto

text \<open>C15: The book-keeping lock admits one context at a time, over every interleaving of the
  decrements and increments that the contexts make on it.\<close>

theorem book_keeping_exclusive:
  assumes "lock_step\<^sup>*\<^sup>* (1, \<lambda>_. Idle) (x, ph)" and "ph i = In_section" and "ph j = In_section"
  shows "i = j \<and> x \<le> 0"
proof -
  have inv: "lock_inv (x, ph)" using lock_inv_steps [OF assms(1) lock_inv_init] .
  then have "finite {k. ph k \<noteq> Idle}" "i \<in> {k. ph k \<noteq> Idle}" using assms(2) by (auto simp: lock_inv_def)
  then have "0 < card {k. ph k \<noteq> Idle}" by (auto simp: card_gt_0_iff)
  with inv assms(2,3) show ?thesis by (simp add: lock_inv_def)
qed

theorem book_keeping_exclusive_witness:
  "lock_step\<^sup>*\<^sup>* (1, \<lambda>_. Idle) (-1, (\<lambda>_. Idle)(3 := In_section, 4 := Backing_off)) \<and> (3::nat) = 3 \<and> (-1::int) \<le> 0"
proof -
  have "lock_step (1, \<lambda>_. Idle) (0, (\<lambda>_. Idle)(3 := In_section))"
    using lock_step.Enter [of "\<lambda>_. Idle" 3 1 True 0] by (simp add: atomic_dec_and_test_def)
  moreover have "lock_step (0, (\<lambda>_. Idle)(3 := In_section)) (-1, (\<lambda>_. Idle)(3 := In_section, 4 := Backing_off))"
    using lock_step.Enter [of "(\<lambda>_. Idle)(3 := In_section)" 4 0 False "-1"] by (simp add: atomic_dec_and_test_def)
  ultimately have s: "lock_step\<^sup>*\<^sup>* (1, \<lambda>_. Idle) (-1, (\<lambda>_. Idle)(3 := In_section, 4 := Backing_off))" by auto
  then show ?thesis using book_keeping_exclusive [OF s, of 3 3] by simp
qed

fun topup_times :: "nat \<Rightarrow> u8 \<Rightarrow> mps_pools \<Rightarrow> fault + mps_pools" where
  "topup_times 0 seq s = Inr s"
| "topup_times (Suc n) seq s = (case ifx_cpu0_topup_q_lists MPS_CPU_0_ID seq s of
     Inl f \<Rightarrow> Inl f | Inr (_, s') \<Rightarrow> topup_times n seq s')"

lemma get_set_pool:
  "mps_buff_pool_array s \<noteq> None \<Longrightarrow> MPS_GET_BUF_POOL (set_pool s seq p) seq = Some p"
  by (auto simp: MPS_GET_BUF_POOL_def set_pool_def)

lemma topup_skips:
  assumes "MPS_GET_BUF_POOL s seq = Some p" and "alloc_hit_count p < 5"
  shows "ifx_cpu0_topup_q_lists MPS_CPU_0_ID seq s =
      Inr (0, set_pool s seq (p\<lparr>alloc_hit_count := alloc_hit_count p + 1\<rparr>))"
  using assms by (simp add: ifx_cpu0_topup_q_lists_def MPS_BOOK_KEEPING_THRESH_def Let_def)

lemma topup_null:
  assumes "MPS_GET_BUF_POOL s seq = Some p" and "alloc_hit_count p = 5" and "mps_list_book_keep_x s = 1"
    and "buff_array p = e # es" and "alloc_q e = None" and "0 < sizes_count p"
  shows "ifx_cpu0_topup_q_lists MPS_CPU_0_ID seq s = Inl Null_deref"
  using assms by (cases "sizes_count p")
    (simp_all add: ifx_cpu0_topup_q_lists_def MPS_BOOK_KEEPING_THRESH_def atomic_dec_and_test_def
      ifx_cpu0_topup_q_list_def Let_def)

lemma topup_times_skip:
  assumes "MPS_GET_BUF_POOL s seq = Some p" and "alloc_hit_count p + n \<le> 5"
  shows "\<exists>s'. (\<forall>m. topup_times (n + m) seq s = topup_times m seq s')
    \<and> MPS_GET_BUF_POOL s' seq = Some (p\<lparr>alloc_hit_count := alloc_hit_count p + n\<rparr>)
    \<and> mps_list_book_keep_x s' = mps_list_book_keep_x s"
  using assms
proof (induction n arbitrary: s p)
  case 0
  then show ?case by auto
next
  case (Suc n)
  let ?p = "p\<lparr>alloc_hit_count := alloc_hit_count p + 1\<rparr>"
  have a: "mps_buff_pool_array s \<noteq> None" using Suc.prems by (auto simp: MPS_GET_BUF_POOL_def split: option.splits)
  note t = topup_skips [OF Suc.prems(1)]
  have "alloc_hit_count ?p + n \<le> 5" using Suc.prems by simp
  from Suc.IH [OF get_set_pool [OF a] this] obtain s' where
    "\<forall>m. topup_times (n + m) seq (set_pool s seq ?p) = topup_times m seq s'"
    "MPS_GET_BUF_POOL s' seq = Some (?p\<lparr>alloc_hit_count := alloc_hit_count ?p + n\<rparr>)"
    "mps_list_book_keep_x s' = mps_list_book_keep_x (set_pool s seq ?p)" by blast
  with t Suc.prems show ?case by (intro exI [of _ s']) (simp add: set_pool_def)
qed

text \<open>A pool just created has no allocation ring, so the sixth top-up after
  \<open>ifx_mps_buff_pool_init\<close>, unless \<open>ifx_mps_queue_init\<close> ran before, dereferences \<open>NULL\<close>; the five
  before do nothing.\<close>

theorem fresh_pool_topup_faults:
  assumes init: "ifx_mps_buff_pool_init junk MPS_CPU_0_ID seq sizes len s = Inr (0, s1)"
    and sizes: "0 < sizes" and x: "mps_list_book_keep_x s = 1"
  shows "(\<exists>s'. topup_times 5 seq s1 = Inr s') \<and> topup_times 6 seq s1 = Inl Null_deref"
proof -
  from init obtain p where p: "MPS_GET_BUF_POOL s1 seq = Some p" "mps_list_book_keep_x s1 = 1"
    "alloc_hit_count p = 0" "sizes_count p = sizes" "buff_array p = replicate sizes empty_entry"
    using x by (auto simp: ifx_mps_buff_pool_init_def MPS_GET_BUF_POOL_def set_pool_def Let_def
        split: if_splits option.splits prod.splits)
  obtain s' where s': "\<And>m. topup_times (5 + m) seq s1 = topup_times m seq s'"
    "MPS_GET_BUF_POOL s' seq = Some (p\<lparr>alloc_hit_count := 5\<rparr>)" "mps_list_book_keep_x s' = 1"
    using topup_times_skip [OF p(1), of 5] p by auto
  obtain n where n: "sizes = Suc n" using sizes by (cases sizes) auto
  have "ifx_cpu0_topup_q_lists MPS_CPU_0_ID seq s' = Inl Null_deref"
    by (rule topup_null [OF s'(2), where e = empty_entry and es = "replicate n empty_entry"]) (use s' p n in \<open>simp_all add: empty_entry_def\<close>)
  then show ?thesis using s'(1) [of 0] s'(1) [of 1] by simp
qed

theorem fresh_pool_topup_faults_witness:
  "\<exists>s1. ifx_mps_buff_pool_init (\<lambda>_. 0) MPS_CPU_0_ID 9 1 100 demo_pools = Inr (0, s1)
     \<and> topup_times 6 9 s1 = Inl Null_deref"
proof -
  have x: "mps_list_book_keep_x demo_pools = 1" by (simp add: demo_pools_def)
  obtain s1 where i: "ifx_mps_buff_pool_init (\<lambda>_. 0) MPS_CPU_0_ID 9 1 100 demo_pools = Inr (0, s1)"
    by (simp add: ifx_mps_buff_pool_init_def demo_pools_def mps_queue_init_def mps_inv_alloc_def kalloc.simps
      zero_head_def KSEG1ADDR_def PHYSADDR_def)
  with fresh_pool_topup_faults [OF i _ x] show ?thesis by simp
qed

text \<open>C14: \<open>ifx_mps_queue_init\<close> fills a free ring, too, with fresh buffers; the ring is full when the
  call returns, so CPU1 cannot return a single buffer to it until CPU0 has released that content.\<close>

theorem free_queue_starts_full:
  assumes get: "MPS_GET_BUF_POOL s seq = Some p" and arr: "buff_array p = e # es" and fq: "free_q e = None"
    and sz: "sz \<noteq> 0" and n: "n < 2 ^ 31"
    and init: "ifx_mps_queue_init junk MPS_CPU_0_ID seq sz n True s = Inr (0, s1)"
    and buf: "buf \<noteq> 0" "ifx_mps_is_mps_buffer buf = 1"
  shows "\<exists>s2. ifx_mps_fast_free_mps_buf MPS_CPU_1_ID truesize buf seq s1 = Inr (- 1, s2)"
proof -
  let ?h = "snd (mps_inv_alloc (kernel s))"
  obtain cb h1 where a: "mps_inv_alloc ?h = (cb, h1)" by (cases "mps_inv_alloc ?h")
  obtain e1 where e1: "mps_get_buf_size_entry p sz = Inr (e1, p\<lparr>buff_array := e1 # es\<rparr>)" "free_q e1 = None"
    using arr fq by (auto simp: mps_get_buf_size_entry_def Let_def)
  have z: "circular_buf zero_head = 0" by (simp add: zero_head_def)
  obtain q' h' where q: "mps_queue_init junk sz n zero_head ?h =
      Some (if length (obtained n h1) = n then 0 else - ENOMEM, q', h')" "ring_inv q'"
    "length (obtained n h1) = n \<Longrightarrow> ring_list q' = obtained n h1 \<and> maxcount q' = n"
    using queue_init_fresh [OF z sz n a, of junk] by auto
  let ?p = "p\<lparr>buff_array := e1\<lparr>free_q := Some q'\<rparr> # es\<rparr>"
  have i: "Inr (if length (obtained n h1) = n then 0 else - ENOMEM, (set_pool s seq ?p)\<lparr>kernel := h'\<rparr>) = (Inr (0, s1) :: fault + _)"
    using init get e1 q(1) by (simp add: ifx_mps_queue_init_def set_entry0_def Let_def)
  then have len: "length (obtained n h1) = n" by (auto split: if_splits)
  have "ring_len q' = maxcount q'" using q(3) [OF len] len length_ring_list [of q'] by simp
  note full = queue_tail_full [OF q(2) this, of buf]
  have "mps_buff_pool_array s \<noteq> None" using get by (auto simp: MPS_GET_BUF_POOL_def split: option.splits)
  then have g: "MPS_GET_BUF_POOL s1 seq = Some ?p"
    using i get_set_pool [of s seq ?p] by (auto simp: MPS_GET_BUF_POOL_def)
  show ?thesis
    using buf g full
    by (simp add: ifx_mps_fast_free_mps_buf_def mps_get_buf_size_entry_def MPS_CPU_0_ID_def MPS_CPU_1_ID_def Let_def)
qed

theorem free_queue_starts_full_witness:
  "\<exists>s1. ifx_mps_queue_init (\<lambda>_. 0) MPS_CPU_0_ID 7 1600 1 True
      (demo_pools\<lparr>kernel := \<lparr>upcoming = [0x1000, 0x2000, 0x3000], freed = []\<rparr>\<rparr>) = Inr (0, s1)
     \<and> (\<exists>s2. ifx_mps_fast_free_mps_buf MPS_CPU_1_ID (\<lambda>_. 1600) 0x80100000 7 s1 = Inr (- 1, s2))"
proof -
  let ?s = "demo_pools\<lparr>kernel := \<lparr>upcoming = [0x1000, 0x2000, 0x3000], freed = []\<rparr>\<rparr>"
  have g: "MPS_GET_BUF_POOL ?s 7 = Some demo_pool" by (simp add: MPS_GET_BUF_POOL_def demo_pools_def)
  obtain s1 where i: "ifx_mps_queue_init (\<lambda>_. 0) MPS_CPU_0_ID 7 1600 1 True ?s = Inr (0, s1)"
    by (simp add: ifx_mps_queue_init_def g mps_get_buf_size_entry_def demo_pool_def mps_queue_init_def
      mps_inv_alloc_def kalloc.simps queue_fill.simps zero_head_def KSEG1ADDR_def PHYSADDR_def Let_def)
  have b: "ifx_mps_is_mps_buffer 0x80100000 = 1"
    by (simp add: ifx_mps_is_mps_buffer_def PHYSADDR_def CPU1_RAM_PHYADDR_BEGIN_def)
  from free_queue_starts_full [OF g _ _ _ _ i _ b, of _ _ "\<lambda>_. 1600"] i show ?thesis
    by (simp add: demo_pool_def)
qed

end
