(* ===== verification/Mps_Device.thy ===== *)
theory Mps_Device
  imports Mps_Fifo Mps_Pool
begin

text \<open>
  The device layer of the dual-core driver (\<open>mps_tpe_device.c\<close>): the mailbox devices and their set-up
  in the shared SRAM, reset and release of CPU1, the registry of callbacks, sending to and receiving
  from the mailboxes, the interrupt handlers that drain a mailbox into a queue of received messages,
  and the tasklets that hand these to the callbacks.  A node is one CPU's driver together with the
  hardware it sees; the SRAM and the buffer pools are what two nodes share.  The configuration is
  the repository's (\<open>kernel_config\<close>): \<open>CONFIG_PROC_FS\<close>, no interrupt mitigation, no kernel threads;
  the image of CPU1 is built with \<open>CONFIG_DANUBE_CORE1\<close>, that of CPU0 without.
\<close>

section \<open>Data\<close>

datatype mps_devices = Unknown | Command_dev | Wifi0_dev | Wifi1_dev | Wifi2_dev | Wifi3_dev

record semaphore =
  sem_addr :: u32
  sem_count :: int

record MbxEventRegs_s =
  MPS_Ad0Reg :: u32
  MPS_Ad1Reg :: u32
  MPS_VCStatReg :: "u32 list"

record mps_mbx_dev =
  sem_dev :: "semaphore option"
  sem_read_fifo :: "semaphore option"
  upstrm_fifo :: mps_fifo
  dwstrm_fifo :: mps_fifo
  RxnumIRQs :: nat
  TxnumIRQs :: nat
  RxnumBytes :: nat
  TxnumBytes :: nat
  devID :: mps_devices
  Installed :: bool
  event_mask :: MbxEventRegs_s
  wakeup_pending :: "semaphore option"

text \<open>A callback is known by its address, 0 is \<open>NULL\<close>.\<close>

record mps_comm_dev =
  dev_flags :: u32
  wifi_mbx :: "mps_mbx_dev list"
  command_mbx :: mps_mbx_dev
  callback_function :: "u8 \<Rightarrow> u32"
  event :: MbxEventRegs_s
  dev_wakeup_pending :: "semaphore option"

text \<open>The queue of received messages holds addresses of allocated copies.\<close>

record mps_datamsg_list =
  dm_circular_buf :: "nat \<Rightarrow> u32"
  dm_rpos :: nat
  dm_wpos :: nat

datatype rcv_queue = Data_msgs | Cmd_msgs

record mps_node =
  cpu_id :: nat
  dev :: mps_comm_dev
  sram :: mem
  rcu_rst_req :: u32
  ad0enr :: u32
  sad0sr :: u32
  cad0sr :: u32
  cpu0_2_cpu1_irr :: u32
  cpu0_2_cpu1_icr :: u32
  cpu0_2_cpu1_ier :: u32
  rcvDataMsgQ :: mps_datamsg_list
  rcvCmdMsgQ :: mps_datamsg_list
  messages :: "u32 \<Rightarrow> u32 list"
  kmem :: heap
  pool_array_ptr :: u32
  cpu1_entry_base :: u32
  pools :: mps_pools
  calls :: "(u32 \<times> u32 list) list"
  data_tasklet :: bool
  cmd_tasklet :: bool

definition MPSDRV_NUM_WIFI_CHANNEL :: nat where "MPSDRV_NUM_WIFI_CHANNEL = 2"
definition MBX_CMD_FIFO_SIZE :: u32 where "MBX_CMD_FIFO_SIZE = 64"
definition MBX_DATA_FIFO_SIZE :: u32 where "MBX_DATA_FIFO_SIZE = 128"
definition MBX_BASEADDRESS :: u32 where "MBX_BASEADDRESS = 0xBF200000"
definition MBX_UPSTRM_CMD_FIFO_BASE :: u32 where "MBX_UPSTRM_CMD_FIFO_BASE = MBX_BASEADDRESS + 32 + 32"
definition MBX_DNSTRM_CMD_FIFO_BASE :: u32 where
  "MBX_DNSTRM_CMD_FIFO_BASE = MBX_UPSTRM_CMD_FIFO_BASE + MBX_CMD_FIFO_SIZE"
definition MBX_UPSTRM_DATA_FIFO_BASE :: u32 where
  "MBX_UPSTRM_DATA_FIFO_BASE = MBX_DNSTRM_CMD_FIFO_BASE + MBX_CMD_FIFO_SIZE"
definition MBX_DNSTRM_DATA_FIFO_BASE :: u32 where
  "MBX_DNSTRM_DATA_FIFO_BASE = MBX_UPSTRM_DATA_FIFO_BASE + MBX_DATA_FIFO_SIZE"

text \<open>The words of \<open>mps_mbx_reg\<close> at the start of the SRAM; the boot configurations of the CPUs follow
  the sixteen definition words and \<open>MBX_DATA[96]\<close>.\<close>

abbreviation (input) MBX_UPSTR_CMD_BASE :: nat where "MBX_UPSTR_CMD_BASE \<equiv> 0"
abbreviation (input) MBX_UPSTR_CMD_SIZE :: nat where "MBX_UPSTR_CMD_SIZE \<equiv> 1"
abbreviation (input) MBX_DNSTR_CMD_BASE :: nat where "MBX_DNSTR_CMD_BASE \<equiv> 2"
abbreviation (input) MBX_DNSTR_CMD_SIZE :: nat where "MBX_DNSTR_CMD_SIZE \<equiv> 3"
abbreviation (input) MBX_UPSTR_DATA_BASE :: nat where "MBX_UPSTR_DATA_BASE \<equiv> 4"
abbreviation (input) MBX_UPSTR_DATA_SIZE :: nat where "MBX_UPSTR_DATA_SIZE \<equiv> 5"
abbreviation (input) MBX_DNSTR_DATA_BASE :: nat where "MBX_DNSTR_DATA_BASE \<equiv> 6"
abbreviation (input) MBX_DNSTR_DATA_SIZE :: nat where "MBX_DNSTR_DATA_SIZE \<equiv> 7"
abbreviation (input) MBX_UPSTR_CMD_READ :: nat where "MBX_UPSTR_CMD_READ \<equiv> 8"
abbreviation (input) MBX_UPSTR_CMD_WRITE :: nat where "MBX_UPSTR_CMD_WRITE \<equiv> 9"
abbreviation (input) MBX_DNSTR_CMD_READ :: nat where "MBX_DNSTR_CMD_READ \<equiv> 10"
abbreviation (input) MBX_DNSTR_CMD_WRITE :: nat where "MBX_DNSTR_CMD_WRITE \<equiv> 11"
abbreviation (input) MBX_UPSTR_DATA_READ :: nat where "MBX_UPSTR_DATA_READ \<equiv> 12"
abbreviation (input) MBX_UPSTR_DATA_WRITE :: nat where "MBX_UPSTR_DATA_WRITE \<equiv> 13"
abbreviation (input) MBX_DNSTR_DATA_READ :: nat where "MBX_DNSTR_DATA_READ \<equiv> 14"
abbreviation (input) MBX_DNSTR_DATA_WRITE :: nat where "MBX_DNSTR_DATA_WRITE \<equiv> 15"
abbreviation (input) CPU0_CP0_STATUS :: nat where "CPU0_CP0_STATUS \<equiv> 115"
abbreviation (input) CPU0_BOOT_SIZE :: nat where "CPU0_BOOT_SIZE \<equiv> 118"
abbreviation (input) CPU0_CFG_STAT :: nat where "CPU0_CFG_STAT \<equiv> 119"
abbreviation (input) CPU1_BOOT_RVEC :: nat where "CPU1_BOOT_RVEC \<equiv> 120"
abbreviation (input) CPU1_BOOT_SIZE :: nat where "CPU1_BOOT_SIZE \<equiv> 126"
abbreviation (input) CPU1_CFG_STAT :: nat where "CPU1_CFG_STAT \<equiv> 127"

definition no_events :: MbxEventRegs_s where
  "no_events = \<lparr>MPS_Ad0Reg = 0, MPS_Ad1Reg = 0, MPS_VCStatReg = replicate 4 0\<rparr>"

section \<open>The queue of received messages\<close>

definition MAX_MPS_DATAMSG_QLEN :: nat where "MAX_MPS_DATAMSG_QLEN = 1024"

definition MPS_DATAMSG_NEXT_Q_POS :: "nat \<Rightarrow> nat" where
  "MPS_DATAMSG_NEXT_Q_POS pos = (if pos < MAX_MPS_DATAMSG_QLEN then pos + 1 else 0)"

definition MPS_DATAMSG_IS_Q_FULL :: "mps_datamsg_list \<Rightarrow> bool" where
  "MPS_DATAMSG_IS_Q_FULL q \<longleftrightarrow> MPS_DATAMSG_NEXT_Q_POS (dm_wpos q) = dm_rpos q"

definition MPS_DATAMSG_IS_Q_EMPTY :: "mps_datamsg_list \<Rightarrow> bool" where
  "MPS_DATAMSG_IS_Q_EMPTY q \<longleftrightarrow> dm_rpos q = dm_wpos q"

definition mps_datamsg_queue_init :: "mps_datamsg_list \<Rightarrow> mps_datamsg_list" where
  "mps_datamsg_queue_init q = q\<lparr>dm_rpos := 0, dm_wpos := 0,
     dm_circular_buf := (\<lambda>i. if i < MAX_MPS_DATAMSG_QLEN then 0 else dm_circular_buf q i)\<rparr>"

definition rcv_q :: "rcv_queue \<Rightarrow> mps_node \<Rightarrow> mps_datamsg_list" where
  "rcv_q w n = (case w of Data_msgs \<Rightarrow> rcvDataMsgQ n | Cmd_msgs \<Rightarrow> rcvCmdMsgQ n)"

definition set_rcv_q :: "rcv_queue \<Rightarrow> mps_datamsg_list \<Rightarrow> mps_node \<Rightarrow> mps_node" where
  "set_rcv_q w q n = (case w of Data_msgs \<Rightarrow> n\<lparr>rcvDataMsgQ := q\<rparr> | Cmd_msgs \<Rightarrow> n\<lparr>rcvCmdMsgQ := q\<rparr>)"

text \<open>\<open>truesize\<close> as in the buffer pools.  CPU1 returns a buffer to CPU0's pool.\<close>

definition mps_dev_kfree_skb_any ::
  "(u32 \<Rightarrow> nat) \<Rightarrow> u32 \<Rightarrow> u8 \<Rightarrow> mps_node \<Rightarrow> fault + s32 \<times> mps_node" where
  "mps_dev_kfree_skb_any truesize buf seq n =
     (if cpu_id n \<noteq> MPS_CPU_0_ID then
        (case ifx_mps_fast_free_mps_buf (cpu_id n) truesize buf seq (pools n) of
           Inl f \<Rightarrow> Inl f | Inr (rc, ps) \<Rightarrow> Inr (rc, n\<lparr>pools := ps\<rparr>))
      else Inr (0, n\<lparr>pools := (pools n)\<lparr>kernel := kfree_as Dev_kfree_skb_any buf (kernel (pools n))\<rparr>\<rparr>))"

text \<open>The third word of a message is \<open>msg_buf_addr\<close>.\<close>

definition mps_datamsg_enqueue_tail ::
  "(u32 \<Rightarrow> nat) \<Rightarrow> u32 \<Rightarrow> rcv_queue \<Rightarrow> mps_node \<Rightarrow> fault + s32 \<times> mps_node" where
  "mps_datamsg_enqueue_tail truesize buf w n =
     (let q = rcv_q w n in
      if MPS_DATAMSG_IS_Q_FULL q then
        (case mps_dev_kfree_skb_any truesize (messages n buf ! 2) (of_nat (msg_seqno (messages n buf ! 0))) n of
           Inl f \<Rightarrow> Inl f | Inr (_, n1) \<Rightarrow> Inr (- ENOMEM, n1))
      else Inr (0, set_rcv_q w (q\<lparr>dm_circular_buf := (dm_circular_buf q)(dm_wpos q := buf),
        dm_wpos := MPS_DATAMSG_NEXT_Q_POS (dm_wpos q)\<rparr>) n))"

definition mps_datamsg_dequeue_head :: "rcv_queue \<Rightarrow> mps_node \<Rightarrow> u32 \<times> mps_node" where
  "mps_datamsg_dequeue_head w n =
     (let q = rcv_q w n in
      if MPS_DATAMSG_IS_Q_EMPTY q then (0, n)
      else (dm_circular_buf q (dm_rpos q), set_rcv_q w (q\<lparr>dm_rpos := MPS_DATAMSG_NEXT_Q_POS (dm_rpos q)\<rparr>) n))"

section \<open>CPU identity, version and ready bits\<close>

definition ifx_mpsdrv_get_cpu_id :: "u32 \<Rightarrow> nat" where
  "ifx_mpsdrv_get_cpu_id ebase_cpu_num = (if ebase_cpu_num AND 0x03FF = 0 then MPS_CPU_0_ID else MPS_CPU_1_ID)"

definition ifx_mpsdrv_get_fw_version :: s32 where
  "ifx_mpsdrv_get_fw_version = 10005"

definition MPS_MPS1_APPS_READY_FP :: u32 where "MPS_MPS1_APPS_READY_FP = 0x4F6B0000"
definition MPS_MPS1_APPS_READY_FP_MASK :: u32 where "MPS_MPS1_APPS_READY_FP_MASK = 0xFFFF0000"
definition MPS_MPS1_APPS_READY_BITMASK :: u32 where "MPS_MPS1_APPS_READY_BITMASK = 0x0000FFFF"

definition ifx_mpsdrv_ctrl_mps1_apps_ready_bit :: "nat \<Rightarrow> nat \<Rightarrow> mem \<Rightarrow> mem" where
  "ifx_mpsdrv_ctrl_mps1_apps_ready_bit clr_set bitn m =
     (let mps1_ready = m CPU1_BOOT_SIZE;
          r = (if MPS_MPS1_APPS_READY_FP = mps1_ready AND MPS_MPS1_APPS_READY_FP_MASK then
                 (if clr_set \<noteq> 0 then mps1_ready OR push_bit bitn 1
                  else mps1_ready AND NOT (push_bit bitn 1))
               else (if clr_set \<noteq> 0 then MPS_MPS1_APPS_READY_FP OR push_bit bitn 1
                     else MPS_MPS1_APPS_READY_FP))
      in m(CPU1_BOOT_SIZE := r))"

definition ifx_mpsdrv_get_mps1_apps_ready_bits :: "mem \<Rightarrow> u32" where
  "ifx_mpsdrv_get_mps1_apps_ready_bits m =
     (if MPS_MPS1_APPS_READY_FP = m CPU1_BOOT_SIZE AND MPS_MPS1_APPS_READY_FP_MASK
      then m CPU1_BOOT_SIZE AND MPS_MPS1_APPS_READY_BITMASK else 0)"

section \<open>Callbacks\<close>

definition ifx_mpsdrv_register_callback :: "u8 \<Rightarrow> u32 \<Rightarrow> mps_node \<Rightarrow> s32 \<times> mps_node" where
  "ifx_mpsdrv_register_callback seq_num callback n =
     (if callback_function (dev n) seq_num \<noteq> 0 then (ERROR, n)
      else (OK, n\<lparr>dev := (dev n)\<lparr>callback_function := (callback_function (dev n))(seq_num := callback)\<rparr>\<rparr>))"

definition ifx_mpsdrv_unregister_callback :: "u8 \<Rightarrow> mps_node \<Rightarrow> s32 \<times> mps_node" where
  "ifx_mpsdrv_unregister_callback seq_num n =
     (if callback_function (dev n) seq_num = 0 then (ERROR, n)
      else (OK, n\<lparr>dev := (dev n)\<lparr>callback_function := (callback_function (dev n))(seq_num := 0)\<rparr>\<rparr>))"

section \<open>Set-up of the structures\<close>

text \<open>The word of the SRAM that an uncached address names.\<close>

definition sram_index :: "u32 \<Rightarrow> nat" where
  "sram_index a = unat (a - MBX_BASEADDRESS) div 4"

definition setup_fifo :: "mem \<Rightarrow> nat \<Rightarrow> nat \<Rightarrow> nat \<Rightarrow> nat \<Rightarrow> nat \<Rightarrow> mps_fifo" where
  "setup_fifo m base siz wr rd space =
     \<lparr>pstart = sram_index (KSEG1ADDR (m base)),
      pend = sram_index (KSEG1ADDR (m base)) + unat (drop_bit 2 (m siz - 4)),
      pwrite_off = wr, pread_off = rd, fifo_size = unat (m siz), min_space = unat (m space)\<rparr>"

text \<open>What only CPU0 does: clear the definition area, publish the mailboxes and the address of the
  pool array, and start CPU1 if its entry point is known.\<close>

definition publish_mailboxes :: "u32 \<Rightarrow> mem \<Rightarrow> mem" where
  "publish_mailboxes pool_array m =
     (\<lambda>i. if i < 112 then 0 else m i)
       (MBX_UPSTR_CMD_BASE := PHYSADDR MBX_UPSTRM_CMD_FIFO_BASE, MBX_UPSTR_CMD_SIZE := MBX_CMD_FIFO_SIZE,
        MBX_DNSTR_CMD_BASE := PHYSADDR MBX_DNSTRM_CMD_FIFO_BASE, MBX_DNSTR_CMD_SIZE := MBX_CMD_FIFO_SIZE,
        MBX_UPSTR_DATA_BASE := PHYSADDR MBX_UPSTRM_DATA_FIFO_BASE, MBX_UPSTR_DATA_SIZE := MBX_DATA_FIFO_SIZE,
        MBX_DNSTR_DATA_BASE := PHYSADDR MBX_DNSTRM_DATA_FIFO_BASE, MBX_DNSTR_DATA_SIZE := MBX_DATA_FIFO_SIZE,
        MBX_UPSTR_CMD_READ := 0, MBX_UPSTR_CMD_WRITE := 0, MBX_DNSTR_CMD_READ := 0, MBX_DNSTR_CMD_WRITE := 0,
        MBX_UPSTR_DATA_READ := 0, MBX_UPSTR_DATA_WRITE := 0, MBX_DNSTR_DATA_READ := 0, MBX_DNSTR_DATA_WRITE := 0,
        CPU0_BOOT_SIZE := NOT pool_array, CPU0_CFG_STAT := pool_array,
        CPU1_CFG_STAT := 0, CPU0_CP0_STATUS := 0)"

definition DANUBE_RCU_RST_REQ_CPU1 :: u32 where "DANUBE_RCU_RST_REQ_CPU1 = 8"

definition kick_cpu1 :: "mps_node \<Rightarrow> mps_node" where
  "kick_cpu1 n =
     (if cpu1_entry_base n \<noteq> 0 then
        n\<lparr>rcu_rst_req := ((rcu_rst_req n OR DANUBE_RCU_RST_REQ_CPU1) OR 0x20000000) AND NOT 8,
          sram := (sram n)(CPU1_BOOT_SIZE := 0, CPU1_BOOT_RVEC := cpu1_entry_base n)\<rparr>
      else n)"

text \<open>\<open>kmalloc\<close> and \<open>sema_init\<close>; only for the first semaphore of a data mailbox does the code check
  for a failed allocation.\<close>

definition new_sem :: "int \<Rightarrow> heap \<Rightarrow> (fault + semaphore) \<times> heap" where
  "new_sem c h = (case kalloc h of
     (p, h1) \<Rightarrow> (if p = 0 then Inl Null_deref else Inr \<lparr>sem_addr = p, sem_count = c\<rparr>, h1))"

definition zero_fifo :: mps_fifo where
  "zero_fifo = \<lparr>pstart = 0, pend = 0, pwrite_off = 0, pread_off = 0, fifo_size = 0, min_space = 0\<rparr>"

definition zero_mbx :: mps_mbx_dev where
  "zero_mbx = \<lparr>sem_dev = None, sem_read_fifo = None, upstrm_fifo = zero_fifo, dwstrm_fifo = zero_fifo,
     RxnumIRQs = 0, TxnumIRQs = 0, RxnumBytes = 0, TxnumBytes = 0, devID = Unknown, Installed = False,
     event_mask = no_events, wakeup_pending = None\<rparr>"

definition zero_dev :: mps_comm_dev where
  "zero_dev = \<lparr>dev_flags = 0, wifi_mbx = [zero_mbx, zero_mbx], command_mbx = zero_mbx,
     callback_function = (\<lambda>_. 0), event = no_events, dev_wakeup_pending = None\<rparr>"

definition init_command_mbx :: "mem \<Rightarrow> heap \<Rightarrow> fault + mps_mbx_dev \<times> heap" where
  "init_command_mbx m h =
     (case new_sem 1 h of
        (Inl f, _) \<Rightarrow> Inl f
      | (Inr sd, h1) \<Rightarrow>
        (case new_sem 0 h1 of
           (Inl f, _) \<Rightarrow> Inl f
         | (Inr sr, h2) \<Rightarrow>
             Inr (zero_mbx\<lparr>sem_dev := Some sd, sem_read_fifo := Some sr,
               upstrm_fifo := setup_fifo m MBX_UPSTR_CMD_BASE MBX_UPSTR_CMD_SIZE MBX_UPSTR_CMD_WRITE
                 MBX_UPSTR_CMD_READ MBX_UPSTR_CMD_SIZE,
               dwstrm_fifo := setup_fifo m MBX_DNSTR_CMD_BASE MBX_DNSTR_CMD_SIZE MBX_DNSTR_CMD_WRITE
                 MBX_DNSTR_CMD_READ MBX_DNSTR_CMD_SIZE\<rparr>, h2)))"

text \<open>The flag says whether the set-up went on; if not, the code has left with \<open>return (ERROR)\<close>.\<close>

definition init_wifi_mbx :: "mem \<Rightarrow> heap \<Rightarrow> fault + bool \<times> mps_mbx_dev \<times> heap" where
  "init_wifi_mbx m h =
     (let w = zero_mbx\<lparr>
          upstrm_fifo := setup_fifo m MBX_UPSTR_DATA_BASE MBX_UPSTR_DATA_SIZE MBX_UPSTR_DATA_WRITE
            MBX_UPSTR_DATA_READ MBX_UPSTR_DATA_SIZE,
          dwstrm_fifo := setup_fifo m MBX_DNSTR_DATA_BASE MBX_DNSTR_DATA_SIZE MBX_DNSTR_DATA_WRITE
            MBX_DNSTR_DATA_READ MBX_UPSTR_DATA_SIZE\<rparr> in
      case new_sem 1 h of
        (Inl f, h1) \<Rightarrow> Inr (False, w, h1)
      | (Inr sd, h1) \<Rightarrow>
        (case new_sem 0 h1 of
           (Inl f, _) \<Rightarrow> Inl f
         | (Inr sr, h2) \<Rightarrow>
           (case new_sem 1 h2 of
              (Inl f, _) \<Rightarrow> Inl f
            | (Inr wp, h3) \<Rightarrow>
                Inr (True, w\<lparr>sem_dev := Some sd, sem_read_fifo := Some sr, wakeup_pending := Some wp\<rparr>, h3))))"

text \<open>\<open>pool_array\<close> is the address that \<open>ifx_mps_buff_pool_array_get\<close> returns on CPU0.\<close>

definition ifx_mpsdrv_initial_structures :: "u32 \<Rightarrow> mps_node \<Rightarrow> fault + s32 \<times> mps_node" where
  "ifx_mpsdrv_initial_structures pool_array n0 =
     (let n = (if cpu_id n0 = MPS_CPU_0_ID
               then kick_cpu1 (n0\<lparr>sram := publish_mailboxes pool_array (sram n0)\<rparr>)
               else n0\<lparr>pool_array_ptr := sram n0 CPU0_CFG_STAT\<rparr>);
          m = sram n in
      case init_command_mbx m (kmem n) of
        Inl f \<Rightarrow> Inl f
      | Inr (cmd, h1) \<Rightarrow>
        (case init_wifi_mbx m h1 of
           Inl f \<Rightarrow> Inl f
         | Inr (False, w0, h2) \<Rightarrow>
             Inr (ERROR, n\<lparr>dev := zero_dev\<lparr>command_mbx := cmd, wifi_mbx := [w0, zero_mbx]\<rparr>, kmem := h2\<rparr>)
         | Inr (True, w0, h2) \<Rightarrow>
           (case init_wifi_mbx m h2 of
              Inl f \<Rightarrow> Inl f
            | Inr (False, w1, h3) \<Rightarrow>
                Inr (ERROR, n\<lparr>dev := zero_dev\<lparr>command_mbx := cmd, wifi_mbx := [w0, w1]\<rparr>, kmem := h3\<rparr>)
            | Inr (True, w1, h3) \<Rightarrow>
              (case new_sem 1 h3 of
                 (Inl f, _) \<Rightarrow> Inl f
               | (Inr wp, h4) \<Rightarrow>
                   Inr (OK, n\<lparr>dev := zero_dev\<lparr>command_mbx := cmd\<lparr>devID := Command_dev\<rparr>,
                       wifi_mbx := [w0\<lparr>devID := Wifi0_dev\<rparr>, w1\<lparr>devID := Wifi1_dev\<rparr>],
                       dev_wakeup_pending := Some wp\<rparr>,
                     kmem := h4, rcvDataMsgQ := mps_datamsg_queue_init (rcvDataMsgQ n),
                     rcvCmdMsgQ := mps_datamsg_queue_init (rcvCmdMsgQ n)\<rparr>)))))"

definition free_sem :: "semaphore option \<Rightarrow> heap \<Rightarrow> heap" where
  "free_sem s h = kfree_as Kfree (case s of None \<Rightarrow> 0 | Some x \<Rightarrow> sem_addr x) h"

definition release_wifi :: "mps_mbx_dev \<Rightarrow> heap \<Rightarrow> heap" where
  "release_wifi w h = free_sem (wakeup_pending w) (free_sem (sem_read_fifo w) (free_sem (sem_dev w) h))"

definition ifx_mpsdrv_release_structures :: "mps_node \<Rightarrow> mps_node" where
  "ifx_mpsdrv_release_structures n =
     n\<lparr>kmem := free_sem (dev_wakeup_pending (dev n))
        (fold release_wifi (take MPSDRV_NUM_WIFI_CHANNEL (wifi_mbx (dev n)))
          (free_sem (sem_dev (command_mbx (dev n))) (kmem n)))\<rparr>"

section \<open>Reset and release of CPU1\<close>

definition sem_up_if_zero :: "semaphore option \<Rightarrow> fault + semaphore option" where
  "sem_up_if_zero s = (case s of None \<Rightarrow> Inl Null_deref
     | Some x \<Rightarrow> Inr (Some (if sem_count x = 0 then x\<lparr>sem_count := 1\<rparr> else x)))"

definition reset_counters :: "mps_mbx_dev \<Rightarrow> mps_mbx_dev" where
  "reset_counters w = w\<lparr>TxnumIRQs := 0, RxnumIRQs := 0, TxnumBytes := 0, RxnumBytes := 0,
     upstrm_fifo := (upstrm_fifo w)\<lparr>min_space := fifo_size (upstrm_fifo w)\<rparr>,
     dwstrm_fifo := (dwstrm_fifo w)\<lparr>min_space := fifo_size (dwstrm_fifo w)\<rparr>\<rparr>"

definition clear_mbx :: "mps_mbx_dev \<Rightarrow> mem \<Rightarrow> mem" where
  "clear_mbx w m = ifx_mpsdrv_fifo_clear (upstrm_fifo w) (ifx_mpsdrv_fifo_clear (dwstrm_fifo w) m)"

fun reset_wifi :: "mps_mbx_dev list \<Rightarrow> mem \<Rightarrow> fault + mps_mbx_dev list \<times> mem" where
  "reset_wifi [] m = Inr ([], m)"
| "reset_wifi (w # ws) m =
     (case sem_up_if_zero (wakeup_pending w) of
        Inl f \<Rightarrow> Inl f
      | Inr wp \<Rightarrow>
        (case reset_wifi ws (clear_mbx w m) of
           Inl f \<Rightarrow> Inl f
         | Inr (ws', m') \<Rightarrow> Inr (reset_counters (w\<lparr>wakeup_pending := wp\<rparr>) # ws', m')))"

definition ifx_mpsdrv_reset_structures :: "mps_node \<Rightarrow> fault + s32 \<times> mps_node" where
  "ifx_mpsdrv_reset_structures n =
     (case reset_wifi (wifi_mbx (dev n)) (sram n) of
        Inl f \<Rightarrow> Inl f
      | Inr (ws, m1) \<Rightarrow>
          let d = dev n; m2 = clear_mbx (command_mbx d) m1 in
          (case sem_up_if_zero (dev_wakeup_pending d) of
             Inl f \<Rightarrow> Inl f
           | Inr wp \<Rightarrow>
               Inr (OK, n\<lparr>sram := m2, dev := d\<lparr>wifi_mbx := ws, command_mbx := reset_counters (command_mbx d),
                 dev_wakeup_pending := wp, callback_function := (\<lambda>_. 0)\<rparr>\<rparr>)))"

text \<open>The result of \<open>ifx_mpsdrv_reset_structures\<close> is ignored.\<close>

definition ifx_mpsdrv_reset :: "mps_node \<Rightarrow> fault + s32 \<times> mps_node" where
  "ifx_mpsdrv_reset n =
     (if cpu_id n \<noteq> MPS_CPU_0_ID then Inr (ERROR, n)
      else case ifx_mpsdrv_reset_structures (n\<lparr>rcu_rst_req := rcu_rst_req n OR DANUBE_RCU_RST_REQ_CPU1\<rparr>) of
        Inl f \<Rightarrow> Inl f | Inr (_, n1) \<Rightarrow> Inr (OK, n1))"

definition ifx_mpsdrv_release :: "mps_node \<Rightarrow> s32 \<times> mps_node" where
  "ifx_mpsdrv_release n =
     (if cpu_id n \<noteq> MPS_CPU_0_ID then (ERROR, n)
      else (OK, n\<lparr>rcu_rst_req := (rcu_rst_req n OR 0x20000000) AND NOT 8\<rparr>))"

text \<open>The image is copied to \<open>load_entry\<close>, which is memory outside the SRAM; only the boot registers
  are state of the driver.\<close>

definition ifx_mpsdrv_download_firmware :: "u32 \<Rightarrow> u32 \<Rightarrow> mps_node \<Rightarrow> fault + s32 \<times> mps_node" where
  "ifx_mpsdrv_download_firmware exec_entry len n =
     (case ifx_mpsdrv_reset n of
        Inl f \<Rightarrow> Inl f
      | Inr (_, n1) \<Rightarrow>
          let m = (sram n1)(CPU1_BOOT_SIZE := len, CPU1_BOOT_RVEC := exec_entry)
          in Inr (OK, snd (ifx_mpsdrv_release
               (n1\<lparr>sram := m(CPU1_CFG_STAT := m CPU1_CFG_STAT OR 0x00700000)\<rparr>))))"

definition ifx_mpsdrv_restart :: "mps_node \<Rightarrow> fault + s32 \<times> mps_node" where
  "ifx_mpsdrv_restart n = (case ifx_mpsdrv_reset n of
     Inl f \<Rightarrow> Inl f | Inr (_, n1) \<Rightarrow> Inr (OK, snd (ifx_mpsdrv_release n1)))"

section \<open>Opening and closing a mailbox device\<close>

text \<open>A mailbox device is the command mailbox or a data mailbox by its index.\<close>

datatype mbx_ref = Command | Wifi nat

definition mbx_dev :: "mbx_ref \<Rightarrow> mps_comm_dev \<Rightarrow> mps_mbx_dev" where
  "mbx_dev r d = (case r of Command \<Rightarrow> command_mbx d | Wifi i \<Rightarrow> wifi_mbx d ! i)"

definition upd_mbx :: "mbx_ref \<Rightarrow> (mps_mbx_dev \<Rightarrow> mps_mbx_dev) \<Rightarrow> mps_comm_dev \<Rightarrow> mps_comm_dev" where
  "upd_mbx r g d = (case r of Command \<Rightarrow> d\<lparr>command_mbx := g (command_mbx d)\<rparr>
     | Wifi i \<Rightarrow> d\<lparr>wifi_mbx := (wifi_mbx d)[i := g (wifi_mbx d ! i)]\<rparr>)"

text \<open>\<open>cu_mbx\<close> is bit 0 and \<open>du_mbx\<close> bit 1 of \<open>MPS_Ad0Reg_s\<close>.\<close>

definition ifx_mpsdrv_common_open :: "mbx_ref \<Rightarrow> bool \<Rightarrow> mps_node \<Rightarrow> s32 \<times> mps_node" where
  "ifx_mpsdrv_common_open r flagCmnd n =
     (if Installed (mbx_dev r (dev n)) then (ERROR, n)
      else (OK, n\<lparr>dev := upd_mbx r (\<lambda>w. w\<lparr>Installed := True\<rparr>) (dev n),
                  ad0enr := ad0enr n OR (if flagCmnd then 1 else 2)\<rparr>))"

definition ifx_mpsdrv_common_close :: "mbx_ref \<Rightarrow> mps_node \<Rightarrow> s32 \<times> mps_node" where
  "ifx_mpsdrv_common_close r n =
     (let n1 = n\<lparr>dev := upd_mbx r (\<lambda>w. w\<lparr>Installed := False\<rparr>) (dev n)\<rparr>;
          spaces = (\<lambda>sz w. w\<lparr>upstrm_fifo := (upstrm_fifo w)\<lparr>min_space := sz\<rparr>,
                             dwstrm_fifo := (dwstrm_fifo w)\<lparr>min_space := sz\<rparr>\<rparr>)
      in if devID (mbx_dev r (dev n)) \<noteq> Command_dev then
           let n2 = (if \<not> Installed (wifi_mbx (dev n1) ! 0) \<and> \<not> Installed (wifi_mbx (dev n1) ! 1)
                     then n1\<lparr>ad0enr := ad0enr n1 AND NOT 2\<rparr> else n1)
           in (OK, n2\<lparr>dev := upd_mbx r (spaces (unat MBX_DATA_FIFO_SIZE)) (dev n2)\<rparr>)
         else
           let n2 = n1\<lparr>ad0enr := ad0enr n1 AND NOT 1\<rparr>
           in (OK, n2\<lparr>dev := upd_mbx r (spaces (unat MBX_CMD_FIFO_SIZE)) (dev n2)\<rparr>))"

section \<open>Sending and receiving\<close>

datatype mps_msg_type = MPS_DATA_MSG_TYPE | MPS_CMD_MSG_TYPE | MAX_MPS_MSG_TYPE_ID

definition rx_mbx :: "nat \<Rightarrow> mps_msg_type \<Rightarrow> (mbx_ref \<times> bool) option" where
  "rx_mbx cpu t = (case t of
     MPS_DATA_MSG_TYPE \<Rightarrow> Some (if cpu = MPS_CPU_0_ID then (Wifi 0, True) else (Wifi 1, False))
   | MPS_CMD_MSG_TYPE \<Rightarrow> Some (Command, cpu = MPS_CPU_0_ID)
   | MAX_MPS_MSG_TYPE_ID \<Rightarrow> None)"

text \<open>The upstream or the downstream FIFO of a mailbox.\<close>

definition mbx_fifo :: "mbx_ref \<times> bool \<Rightarrow> mps_comm_dev \<Rightarrow> mps_fifo" where
  "mbx_fifo b d = (if snd b then upstrm_fifo (mbx_dev (fst b) d) else dwstrm_fifo (mbx_dev (fst b) d))"

definition ifx_mpsdrv_mbx_rcv :: "mps_msg_type \<Rightarrow> mps_node \<Rightarrow> s32 \<times> u32 list \<times> mps_node" where
  "ifx_mpsdrv_mbx_rcv t n = (case rx_mbx (cpu_id n) t of
     None \<Rightarrow> (ERROR, [], n)
   | Some b \<Rightarrow>
     (case fifo_rcv (mbx_fifo b (dev n)) (sram n) of
        (None, m) \<Rightarrow> (ERROR, [], n\<lparr>sram := m\<rparr>)
      | (Some ws, m) \<Rightarrow>
          (OK, ws, n\<lparr>sram := m, dev := upd_mbx (fst b)
             (\<lambda>w. w\<lparr>RxnumBytes := u32_add (RxnumBytes w) (MPS_MSGHDR_LEN + msg_len (ws ! 1))\<rparr>) (dev n)\<rparr>)))"

definition MPS_TYPE_UPSTREAM_DATA :: nat where "MPS_TYPE_UPSTREAM_DATA = 1"
definition MPS_TYPE_DOWNSTREAM_DATA :: nat where "MPS_TYPE_DOWNSTREAM_DATA = 2"
definition MPS_TYPE_UPSTREAM_CMD :: nat where "MPS_TYPE_UPSTREAM_CMD = 3"
definition MPS_TYPE_DOWNSTREAM_CMD :: nat where "MPS_TYPE_DOWNSTREAM_CMD = 4"
definition MPS_TYPE_UPSTREAM_RESPONSE :: nat where "MPS_TYPE_UPSTREAM_RESPONSE = 5"
definition MPS_TYPE_DOWNSTREAM_RESPONSE :: nat where "MPS_TYPE_DOWNSTREAM_RESPONSE = 6"
definition MPS_TYPE_UPSTREAM_APP_CMD :: nat where "MPS_TYPE_UPSTREAM_APP_CMD = 7"
definition MPS_TYPE_DOWNSTREAM_APP_CMD :: nat where "MPS_TYPE_DOWNSTREAM_APP_CMD = 8"
definition MPS_TYPE_UPSTREAM_APP_RESPONSE :: nat where "MPS_TYPE_UPSTREAM_APP_RESPONSE = 9"
definition MPS_TYPE_DOWNSTREAM_APP_RESPONSE :: nat where "MPS_TYPE_DOWNSTREAM_APP_RESPONSE = 10"

text \<open>The mailbox a message goes to, and the value that raises the interrupt on the other side.\<close>

definition tx_mbx :: "nat \<Rightarrow> nat \<Rightarrow> ((mbx_ref \<times> bool) \<times> u32) option" where
  "tx_mbx cpu t =
     (if t \<in> {MPS_TYPE_UPSTREAM_DATA, MPS_TYPE_DOWNSTREAM_DATA, MPS_TYPE_UPSTREAM_APP_CMD,
              MPS_TYPE_DOWNSTREAM_APP_CMD} then
        Some (if cpu = MPS_CPU_0_ID then ((Wifi 1, False), 0x20) else ((Wifi 0, True), 0x02))
      else if t \<in> {MPS_TYPE_UPSTREAM_CMD, MPS_TYPE_DOWNSTREAM_CMD, MPS_TYPE_UPSTREAM_RESPONSE,
              MPS_TYPE_DOWNSTREAM_RESPONSE, MPS_TYPE_UPSTREAM_APP_RESPONSE, MPS_TYPE_DOWNSTREAM_APP_RESPONSE} then
        Some (if cpu = MPS_CPU_0_ID then ((Command, False), 0x10) else ((Command, True), 0x01))
      else None)"

definition raise_irq :: "u32 \<Rightarrow> mps_node \<Rightarrow> mps_node" where
  "raise_irq v n = (if cpu_id n = MPS_CPU_0_ID then n\<lparr>cpu0_2_cpu1_irr := v\<rparr> else n\<lparr>sad0sr := v\<rparr>)"

definition upd_fifo :: "mbx_ref \<times> bool \<Rightarrow> (mps_fifo \<Rightarrow> mps_fifo) \<Rightarrow> mps_comm_dev \<Rightarrow> mps_comm_dev" where
  "upd_fifo b g d = upd_mbx (fst b) (\<lambda>w. if snd b then w\<lparr>upstrm_fifo := g (upstrm_fifo w)\<rparr>
     else w\<lparr>dwstrm_fifo := g (dwstrm_fifo w)\<rparr>) d"

text \<open>The message is a list of words; \<open>msg2->val1 |= 0x8000\<close> marks it ready in the caller's buffer
  before it is written.\<close>

definition mark_ready :: "u32 list \<Rightarrow> u32 list" where
  "mark_ready ws = ws[1 := ws ! 1 OR 0x8000]"

definition ifx_mpsdrv_mbx_send :: "u32 list \<Rightarrow> mps_node \<Rightarrow> s32 \<times> mps_node" where
  "ifx_mpsdrv_mbx_send msg n =
     (let msg_bytes = MPS_MSGHDR_LEN + msg_len (msg ! 1) in
      case tx_mbx (cpu_id n) (msg_type (msg ! 0)) of
        None \<Rightarrow> (- ENOMSG, n)
      | Some (b, irq) \<Rightarrow>
          let mbx = mbx_fifo b (dev n) in
          if \<not> ifx_mpsdrv_fifo_mem_request mbx msg_bytes (sram n) then (- EAGAIN, n)
          else (case ifx_mpsdrv_fifo_write mbx (mark_ready msg) msg_bytes (sram n) of
                  (rc, m) \<Rightarrow>
                    if rc \<noteq> OK then (- ENOMEM, n\<lparr>sram := m\<rparr>)
                    else let n1 = raise_irq irq (n\<lparr>sram := m\<rparr>);
                             av = ifx_mpsdrv_fifo_mem_available mbx m
                         in (OK, n1\<lparr>dev := upd_fifo b
                              (\<lambda>f. if min_space f < av then f\<lparr>min_space := av\<rparr> else f) (dev n1)\<rparr>)))"

section \<open>Draining a mailbox\<close>

text \<open>\<open>sizeof(mps_data_message)\<close> in words: the two words of the header and the union of the message
  contents, the largest member of which has four.\<close>

definition DATA_MESSAGE_WORDS :: nat where "DATA_MESSAGE_WORDS = 6"

text \<open>The loop that the four \<open>_ifx_mpsdrv_mbx_read_...Msg\<close> functions share.  Every pass takes a message
  out of the FIFO, so it needs at most as many as the FIFO has words; without that fuel the loop would
  not end.\<close>

fun mbx_drain ::
  "(u32 \<Rightarrow> nat) \<Rightarrow> nat \<Rightarrow> mps_fifo \<Rightarrow> rcv_queue \<Rightarrow> nat \<Rightarrow> mps_node \<Rightarrow> fault + nat \<times> mps_node" where
  "mbx_drain truesize fuel mbx w num_msg n =
     (case ifx_mpsdrv_fifo_not_empty mbx (sram n) of
        (False, m) \<Rightarrow> Inr (num_msg, n\<lparr>sram := m\<rparr>)
      | (True, m) \<Rightarrow>
        (case fuel of
           0 \<Rightarrow> Inl No_return
         | Suc fuel' \<Rightarrow>
           (case ifx_mpsdrv_fifo_read mbx m of
              (None, _) \<Rightarrow> Inl Null_deref
            | (Some pMsg, m1) \<Rightarrow>
                let words = msg_4bytes (MPS_MSGHDR_LEN + msg_len (m1 (pMsg + 1)));
                    (pDataMsg, h1) = kalloc (kmem n);
                    n1 = n\<lparr>sram := m1, kmem := h1\<rparr>
                in if pDataMsg = 0 then Inr (num_msg, n1)
                   else (case mps_datamsg_enqueue_tail truesize pDataMsg w
                            (n1\<lparr>messages := (messages n1)(pDataMsg := words_at m1 pMsg DATA_MESSAGE_WORDS)\<rparr>) of
                           Inl f \<Rightarrow> Inl f
                         | Inr (_, n2) \<Rightarrow>
                             mbx_drain truesize fuel' mbx w (num_msg + 1)
                               (n2\<lparr>sram := ifx_mpsdrv_fifo_read_ptr_inc mbx words (sram n2)\<rparr>)))))"

declare mbx_drain.simps [simp del]

definition ifx_mpsdrv_mbx_read_dsdMsg :: "(u32 \<Rightarrow> nat) \<Rightarrow> mps_node \<Rightarrow> fault + nat \<times> mps_node" where
  "ifx_mpsdrv_mbx_read_dsdMsg truesize n =
     (let mbx = dwstrm_fifo (wifi_mbx (dev n) ! 1) in mbx_drain truesize (fifo_size mbx) mbx Data_msgs 0 n)"

definition ifx_mpsdrv_mbx_read_dscMsg :: "(u32 \<Rightarrow> nat) \<Rightarrow> mps_node \<Rightarrow> fault + nat \<times> mps_node" where
  "ifx_mpsdrv_mbx_read_dscMsg truesize n =
     (let mbx = dwstrm_fifo (command_mbx (dev n)) in mbx_drain truesize (fifo_size mbx) mbx Cmd_msgs 0 n)"

definition ifx_mpsdrv_mbx_read_usdMsg :: "(u32 \<Rightarrow> nat) \<Rightarrow> mps_node \<Rightarrow> fault + nat \<times> mps_node" where
  "ifx_mpsdrv_mbx_read_usdMsg truesize n =
     (let mbx = upstrm_fifo (wifi_mbx (dev n) ! 0) in mbx_drain truesize (fifo_size mbx) mbx Data_msgs 0 n)"

definition ifx_mpsdrv_mbx_read_uscMsg :: "(u32 \<Rightarrow> nat) \<Rightarrow> mps_node \<Rightarrow> fault + nat \<times> mps_node" where
  "ifx_mpsdrv_mbx_read_uscMsg truesize n =
     (let mbx = upstrm_fifo (command_mbx (dev n)) in mbx_drain truesize (fifo_size mbx) mbx Cmd_msgs 0 n)"

section \<open>Tasklets\<close>

text \<open>A callback's invocation is recorded with the address of the function and the message; what the
  function does is its owner's business.  Every pass takes one element out of the queue, which has at
  most \<open>MAX_MPS_DATAMSG_QLEN\<close>.\<close>

fun mbx_dispatch :: "nat \<Rightarrow> rcv_queue \<Rightarrow> mps_node \<Rightarrow> fault + mps_node" where
  "mbx_dispatch fuel w n =
     (case mps_datamsg_dequeue_head w n of
        (pMsg, n1) \<Rightarrow>
          if pMsg = 0 then Inr n1
          else case fuel of 0 \<Rightarrow> Inl No_return
            | Suc fuel' \<Rightarrow>
                let msg = messages n1 pMsg; cb = callback_function (dev n1) (of_nat (msg_seqno (msg ! 0)));
                    n2 = (if cb \<noteq> 0 then n1\<lparr>calls := calls n1 @ [(cb, msg)]\<rparr> else n1)
                in mbx_dispatch fuel' w (n2\<lparr>kmem := kfree_as Kfree pMsg (kmem n2)\<rparr>))"

declare mbx_dispatch.simps [simp del]

definition ifx_mpsdrv_mbx_data_downstream :: "mps_node \<Rightarrow> fault + mps_node" where
  "ifx_mpsdrv_mbx_data_downstream n = mbx_dispatch (MAX_MPS_DATAMSG_QLEN + 1) Data_msgs n"

definition ifx_mpsdrv_mbx_cmd_downstream :: "mps_node \<Rightarrow> fault + mps_node" where
  "ifx_mpsdrv_mbx_cmd_downstream n = mbx_dispatch (MAX_MPS_DATAMSG_QLEN + 1) Cmd_msgs n"

definition ifx_mpsdrv_mbx_data_upstream :: "mps_node \<Rightarrow> fault + mps_node" where
  "ifx_mpsdrv_mbx_data_upstream n = mbx_dispatch (MAX_MPS_DATAMSG_QLEN + 1) Data_msgs n"

definition ifx_mpsdrv_mbx_cmd_upstream :: "mps_node \<Rightarrow> fault + mps_node" where
  "ifx_mpsdrv_mbx_cmd_upstream n = mbx_dispatch (MAX_MPS_DATAMSG_QLEN + 1) Cmd_msgs n"

definition ifx_mps_cpu1_do_DnData_tasklet :: "mps_node \<Rightarrow> fault + mps_node" where
  "ifx_mps_cpu1_do_DnData_tasklet n = ifx_mpsdrv_mbx_data_downstream (n\<lparr>data_tasklet := False\<rparr>)"

definition ifx_mps_cpu1_do_DnCmd_tasklet :: "mps_node \<Rightarrow> fault + mps_node" where
  "ifx_mps_cpu1_do_DnCmd_tasklet n = ifx_mpsdrv_mbx_cmd_downstream (n\<lparr>cmd_tasklet := False\<rparr>)"

definition ifx_mps_cpu0_do_UpData_tasklet :: "mps_node \<Rightarrow> fault + mps_node" where
  "ifx_mps_cpu0_do_UpData_tasklet n = ifx_mpsdrv_mbx_data_upstream (n\<lparr>data_tasklet := False\<rparr>)"

definition ifx_mps_cpu0_do_UpCmd_tasklet :: "mps_node \<Rightarrow> fault + mps_node" where
  "ifx_mps_cpu0_do_UpCmd_tasklet n = ifx_mpsdrv_mbx_cmd_upstream (n\<lparr>cmd_tasklet := False\<rparr>)"

section \<open>Interrupt handlers\<close>

text \<open>The network devices of CPU1: for a device name the statistics block its \<open>get_wireless_stats\<close> or
  \<open>get_stats\<close> returns, 0 when there is no such device or function.  Device \<open>i < 4\<close> is \<open>ath<i>\<close>.\<close>

record net_stats =
  ath_wireless_stats :: "nat \<Rightarrow> u32"
  ath_stats :: "nat \<Rightarrow> u32"
  wifi0_stats :: u32

definition stats_request :: "net_stats \<Rightarrow> mem \<Rightarrow> mem" where
  "stats_request net m =
     (if m CPU0_CP0_STATUS = 0 then m
      else
        let mask = m CPU0_CP0_STATUS;
            stats = (case find (\<lambda>i. bit mask i) [0..<4] of
                Some i \<Rightarrow> (if bit mask 31 then ath_wireless_stats net i else ath_stats net i)
              | None \<Rightarrow> (if bit mask 30 then wifi0_stats net else 0))
        in m(CPU1_BOOT_SIZE := stats, CPU0_CP0_STATUS := 0))"

definition count_irq :: "mps_node \<Rightarrow> mps_node" where
  "count_irq n = n\<lparr>dev := upd_mbx Command (\<lambda>w. w\<lparr>RxnumIRQs := u32_add (RxnumIRQs w) 1\<rparr>) (dev n)\<rparr>"

text \<open>\<open>irdr\<close> and \<open>rad0sr\<close> are the values of the status registers that the handlers read.\<close>

definition ifx_mpsdrv_cmd1_irq ::
  "(u32 \<Rightarrow> nat) \<Rightarrow> net_stats \<Rightarrow> u32 \<Rightarrow> mps_node \<Rightarrow> fault + mps_node" where
  "ifx_mpsdrv_cmd1_irq truesize net irdr n0 =
     (let n = n0\<lparr>cpu0_2_cpu1_icr := 0x10\<rparr> in
      if bit irdr 4 then
        (case ifx_mpsdrv_mbx_read_dscMsg truesize (n\<lparr>sram := stats_request net (sram n)\<rparr>) of
           Inl f \<Rightarrow> Inl f
         | Inr (num, n1) \<Rightarrow> Inr (count_irq (if num \<noteq> 0 then n1\<lparr>cmd_tasklet := True\<rparr> else n1)))
      else Inr (count_irq n))"

definition ifx_mpsdrv_data1_irq :: "(u32 \<Rightarrow> nat) \<Rightarrow> u32 \<Rightarrow> mps_node \<Rightarrow> fault + mps_node" where
  "ifx_mpsdrv_data1_irq truesize irdr n0 =
     (let n = n0\<lparr>cpu0_2_cpu1_icr := 0x20\<rparr> in
      if bit irdr 5 then
        (case ifx_mpsdrv_mbx_read_dsdMsg truesize n of
           Inl f \<Rightarrow> Inl f
         | Inr (num, n1) \<Rightarrow> Inr (count_irq (if num \<noteq> 0 then n1\<lparr>data_tasklet := True\<rparr> else n1)))
      else Inr (count_irq n))"

definition ifx_mpsdrv_cmd0_irq :: "(u32 \<Rightarrow> nat) \<Rightarrow> u32 \<Rightarrow> mps_node \<Rightarrow> fault + mps_node" where
  "ifx_mpsdrv_cmd0_irq truesize rad0sr n0 =
     (let d = dev n0;
          n = n0\<lparr>cad0sr := rad0sr, dev := d\<lparr>event := (event d)
                \<lparr>MPS_Ad0Reg := rad0sr AND MPS_Ad0Reg (event_mask (command_mbx d))\<rparr>\<rparr>\<rparr>;
          data = (if bit rad0sr 1 then
              (case ifx_mpsdrv_mbx_read_usdMsg truesize n of
                 Inl f \<Rightarrow> Inl f
               | Inr (num, n1) \<Rightarrow> Inr (if num \<noteq> 0 then n1\<lparr>data_tasklet := True\<rparr> else n1))
            else Inr n)
      in case data of
           Inl f \<Rightarrow> Inl f
         | Inr n1 \<Rightarrow>
           (if bit rad0sr 0 then
              (case ifx_mpsdrv_mbx_read_uscMsg truesize n1 of
                 Inl f \<Rightarrow> Inl f
               | Inr (num, n2) \<Rightarrow> Inr (count_irq (if num \<noteq> 0 then n2\<lparr>cmd_tasklet := True\<rparr> else n2)))
            else Inr (count_irq n1)))"

text \<open>\<open>request_irq\<close>'s results are an argument, one per request.\<close>

definition ifx_mpsdrv_init_IRQs :: "s32 \<Rightarrow> s32 \<Rightarrow> mps_node \<Rightarrow> s32 \<times> mps_node" where
  "ifx_mpsdrv_init_IRQs r1 r2 n0 =
     (let n = n0\<lparr>cmd_tasklet := False, data_tasklet := False\<rparr> in
      if cpu_id n \<noteq> MPS_CPU_0_ID then
        (if r1 \<noteq> 0 then (r1, n) else if r2 \<noteq> 0 then (r2, n)
         else (OK, n\<lparr>cpu0_2_cpu1_ier := 0x30\<rparr>))
      else if r1 \<noteq> 0 then (r1, n) else (OK, n\<lparr>ad0enr := 3\<rparr>))"

section \<open>The queue of received messages as a list\<close>

definition dm_ring :: "mps_datamsg_list \<Rightarrow> mps_buff_head" where
  "dm_ring q = \<lparr>circular_buf = 1, slots = dm_circular_buf q, maxcount = MAX_MPS_DATAMSG_QLEN,
     rpos = dm_rpos q, wpos = dm_wpos q\<rparr>"

definition dm_inv :: "mps_datamsg_list \<Rightarrow> bool" where
  "dm_inv q \<longleftrightarrow> ring_inv (dm_ring q)"

definition dm_list :: "mps_datamsg_list \<Rightarrow> u32 list" where
  "dm_list q = ring_list (dm_ring q)"

lemma dm_next: "MPS_DATAMSG_NEXT_Q_POS p = MPS_NEXT_Q_POS p MAX_MPS_DATAMSG_QLEN"
  by (simp add: MPS_DATAMSG_NEXT_Q_POS_def MPS_NEXT_Q_POS_def)

lemma dm_full: "MPS_DATAMSG_IS_Q_FULL q = MPS_IS_Q_FULL (Some (dm_ring q))"
  by (simp add: MPS_DATAMSG_IS_Q_FULL_def MPS_IS_Q_FULL_def dm_next dm_ring_def)

lemma dm_empty: "dm_inv q \<Longrightarrow> MPS_DATAMSG_IS_Q_EMPTY q \<longleftrightarrow> dm_list q = []"
  using queue_empty_iff [of "dm_ring q"]
  by (simp add: MPS_DATAMSG_IS_Q_EMPTY_def MPS_IS_Q_EMPTY_def dm_inv_def dm_list_def dm_ring_def)

lemma dm_len: "length (dm_list q) = ring_len (dm_ring q)"
  by (simp add: dm_list_def)

lemma rcv_q_set [simp]: "rcv_q w (set_rcv_q w q n) = q"
  by (cases w) (simp_all add: rcv_q_def set_rcv_q_def)

lemma set_rcv_q_frame [simp]:
  "sram (set_rcv_q w q n) = sram n" "dev (set_rcv_q w q n) = dev n" "kmem (set_rcv_q w q n) = kmem n"
  "messages (set_rcv_q w q n) = messages n" "calls (set_rcv_q w q n) = calls n"
  "cpu_id (set_rcv_q w q n) = cpu_id n"
  by (cases w; simp add: set_rcv_q_def)+

lemma rcv_q_frame [simp]:
  "rcv_q w (n\<lparr>sram := m\<rparr>) = rcv_q w n" "rcv_q w (n\<lparr>kmem := h\<rparr>) = rcv_q w n"
  "rcv_q w (n\<lparr>messages := ms\<rparr>) = rcv_q w n" "rcv_q w (n\<lparr>calls := cs\<rparr>) = rcv_q w n"
  by (cases w; simp add: rcv_q_def)+

lemma set_rcv_q_twice [simp]:
  "set_rcv_q w q' ((set_rcv_q w q n)\<lparr>sram := m, kmem := h, messages := ms\<rparr>)
     = set_rcv_q w q' (n\<lparr>sram := m, kmem := h, messages := ms\<rparr>)"
  "set_rcv_q w q' ((set_rcv_q w q n)\<lparr>kmem := h, calls := cs\<rparr>) = set_rcv_q w q' (n\<lparr>kmem := h, calls := cs\<rparr>)"
  by (cases w; simp add: set_rcv_q_def)+

lemma set_rcv_q_same [simp]: "set_rcv_q w (rcv_q w n) n = n"
  by (cases w) (simp_all add: rcv_q_def set_rcv_q_def)

lemma dm_enqueue:
  assumes "dm_inv (rcv_q w n)" and "length (dm_list (rcv_q w n)) < MAX_MPS_DATAMSG_QLEN"
  obtains q' where "mps_datamsg_enqueue_tail truesize p w n = Inr (0, set_rcv_q w q' n)" "dm_inv q'"
    "dm_list q' = dm_list (rcv_q w n) @ [p]"
proof -
  let ?q = "rcv_q w n"
  let ?q' = "?q\<lparr>dm_circular_buf := (dm_circular_buf ?q)(dm_wpos ?q := p),
    dm_wpos := MPS_DATAMSG_NEXT_Q_POS (dm_wpos ?q)\<rparr>"
  have inv: "ring_inv (dm_ring ?q)" and room: "ring_len (dm_ring ?q) < maxcount (dm_ring ?q)"
    using assms by (simp_all add: dm_inv_def dm_len) (simp add: dm_ring_def)
  have r: "dm_ring ?q' = (dm_ring ?q)\<lparr>slots := (slots (dm_ring ?q))(wpos (dm_ring ?q) := p),
      wpos := MPS_NEXT_Q_POS (wpos (dm_ring ?q)) (maxcount (dm_ring ?q))\<rparr>"
    by (simp add: dm_ring_def dm_next)
  have "\<not> MPS_DATAMSG_IS_Q_FULL ?q" using queue_full_iff [OF inv] room by (simp add: dm_full)
  then have "mps_datamsg_enqueue_tail truesize p w n = Inr (0, set_rcv_q w ?q' n)"
    by (simp add: mps_datamsg_enqueue_tail_def Let_def)
  with ring_enqueue [OF inv room r] that show thesis by (simp add: dm_inv_def dm_list_def)
qed

lemma dm_dequeue_Cons:
  assumes "dm_inv (rcv_q w n)" and "dm_list (rcv_q w n) = p # ps"
  obtains q' where "mps_datamsg_dequeue_head w n = (p, set_rcv_q w q' n)" "dm_inv q'" "dm_list q' = ps"
proof -
  let ?q = "rcv_q w n"
  let ?q' = "?q\<lparr>dm_rpos := MPS_DATAMSG_NEXT_Q_POS (dm_rpos ?q)\<rparr>"
  have ne: "\<not> MPS_DATAMSG_IS_Q_EMPTY ?q" using assms dm_empty by simp
  then have ne': "rpos (dm_ring ?q) \<noteq> wpos (dm_ring ?q)"
    by (simp add: MPS_DATAMSG_IS_Q_EMPTY_def dm_ring_def)
  have inv: "ring_inv (dm_ring ?q)" using assms by (simp add: dm_inv_def)
  have r: "dm_ring ?q' = (dm_ring ?q)\<lparr>rpos := MPS_NEXT_Q_POS (rpos (dm_ring ?q)) (maxcount (dm_ring ?q))\<rparr>"
    by (simp add: dm_ring_def dm_next)
  note st = ring_step [OF inv ne' r]
  have "p = dm_circular_buf ?q (dm_rpos ?q)" "ring_list (dm_ring ?q') = ps"
    using st(2) assms(2) by (simp_all add: dm_list_def) (simp add: dm_ring_def)
  with st ne that show thesis
    by (simp add: mps_datamsg_dequeue_head_def dm_inv_def dm_list_def Let_def)
qed

lemma dm_dequeue_Nil:
  "dm_inv (rcv_q w n) \<Longrightarrow> dm_list (rcv_q w n) = [] \<Longrightarrow> mps_datamsg_dequeue_head w n = (0, n)"
  by (simp add: mps_datamsg_dequeue_head_def dm_empty)

section \<open>Draining\<close>

text \<open>A copy of \<open>DATA_MESSAGE_WORDS\<close> words carries a message as far as both go.\<close>

definition carries :: "u32 list \<Rightarrow> u32 list \<Rightarrow> bool" where
  "carries x c \<longleftrightarrow> length c = DATA_MESSAGE_WORDS \<and> take (length x) c = take DATA_MESSAGE_WORDS x"

lemma words_at_take: "words_at m a (min k l) = take k (words_at m a l)"
  by (rule nth_equalityI) auto

lemma carries_words_at:
  assumes "words_at m a (length x) = x"
  shows "carries x (words_at m a DATA_MESSAGE_WORDS)"
proof -
  have "take (length x) (words_at m a DATA_MESSAGE_WORDS) = words_at m a (min (length x) DATA_MESSAGE_WORDS)"
    by (simp add: words_at_take)
  also have "\<dots> = take DATA_MESSAGE_WORDS (words_at m a (length x))"
    using words_at_take [of m a DATA_MESSAGE_WORDS "length x"] by (simp add: min.commute)
  finally show ?thesis using assms by (simp add: carries_def)
qed

lemma fifo_not_empty_frame:
  assumes ne: "ifx_mpsdrv_fifo_not_empty f m = (b, m1)"
  shows "same_outside f m m1"
  using ne by (auto simp: ifx_mpsdrv_fifo_not_empty_def same_outside_def footprint_def Let_def split: if_splits)

lemma drain_Nil:
  assumes "wf_fifo f" and "fifo_holds f (sram n) []"
  obtains m where "mbx_drain ts fuel f w c n = Inr (c, n\<lparr>sram := m\<rparr>)" "drained f m" "same_outside f (sram n) m"
proof -
  obtain b m where ne: "ifx_mpsdrv_fifo_not_empty f (sram n) = (b, m)"
    by (cases "ifx_mpsdrv_fifo_not_empty f (sram n)")
  note h = fifo_not_empty_holds [OF assms ne]
  with ne that fifo_not_empty_frame [OF ne] show thesis by (simp add: mbx_drain.simps drained_def)
qed

lemma drain_Cons:
  assumes f: "wf_fifo f" and h: "fifo_holds f (sram n) (x # q)"
    and q: "dm_inv (rcv_q w n)" "length (dm_list (rcv_q w n)) < MAX_MPS_DATAMSG_QLEN"
    and k: "kalloc (kmem n) = (p, h1)" "p \<noteq> 0"
  obtains q' m content where
    "mbx_drain ts (Suc fuel) f w c n = mbx_drain ts fuel f w (c + 1)
       (set_rcv_q w q' (n\<lparr>sram := m, kmem := h1, messages := (messages n)(p := content)\<rparr>))"
    "fifo_holds f m q" "dm_inv q'" "dm_list q' = dm_list (rcv_q w n) @ [p]" "carries x content"
    "same_outside f (sram n) m"
proof -
  obtain b m where ne: "ifx_mpsdrv_fifo_not_empty f (sram n) = (b, m)"
    by (cases "ifx_mpsdrv_fifo_not_empty f (sram n)")
  note h1 = fifo_not_empty_holds(1,2) [OF f h ne]
  obtain r m1 where rd: "ifx_mpsdrv_fifo_read f m = (r, m1)" by (cases "ifx_mpsdrv_fifo_read f m")
  note h2 = fifo_read_holds [OF f h1(1) rd]
  have nw: "\<not> msg_next_wrapped (m1 (val1 f (rd_off f m1)))" using h2(3) by simp
  let ?a = "pstart f + rd_off f m1"
  from fifo_front(2) [OF h2(1) nw refl] have x: "wf_msg x" and wd: "words_at m1 ?a (length x) = x" by auto
  have "x ! 1 = m1 (?a + 1)"
    using wd wf_msg_length [OF x] words_at_nth [of 1 "length x" m1 ?a] by simp
  then have len: "msg_4bytes (MPS_MSGHDR_LEN + msg_len (m1 (?a + 1))) = length x"
    using x by (simp add: wf_msg_def msg_words_def)
  let ?c = "words_at m1 ?a DATA_MESSAGE_WORDS"
  let ?n = "n\<lparr>sram := m1, kmem := h1, messages := (messages n)(p := ?c)\<rparr>"
  have "dm_inv (rcv_q w ?n)" "length (dm_list (rcv_q w ?n)) < MAX_MPS_DATAMSG_QLEN" using q by simp_all
  from dm_enqueue [OF this, of ts p] obtain q' where
    e: "mps_datamsg_enqueue_tail ts p w ?n = Inr (0, set_rcv_q w q' ?n)" "dm_inv q'"
      "dm_list q' = dm_list (rcv_q w n) @ [p]" by auto
  let ?m2 = "ifx_mpsdrv_fifo_read_ptr_inc f (length x) m1"
  have "(set_rcv_q w q' ?n)\<lparr>sram := ?m2\<rparr> = set_rcv_q w q' (n\<lparr>sram := ?m2, kmem := h1, messages := (messages n)(p := ?c)\<rparr>)"
    by (cases w) (simp_all add: set_rcv_q_def)
  then have "mbx_drain ts (Suc fuel) f w c n = mbx_drain ts fuel f w (c + 1)
       (set_rcv_q w q' (n\<lparr>sram := ?m2, kmem := h1, messages := (messages n)(p := ?c)\<rparr>))"
    using ne h1(2) rd h2(2) k e(1) len by (simp add: mbx_drain.simps [of ts "Suc fuel"] Let_def)
  moreover have "fifo_holds f ?m2 q" by (rule fifo_release [OF f h2(1) nw])
  moreover have "same_outside f (sram n) ?m2"
    using fifo_not_empty_frame [OF ne] fifo_read_frame [OF rd] fifo_read_ptr_inc_frame [OF h2(1)]
    by (simp add: same_outside_def [abs_def])
  ultimately show thesis using that e carries_words_at [OF wd] by blast
qed

lemma kalloc_upcoming:
  "upcoming h = p # ps \<Longrightarrow> kalloc h = (p, h\<lparr>upcoming := ps\<rparr>)"
  by (simp add: kalloc.simps)

lemma drain_spec:
  assumes "wf_fifo f" and "fifo_holds f (sram n) q" and "length q \<le> fuel"
    and "dm_inv (rcv_q w n)" and "length (dm_list (rcv_q w n)) + length q \<le> MAX_MPS_DATAMSG_QLEN"
    and "upcoming (kmem n) = ps @ rest" and "length ps = length q" and "0 \<notin> set ps" and "distinct ps"
  shows "\<exists>q' m' ms'. mbx_drain ts fuel f w c n = Inr (c + length q,
      set_rcv_q w q' (n\<lparr>sram := m', kmem := (kmem n)\<lparr>upcoming := rest\<rparr>, messages := ms'\<rparr>))
    \<and> drained f m' \<and> same_outside f (sram n) m' \<and> dm_inv q' \<and> dm_list q' = dm_list (rcv_q w n) @ ps
    \<and> list_all2 carries q (map ms' ps) \<and> (\<forall>p. p \<notin> set ps \<longrightarrow> ms' p = messages n p)"
  using assms
proof (induction q arbitrary: fuel c n ps)
  case Nil
  obtain m where d: "mbx_drain ts fuel f w c n = Inr (c, n\<lparr>sram := m\<rparr>)" "drained f m" "same_outside f (sram n) m"
    using drain_Nil [OF Nil.prems(1,2)] by metis
  have "n\<lparr>sram := m\<rparr> = set_rcv_q w (rcv_q w n) (n\<lparr>sram := m, kmem := (kmem n)\<lparr>upcoming := rest\<rparr>, messages := messages n\<rparr>)"
    using Nil.prems(6,7) by (cases w) (simp_all add: set_rcv_q_def rcv_q_def)
  with d Nil show ?case by (intro exI [of _ "rcv_q w n"] exI [of _ m] exI [of _ "messages n"]) simp
next
  case (Cons x q)
  from Cons.prems obtain p ps' where ps: "ps = p # ps'" by (cases ps) auto
  from Cons.prems obtain fuel' where fuel: "fuel = Suc fuel'" by (cases fuel) auto
  have k: "kalloc (kmem n) = (p, (kmem n)\<lparr>upcoming := ps' @ rest\<rparr>)" "p \<noteq> 0"
    using Cons.prems ps by (auto intro: kalloc_upcoming)
  have room: "length (dm_list (rcv_q w n)) < MAX_MPS_DATAMSG_QLEN" using Cons.prems(5) by simp
  obtain q1 m content where st: "mbx_drain ts fuel f w c n = mbx_drain ts fuel' f w (c + 1)
      (set_rcv_q w q1 (n\<lparr>sram := m, kmem := (kmem n)\<lparr>upcoming := ps' @ rest\<rparr>, messages := (messages n)(p := content)\<rparr>))"
    and s: "fifo_holds f m q" "dm_inv q1" "dm_list q1 = dm_list (rcv_q w n) @ [p]" "carries x content"
      "same_outside f (sram n) m"
    using drain_Cons [OF Cons.prems(1,2,4) room k, of ts fuel' c] fuel by metis
  let ?n = "set_rcv_q w q1 (n\<lparr>sram := m, kmem := (kmem n)\<lparr>upcoming := ps' @ rest\<rparr>, messages := (messages n)(p := content)\<rparr>)"
  have "\<exists>q' m' ms'. mbx_drain ts fuel' f w (c + 1) ?n = Inr (c + 1 + length q,
      set_rcv_q w q' (?n\<lparr>sram := m', kmem := (kmem ?n)\<lparr>upcoming := rest\<rparr>, messages := ms'\<rparr>))
    \<and> drained f m' \<and> same_outside f (sram ?n) m' \<and> dm_inv q' \<and> dm_list q' = dm_list (rcv_q w ?n) @ ps'
    \<and> list_all2 carries q (map ms' ps') \<and> (\<forall>p. p \<notin> set ps' \<longrightarrow> ms' p = messages ?n p)"
    by (rule Cons.IH) (use Cons.prems ps fuel s in auto)
  then obtain q' m' ms' where r: "mbx_drain ts fuel' f w (c + 1) ?n = Inr (c + 1 + length q,
      set_rcv_q w q' (n\<lparr>sram := m', kmem := (kmem n)\<lparr>upcoming := rest\<rparr>, messages := ms'\<rparr>))"
    "drained f m'" "same_outside f m m'" "dm_inv q'" "dm_list q' = dm_list (rcv_q w n) @ ps"
    "list_all2 carries q (map ms' ps')" "\<And>p'. p' \<notin> set ps' \<Longrightarrow> ms' p' = ((messages n)(p := content)) p'"
    using s(3) ps by auto
  have "ms' p = content" using r(7) [of p] Cons.prems(9) ps by simp
  moreover have "ms' p' = messages n p'" if "p' \<notin> set ps" for p' using r(7) [of p'] that ps by simp
  ultimately show ?case
    using st r s(4) same_outside_trans [OF s(5) r(3)] ps by (intro exI [of _ q'] exI [of _ m'] exI [of _ ms']) simp
qed

section \<open>Dispatching\<close>

text \<open>The callback invocations for a list of messages.\<close>

definition invocations :: "(u8 \<Rightarrow> u32) \<Rightarrow> u32 list list \<Rightarrow> (u32 \<times> u32 list) list" where
  "invocations cb cs = filter (\<lambda>e. fst e \<noteq> 0) (map (\<lambda>c. (cb (of_nat (msg_seqno (c ! 0))), c)) cs)"

lemma dispatch_spec:
  assumes "dm_inv (rcv_q w n)" and "dm_list (rcv_q w n) = ps" and "length ps \<le> fuel" and "0 \<notin> set ps"
  shows "\<exists>q'. mbx_dispatch fuel w n = Inr (set_rcv_q w q' (n\<lparr>
      kmem := (kmem n)\<lparr>freed := freed (kmem n) @ map (Pair Kfree) ps\<rparr>,
      calls := calls n @ invocations (callback_function (dev n)) (map (messages n) ps)\<rparr>))
    \<and> dm_inv q' \<and> dm_list q' = []"
  using assms
proof (induction ps arbitrary: fuel n)
  case Nil
  then show ?case
    using dm_dequeue_Nil [OF Nil.prems(1,2)]
    by (intro exI [of _ "rcv_q w n"]) (cases w; simp add: mbx_dispatch.simps invocations_def set_rcv_q_def rcv_q_def)
next
  case (Cons p ps)
  from Cons.prems obtain fuel' where fuel: "fuel = Suc fuel'" by (cases fuel) auto
  obtain q1 where d: "mps_datamsg_dequeue_head w n = (p, set_rcv_q w q1 n)" "dm_inv q1" "dm_list q1 = ps"
    using dm_dequeue_Cons [OF Cons.prems(1,2)] by metis
  let ?cb = "callback_function (dev n)" and ?msg = "messages n p"
  let ?cs = "calls n @ invocations ?cb [?msg]"
  let ?n = "(set_rcv_q w q1 n)\<lparr>calls := ?cs, kmem := kfree_as Kfree p (kmem n)\<rparr>"
  have st: "mbx_dispatch fuel w n = mbx_dispatch fuel' w ?n"
    using d fuel Cons.prems(4)
    by (cases w) (simp_all add: mbx_dispatch.simps [of "Suc fuel'"] invocations_def Let_def set_rcv_q_def)
  have "dm_inv (rcv_q w ?n)" "dm_list (rcv_q w ?n) = ps" using d by simp_all
  from Cons.IH [OF this, of fuel'] Cons.prems fuel obtain q' where
    "mbx_dispatch fuel' w ?n = Inr (set_rcv_q w q' (?n\<lparr>
      kmem := (kmem ?n)\<lparr>freed := freed (kmem ?n) @ map (Pair Kfree) ps\<rparr>,
      calls := calls ?n @ invocations (callback_function (dev ?n)) (map (messages ?n) ps)\<rparr>))"
    "dm_inv q'" "dm_list q' = []" by auto
  then show ?case
    by (intro exI [of _ q']) (simp add: st kfree_as_def invocations_def)
qed

section \<open>Sending\<close>

lemma wf_fifo_space [simp]: "wf_fifo (f\<lparr>min_space := k\<rparr>) = wf_fifo f"
  by (simp add: wf_fifo_def fifo_words_def region_def)

lemma segment_space [simp]: "segment (f\<lparr>min_space := k\<rparr>) m p q e = segment f m p q e"
  by (induction q arbitrary: p) simp_all

lemma fifo_holds_space [simp]: "fifo_holds (f\<lparr>min_space := k\<rparr>) m q = fifo_holds f m q"
  by (simp add: fifo_holds_def straight_def wrapped_def fifo_words_def)

lemma mark_ready_wf:
  assumes "length msg = msg_words (msg ! 1)" and "\<not> msg_next_wrapped (msg ! 1)"
  shows "wf_msg (mark_ready msg)" and "msg_len (mark_ready msg ! 1) = msg_len (msg ! 1)"
    and "mark_ready msg ! 0 = msg ! 0"
proof -
  have "1 < length msg" using assms(1) msg_words_bounds(1) [of "msg ! 1"] by simp
  then have 1: "mark_ready msg ! 1 = msg ! 1 OR 0x8000" by (simp add: mark_ready_def)
  then show "msg_len (mark_ready msg ! 1) = msg_len (msg ! 1)" by simp
  show "mark_ready msg ! 0 = msg ! 0" by (simp add: mark_ready_def)
  show "wf_msg (mark_ready msg)"
    using assms 1 by (simp add: wf_msg_def msg_words_def) (simp add: mark_ready_def)
qed

lemma raise_irq_frame [simp]:
  "sram (raise_irq v n) = sram n" "dev (raise_irq v n) = dev n" "cpu_id (raise_irq v n) = cpu_id n"
  by (simp_all add: raise_irq_def)

text \<open>The register through which a node interrupts the other.\<close>

definition irq_out :: "mps_node \<Rightarrow> u32" where
  "irq_out n = (if cpu_id n = MPS_CPU_0_ID then cpu0_2_cpu1_irr n else sad0sr n)"

lemma send_spec:
  assumes tx: "tx_mbx (cpu_id n) (msg_type (msg ! 0)) = Some (b, irq)"
    and f: "wf_fifo (mbx_fifo b (dev n))" and h: "fifo_holds (mbx_fifo b (dev n)) (sram n) q"
    and msg: "length msg = msg_words (msg ! 1)" "\<not> msg_next_wrapped (msg ! 1)"
    and send: "ifx_mpsdrv_mbx_send msg n = (rc, n')"
  shows "rc = OK \<and> fifo_holds (mbx_fifo b (dev n)) (sram n') (q @ [mark_ready msg]) \<and> irq_out n' = irq
    \<or> (rc = - EAGAIN \<or> rc = - ENOMEM) \<and> fifo_holds (mbx_fifo b (dev n)) (sram n') q
        \<and> irq_out n' = irq_out n \<and> dev n' = dev n"
proof (cases "ifx_mpsdrv_fifo_mem_request (mbx_fifo b (dev n)) (MPS_MSGHDR_LEN + msg_len (msg ! 1)) (sram n)")
  case False
  with tx send h show ?thesis by (auto simp: ifx_mpsdrv_mbx_send_def)
next
  case True
  note w = mark_ready_wf [OF msg]
  let ?f = "mbx_fifo b (dev n)"
  obtain r m where wr: "ifx_mpsdrv_fifo_write ?f (mark_ready msg)
      (MPS_MSGHDR_LEN + msg_len (mark_ready msg ! 1)) (sram n) = (r, m)"
    by (cases "ifx_mpsdrv_fifo_write ?f (mark_ready msg) (MPS_MSGHDR_LEN + msg_len (mark_ready msg ! 1)) (sram n)")
  show ?thesis
  proof (cases "r = OK")
    case ok: True
    then have "fifo_holds ?f m (q @ [mark_ready msg])" using fifo_write_accept [OF f h w(1)] wr by simp
    with ok True tx send wr w(2) show ?thesis
      by (auto simp: ifx_mpsdrv_mbx_send_def irq_out_def raise_irq_def Let_def)
  next
    case False
    with fifo_write_refuse [OF f h w(1) wr] have "fifo_holds ?f m q" by simp
    with False True tx send wr w(2) show ?thesis
      by (auto simp: ifx_mpsdrv_mbx_send_def irq_out_def Let_def)
  qed
qed

section \<open>The set-up of the mailboxes\<close>

definition mailboxes :: "mps_comm_dev \<Rightarrow> mps_fifo list" where
  "mailboxes d = [upstrm_fifo (command_mbx d), dwstrm_fifo (command_mbx d),
     upstrm_fifo (wifi_mbx d ! 0), dwstrm_fifo (wifi_mbx d ! 1)]"

definition published :: "mem \<Rightarrow> bool" where
  "published m \<longleftrightarrow> m 0 = 0x1F200040 \<and> m 1 = 64 \<and> m 2 = 0x1F200080 \<and> m 3 = 64
     \<and> m 4 = 0x1F2000C0 \<and> m 5 = 128 \<and> m 6 = 0x1F200140 \<and> m 7 = 128"

definition std_mailboxes :: "mps_fifo list" where
  "std_mailboxes =
    [\<lparr>pstart = 16, pend = 31, pwrite_off = 9, pread_off = 8, fifo_size = 64, min_space = 64\<rparr>,
     \<lparr>pstart = 32, pend = 47, pwrite_off = 11, pread_off = 10, fifo_size = 64, min_space = 64\<rparr>,
     \<lparr>pstart = 48, pend = 79, pwrite_off = 13, pread_off = 12, fifo_size = 128, min_space = 128\<rparr>,
     \<lparr>pstart = 80, pend = 111, pwrite_off = 15, pread_off = 14, fifo_size = 128, min_space = 128\<rparr>]"

lemma std_mailboxes_wf: "list_all wf_fifo std_mailboxes"
  by (simp add: std_mailboxes_def wf_fifo_def fifo_words_def region_def)

lemma std_mailboxes_disjoint: "pairwise (\<lambda>f g. footprint f \<inter> footprint g = {}) (set std_mailboxes)"
  by (auto simp: std_mailboxes_def pairwise_def footprint_def region_def fifo_words_def)

lemma std_mailboxes_empty: "(\<And>i. 8 \<le> i \<Longrightarrow> i < 112 \<Longrightarrow> m i = 0) \<Longrightarrow> list_all (\<lambda>f. fifo_holds f m []) std_mailboxes"
  by (auto simp: std_mailboxes_def fifo_words_def intro!: fifo_holds_empty)

lemma setup_published:
  assumes "published m"
  shows "setup_fifo m 0 1 9 8 1 = std_mailboxes ! 0" "setup_fifo m 2 3 11 10 3 = std_mailboxes ! 1"
    "setup_fifo m 4 5 13 12 5 = std_mailboxes ! 2" "setup_fifo m 6 7 15 14 5 = std_mailboxes ! 3"
  using assms
  by (simp_all add: published_def setup_fifo_def sram_index_def KSEG1ADDR_def PHYSADDR_def MBX_BASEADDRESS_def
    std_mailboxes_def)

lemma init_mailboxes:
  assumes "ifx_mpsdrv_initial_structures pa n = Inr (OK, n')"
    and "published (if cpu_id n = MPS_CPU_0_ID
      then sram (kick_cpu1 (n\<lparr>sram := publish_mailboxes pa (sram n)\<rparr>)) else sram n)"
  shows "mailboxes (dev n') = std_mailboxes"
    and "sram n' = (if cpu_id n = MPS_CPU_0_ID
      then sram (kick_cpu1 (n\<lparr>sram := publish_mailboxes pa (sram n)\<rparr>)) else sram n)"
    and "cpu_id n \<noteq> MPS_CPU_0_ID \<Longrightarrow> pool_array_ptr n' = sram n CPU0_CFG_STAT"
proof -
  let ?n = "if cpu_id n = MPS_CPU_0_ID then kick_cpu1 (n\<lparr>sram := publish_mailboxes pa (sram n)\<rparr>)
    else n\<lparr>pool_array_ptr := sram n CPU0_CFG_STAT\<rparr>"
  have p: "published (sram ?n)" using assms(2) by (simp split: if_splits)
  obtain cmd w0 w1 wp h1 h2 h3 h4 where
    c: "init_command_mbx (sram ?n) (kmem ?n) = Inr (cmd, h1)" and
    w0: "init_wifi_mbx (sram ?n) h1 = Inr (True, w0, h2)" and
    w1: "init_wifi_mbx (sram ?n) h2 = Inr (True, w1, h3)" and
    n': "n' = ?n\<lparr>dev := zero_dev\<lparr>command_mbx := cmd\<lparr>devID := Command_dev\<rparr>,
             wifi_mbx := [w0\<lparr>devID := Wifi0_dev\<rparr>, w1\<lparr>devID := Wifi1_dev\<rparr>],
             dev_wakeup_pending := Some wp\<rparr>,
           kmem := h4, rcvDataMsgQ := mps_datamsg_queue_init (rcvDataMsgQ ?n),
           rcvCmdMsgQ := mps_datamsg_queue_init (rcvCmdMsgQ ?n)\<rparr>"
    using assms(1) unfolding ifx_mpsdrv_initial_structures_def Let_def
    by (auto split: sum.splits prod.splits bool.splits)
  have "upstrm_fifo cmd = std_mailboxes ! 0" "dwstrm_fifo cmd = std_mailboxes ! 1"
    using c setup_published [OF p] by (auto simp: init_command_mbx_def split: sum.splits prod.splits)
  moreover have "upstrm_fifo w0 = std_mailboxes ! 2" "dwstrm_fifo w1 = std_mailboxes ! 3"
    using w0 w1 setup_published [OF p] by (auto simp: init_wifi_mbx_def Let_def split: sum.splits prod.splits)
  ultimately show "mailboxes (dev n') = std_mailboxes"
    by (simp add: mailboxes_def n' std_mailboxes_def)
  show "sram n' = (if cpu_id n = MPS_CPU_0_ID
      then sram (kick_cpu1 (n\<lparr>sram := publish_mailboxes pa (sram n)\<rparr>)) else sram n)" by (simp add: n')
  show "cpu_id n \<noteq> MPS_CPU_0_ID \<Longrightarrow> pool_array_ptr n' = sram n CPU0_CFG_STAT" by (simp add: n')
qed

lemma publish_published: "published (sram (kick_cpu1 (n\<lparr>sram := publish_mailboxes pa m\<rparr>)))"
  by (simp add: published_def kick_cpu1_def publish_mailboxes_def MBX_UPSTRM_CMD_FIFO_BASE_def
    MBX_DNSTRM_CMD_FIFO_BASE_def MBX_UPSTRM_DATA_FIFO_BASE_def MBX_DNSTRM_DATA_FIFO_BASE_def
    MBX_BASEADDRESS_def MBX_CMD_FIFO_SIZE_def MBX_DATA_FIFO_SIZE_def PHYSADDR_def)

lemma publish_clears:
  "8 \<le> i \<Longrightarrow> i < 112 \<Longrightarrow> sram (kick_cpu1 (n\<lparr>sram := publish_mailboxes pa m\<rparr>)) i = 0"
  by (auto simp: kick_cpu1_def publish_mailboxes_def)

lemma publish_pool_array: "sram (kick_cpu1 (n\<lparr>sram := publish_mailboxes pa m\<rparr>)) CPU0_CFG_STAT = pa"
  by (simp add: kick_cpu1_def publish_mailboxes_def)

text \<open>A node before its set-up, with as many allocations at hand as the set-up makes.\<close>

definition demo_node :: "nat \<Rightarrow> mem \<Rightarrow> mps_node" where
  "demo_node cpu m = \<lparr>cpu_id = cpu, dev = zero_dev, sram = m, rcu_rst_req = 0, ad0enr = 0, sad0sr = 0,
     cad0sr = 0, cpu0_2_cpu1_irr = 0, cpu0_2_cpu1_icr = 0, cpu0_2_cpu1_ier = 0,
     rcvDataMsgQ = \<lparr>dm_circular_buf = (\<lambda>_. 0), dm_rpos = 0, dm_wpos = 0\<rparr>,
     rcvCmdMsgQ = \<lparr>dm_circular_buf = (\<lambda>_. 0), dm_rpos = 0, dm_wpos = 0\<rparr>,
     messages = (\<lambda>_. []), kmem = \<lparr>upcoming = [1, 2, 3, 4, 5, 6, 7, 8, 9, 10], freed = []\<rparr>,
     pool_array_ptr = 0, cpu1_entry_base = 0x80002000, pools = demo_pools, calls = [],
     data_tasklet = False, cmd_tasklet = False\<rparr>"

lemma demo_setup: "\<exists>n. ifx_mpsdrv_initial_structures pa (demo_node cpu m) = Inr (OK, n)"
  by (simp add: ifx_mpsdrv_initial_structures_def init_command_mbx_def init_wifi_mbx_def new_sem_def
    demo_node_def kick_cpu1_def kalloc.simps Let_def)

section \<open>Properties\<close>



text \<open>C14: \<open>ifx_mpsdrv_mbx_send\<close> either returns \<open>OK\<close>, having appended the message to the mailbox and
  requested the interrupt of that mailbox on the other CPU, or returns \<open>-EAGAIN\<close> or \<open>-ENOMEM\<close>, the
  mailbox holding what it held and no interrupt requested.\<close>

theorem mbx_send_outcome:
  assumes "tx_mbx (cpu_id n) (msg_type (msg ! 0)) = Some (b, irq)"
    and "wf_fifo (mbx_fifo b (dev n))" and "fifo_holds (mbx_fifo b (dev n)) (sram n) q"
    and "length msg = msg_words (msg ! 1)" and "\<not> msg_next_wrapped (msg ! 1)"
    and "ifx_mpsdrv_mbx_send msg n = (rc, n')"
  shows "rc = OK \<and> fifo_holds (mbx_fifo b (dev n)) (sram n') (q @ [mark_ready msg]) \<and> irq_out n' = irq
    \<or> (rc = - EAGAIN \<or> rc = - ENOMEM) \<and> fifo_holds (mbx_fifo b (dev n)) (sram n') q
        \<and> irq_out n' = irq_out n"
  using send_spec [OF assms] by blast

text \<open>CPU0 with a data mailbox set up for CPU1, and a data message of four words.\<close>

definition demo_cpu0 :: mps_node where
  "demo_cpu0 = (demo_node 0 (\<lambda>_. 0))\<lparr>dev := zero_dev\<lparr>wifi_mbx :=
     [zero_mbx, zero_mbx\<lparr>dwstrm_fifo := std_mailboxes ! 3\<rparr>]\<rparr>\<rparr>"

definition demo_data :: "u32 list" where
  "demo_data = [0x02140100, 0x00000008, 0x00100000, 0x00000040]"

lemma demo_data_ok: "length demo_data = msg_words (demo_data ! 1)" "\<not> msg_next_wrapped (demo_data ! 1)"
  by (simp_all add: demo_data_def msg_words_def msg_4bytes_def MPS_MSGHDR_LEN_def msg_len_def msg_next_wrapped_def)

lemma demo_cpu0_ok:
  "tx_mbx (cpu_id demo_cpu0) (msg_type (demo_data ! 0)) = Some ((Wifi 1, False), 0x20)"
  "mbx_fifo (Wifi 1, False) (dev demo_cpu0) = std_mailboxes ! 3"
  "wf_fifo (std_mailboxes ! 3)" "fifo_holds (std_mailboxes ! 3) (sram demo_cpu0) []"
proof -
  show "tx_mbx (cpu_id demo_cpu0) (msg_type (demo_data ! 0)) = Some ((Wifi 1, False), 0x20)"
    by (simp add: tx_mbx_def demo_cpu0_def demo_node_def demo_data_def msg_type_def MPS_CPU_0_ID_def
      MPS_TYPE_UPSTREAM_DATA_def MPS_TYPE_DOWNSTREAM_DATA_def)
  show "mbx_fifo (Wifi 1, False) (dev demo_cpu0) = std_mailboxes ! 3"
    by (simp add: mbx_fifo_def mbx_dev_def demo_cpu0_def)
  show "wf_fifo (std_mailboxes ! 3)" using std_mailboxes_wf by (simp add: std_mailboxes_def)
  have "list_all (\<lambda>f. fifo_holds f (sram demo_cpu0) []) std_mailboxes"
    by (rule std_mailboxes_empty) (simp add: demo_cpu0_def demo_node_def)
  then show "fifo_holds (std_mailboxes ! 3) (sram demo_cpu0) []" by (simp add: std_mailboxes_def)
qed

lemma demo_send: "fst (ifx_mpsdrv_mbx_send demo_data demo_cpu0) = OK"
proof -
  have s: "sram demo_cpu0 = (\<lambda>_. 0)" by (simp add: demo_cpu0_def demo_node_def)
  note tx = demo_cpu0_ok(1) [unfolded demo_data_def, simplified] demo_cpu0_ok(2) [simplified]
  show ?thesis
    by (simp add: ifx_mpsdrv_mbx_send_def tx ifx_mpsdrv_fifo_mem_request_def s
      ifx_mpsdrv_fifo_mem_available_def std_mailboxes_def ifx_mpsdrv_fifo_write_def demo_data_def
      MPS_MSGHDR_LEN_def msg_len_def MPS_MIN_MARGIN_def msg_4bytes_def Let_def)
qed

theorem mbx_send_outcome_witness:
  "\<exists>n'. ifx_mpsdrv_mbx_send demo_data demo_cpu0 = (OK, n')
     \<and> fifo_holds (std_mailboxes ! 3) (sram n') [mark_ready demo_data] \<and> irq_out n' = 0x20"
proof -
  obtain n' where s: "ifx_mpsdrv_mbx_send demo_data demo_cpu0 = (OK, n')"
    using demo_send by (cases "ifx_mpsdrv_mbx_send demo_data demo_cpu0") auto
  from mbx_send_outcome [OF demo_cpu0_ok(1) _ _ demo_data_ok s, of "[]"] demo_cpu0_ok s show ?thesis by simp
qed

lemma data1_served:
  assumes f: "f = dwstrm_fifo (wifi_mbx (dev n) ! 1)" "wf_fifo f" and h: "fifo_holds f (sram n) msgs"
    and q: "dm_inv (rcvDataMsgQ n)" "dm_list (rcvDataMsgQ n) = []" "length msgs \<le> MAX_MPS_DATAMSG_QLEN"
    and mem: "upcoming (kmem n) = ps @ rest" "length ps = length msgs" "0 \<notin> set ps" "distinct ps"
    and irq: "bit irdr 5" and fuel: "length msgs \<le> fifo_size f"
  shows "\<exists>n1 n2 copies. ifx_mpsdrv_data1_irq truesize irdr n = Inr n1 \<and> data_tasklet n1 = (msgs \<noteq> [] \<or> data_tasklet n)
    \<and> ifx_mps_cpu1_do_DnData_tasklet n1 = Inr n2 \<and> drained f (sram n2) \<and> cpu_id n2 = cpu_id n
    \<and> list_all2 carries msgs copies \<and> calls n2 = calls n @ invocations (callback_function (dev n)) copies
    \<and> freed (kmem n2) = freed (kmem n) @ map (Pair Kfree) ps"
proof -
  let ?n = "n\<lparr>cpu0_2_cpu1_icr := 0x20\<rparr>"
  obtain q' m' ms' where d: "mbx_drain truesize (fifo_size f) f Data_msgs 0 ?n = Inr (0 + length msgs,
      set_rcv_q Data_msgs q' (?n\<lparr>sram := m', kmem := (kmem ?n)\<lparr>upcoming := rest\<rparr>, messages := ms'\<rparr>))"
    "drained f m'" "dm_inv q'" "dm_list q' = ps" "list_all2 carries msgs (map ms' ps)"
    using drain_spec [OF f(2), of ?n msgs "fifo_size f" Data_msgs ps rest truesize 0] h q mem fuel
    by (auto simp: rcv_q_def)
  let ?d = "set_rcv_q Data_msgs q' (?n\<lparr>sram := m', kmem := (kmem ?n)\<lparr>upcoming := rest\<rparr>, messages := ms'\<rparr>)"
  define n1 where "n1 = count_irq (if msgs \<noteq> [] then ?d\<lparr>data_tasklet := True\<rparr> else ?d)"
  have i: "ifx_mpsdrv_data1_irq truesize irdr n = Inr n1"
    using d(1) irq f(1) by (simp add: ifx_mpsdrv_data1_irq_def ifx_mpsdrv_mbx_read_dsdMsg_def n1_def Let_def)
  let ?t = "n1\<lparr>data_tasklet := False\<rparr>"
  have t: "rcv_q Data_msgs ?t = q'" "sram ?t = m'" "messages ?t = ms'" "calls ?t = calls n"
    "callback_function (dev ?t) = callback_function (dev n)" "freed (kmem ?t) = freed (kmem n)"
    "data_tasklet n1 = (msgs \<noteq> [] \<or> data_tasklet n)" "cpu_id ?t = cpu_id n"
    by (simp_all add: n1_def count_irq_def upd_mbx_def rcv_q_def set_rcv_q_def)
  have len: "length ps \<le> MAX_MPS_DATAMSG_QLEN + 1" using mem q by simp
  obtain q2 where "mbx_dispatch (MAX_MPS_DATAMSG_QLEN + 1) Data_msgs ?t = Inr (set_rcv_q Data_msgs q2 (?t\<lparr>
      kmem := (kmem ?t)\<lparr>freed := freed (kmem ?t) @ map (Pair Kfree) ps\<rparr>,
      calls := calls ?t @ invocations (callback_function (dev ?t)) (map (messages ?t) ps)\<rparr>))"
    using dispatch_spec [of Data_msgs ?t ps "MAX_MPS_DATAMSG_QLEN + 1"] t(1) d(3,4) len mem(3) by auto
  then have "\<exists>n2. ifx_mps_cpu1_do_DnData_tasklet n1 = Inr n2 \<and> sram n2 = m' \<and> cpu_id n2 = cpu_id n
     \<and> calls n2 = calls n @ invocations (callback_function (dev n)) (map ms' ps)
     \<and> freed (kmem n2) = freed (kmem n) @ map (Pair Kfree) ps"
    using t by (simp add: ifx_mps_cpu1_do_DnData_tasklet_def ifx_mpsdrv_mbx_data_downstream_def)
  with i d t(7) show ?thesis by blast
qed

text \<open>When the data interrupt reaches CPU1, its handler empties the data mailbox and schedules
  the tasklet, and the tasklet passes every message once and in order to the callback registered
  for its sequence number, skipping those without one, and releases every copy it made.\<close>

theorem data_interrupt_delivers:
  assumes f: "f = dwstrm_fifo (wifi_mbx (dev n) ! 1)" "wf_fifo f" and h: "fifo_holds f (sram n) msgs"
    and q: "dm_inv (rcvDataMsgQ n)" "dm_list (rcvDataMsgQ n) = []" "length msgs \<le> MAX_MPS_DATAMSG_QLEN"
    and mem: "upcoming (kmem n) = ps @ rest" "length ps = length msgs" "0 \<notin> set ps" "distinct ps"
    and irq: "bit irdr 5" and fuel: "length msgs \<le> fifo_size f"
  shows "\<exists>n1 n2 copies. ifx_mpsdrv_data1_irq truesize irdr n = Inr n1 \<and> data_tasklet n1 = (msgs \<noteq> [] \<or> data_tasklet n)
    \<and> ifx_mps_cpu1_do_DnData_tasklet n1 = Inr n2 \<and> fifo_holds f (sram n2) []
    \<and> list_all2 carries msgs copies \<and> calls n2 = calls n @ invocations (callback_function (dev n)) copies
    \<and> freed (kmem n2) = freed (kmem n) @ map (Pair Kfree) ps"
  using data1_served [OF assms] drained_holds by blast

text \<open>CPU1 on the SRAM in which CPU0 has sent \<open>demo_data\<close>, with a callback for its sequence number.\<close>

definition demo_cpu1 :: mps_node where
  "demo_cpu1 = (demo_node 1 (sram (snd (ifx_mpsdrv_mbx_send demo_data demo_cpu0))))\<lparr>dev :=
     (dev demo_cpu0)\<lparr>callback_function := (\<lambda>s. if s = 0x14 then 0x80012340 else 0)\<rparr>\<rparr>"

lemma demo_cpu1_holds: "fifo_holds (std_mailboxes ! 3) (sram demo_cpu1) [mark_ready demo_data]"
  using send_spec [OF demo_cpu0_ok(1) _ _ demo_data_ok surjective_pairing, of "[]"] demo_send demo_cpu0_ok
  by (simp add: demo_cpu1_def demo_node_def)

theorem data_interrupt_delivers_witness:
  "\<exists>n1 n2 c. ifx_mpsdrv_data1_irq (\<lambda>_. 0) 0x20 demo_cpu1 = Inr n1 \<and> ifx_mps_cpu1_do_DnData_tasklet n1 = Inr n2
     \<and> take 4 c = mark_ready demo_data \<and> calls n2 = [(0x80012340, c)] \<and> freed (kmem n2) = [(Kfree, 1)]"
proof -
  let ?f = "std_mailboxes ! 3" and ?n = demo_cpu1
  have f: "?f = dwstrm_fifo (wifi_mbx (dev ?n) ! 1)" by (simp add: demo_cpu1_def demo_cpu0_def)
  have q: "dm_inv (rcvDataMsgQ ?n)" "dm_list (rcvDataMsgQ ?n) = []"
    by (simp_all add: demo_cpu1_def demo_node_def dm_inv_def dm_list_def dm_ring_def ring_inv_def ring_list_def
      ring_len_def MAX_MPS_DATAMSG_QLEN_def)
  have m: "upcoming (kmem ?n) = [1] @ [2, 3, 4, 5, 6, 7, 8, 9, 10]" "freed (kmem ?n) = []" "calls ?n = []"
    by (simp_all add: demo_cpu1_def demo_node_def)
  have b: "bit (0x20 :: u32) 5" by (simp add: bit_iff_odd)
  obtain n1 n2 cs where r: "ifx_mpsdrv_data1_irq (\<lambda>_. 0) 0x20 ?n = Inr n1" "ifx_mps_cpu1_do_DnData_tasklet n1 = Inr n2"
    "list_all2 carries [mark_ready demo_data] cs" "calls n2 = invocations (callback_function (dev ?n)) cs"
    "freed (kmem n2) = [(Kfree, 1)]"
    using data_interrupt_delivers [OF f demo_cpu0_ok(3) demo_cpu1_holds q _ m(1) _ _ _ b, of "\<lambda>_. 0"] m
    by (auto simp: MAX_MPS_DATAMSG_QLEN_def std_mailboxes_def)
  then obtain c where c: "cs = [c]" "carries (mark_ready demo_data) c" by (auto simp: list_all2_Cons1)
  have t4: "take 4 c = mark_ready demo_data"
    using c(2) by (simp add: carries_def DATA_MESSAGE_WORDS_def mark_ready_def demo_data_def eval_nat_numeral)
  then have "c ! 0 = mark_ready demo_data ! 0" by (metis nth_take zero_less_numeral)
  then have "c ! 0 = 0x02140100" by (simp add: mark_ready_def demo_data_def)
  then have "invocations (callback_function (dev ?n)) [c] = [(0x80012340, c)]"
    by (simp add: invocations_def demo_cpu1_def msg_seqno_def)
  with r c t4 show ?thesis by auto
qed

inductive dev_use :: "mps_node \<Rightarrow> mps_node \<Rightarrow> bool" where
  Open_command: "ifx_mpsdrv_common_open Command True n = (rc, n') \<Longrightarrow> dev_use n n'"
| Open_wifi: "i < MPSDRV_NUM_WIFI_CHANNEL \<Longrightarrow> ifx_mpsdrv_common_open (Wifi i) False n = (rc, n') \<Longrightarrow> dev_use n n'"
| Close_command: "ifx_mpsdrv_common_close Command n = (rc, n') \<Longrightarrow> dev_use n n'"
| Close_wifi: "i < MPSDRV_NUM_WIFI_CHANNEL \<Longrightarrow> ifx_mpsdrv_common_close (Wifi i) n = (rc, n') \<Longrightarrow> dev_use n n'"

definition irq_inv :: "mps_node \<Rightarrow> bool" where
  "irq_inv n \<longleftrightarrow> length (wifi_mbx (dev n)) = 2 \<and> devID (command_mbx (dev n)) = Command_dev
     \<and> devID (wifi_mbx (dev n) ! 0) = Wifi0_dev \<and> devID (wifi_mbx (dev n) ! 1) = Wifi1_dev
     \<and> (Installed (command_mbx (dev n)) \<longrightarrow> bit (ad0enr n) 0)
     \<and> (Installed (wifi_mbx (dev n) ! 0) \<or> Installed (wifi_mbx (dev n) ! 1) \<longrightarrow> bit (ad0enr n) 1)"

lemma bit_du: "bit (2 :: u32) k \<longleftrightarrow> k = 1"
  using bit_exp_iff [of 1 k, where 'a = "32 word"] by (auto simp: numeral_2_eq_2)

lemma bit_cu: "bit (1 :: u32) k \<longleftrightarrow> k = 0"
  by (simp add: bit_1_iff)

lemmas enable_bits = bit_or_iff bit_and_iff bit_not_iff bit_du bit_cu

lemma wifi_index: "i < MPSDRV_NUM_WIFI_CHANNEL \<Longrightarrow> i = 0 \<or> i = 1"
  by (auto simp: MPSDRV_NUM_WIFI_CHANNEL_def)

lemma irq_inv_open_wifi:
  assumes "irq_inv n" and "i = 0 \<or> i = 1" and "ifx_mpsdrv_common_open (Wifi i) False n = (rc, n')"
  shows "irq_inv n'"
  using assms
  by (auto simp: irq_inv_def ifx_mpsdrv_common_open_def mbx_dev_def upd_mbx_def enable_bits nth_list_update
    split: if_splits)

lemma irq_inv_close_wifi:
  assumes "irq_inv n" and "i = 0 \<or> i = 1" and "ifx_mpsdrv_common_close (Wifi i) n = (rc, n')"
  shows "irq_inv n'"
  using assms
  by (auto simp: irq_inv_def ifx_mpsdrv_common_close_def mbx_dev_def upd_mbx_def enable_bits nth_list_update Let_def
    split: if_splits)

lemma irq_inv_use: "dev_use n n' \<Longrightarrow> irq_inv n \<Longrightarrow> irq_inv n'"
proof (induction rule: dev_use.induct)
  case (Open_command n rc n')
  then show ?case
    by (auto simp: irq_inv_def ifx_mpsdrv_common_open_def mbx_dev_def upd_mbx_def enable_bits split: if_splits)
next
  case (Close_command n rc n')
  then show ?case
    by (auto simp: irq_inv_def ifx_mpsdrv_common_close_def mbx_dev_def upd_mbx_def enable_bits Let_def)
qed (blast intro: irq_inv_open_wifi irq_inv_close_wifi dest: wifi_index)+

text \<open>A mailbox device that is open keeps its receive interrupt enabled, whatever other devices
  are opened and closed meanwhile, although the two data devices share one enable bit.\<close>

theorem open_device_interrupt_enabled:
  assumes "dev_use\<^sup>*\<^sup>* n n'" and "irq_inv n"
  shows "(Installed (command_mbx (dev n')) \<longrightarrow> bit (ad0enr n') 0)
    \<and> (Installed (wifi_mbx (dev n') ! 0) \<or> Installed (wifi_mbx (dev n') ! 1) \<longrightarrow> bit (ad0enr n') 1)"
proof -
  from assms have "irq_inv n'" by (induction rule: rtranclp_induct) (auto intro: irq_inv_use)
  then show ?thesis by (simp add: irq_inv_def)
qed

definition demo_opened :: mps_node where
  "demo_opened = (demo_node 0 (\<lambda>_. 0))\<lparr>dev := zero_dev\<lparr>command_mbx := zero_mbx\<lparr>devID := Command_dev\<rparr>,
     wifi_mbx := [zero_mbx\<lparr>devID := Wifi0_dev\<rparr>, zero_mbx\<lparr>devID := Wifi1_dev\<rparr>]\<rparr>\<rparr>"

theorem open_device_interrupt_enabled_witness:
  "\<exists>n'. dev_use\<^sup>*\<^sup>* demo_opened n' \<and> Installed (wifi_mbx (dev n') ! 1) \<and> bit (ad0enr n') 1"
proof -
  let ?a = "snd (ifx_mpsdrv_common_open (Wifi 0) False demo_opened)"
  let ?b = "snd (ifx_mpsdrv_common_open (Wifi 1) False ?a)"
  let ?c = "snd (ifx_mpsdrv_common_close (Wifi 0) ?b)"
  have inv: "irq_inv demo_opened"
    by (simp add: irq_inv_def demo_opened_def demo_node_def zero_dev_def zero_mbx_def)
  have "dev_use demo_opened ?a" "dev_use ?a ?b"
    by (rule dev_use.Open_wifi [OF _ prod.collapse [symmetric]], simp add: MPSDRV_NUM_WIFI_CHANNEL_def)+
  moreover have "dev_use ?b ?c"
    by (rule dev_use.Close_wifi [OF _ prod.collapse [symmetric]]) (simp add: MPSDRV_NUM_WIFI_CHANNEL_def)
  ultimately have "dev_use\<^sup>*\<^sup>* demo_opened ?c" by auto
  moreover have "Installed (wifi_mbx (dev ?c) ! 1)"
    by (simp add: ifx_mpsdrv_common_open_def ifx_mpsdrv_common_close_def demo_opened_def mbx_dev_def upd_mbx_def
      zero_mbx_def Let_def)
  ultimately show ?thesis using open_device_interrupt_enabled [OF _ inv, of ?c] by blast
qed

text \<open>A restart of CPU1 from CPU0 leaves CPU1 released (bit 3 of the reset request clear, bit 29
  set), rewinds the offsets of all mailbox FIFOs and forgets every registered callback.\<close>

theorem restart_effect:
  assumes cpu: "cpu_id n = MPS_CPU_0_ID" and len: "length (wifi_mbx (dev n)) = 2"
    and wp: "wakeup_pending (wifi_mbx (dev n) ! 0) \<noteq> None" "wakeup_pending (wifi_mbx (dev n) ! 1) \<noteq> None"
      "dev_wakeup_pending (dev n) \<noteq> None"
    and std: "mailboxes (dev n) = std_mailboxes"
  shows "\<exists>n'. ifx_mpsdrv_restart n = Inr (OK, n') \<and> \<not> bit (rcu_rst_req n') 3 \<and> bit (rcu_rst_req n') 29
    \<and> list_all (\<lambda>f. rd_off f (sram n') = 0 \<and> wr_off f (sram n') = 0) (mailboxes (dev n'))
    \<and> callback_function (dev n') = (\<lambda>_. 0)"
proof -
  obtain w0 w1 where w: "wifi_mbx (dev n) = [w0, w1]"
    using len by (auto simp: numeral_2_eq_2 length_Suc_conv)
  obtain a b c where s: "wakeup_pending w0 = Some a" "wakeup_pending w1 = Some b" "dev_wakeup_pending (dev n) = Some c"
    using wp w by auto
  have f: "upstrm_fifo (command_mbx (dev n)) = std_mailboxes ! 0" "dwstrm_fifo (command_mbx (dev n)) = std_mailboxes ! 1"
    "upstrm_fifo w0 = std_mailboxes ! 2" "dwstrm_fifo w1 = std_mailboxes ! 3"
    using std w by (auto simp: mailboxes_def std_mailboxes_def)
  have bits: "\<not> bit ((x OR 0x20000000) AND NOT 8 :: u32) 3" "bit ((x OR 0x20000000) AND NOT 8 :: u32) 29" for x
  proof -
    have "(8 :: u32) = 2 ^ 3" "(0x20000000 :: u32) = 2 ^ 29" by simp_all
    then show "\<not> bit ((x OR 0x20000000) AND NOT 8 :: u32) 3" "bit ((x OR 0x20000000) AND NOT 8 :: u32) 29"
      by (simp_all only: bit_and_iff bit_or_iff bit_not_iff bit_exp_iff) simp_all
  qed
  obtain n' where n': "ifx_mpsdrv_restart n = Inr (OK, n')"
    "rcu_rst_req n' = ((rcu_rst_req n OR DANUBE_RCU_RST_REQ_CPU1) OR 0x20000000) AND NOT 8"
    "callback_function (dev n') = (\<lambda>_. 0)"
    "sram n' = clear_mbx (command_mbx (dev n)) (clear_mbx w1 (clear_mbx w0 (sram n)))"
    "wifi_mbx (dev n') = [reset_counters (w0\<lparr>wakeup_pending := Some (if sem_count a = 0 then a\<lparr>sem_count := 1\<rparr> else a)\<rparr>),
       reset_counters (w1\<lparr>wakeup_pending := Some (if sem_count b = 0 then b\<lparr>sem_count := 1\<rparr> else b)\<rparr>)]"
    "command_mbx (dev n') = reset_counters (command_mbx (dev n))"
    using cpu w s
    by (simp add: ifx_mpsdrv_restart_def ifx_mpsdrv_reset_def ifx_mpsdrv_reset_structures_def sem_up_if_zero_def
      ifx_mpsdrv_release_def Let_def)
  have "list_all (\<lambda>f. rd_off f (sram n') = 0 \<and> wr_off f (sram n') = 0) (mailboxes (dev n'))"
    using n'(4-6) f
    by (simp add: mailboxes_def reset_counters_def clear_mbx_def ifx_mpsdrv_fifo_clear_def std_mailboxes_def)
  with n'(1,3) bits [of "rcu_rst_req n OR DANUBE_RCU_RST_REQ_CPU1", folded n'(2)] show ?thesis by blast
qed

theorem restart_effect_witness:
  "\<exists>n n'. ifx_mpsdrv_initial_structures 0 (demo_node 0 (\<lambda>_. 7)) = Inr (OK, n)
     \<and> ifx_mpsdrv_restart n = Inr (OK, n') \<and> bit (rcu_rst_req n') 29"
proof -
  obtain n where i: "ifx_mpsdrv_initial_structures 0 (demo_node 0 (\<lambda>_. 7)) = Inr (OK, n)" using demo_setup by blast
  have std: "mailboxes (dev n) = std_mailboxes"
    by (rule init_mailboxes(1) [OF i]) (simp add: publish_published, simp add: demo_node_def MPS_CPU_0_ID_def)
  have "cpu_id n = MPS_CPU_0_ID" "length (wifi_mbx (dev n)) = 2" "wakeup_pending (wifi_mbx (dev n) ! 0) \<noteq> None"
    "wakeup_pending (wifi_mbx (dev n) ! 1) \<noteq> None" "dev_wakeup_pending (dev n) \<noteq> None"
    using i by (auto simp: ifx_mpsdrv_initial_structures_def init_command_mbx_def init_wifi_mbx_def new_sem_def
      demo_node_def kick_cpu1_def kalloc.simps MPS_CPU_0_ID_def Let_def)
  from restart_effect [OF this std] i show ?thesis by blast
qed

lemma bit_fp_mask: "bit MPS_MPS1_APPS_READY_FP_MASK k \<longleftrightarrow> 16 \<le> k \<and> k < 32"
proof -
  have "MPS_MPS1_APPS_READY_FP_MASK = push_bit 16 (mask 16)"
    by (simp add: MPS_MPS1_APPS_READY_FP_MASK_def mask_eq_exp_minus_1)
  from arg_cong [OF this, of "\<lambda>x. bit x k"] show ?thesis
    unfolding bit_push_bit_iff bit_mask_iff by auto
qed

lemma bit_ready_bitmask: "bit MPS_MPS1_APPS_READY_BITMASK k \<longleftrightarrow> k < 16"
proof -
  have "MPS_MPS1_APPS_READY_BITMASK = mask 16"
    by (simp add: MPS_MPS1_APPS_READY_BITMASK_def mask_eq_exp_minus_1)
  from arg_cong [OF this, of "\<lambda>x. bit x k"] show ?thesis unfolding bit_mask_iff by auto
qed

lemma bit_fp: "bit MPS_MPS1_APPS_READY_FP k \<Longrightarrow> 16 \<le> k"
proof -
  have "MPS_MPS1_APPS_READY_FP = push_bit 16 0x4F6B" by (simp add: MPS_MPS1_APPS_READY_FP_def push_bit_eq_mult)
  from arg_cong [OF this, of "\<lambda>x. bit x k"] show "bit MPS_MPS1_APPS_READY_FP k \<Longrightarrow> 16 \<le> k"
    unfolding bit_push_bit_iff by auto
qed

lemma fp_masked: "MPS_MPS1_APPS_READY_FP AND MPS_MPS1_APPS_READY_FP_MASK = MPS_MPS1_APPS_READY_FP"
  by (simp add: MPS_MPS1_APPS_READY_FP_def MPS_MPS1_APPS_READY_FP_MASK_def)

lemma bit_one_shift: "b < 32 \<Longrightarrow> bit (push_bit b 1 :: u32) k \<longleftrightarrow> k = b"
  by (auto simp: bit_exp_iff)

lemma low_bit_masked:
  assumes b: "b < 16"
  shows "(x OR push_bit b 1) AND MPS_MPS1_APPS_READY_FP_MASK = x AND MPS_MPS1_APPS_READY_FP_MASK"
    and "(x AND NOT (push_bit b 1)) AND MPS_MPS1_APPS_READY_FP_MASK = x AND MPS_MPS1_APPS_READY_FP_MASK"
proof -
  have b32: "b < 32" using b by simp
  show "(x OR push_bit b 1) AND MPS_MPS1_APPS_READY_FP_MASK = x AND MPS_MPS1_APPS_READY_FP_MASK"
    "(x AND NOT (push_bit b 1)) AND MPS_MPS1_APPS_READY_FP_MASK = x AND MPS_MPS1_APPS_READY_FP_MASK"
    by (rule bit_word_eqI;
        use b in \<open>auto simp: bit_and_iff bit_or_iff bit_not_iff bit_fp_mask bit_one_shift [OF b32, simplified]\<close>)+
qed

lemma ctrl_ready_bit:
  assumes b: "b < 16" and k: "k < 16"
  shows "bit (ifx_mpsdrv_get_mps1_apps_ready_bits (ifx_mpsdrv_ctrl_mps1_apps_ready_bit c b m)) k
    \<longleftrightarrow> (if k = b then c \<noteq> 0 else bit (ifx_mpsdrv_get_mps1_apps_ready_bits m) k)"
proof (cases "MPS_MPS1_APPS_READY_FP = m CPU1_BOOT_SIZE AND MPS_MPS1_APPS_READY_FP_MASK")
  case True
  then show ?thesis
    using b k low_bit_masked [OF b, of "m CPU1_BOOT_SIZE"]
    by (auto simp: ifx_mpsdrv_get_mps1_apps_ready_bits_def ifx_mpsdrv_ctrl_mps1_apps_ready_bit_def Let_def
      bit_and_iff bit_or_iff bit_not_iff bit_exp_iff bit_ready_bitmask)
next
  case False
  have "\<not> bit MPS_MPS1_APPS_READY_FP k" using bit_fp [of k] k by auto
  then show ?thesis
    using False b k low_bit_masked(1) [OF b, of MPS_MPS1_APPS_READY_FP] fp_masked
    by (auto simp: ifx_mpsdrv_get_mps1_apps_ready_bits_def ifx_mpsdrv_ctrl_mps1_apps_ready_bit_def Let_def
      bit_and_iff bit_or_iff bit_exp_iff bit_ready_bitmask)
qed

text \<open>Setting or clearing an application's ready bit changes that bit and no other of the sixteen,
  also the first time, when the register does not carry the fingerprint yet.\<close>

theorem ready_bits_update:
  assumes b: "b < 16" and k: "k < 16"
  shows "bit (ifx_mpsdrv_get_mps1_apps_ready_bits (ifx_mpsdrv_ctrl_mps1_apps_ready_bit c b m)) k
    \<longleftrightarrow> (if k = b then c \<noteq> 0 else bit (ifx_mpsdrv_get_mps1_apps_ready_bits m) k)"
  by (rule ctrl_ready_bit [OF b k])

theorem ready_bits_update_witness:
  "bit (ifx_mpsdrv_get_mps1_apps_ready_bits (ifx_mpsdrv_ctrl_mps1_apps_ready_bit 1 3 (\<lambda>_. 0))) 3"
  using ready_bits_update [of 3 3 1 "\<lambda>_. 0"] by simp

definition carries_fp :: "u32 \<Rightarrow> bool" where
  "carries_fp v \<longleftrightarrow> MPS_MPS1_APPS_READY_FP = v AND MPS_MPS1_APPS_READY_FP_MASK"

text \<open>A statistics request of CPU0 destroys the ready bits, because its answer goes into the same
  register: unless the address of the statistics happens to carry the fingerprint, every application
  of CPU1 reads as not ready afterwards.\<close>

theorem stats_request_drops_ready_bits:
  assumes req: "m CPU0_CP0_STATUS \<noteq> 0"
    and addr: "\<And>i. \<not> carries_fp (ath_wireless_stats net i)" "\<And>i. \<not> carries_fp (ath_stats net i)"
      "\<not> carries_fp (wifi0_stats net)"
  shows "ifx_mpsdrv_get_mps1_apps_ready_bits (stats_request net m) = 0"
proof -
  have z: "\<not> carries_fp 0" by (simp add: carries_fp_def MPS_MPS1_APPS_READY_FP_def)
  obtain v where v: "stats_request net m = m(CPU1_BOOT_SIZE := v, CPU0_CP0_STATUS := 0)" "\<not> carries_fp v"
  proof (cases "find (\<lambda>i. bit (m CPU0_CP0_STATUS) i) [0..<4]")
    case None
    then show thesis
      using that [of "if bit (m CPU0_CP0_STATUS) 30 then wifi0_stats net else 0"] req addr z
      by (simp add: stats_request_def Let_def)
  next
    case (Some i)
    then show thesis
      using that [of "if bit (m CPU0_CP0_STATUS) 31 then ath_wireless_stats net i else ath_stats net i"] req addr
      by (simp add: stats_request_def Let_def)
  qed
  then show ?thesis by (simp add: ifx_mpsdrv_get_mps1_apps_ready_bits_def carries_fp_def)
qed

theorem stats_request_drops_ready_bits_witness:
  "ifx_mpsdrv_get_mps1_apps_ready_bits ((\<lambda>_. 0)(126 := 0x4F6B0008, 115 := 1)) = 8
   \<and> ifx_mpsdrv_get_mps1_apps_ready_bits (stats_request \<lparr>ath_wireless_stats = (\<lambda>_. 0x80001000),
       ath_stats = (\<lambda>_. 0x80002000), wifi0_stats = 0x80003000\<rparr> ((\<lambda>_. 0)(126 := 0x4F6B0008, 115 := 1))) = 0"
proof
  show "ifx_mpsdrv_get_mps1_apps_ready_bits ((\<lambda>_. 0)(126 := 0x4F6B0008, 115 := 1)) = 8"
    by (simp add: ifx_mpsdrv_get_mps1_apps_ready_bits_def MPS_MPS1_APPS_READY_FP_def
      MPS_MPS1_APPS_READY_FP_MASK_def MPS_MPS1_APPS_READY_BITMASK_def)
  show "ifx_mpsdrv_get_mps1_apps_ready_bits (stats_request \<lparr>ath_wireless_stats = (\<lambda>_. 0x80001000),
       ath_stats = (\<lambda>_. 0x80002000), wifi0_stats = 0x80003000\<rparr> ((\<lambda>_. 0)(126 := 0x4F6B0008, 115 := 1))) = 0"
    by (rule stats_request_drops_ready_bits)
       (simp_all add: carries_fp_def MPS_MPS1_APPS_READY_FP_def MPS_MPS1_APPS_READY_FP_MASK_def)
qed

lemma available_le_size:
  assumes "wf_fifo f" and "fifo_holds f m q"
  shows "ifx_mpsdrv_fifo_mem_available f m \<le> fifo_size f"
proof -
  note b = fifo_holds_bounds [OF assms(2)] and s = wf_fifo_small [OF assms(1)]
  have "fifo_size f < 2 ^ 31" using assms(1) by (simp add: wf_fifo_def)
  with b s show ?thesis by (auto simp: ifx_mpsdrv_fifo_mem_available_def fifo_words_def)
qed

lemma upd_mbx_id: "g (mbx_dev r d) = mbx_dev r d \<Longrightarrow> upd_mbx r g d = d"
  by (cases r) (simp_all add: upd_mbx_def mbx_dev_def)

lemma send_keeps_dev:
  assumes "tx_mbx (cpu_id n) (msg_type (msg ! 0)) = Some (b, irq)"
    and "wf_fifo (mbx_fifo b (dev n))" and "fifo_holds (mbx_fifo b (dev n)) (sram n) q"
    and "length msg = msg_words (msg ! 1)" and "\<not> msg_next_wrapped (msg ! 1)"
    and "ifx_mpsdrv_mbx_send msg n = (rc, n')"
    and full: "min_space (mbx_fifo b (dev n)) = fifo_size (mbx_fifo b (dev n))"
  shows "dev n' = dev n"
proof (cases "rc = OK")
  case False
  then show ?thesis using send_spec [OF assms(1-6)] by simp
next
  case True
  let ?f = "mbx_fifo b (dev n)"
  have h: "fifo_holds ?f (sram n') (q @ [mark_ready msg])" using send_spec [OF assms(1-6)] True by simp
  obtain av where n': "dev n' = upd_fifo b (\<lambda>f. if min_space f < av then f\<lparr>min_space := av\<rparr> else f) (dev n)"
    and av: "av = ifx_mpsdrv_fifo_mem_available ?f (sram n')"
    using True assms(1,6) by (auto simp: ifx_mpsdrv_mbx_send_def Let_def split: if_splits prod.splits)
  have "\<not> min_space ?f < av" using av available_le_size [OF assms(2) h] full by simp
  then show ?thesis
    unfolding n' upd_fifo_def by (intro upd_mbx_id) (auto simp: mbx_fifo_def split: if_splits)
qed

lemma send_prefix:
  assumes "msg_words (msg ! 1) \<le> length msg"
  shows "ifx_mpsdrv_mbx_send (take (msg_words (msg ! 1)) msg) n = ifx_mpsdrv_mbx_send msg n"
proof -
  let ?k = "msg_words (msg ! 1)"
  have k: "2 \<le> ?k" by (rule msg_words_bounds)
  then have 01: "take ?k msg ! 0 = msg ! 0" "take ?k msg ! 1 = msg ! 1" by simp_all
  have "mark_ready (take ?k msg) = take ?k (mark_ready msg)"
    using 01 by (simp add: mark_ready_def take_update_swap)
  moreover have "ifx_mpsdrv_fifo_write f (take ?k ws) (MPS_MSGHDR_LEN + msg_len (msg ! 1)) m
      = ifx_mpsdrv_fifo_write f ws (MPS_MSGHDR_LEN + msg_len (msg ! 1)) m" for f ws m
    by (simp add: ifx_mpsdrv_fifo_write_def fifo_write_entry_def msg_words_def Let_def)
  ultimately show ?thesis unfolding ifx_mpsdrv_mbx_send_def Let_def 01 by (simp only:)
qed

lemma available_drained:
  assumes "wf_fifo f" and "drained f m"
  shows "ifx_mpsdrv_fifo_mem_available f m = fifo_size f"
proof -
  have "fifo_size f < 2 ^ 31" using assms(1) by (simp add: wf_fifo_def)
  moreover have "wr_off f m < 2 ^ 32" using unsigned_less [of "m (pwrite_off f)"] by simp
  then have "u32_sub (wr_off f m) (wr_off f m) = 0" by simp
  ultimately show ?thesis using drained_offsets [OF assms(2)] by (simp add: ifx_mpsdrv_fifo_mem_available_def)
qed

lemma send_drained:
  assumes tx: "tx_mbx (cpu_id n) (msg_type (msg ! 0)) = Some (b, irq)" and f: "f = mbx_fifo b (dev n)" "wf_fifo f"
    and d: "drained f (sram n)" and msg: "length msg = msg_words (msg ! 1)" "\<not> msg_next_wrapped (msg ! 1)"
    and fits: "2 * length msg + 4 \<le> fifo_words f" and space: "min_space f = fifo_size f"
  shows "\<exists>m. ifx_mpsdrv_mbx_send msg n = (OK, raise_irq irq (n\<lparr>sram := m\<rparr>))
    \<and> fifo_holds f m [mark_ready msg] \<and> same_outside f (sram n) m"
proof -
  note w = mark_ready_wf [OF msg] and h = drained_holds [OF d]
  let ?len = "MPS_MSGHDR_LEN + msg_len (msg ! 1)"
  obtain m where m: "ifx_mpsdrv_fifo_write f (mark_ready msg) ?len (sram n) = (OK, m)"
    using write_drained [OF f(2) d w(1)] fits w(2) by (auto simp: mark_ready_def)
  have h1: "fifo_holds f m [mark_ready msg]" using fifo_write_accept [OF f(2) h w(1)] m w(2) by simp
  have s: "same_outside f (sram n) m"
    using fifo_write_frame [OF f(2) h w(1)] m w(2) by (simp add: same_outside_def)
  have "?len \<le> 4 * length msg" using msg by (simp add: msg_words_eq MPS_MSGHDR_LEN_def)
  then have req: "ifx_mpsdrv_fifo_mem_request f ?len (sram n)"
    using fits by (simp add: ifx_mpsdrv_fifo_mem_request_def available_drained [OF f(2) d] fifo_words_def)
  have av: "\<not> min_space f < ifx_mpsdrv_fifo_mem_available f m"
    using available_le_size [OF f(2) h1] space by simp
  have "upd_fifo b (\<lambda>g. if min_space g < ifx_mpsdrv_fifo_mem_available f m then g\<lparr>min_space := ifx_mpsdrv_fifo_mem_available f m\<rparr> else g) (dev n) = dev n"
    unfolding upd_fifo_def using av f(1) by (intro upd_mbx_id) (auto simp: mbx_fifo_def split: if_splits)
  then have "ifx_mpsdrv_mbx_send msg n = (OK, raise_irq irq (n\<lparr>sram := m\<rparr>))"
    using tx req m unfolding f(1) by (simp add: ifx_mpsdrv_mbx_send_def raise_irq_def Let_def)
  with h1 s show ?thesis by blast
qed

lemma send_cpu_id: "cpu_id (snd (ifx_mpsdrv_mbx_send msg n)) = cpu_id n"
  by (auto simp: ifx_mpsdrv_mbx_send_def Let_def split: option.splits prod.splits)

text \<open>The low-water mark of a mailbox never moves, whatever is sent and however full the mailbox gets:
  it starts at the size of the FIFO and is replaced only by a larger value, which no amount of free
  space reaches.\<close>

theorem min_space_never_moves:
  assumes "list_all (\<lambda>msg. tx_mbx (cpu_id n) (msg_type (msg ! 0)) = Some (b, irq) \<and> length msg = msg_words (msg ! 1)
      \<and> \<not> msg_next_wrapped (msg ! 1)) msgs"
    and "wf_fifo (mbx_fifo b (dev n))" and "fifo_holds (mbx_fifo b (dev n)) (sram n) q"
    and "min_space (mbx_fifo b (dev n)) = fifo_size (mbx_fifo b (dev n))"
  shows "dev (fold (\<lambda>msg n. snd (ifx_mpsdrv_mbx_send msg n)) msgs n) = dev n"
  using assms
proof (induction msgs arbitrary: n q)
  case (Cons msg msgs)
  obtain rc n' where s: "ifx_mpsdrv_mbx_send msg n = (rc, n')" by (cases "ifx_mpsdrv_mbx_send msg n")
  have msg: "tx_mbx (cpu_id n) (msg_type (msg ! 0)) = Some (b, irq)" "length msg = msg_words (msg ! 1)"
    "\<not> msg_next_wrapped (msg ! 1)" using Cons.prems(1) by simp_all
  note d = send_keeps_dev [OF msg(1) Cons.prems(2,3) msg(2,3) s Cons.prems(4)]
  have "\<exists>q'. fifo_holds (mbx_fifo b (dev n)) (sram n') q'"
    using send_spec [OF msg(1) Cons.prems(2,3) msg(2,3) s] by blast
  then show ?case using Cons.IH [of n'] Cons.prems d s send_cpu_id [of msg n] by auto
qed simp

theorem min_space_never_moves_witness:
  "dev (snd (ifx_mpsdrv_mbx_send demo_data (snd (ifx_mpsdrv_mbx_send demo_data demo_cpu0)))) = dev demo_cpu0"
proof -
  have "list_all (\<lambda>msg. tx_mbx (cpu_id demo_cpu0) (msg_type (msg ! 0)) = Some ((Wifi 1, False), 0x20)
    \<and> length msg = msg_words (msg ! 1) \<and> \<not> msg_next_wrapped (msg ! 1)) [demo_data, demo_data]"
    using demo_cpu0_ok(1) demo_data_ok unfolding list_all_iff by auto
  moreover have "min_space (std_mailboxes ! 3) = fifo_size (std_mailboxes ! 3)" by (simp add: std_mailboxes_def)
  ultimately have "dev (fold (\<lambda>msg n. snd (ifx_mpsdrv_mbx_send msg n)) [demo_data, demo_data] demo_cpu0) = dev demo_cpu0"
    using demo_cpu0_ok(3,4) unfolding demo_cpu0_ok(2) [symmetric] by (intro min_space_never_moves [where q = "[]"])
  then show ?thesis by simp
qed

text \<open>Releasing the structures gives back every semaphore that the set-up allocated except the
  read semaphore of the command mailbox.\<close>

theorem release_leaks_read_semaphore:
  assumes init: "ifx_mpsdrv_initial_structures pa n = Inr (OK, n')"
    and mem: "upcoming (kmem n) = [a1, a2, a3, a4, a5, a6, a7, a8, a9] @ rest"
    and ok: "0 \<notin> set [a1, a2, a3, a4, a5, a6, a7, a8, a9]"
  shows "freed (kmem (ifx_mpsdrv_release_structures n')) = freed (kmem n) @
    map (Pair Kfree) [a1, a3, a4, a5, a6, a7, a8, a9] \<and> upcoming (kmem n') = rest"
proof -
  define nn where "nn = (if cpu_id n = MPS_CPU_0_ID
    then kick_cpu1 (n\<lparr>sram := publish_mailboxes pa (sram n)\<rparr>) else n\<lparr>pool_array_ptr := sram n CPU0_CFG_STAT\<rparr>)"
  have k: "kmem nn = kmem n" by (simp add: nn_def kick_cpu1_def)
  show ?thesis
    using init mem ok unfolding ifx_mpsdrv_initial_structures_def Let_def nn_def [symmetric] k
    by (auto simp: init_command_mbx_def init_wifi_mbx_def new_sem_def kalloc.simps Let_def
      ifx_mpsdrv_release_structures_def free_sem_def release_wifi_def kfree_as_def MPSDRV_NUM_WIFI_CHANNEL_def)
qed

theorem release_leaks_read_semaphore_witness:
  "\<exists>n. ifx_mpsdrv_initial_structures 0 (demo_node 0 (\<lambda>_. 0)) = Inr (OK, n)
     \<and> freed (kmem (ifx_mpsdrv_release_structures n)) = map (Pair Kfree) [1, 3, 4, 5, 6, 7, 8, 9]"
proof -
  obtain n where i: "ifx_mpsdrv_initial_structures 0 (demo_node 0 (\<lambda>_. 0)) = Inr (OK, n)" using demo_setup by blast
  from release_leaks_read_semaphore [OF i, of 1 2 3 4 5 6 7 8 9 "[10]"] i show ?thesis
    by (simp add: demo_node_def)
qed

end
