(* ===== verification/Mps_Linux.thy ===== *)
theory Mps_Linux
  imports Mps_Device
begin

text \<open>
  The kernel interface of the dual-core driver (\<open>mps_tpe_linux.c\<close>): the commands that one CPU asks
  the other to carry out and their responses, sending of network buffers, data lists and application
  messages, the remote allocation functions, and the two callbacks that the driver installs in the
  device layer, one for data and one for commands.  A request of CPU1 waits for the response in a
  single slot, \<open>mps_cmd_control.msg_data\<close> with its flag; a caller that still waits is a value of its own.
  Functions of the Linux network stack (\<open>skb_clone\<close> and its relatives) are a parameter that gives their
  result; their calls are logged.
\<close>

section \<open>Commands\<close>

datatype mps_cmd_op = CMDMSG | DATAMSG | DATALISTMSG | APPMSG | DATA_ALLOC | DATA_FREE | SKB_ALLOC | SKB_FREE
  | DATALIST_ALLOC | DATALIST_FREE | AGGREGATOR_ALLOC | AGGREGATOR_FREE | AGGREGATOR_BUFFER_ALLOC
  | AGGREGATOR_BUFFER_FREE | AGGREGATOR_BUFFER_GET | AGGREGATOR_BUFFER_COMMIT | AGGREGATOR_GET
  | AGGREGATOR_SET | AGGREGATOR_INDEX_GET | AGGREGATOR_INDEX_SET | FILEBLOCK_ALLOC | FILEBLOCK_FREE
  | GET_REMOTE_VER | IFX_ALLOC_SKB | IFX_SKB_CLONE | IFX_SKB_COPY | IFX_PSKB_EXPAND_HEAD
  | IFX_SKB_REALLOC_HEADROOM | IFX_SKB_COPY_EXPAND | IFX_SKB_TRIM | IFX_DEV_ALLOC_SKB

text \<open>The enumerators \<open>MPS_CMD_CPU0_...\<close> and \<open>MPS_CMD_CPU1_...\<close>, in the order of the source.\<close>

datatype mps_cmd = CPU0 mps_cmd_op | CPU1 mps_cmd_op

definition cmd_ops :: "mps_cmd_op list" where
  "cmd_ops = [CMDMSG, DATAMSG, DATALISTMSG, APPMSG, DATA_ALLOC, DATA_FREE, SKB_ALLOC, SKB_FREE,
     DATALIST_ALLOC, DATALIST_FREE, AGGREGATOR_ALLOC, AGGREGATOR_FREE, AGGREGATOR_BUFFER_ALLOC,
     AGGREGATOR_BUFFER_FREE, AGGREGATOR_BUFFER_GET, AGGREGATOR_BUFFER_COMMIT, AGGREGATOR_GET,
     AGGREGATOR_SET, AGGREGATOR_INDEX_GET, AGGREGATOR_INDEX_SET, FILEBLOCK_ALLOC, FILEBLOCK_FREE,
     GET_REMOTE_VER, IFX_ALLOC_SKB, IFX_SKB_CLONE, IFX_SKB_COPY, IFX_PSKB_EXPAND_HEAD,
     IFX_SKB_REALLOC_HEADROOM, IFX_SKB_COPY_EXPAND, IFX_SKB_TRIM, IFX_DEV_ALLOC_SKB]"

definition op_index :: "mps_cmd_op \<Rightarrow> nat" where
  "op_index c = length (takeWhile (\<lambda>x. x \<noteq> c) cmd_ops)"

fun cmd_code :: "mps_cmd \<Rightarrow> nat" where
  "cmd_code (CPU0 c) = 0x100 + op_index c"
| "cmd_code (CPU1 c) = 0x200 + op_index c"

definition mps_cmd_of :: "nat \<Rightarrow> mps_cmd option" where
  "mps_cmd_of k = find (\<lambda>c. cmd_code c = k) (map CPU0 cmd_ops @ map CPU1 cmd_ops)"

section \<open>Messages\<close>

text \<open>An \<open>mps_data_message\<close> of six words: the header, whose first word has type, sequence number and
  command and whose second has the length in its lowest byte, and up to four words of content in a
  buffer that is zero elsewhere.\<close>

definition header0 :: "nat \<Rightarrow> u8 \<Rightarrow> nat \<Rightarrow> u32" where
  "header0 t seq cmd = push_bit 24 (of_nat t) OR push_bit 16 (ucast seq) OR (of_nat cmd AND 0xFFFF)"

definition data_message :: "nat \<Rightarrow> u8 \<Rightarrow> nat \<Rightarrow> nat \<Rightarrow> u32 list \<Rightarrow> u32 list" where
  "data_message t seq cmd len content =
     [header0 t seq cmd, of_nat len] @ take 4 (content @ replicate 4 0)"

section \<open>State\<close>

record data_list =
  dl_data :: u32
  dl_len :: u32
  dl_next :: u32

record mps_datalist =
  dl_no :: int
  dl_datalist :: u32

datatype skb_call = Skb_clone u32 u32 | Skb_copy u32 u32 | Pskb_expand_head u32 u32 u32 u32
  | Skb_realloc_headroom u32 u32 | Skb_copy_expand u32 u32 u32 u32 | Skb_trim u32 u32 | Skb_reserve u32 u32

record mps_linux =
  nd :: mps_node
  msg_data :: "u32 list"
  cmd_callback_flag :: bool
  cmd_wakeuplist_balance :: u32
  data_callback_funct :: "u8 \<Rightarrow> u32"
  data_calls :: "(u32 \<times> u32 \<times> u32) list"
  dlists :: "u32 \<Rightarrow> mps_datalist"
  dnodes :: "u32 \<Rightarrow> data_list"
  skb_log :: "skb_call list"

text \<open>What a caller gets: its result, or it still sleeps on \<open>cmd_wakeuplist\<close>.\<close>

datatype 'a call = Returned 'a | Waiting

section \<open>Sending a command\<close>

text \<open>The message \<open>ifx_cmd_process\<close> builds, if the command is one it knows.  \<open>pcmd\<close> holds the words that
  \<open>optParam\<close> points to when the command has a parameter block.\<close>

definition cmd_message :: "nat \<Rightarrow> nat \<Rightarrow> u32 \<Rightarrow> u32 list \<Rightarrow> u32 list option" where
  "cmd_message cpu cmd optParam pcmd =
     (let remote_version = Some (data_message
            (if cpu = MPS_CPU_0_ID then MPS_TYPE_DOWNSTREAM_CMD else MPS_TYPE_UPSTREAM_CMD) 0 cmd 0 []);
          with_payload = Some (data_message MPS_TYPE_DOWNSTREAM_CMD 0 cmd 4 [optParam]);
          with_params = (\<lambda>k. Some (data_message MPS_TYPE_UPSTREAM_CMD 0 cmd (4 * k) (take k pcmd)))
      in case mps_cmd_of cmd of
           Some (CPU0 GET_REMOTE_VER) \<Rightarrow> remote_version
         | Some (CPU1 c) \<Rightarrow>
             (case c of
                DATALIST_ALLOC \<Rightarrow> with_payload | DATALIST_FREE \<Rightarrow> with_payload
              | SKB_ALLOC \<Rightarrow> with_payload | SKB_FREE \<Rightarrow> with_payload
              | DATA_ALLOC \<Rightarrow> with_payload | DATA_FREE \<Rightarrow> with_payload
              | GET_REMOTE_VER \<Rightarrow> remote_version
              | IFX_ALLOC_SKB \<Rightarrow> with_params 2 | IFX_SKB_CLONE \<Rightarrow> with_params 2 | IFX_SKB_COPY \<Rightarrow> with_params 2
              | IFX_PSKB_EXPAND_HEAD \<Rightarrow> with_params 4 | IFX_SKB_REALLOC_HEADROOM \<Rightarrow> with_params 2
              | IFX_SKB_COPY_EXPAND \<Rightarrow> with_params 4 | IFX_SKB_TRIM \<Rightarrow> with_params 2
              | IFX_DEV_ALLOC_SKB \<Rightarrow> with_params 2
              | _ \<Rightarrow> None)
         | _ \<Rightarrow> None)"

definition ifx_cmd_process :: "int \<Rightarrow> nat \<Rightarrow> u32 \<Rightarrow> u32 list \<Rightarrow> mps_node \<Rightarrow> s32 \<times> mps_node" where
  "ifx_cmd_process dir cmd optParam pcmd n =
     (if dir = 0 then
        (case cmd_message (cpu_id n) cmd optParam pcmd of
           None \<Rightarrow> (- 1, n)
         | Some rw \<Rightarrow> ifx_mpsdrv_mbx_send rw n)
      else (0, n))"

text \<open>The first half of every remote call: empty the slot, send the command, whose result is not
  looked at, and count the caller as waiting.\<close>

definition remote_request :: "nat \<Rightarrow> u32 \<Rightarrow> mps_linux \<Rightarrow> mps_linux" where
  "remote_request cmd arg s =
     s\<lparr>msg_data := replicate DATA_MESSAGE_WORDS 0, nd := snd (ifx_cmd_process 0 cmd arg [] (nd s)),
       cmd_wakeuplist_balance := cmd_wakeuplist_balance s + 1\<rparr>"

text \<open>The second half: \<open>wait_event_interruptible\<close> returns when the flag is set or a signal is pending,
  and in both cases the third word of the slot is the result.\<close>

definition cmd_answer :: "bool \<Rightarrow> mps_linux \<Rightarrow> u32 call \<times> mps_linux" where
  "cmd_answer signalled s =
     (if cmd_callback_flag s \<or> signalled then (Returned (msg_data s ! 2), s\<lparr>cmd_callback_flag := False\<rparr>)
      else (Waiting, s))"

definition ifx_mps_get_version :: "bool \<Rightarrow> nat \<Rightarrow> mps_linux \<Rightarrow> s32 call \<times> mps_linux" where
  "ifx_mps_get_version signalled cpu s =
     (if cpu_id (nd s) = cpu then (Returned ifx_mpsdrv_get_fw_version, s)
      else case cmd_answer signalled (remote_request
          (cmd_code (if cpu_id (nd s) = 0 then CPU0 GET_REMOTE_VER else CPU1 GET_REMOTE_VER)) 0 s) of
        (Returned v, s1) \<Rightarrow> (Returned (sint v), s1)
      | (Waiting, s1) \<Rightarrow> (Waiting, s1))"

section \<open>Sending and receiving data\<close>

definition book_keep :: "u8 \<Rightarrow> mps_linux \<Rightarrow> fault + mps_linux" where
  "book_keep seq s =
     (case ifx_cpu0_release_q_lists (cpu_id (nd s)) seq (pools (nd s)) of
        Inl f \<Rightarrow> Inl f
      | Inr (_, ps) \<Rightarrow>
        (case ifx_cpu0_topup_q_lists (cpu_id (nd s)) seq ps of
           Inl f \<Rightarrow> Inl f
         | Inr (_, ps') \<Rightarrow> Inr (s\<lparr>nd := (nd s)\<lparr>pools := ps'\<rparr>\<rparr>)))"

definition buf_message :: "nat \<Rightarrow> mps_cmd_op \<Rightarrow> nat \<Rightarrow> nat \<Rightarrow> u8 \<Rightarrow> u32 \<Rightarrow> u32 \<Rightarrow> u32 list" where
  "buf_message cpu c down up seq addr len =
     data_message (if cpu = MPS_CPU_0_ID then down else up) seq
       (cmd_code (if cpu = MPS_CPU_0_ID then CPU0 c else CPU1 c)) 8 [addr, len]"

definition ifx_mps_data_send :: "u8 \<Rightarrow> u32 \<Rightarrow> u32 \<Rightarrow> mps_linux \<Rightarrow> fault + s32 \<times> mps_linux" where
  "ifx_mps_data_send seq datapointer len s =
     (case ifx_mpsdrv_mbx_send (buf_message (cpu_id (nd s)) DATAMSG MPS_TYPE_DOWNSTREAM_DATA
          MPS_TYPE_UPSTREAM_DATA seq datapointer len) (nd s) of
        (retval, n1) \<Rightarrow>
          (case (if cpu_id (nd s) = MPS_CPU_0_ID then book_keep seq (s\<lparr>nd := n1\<rparr>) else Inr (s\<lparr>nd := n1\<rparr>)) of
             Inl f \<Rightarrow> Inl f
           | Inr s1 \<Rightarrow> Inr (if retval \<noteq> OK then - 1 else 0, s1)))"

text \<open>The \<open>memset\<close> of \<open>ifx_mps_data_rcv\<close> goes to \<open>&rw\<close>, the pointer, not to the buffer it points to; the
  next statement stores through the null pointer.\<close>

definition ifx_mps_data_rcv :: "u8 \<Rightarrow> u32 \<Rightarrow> mps_linux \<Rightarrow> fault + s32 \<times> u32 list \<times> mps_linux" where
  "ifx_mps_data_rcv seq datapointer s =
     (let rw = (0 :: u32) in
      if rw = 0 then Inl Null_deref
      else case ifx_mpsdrv_mbx_rcv MPS_DATA_MSG_TYPE (nd s) of
        (rc, ws, n1) \<Rightarrow> Inr (rc, ws, s\<lparr>nd := n1\<rparr>))"

definition ifx_mps_datalist_send :: "u8 \<Rightarrow> mps_datalist \<Rightarrow> mps_linux \<Rightarrow> s32 \<times> mps_linux" where
  "ifx_mps_datalist_send seq l s =
     (case ifx_mpsdrv_mbx_send (buf_message (cpu_id (nd s)) DATALISTMSG MPS_TYPE_DOWNSTREAM_DATA
          MPS_TYPE_UPSTREAM_DATA seq (dl_datalist l) (of_int (4 * dl_no l))) (nd s) of
        (retval, n1) \<Rightarrow> (retval, s\<lparr>nd := n1\<rparr>))"

text \<open>A receive overwrites the words of the caller's buffer \<open>buf\<close> that the message has; the buffer has
  been cleared and carries the sequence number.\<close>

definition received :: "u32 list \<Rightarrow> u32 list \<Rightarrow> u32 list" where
  "received ws buf = ws @ drop (length ws) buf"

definition ifx_mps_datalist_rcv :: "u8 \<Rightarrow> mps_linux \<Rightarrow> s32 \<times> u32 list \<times> mps_linux" where
  "ifx_mps_datalist_rcv seq s =
     (case ifx_mpsdrv_mbx_rcv MPS_DATA_MSG_TYPE (nd s) of
        (rc, ws, n1) \<Rightarrow> (rc, received ws (data_message 0 seq 0 0 []), s\<lparr>nd := n1\<rparr>))"

definition ifx_mps_app_message_send :: "u8 \<Rightarrow> u32 \<Rightarrow> u32 \<Rightarrow> mps_linux \<Rightarrow> s32 \<times> mps_linux" where
  "ifx_mps_app_message_send seq pmessage len s =
     (0, s\<lparr>nd := snd (ifx_mpsdrv_mbx_send (buf_message (cpu_id (nd s)) APPMSG MPS_TYPE_DOWNSTREAM_APP_CMD
        MPS_TYPE_DOWNSTREAM_APP_CMD seq pmessage len) (nd s))\<rparr>)"

definition set_seqno :: "u8 \<Rightarrow> u32 list \<Rightarrow> u32 list" where
  "set_seqno seq ws = ws[0 := (ws ! 0 AND 0xFF00FFFF) OR push_bit 16 (ucast seq)]"

definition ifx_mps_app_message_rcv :: "u8 \<Rightarrow> u32 list \<Rightarrow> mps_linux \<Rightarrow> s32 \<times> u32 list \<times> mps_linux" where
  "ifx_mps_app_message_rcv seq buf s =
     (case ifx_mpsdrv_mbx_rcv MPS_DATA_MSG_TYPE (nd s) of
        (_, ws, n1) \<Rightarrow> (0, received ws (set_seqno seq buf), s\<lparr>nd := n1\<rparr>))"

section \<open>Data lists\<close>

abbreviation (input) node_kmem :: "mps_linux \<Rightarrow> heap" where "node_kmem s \<equiv> kmem (nd s)"

definition with_kmem :: "heap \<Rightarrow> mps_linux \<Rightarrow> mps_linux" where
  "with_kmem h s = s\<lparr>nd := (nd s)\<lparr>kmem := h\<rparr>\<rparr>"

text \<open>\<open>kmalloc\<close> of a node and of the data buffer it points to.  What memory holds before it is written is
  what it held before the allocation.\<close>

definition new_node :: "mps_linux \<Rightarrow> fault + u32 \<times> mps_linux" where
  "new_node s =
     (case kalloc (node_kmem s) of
        (q, h1) \<Rightarrow>
          if q = 0 then Inl Null_deref
          else case kalloc h1 of
            (d, h2) \<Rightarrow> Inr (q, (with_kmem h2 s)\<lparr>dnodes := (dnodes s)(q := (dnodes s q)\<lparr>dl_data := d\<rparr>)\<rparr>))"

fun append_nodes :: "nat \<Rightarrow> u32 \<Rightarrow> mps_linux \<Rightarrow> fault + u32 \<times> mps_linux" where
  "append_nodes 0 r s = Inr (r, s)"
| "append_nodes (Suc k) r s =
     (case new_node s of
        Inl f \<Rightarrow> Inl f
      | Inr (q, s1) \<Rightarrow>
          let ns = (dnodes s1)(q := (dnodes s1 q)\<lparr>dl_len := 0\<rparr>)
          in append_nodes k q (s1\<lparr>dnodes := ns(r := (ns r)\<lparr>dl_next := q\<rparr>)\<rparr>))"

definition ifx_mps_cpu0_datalist_alloc :: "int \<Rightarrow> mps_linux \<Rightarrow> fault + u32 \<times> mps_linux" where
  "ifx_mps_cpu0_datalist_alloc n s =
     (case kalloc (node_kmem s) of
        (p, h1) \<Rightarrow>
          if p = 0 then Inl Null_deref
          else case new_node (with_kmem h1 s) of
            Inl f \<Rightarrow> Inl f
          | Inr (q, s1) \<Rightarrow>
            (case append_nodes (nat n) q s1 of
               Inl f \<Rightarrow> Inl f
             | Inr (r, s2) \<Rightarrow>
                 Inr (p, s2\<lparr>dnodes := (dnodes s2)(r := (dnodes s2 r)\<lparr>dl_next := 0\<rparr>),
                   dlists := (dlists s2)(p := \<lparr>dl_no = n, dl_datalist = q\<rparr>)\<rparr>)))"

fun free_nodes :: "nat \<Rightarrow> u32 \<Rightarrow> mps_linux \<Rightarrow> fault + u32 \<times> mps_linux" where
  "free_nodes 0 q s = Inr (q, s)"
| "free_nodes (Suc k) q s =
     (if q = 0 then Inl Null_deref
      else free_nodes k (dl_next (dnodes s q))
        ((with_kmem (kfree_as Kfree (dl_data (dnodes s q)) (node_kmem s)) s)
          \<lparr>dnodes := (dnodes s)(q := (dnodes s q)\<lparr>dl_len := 0\<rparr>)\<rparr>))"

definition ifx_mps_cpu0_datalist_free :: "u32 \<Rightarrow> mps_linux \<Rightarrow> fault + mps_linux" where
  "ifx_mps_cpu0_datalist_free p s =
     (if p = 0 then Inl Null_deref
      else case free_nodes (nat (dl_no (dlists s p))) (dl_datalist (dlists s p)) s of
        Inl f \<Rightarrow> Inl f
      | Inr (q, s1) \<Rightarrow>
          Inr ((with_kmem (kfree_as Kfree p (node_kmem s1)) s1)
            \<lparr>dlists := (dlists s1)(p := \<lparr>dl_no = 0, dl_datalist = q\<rparr>)\<rparr>))"

definition ifx_mps_datalist_alloc :: "bool \<Rightarrow> int \<Rightarrow> mps_linux \<Rightarrow> fault + u32 call \<times> mps_linux" where
  "ifx_mps_datalist_alloc signalled n s =
     (if cpu_id (nd s) = 0 then
        (case ifx_mps_cpu0_datalist_alloc n s of
           Inl f \<Rightarrow> Inl f | Inr (p, s1) \<Rightarrow> Inr (Returned p, s1))
      else Inr (cmd_answer signalled (remote_request (cmd_code (CPU1 DATALIST_ALLOC)) (of_int n) s)))"

definition ifx_mps_datalist_free :: "u32 \<Rightarrow> mps_linux \<Rightarrow> fault + mps_linux" where
  "ifx_mps_datalist_free p s =
     (if cpu_id (nd s) = 0 then ifx_mps_cpu0_datalist_free p s
      else Inr (s\<lparr>nd := snd (ifx_cmd_process 0 (cmd_code (CPU1 DATALIST_FREE)) p [] (nd s))\<rparr>))"

section \<open>Network and data buffers\<close>

definition ifx_mps_cpu0_skbuff_alloc :: "u32 \<Rightarrow> mps_linux \<Rightarrow> u32 \<times> mps_linux" where
  "ifx_mps_cpu0_skbuff_alloc siz s =
     (case kalloc (kernel (pools (nd s))) of
        (skb, h) \<Rightarrow> (skb, s\<lparr>nd := (nd s)\<lparr>pools := (pools (nd s))\<lparr>kernel := h\<rparr>\<rparr>\<rparr>))"

definition ifx_mps_cpu0_skbuff_free :: "u32 \<Rightarrow> mps_linux \<Rightarrow> mps_linux" where
  "ifx_mps_cpu0_skbuff_free p s =
     s\<lparr>nd := (nd s)\<lparr>pools := (pools (nd s))\<lparr>kernel := kfree_as Kfree_skb p (kernel (pools (nd s)))\<rparr>\<rparr>\<rparr>"

definition ifx_mps_skbuff_alloc :: "bool \<Rightarrow> u32 \<Rightarrow> mps_linux \<Rightarrow> u32 call \<times> mps_linux" where
  "ifx_mps_skbuff_alloc signalled siz s =
     (if cpu_id (nd s) = 0 then
        (case ifx_mps_cpu0_skbuff_alloc siz s of (p, s1) \<Rightarrow> (Returned p, s1))
      else cmd_answer signalled (remote_request (cmd_code (CPU1 SKB_ALLOC)) siz s))"

definition ifx_mps_skbuff_free :: "u32 \<Rightarrow> mps_linux \<Rightarrow> mps_linux" where
  "ifx_mps_skbuff_free p s =
     (if cpu_id (nd s) = 0 then ifx_mps_cpu0_skbuff_free p s
      else s\<lparr>nd := snd (ifx_cmd_process 0 (cmd_code (CPU1 SKB_FREE)) p [] (nd s))\<rparr>)"

definition ifx_mps_cpu0_buff_alloc :: "u32 \<Rightarrow> mps_linux \<Rightarrow> u32 \<times> mps_linux" where
  "ifx_mps_cpu0_buff_alloc siz s =
     (case kalloc (node_kmem s) of (p, h) \<Rightarrow> (p, with_kmem h s))"

definition ifx_mps_cpu0_buff_free :: "u32 \<Rightarrow> mps_linux \<Rightarrow> mps_linux" where
  "ifx_mps_cpu0_buff_free p s = with_kmem (kfree_as Kfree p (node_kmem s)) s"

definition ifx_mps_app_buff_kmalloc :: "bool \<Rightarrow> u32 \<Rightarrow> mps_linux \<Rightarrow> u32 call \<times> mps_linux" where
  "ifx_mps_app_buff_kmalloc signalled siz s =
     (if cpu_id (nd s) = MPS_CPU_0_ID then
        (case ifx_mps_cpu0_buff_alloc siz s of (p, s1) \<Rightarrow> (Returned p, s1))
      else cmd_answer signalled (remote_request (cmd_code (CPU1 DATA_ALLOC)) siz s))"

definition ifx_mps_app_buff_kfree :: "u32 \<Rightarrow> mps_linux \<Rightarrow> mps_linux" where
  "ifx_mps_app_buff_kfree p s =
     (if cpu_id (nd s) = MPS_CPU_0_ID then ifx_mps_cpu0_buff_free p s
      else s\<lparr>nd := snd (ifx_cmd_process 0 (cmd_code (CPU1 DATA_FREE)) p [] (nd s))\<rparr>)"

section \<open>The callbacks\<close>

text \<open>The data callback calls the function registered for the sequence number; without one it calls the
  null pointer.\<close>

definition call_registered :: "u32 list \<Rightarrow> mps_linux \<Rightarrow> fault + mps_linux" where
  "call_registered rw s =
     (let cb = data_callback_funct s (of_nat (msg_seqno (rw ! 0))) in
      if cb = 0 then Inl Null_deref
      else Inr (s\<lparr>data_calls := data_calls s @ [(cb, rw ! 2, rw ! 3)]\<rparr>))"

definition cmd_op :: "mps_cmd \<Rightarrow> mps_cmd_op" where
  "cmd_op c = (case c of CPU0 x \<Rightarrow> x | CPU1 x \<Rightarrow> x)"

definition ifx_mbx_data_rcv_callback :: "u32 list \<Rightarrow> mps_linux \<Rightarrow> fault + mps_linux" where
  "ifx_mbx_data_rcv_callback rw s =
     (case map_option cmd_op (mps_cmd_of (msg_cmd (rw ! 0))) of
        Some DATAMSG \<Rightarrow>
          (case call_registered rw s of
             Inl f \<Rightarrow> Inl f
           | Inr s1 \<Rightarrow> if cpu_id (nd s) = MPS_CPU_0_ID then book_keep (of_nat (msg_seqno (rw ! 0))) s1 else Inr s1)
      | Some APPMSG \<Rightarrow> call_registered rw s
      | Some DATALISTMSG \<Rightarrow> call_registered rw s
      | _ \<Rightarrow> Inr s)"

text \<open>Whether \<open>ifx_mps_cmd_rcv_callback\<close> knows the command of a response.\<close>

definition known_response :: "nat \<Rightarrow> bool" where
  "known_response cmd = (case mps_cmd_of cmd of
     Some (CPU0 GET_REMOTE_VER) \<Rightarrow> True
   | Some (CPU1 c) \<Rightarrow> c \<in> {DATALIST_ALLOC, SKB_ALLOC, DATA_ALLOC, GET_REMOTE_VER, IFX_ALLOC_SKB, IFX_SKB_CLONE,
       IFX_SKB_COPY, IFX_PSKB_EXPAND_HEAD, IFX_SKB_REALLOC_HEADROOM, IFX_SKB_COPY_EXPAND, IFX_SKB_TRIM,
       IFX_DEV_ALLOC_SKB}
   | _ \<Rightarrow> False)"

definition cmd_response :: "u32 list \<Rightarrow> mps_linux \<Rightarrow> mps_linux" where
  "cmd_response pmsg s =
     (if known_response (msg_cmd (pmsg ! 0) - 0x1000) then
        s\<lparr>msg_data := take DATA_MESSAGE_WORDS pmsg, cmd_callback_flag := True,
          cmd_wakeuplist_balance := cmd_wakeuplist_balance s - 1\<rparr>
      else s)"

text \<open>Executing a request: the type, length and content of the response, or nothing for an unknown
  command.  The commands that free something leave type and length zero.\<close>

type_synonym response = "nat \<times> nat \<times> u32 list"

definition skb_op :: "(skb_call \<Rightarrow> u32) \<Rightarrow> skb_call \<Rightarrow> mps_linux \<Rightarrow> (fault + response option \<times> mps_linux)" where
  "skb_op net c s = Inr (Some (MPS_TYPE_DOWNSTREAM_CMD, 4, [net c]), s\<lparr>skb_log := skb_log s @ [c]\<rparr>)"

definition cmd_execute :: "(skb_call \<Rightarrow> u32) \<Rightarrow> u32 list \<Rightarrow> mps_linux \<Rightarrow> (fault + response option \<times> mps_linux)" where
  "cmd_execute net pmsg s =
     (let p = (\<lambda>i. pmsg ! (2 + i)); down = MPS_TYPE_DOWNSTREAM_CMD;
          version = Some (MPS_TYPE_UPSTREAM_CMD, 4, [of_int ifx_mpsdrv_get_fw_version])
      in case mps_cmd_of (msg_cmd (pmsg ! 0)) of
           Some (CPU0 GET_REMOTE_VER) \<Rightarrow> Inr (Some (down, 4, [of_int ifx_mpsdrv_get_fw_version]), s)
         | Some (CPU1 c) \<Rightarrow>
             (case c of
                DATALIST_ALLOC \<Rightarrow>
                  (case ifx_mps_cpu0_datalist_alloc (sint (p 0)) s of
                     Inl f \<Rightarrow> Inl f | Inr (l, s1) \<Rightarrow> Inr (Some (down, 8, [l, 0]), s1))
              | DATALIST_FREE \<Rightarrow>
                  (case ifx_mps_cpu0_datalist_free (p 0) s of
                     Inl f \<Rightarrow> Inl f | Inr s1 \<Rightarrow> Inr (Some (0, 0, []), s1))
              | SKB_ALLOC \<Rightarrow>
                  (case ifx_mps_cpu0_skbuff_alloc (p 0) s of (b, s1) \<Rightarrow> Inr (Some (down, 8, [b, p 0]), s1))
              | SKB_FREE \<Rightarrow> Inr (Some (0, 0, []), ifx_mps_cpu0_skbuff_free (p 0) s)
              | DATA_ALLOC \<Rightarrow>
                  (case ifx_mps_cpu0_buff_alloc (p 0) s of (b, s1) \<Rightarrow> Inr (Some (down, 8, [b, p 0]), s1))
              | DATA_FREE \<Rightarrow> Inr (Some (0, 0, []), ifx_mps_cpu0_buff_free (p 0) s)
              | GET_REMOTE_VER \<Rightarrow> Inr (version, s)
              | IFX_ALLOC_SKB \<Rightarrow>
                  (case ifx_mps_cpu0_skbuff_alloc (p 0) s of (b, s1) \<Rightarrow> Inr (Some (down, 4, [b]), s1))
              | IFX_SKB_CLONE \<Rightarrow> skb_op net (Skb_clone (p 0) (p 1)) s
              | IFX_SKB_COPY \<Rightarrow> skb_op net (Skb_copy (p 0) (p 1)) s
              | IFX_PSKB_EXPAND_HEAD \<Rightarrow> skb_op net (Pskb_expand_head (p 0) (p 1) (p 2) (p 3)) s
              | IFX_SKB_REALLOC_HEADROOM \<Rightarrow> skb_op net (Skb_realloc_headroom (p 0) (p 1)) s
              | IFX_SKB_COPY_EXPAND \<Rightarrow> skb_op net (Skb_copy_expand (p 0) (p 1) (p 2) (p 3)) s
              | IFX_DEV_ALLOC_SKB \<Rightarrow>
                  (case ifx_mps_cpu0_skbuff_alloc (p 0 + 16) s of
                     (b, s1) \<Rightarrow> Inr (Some (down, 4, [b]),
                       if b \<noteq> 0 then s1\<lparr>skb_log := skb_log s1 @ [Skb_reserve b 16]\<rparr> else s1))
              | IFX_SKB_TRIM \<Rightarrow> Inr (Some (down, 0, []), s\<lparr>skb_log := skb_log s @ [Skb_trim (p 0) (p 1)]\<rparr>)
              | _ \<Rightarrow> Inr (None, s))
         | _ \<Rightarrow> Inr (None, s))"

definition cmd_request :: "(skb_call \<Rightarrow> u32) \<Rightarrow> u32 list \<Rightarrow> mps_linux \<Rightarrow> fault + mps_linux" where
  "cmd_request net pmsg s =
     (case cmd_execute net pmsg s of
        Inl f \<Rightarrow> Inl f
      | Inr (None, s1) \<Rightarrow> Inr s1
      | Inr (Some (t, len, content), s1) \<Rightarrow>
          Inr (s1\<lparr>nd := snd (ifx_mpsdrv_mbx_send (data_message t (of_nat (msg_seqno (pmsg ! 0)))
            (msg_cmd (pmsg ! 0) + 0x1000) len content) (nd s1))\<rparr>))"

definition ifx_mps_cmd_rcv_callback :: "(skb_call \<Rightarrow> u32) \<Rightarrow> u32 list \<Rightarrow> mps_linux \<Rightarrow> fault + mps_linux" where
  "ifx_mps_cmd_rcv_callback net pmsg s =
     (if msg_cmd (pmsg ! 0) > 0x1000 then Inr (cmd_response pmsg s) else cmd_request net pmsg s)"

section \<open>Registration\<close>

text \<open>The code stores and calls function pointers and compares them only with \<open>NULL\<close>; two distinct
  non-zero values stand for the driver's own two callbacks.\<close>

definition ADDR_ifx_mbx_data_rcv_callback :: u32 where "ADDR_ifx_mbx_data_rcv_callback = 0x80200100"
definition ADDR_ifx_mps_cmd_rcv_callback :: u32 where "ADDR_ifx_mps_cmd_rcv_callback = 0x80200200"

definition ifx_mps_register_callback :: "u8 \<Rightarrow> u32 \<Rightarrow> mps_linux \<Rightarrow> s32 \<times> mps_linux" where
  "ifx_mps_register_callback seq callback s =
     (if seq = 0 then (ERROR, s)
      else if data_callback_funct s seq \<noteq> 0 then (ERROR, s)
      else (0, s\<lparr>data_callback_funct := (data_callback_funct s)(seq := callback),
        nd := snd (ifx_mpsdrv_register_callback seq ADDR_ifx_mbx_data_rcv_callback (nd s))\<rparr>))"

definition ifx_mps_unregister_callback :: "u8 \<Rightarrow> mps_linux \<Rightarrow> s32 \<times> mps_linux" where
  "ifx_mps_unregister_callback seq s =
     (if seq = 0 then (ERROR, s)
      else if data_callback_funct s seq = 0 then (ERROR, s)
      else (OK, s\<lparr>data_callback_funct := (data_callback_funct s)(seq := 0),
        nd := snd (ifx_mpsdrv_unregister_callback seq (nd s))\<rparr>))"

text \<open>What the device layer's calls do: the callbacks that its tasklets recorded are run in order.\<close>

definition run_callback :: "(skb_call \<Rightarrow> u32) \<Rightarrow> u32 \<times> u32 list \<Rightarrow> mps_linux \<Rightarrow> fault + mps_linux" where
  "run_callback net c s =
     (if fst c = ADDR_ifx_mbx_data_rcv_callback then ifx_mbx_data_rcv_callback (snd c) s
      else if fst c = ADDR_ifx_mps_cmd_rcv_callback then ifx_mps_cmd_rcv_callback net (snd c) s
      else Inr s)"

fun run_callbacks :: "(skb_call \<Rightarrow> u32) \<Rightarrow> (u32 \<times> u32 list) list \<Rightarrow> mps_linux \<Rightarrow> fault + mps_linux" where
  "run_callbacks net [] s = Inr s"
| "run_callbacks net (c # cs) s =
     (case run_callback net c s of Inl f \<Rightarrow> Inl f | Inr s1 \<Rightarrow> run_callbacks net cs s1)"

section \<open>Messages read back\<close>

lemma bit_u32_of_nat:
  assumes "t < 2 ^ k" and "bit (of_nat t :: u32) i"
  shows "i < k"
proof (rule ccontr)
  assume "\<not> i < k"
  then have "(2 :: nat) ^ k \<le> 2 ^ i" by (simp add: power_increasing)
  with assms(1) have "t < 2 ^ i" by (rule less_le_trans)
  then have "\<not> bit t i" by (simp add: bit_iff_odd)
  with assms(2) show False by (simp add: bit_of_nat_iff)
qed

lemma bit_u8: "bit (seq :: u8) i \<Longrightarrow> i < 8"
  using bit_imp_le_length by force

lemma and_masks: "x AND 0xFF = take_bit 8 (x :: u32)" "x AND 0xFFFF = take_bit 16 (x :: u32)"
  by (simp_all add: take_bit_eq_mask mask_eq_exp_minus_1)

lemmas header_bits = bit_drop_bit_eq bit_or_iff bit_take_bit_iff bit_push_bit_iff bit_ucast_iff

lemma header0_type: assumes "t < 256" shows "msg_type (header0 t seq cmd) = t"
proof -
  have "drop_bit 24 (header0 t seq cmd) = of_nat t"
    unfolding header0_def and_masks using bit_u32_of_nat [of t 8] assms
    by (intro bit_word_eqI) (auto simp: header_bits dest: bit_u8)
  with assms show ?thesis by (simp add: msg_type_def)
qed
lemma header0_seqno: "msg_seqno (header0 t seq cmd) = unat seq"
proof -
  have "take_bit 8 (drop_bit 16 (header0 t seq cmd)) = ucast seq"
    unfolding header0_def and_masks
    by (intro bit_word_eqI) (auto simp: header_bits dest: bit_u8)
  moreover have "unat seq < 2 ^ LENGTH(8)" by (rule unsigned_less)
  then have "unat (ucast seq :: u32) = unat seq"
    by (simp add: unsigned_ucast_eq take_bit_nat_eq_self)
  ultimately show ?thesis unfolding msg_seqno_def and_masks by simp
qed
lemma header0_cmd: assumes "cmd < 2 ^ 16" shows "msg_cmd (header0 t seq cmd) = cmd"
proof -
  have "take_bit 16 (header0 t seq cmd) = of_nat cmd"
    unfolding header0_def and_masks using bit_u32_of_nat [of cmd 16] assms
    by (intro bit_word_eqI) (auto simp: header_bits dest: bit_u8)
  with assms show ?thesis unfolding msg_cmd_def and_masks by simp
qed
lemma len_word: assumes "len < 256" 
  shows "msg_len (of_nat len) = len" "\<not> msg_next_wrapped (of_nat len)" "\<not> msg_ready (of_nat len)"
proof -
  have "take_bit 8 (of_nat len) = (of_nat len :: u32)"
    using bit_u32_of_nat [of len 8] assms by (intro bit_word_eqI) (auto simp: bit_take_bit_iff)
  with assms show "msg_len (of_nat len) = len" unfolding msg_len_def and_masks by simp
  show "\<not> msg_next_wrapped (of_nat len)" "\<not> msg_ready (of_nat len)"
    using bit_u32_of_nat [of len 8 15] bit_u32_of_nat [of len 8 14] assms by (auto simp: msg_next_wrapped_def msg_ready_def)
qed
lemma cmd_ops_all: "c \<in> set cmd_ops"
  by (cases c) (simp_all add: cmd_ops_def)

lemma takeWhile_stops: "x \<in> set xs \<Longrightarrow> \<not> P x \<Longrightarrow> length (takeWhile P xs) < length xs"
  by (induction xs) auto

lemma cmd_ops_index: "cmd_ops ! op_index c = c" "op_index c < length cmd_ops"
proof -
  show less: "op_index c < length cmd_ops"
    unfolding op_index_def by (rule takeWhile_stops [OF cmd_ops_all]) simp
  show "cmd_ops ! op_index c = c"
    using nth_length_takeWhile [of "\<lambda>x. x \<noteq> c" cmd_ops] less unfolding op_index_def by simp
qed

lemma op_index_less: "op_index c < 31"
  using cmd_ops_index(2) [of c] by (simp add: cmd_ops_def)

lemma cmd_code_inj: "cmd_code c = cmd_code d \<longleftrightarrow> c = d"
proof -
  have inj: "op_index x = op_index y \<Longrightarrow> x = y" for x y using cmd_ops_index(1) by metis
  show ?thesis
  proof (cases c; cases d)
    fix x y assume "c = CPU0 x" "d = CPU1 y"
    then show ?thesis using op_index_less [of x] by simp
  next
    fix x y assume "c = CPU1 x" "d = CPU0 y"
    then show ?thesis using op_index_less [of y] by simp
  qed (auto dest: inj)
qed

lemma cmd_of_code [simp]: "mps_cmd_of (cmd_code c) = Some c"
proof -
  have "c \<in> set (map CPU0 cmd_ops @ map CPU1 cmd_ops)" using cmd_ops_all by (cases c) auto
  then have "mps_cmd_of (cmd_code c) \<noteq> None" unfolding mps_cmd_of_def find_None_iff by blast
  then obtain d where d: "mps_cmd_of (cmd_code c) = Some d" by blast
  then have "cmd_code d = cmd_code c" by (auto simp: mps_cmd_of_def find_Some_iff)
  with d show ?thesis by (simp add: cmd_code_inj)
qed

lemma cmd_of_Some: "mps_cmd_of k = Some c \<longleftrightarrow> k = cmd_code c"
  using cmd_of_code [of c] by (auto simp: mps_cmd_of_def find_Some_iff)

lemma cmd_code_less: "cmd_code c < 0x300"
proof (cases c)
  case (CPU0 x)
  then show ?thesis using op_index_less [of x] by simp
next
  case (CPU1 x)
  then show ?thesis using op_index_less [of x] by simp
qed

lemma data_message_nth [simp]:
  "data_message t seq cmd len content ! 0 = header0 t seq cmd"
  "data_message t seq cmd len content ! 1 = of_nat len"
  "data_message t seq cmd len content ! Suc 0 = of_nat len"
  "i < length content \<Longrightarrow> i < 4 \<Longrightarrow> data_message t seq cmd len content ! (2 + i) = content ! i"
  "length (data_message t seq cmd len content) = DATA_MESSAGE_WORDS"
  by (simp_all add: data_message_def DATA_MESSAGE_WORDS_def nth_append)

lemma len_words: "len < 256 \<Longrightarrow> msg_words (of_nat len) = (11 + len) div 4"
  by (simp add: msg_words_eq len_word)

text \<open>A message of the driver sent into an emptied mailbox.\<close>

lemma send_message:
  assumes tx: "tx_mbx (cpu_id n) t = Some (b, irq)" and f: "f = mbx_fifo b (dev n)" "wf_fifo f" "drained f (sram n)"
    and siz: "t < 256" "len \<le> 16" and fits: "2 * ((11 + len) div 4) + 4 \<le> fifo_words f"
    and space: "min_space f = fifo_size f"
  shows "\<exists>m x. ifx_mpsdrv_mbx_send (data_message t seq cmd len content) n = (OK, raise_irq irq (n\<lparr>sram := m\<rparr>))
    \<and> fifo_holds f m [x] \<and> same_outside f (sram n) m
    \<and> x = mark_ready (take ((11 + len) div 4) (data_message t seq cmd len content))"
proof -
  let ?msg = "data_message t seq cmd len content" and ?k = "(11 + len) div 4"
  let ?x = "take ?k ?msg"
  have len: "len < 256" using siz by simp
  have k: "msg_words (?msg ! 1) = ?k" "2 \<le> ?k" "?k \<le> 6" using siz len_words [OF len] by simp_all
  then have x: "length ?x = ?k" "?x ! 0 = ?msg ! 0" "?x ! 1 = ?msg ! 1" by (simp_all add: DATA_MESSAGE_WORDS_def)
  have "\<exists>m. ifx_mpsdrv_mbx_send ?x n = (OK, raise_irq irq (n\<lparr>sram := m\<rparr>))
    \<and> fifo_holds f m [mark_ready ?x] \<and> same_outside f (sram n) m"
    by (rule send_drained [OF _ f])
       (use x k fits space tx siz header0_type len_word(2) [OF len] in \<open>simp_all\<close>)
  moreover have "ifx_mpsdrv_mbx_send ?x n = ifx_mpsdrv_mbx_send ?msg n"
    using send_prefix [of ?msg n] k by (simp add: DATA_MESSAGE_WORDS_def)
  ultimately show ?thesis by auto
qed

section \<open>Serving a command interrupt\<close>

text \<open>What a CPU does when the other one has sent it a command: the interrupt handler, then the tasklet it
  scheduled, then the callbacks the tasklet calls.  The SRAM is the one the other CPU left.\<close>

definition serve_cmd0 :: "(u32 \<Rightarrow> nat) \<Rightarrow> (skb_call \<Rightarrow> u32) \<Rightarrow> mem \<Rightarrow> mps_linux \<Rightarrow> fault + mps_linux" where
  "serve_cmd0 truesize net m s =
     (case ifx_mpsdrv_cmd0_irq truesize 0x01 ((nd s)\<lparr>sram := m, calls := []\<rparr>) of
        Inl f \<Rightarrow> Inl f
      | Inr n1 \<Rightarrow>
        (case ifx_mps_cpu0_do_UpCmd_tasklet n1 of
           Inl f \<Rightarrow> Inl f
         | Inr n2 \<Rightarrow> run_callbacks net (calls n2) (s\<lparr>nd := n2\<rparr>)))"

definition serve_cmd1 ::
  "(u32 \<Rightarrow> nat) \<Rightarrow> net_stats \<Rightarrow> (skb_call \<Rightarrow> u32) \<Rightarrow> mem \<Rightarrow> mps_linux \<Rightarrow> fault + mps_linux" where
  "serve_cmd1 truesize stats net m s =
     (case ifx_mpsdrv_cmd1_irq truesize stats 0x10 ((nd s)\<lparr>sram := m, calls := []\<rparr>) of
        Inl f \<Rightarrow> Inl f
      | Inr n1 \<Rightarrow>
        (case ifx_mps_cpu1_do_DnCmd_tasklet n1 of
           Inl f \<Rightarrow> Inl f
         | Inr n2 \<Rightarrow> run_callbacks net (calls n2) (s\<lparr>nd := n2\<rparr>)))"

lemma drain_dispatch_one:
  assumes f: "wf_fifo f" "fifo_holds f (sram n) [x]" "0 < fifo_size f"
    and q: "dm_inv (rcv_q w n)" "dm_list (rcv_q w n) = []" and mem: "upcoming (kmem n) = p # rest" "p \<noteq> 0"
  obtains q' m ms where "mbx_drain ts (fifo_size f) f w 0 n = Inr (1,
      set_rcv_q w q' (n\<lparr>sram := m, kmem := (kmem n)\<lparr>upcoming := rest\<rparr>, messages := ms\<rparr>))"
    "drained f m" "same_outside f (sram n) m" "dm_inv q'" "dm_list q' = [p]" "carries x (ms p)"
  using drain_spec [of f n "[x]" "fifo_size f" w "[p]" rest ts 0] assms that
  by (auto simp: MAX_MPS_DATAMSG_QLEN_def Suc_le_eq)

lemma dispatch_one:
  assumes "dm_inv (rcv_q w n)" "dm_list (rcv_q w n) = [p]" "p \<noteq> 0" and "calls n = []"
    and "callback_function (dev n) (of_nat (msg_seqno (messages n p ! 0))) = cb" "cb \<noteq> 0"
  obtains q' where "mbx_dispatch (MAX_MPS_DATAMSG_QLEN + 1) w n = Inr (set_rcv_q w q' (n\<lparr>
      kmem := (kmem n)\<lparr>freed := freed (kmem n) @ [(Kfree, p)]\<rparr>, calls := [(cb, messages n p)]\<rparr>))"
    "dm_inv q'" "dm_list q' = []"
  using dispatch_spec [of w n "[p]" "MAX_MPS_DATAMSG_QLEN + 1"] assms that
  by (auto simp: invocations_def)

lemma carries_nth: "carries x c \<Longrightarrow> i < length x \<Longrightarrow> i < DATA_MESSAGE_WORDS \<Longrightarrow> c ! i = x ! i"
  unfolding carries_def by (metis nth_take)

lemma run_callbacks_cmd:
  "run_callbacks net [(ADDR_ifx_mps_cmd_rcv_callback, c)] s = ifx_mps_cmd_rcv_callback net c s"
  by (cases "ifx_mps_cmd_rcv_callback net c s")
     (simp_all add: run_callback_def ADDR_ifx_mps_cmd_rcv_callback_def ADDR_ifx_mbx_data_rcv_callback_def)

text \<open>The tasklet after a drain, on any node that still has the queue and the copy of the one message.\<close>

lemma cmd_tasklet_one:
  assumes "dm_inv (rcvCmdMsgQ n)" "dm_list (rcvCmdMsgQ n) = [p]" "p \<noteq> 0" "calls n = []"
    and "carries x (messages n p)" "x \<noteq> []"
    and "callback_function (dev n) (of_nat (msg_seqno (x ! 0))) = ADDR_ifx_mps_cmd_rcv_callback"
  obtains q' where "mbx_dispatch (MAX_MPS_DATAMSG_QLEN + 1) Cmd_msgs n = Inr (n\<lparr>
      kmem := (kmem n)\<lparr>freed := freed (kmem n) @ [(Kfree, p)]\<rparr>,
      calls := [(ADDR_ifx_mps_cmd_rcv_callback, messages n p)], rcvCmdMsgQ := q'\<rparr>)"
    "dm_inv q'" "dm_list q' = []"
proof -
  have cb: "callback_function (dev n) (of_nat (msg_seqno (messages n p ! 0))) = ADDR_ifx_mps_cmd_rcv_callback"
    using carries_nth [OF assms(5), of 0] assms(6,7) by (simp add: DATA_MESSAGE_WORDS_def)
  have q: "dm_inv (rcv_q Cmd_msgs n)" "dm_list (rcv_q Cmd_msgs n) = [p]" using assms(1,2) by (simp_all add: rcv_q_def)
  have "ADDR_ifx_mps_cmd_rcv_callback \<noteq> 0" by (simp add: ADDR_ifx_mps_cmd_rcv_callback_def)
  from dispatch_one [OF q assms(3,4) cb this] that show thesis by (auto simp only: set_rcv_q_def rcv_queue.case)
qed

text \<open>What serving one command leaves of a node: the mailbox emptied and a message copy allocated and
  released.\<close>

definition served :: "mps_fifo \<Rightarrow> mem \<Rightarrow> mps_node \<Rightarrow> mps_node \<Rightarrow> bool" where
  "served f m n n' \<longleftrightarrow> drained f (sram n') \<and> same_outside f m (sram n') \<and> cpu_id n' = cpu_id n \<and> pools n' = pools n
     \<and> upstrm_fifo (command_mbx (dev n')) = upstrm_fifo (command_mbx (dev n))
     \<and> dwstrm_fifo (command_mbx (dev n')) = dwstrm_fifo (command_mbx (dev n))
     \<and> callback_function (dev n') = callback_function (dev n)
     \<and> upcoming (kmem n') = tl (upcoming (kmem n)) \<and> dm_inv (rcvCmdMsgQ n') \<and> dm_list (rcvCmdMsgQ n') = []"

text \<open>A served interrupt hands the one message that waits to the command callback.\<close>

lemma serve_cmd0_one:
  assumes f: "f = upstrm_fifo (command_mbx (dev (nd s)))" "wf_fifo f" "fifo_holds f m [x]" "0 < fifo_size f"
    and x: "x \<noteq> []" "callback_function (dev (nd s)) (of_nat (msg_seqno (x ! 0))) = ADDR_ifx_mps_cmd_rcv_callback"
    and q: "dm_inv (rcvCmdMsgQ (nd s))" "dm_list (rcvCmdMsgQ (nd s)) = []"
    and mem: "upcoming (kmem (nd s)) = p # rest" "p \<noteq> 0"
  obtains n2 c where "serve_cmd0 ts net m s = ifx_mps_cmd_rcv_callback net c (s\<lparr>nd := n2\<rparr>)"
    "carries x c" "served f m (nd s) n2"
proof -
  let ?a = "(nd s)\<lparr>sram := m, calls := []\<rparr>"
  define n where "n = ?a\<lparr>cad0sr := 0x01, dev := (dev (nd s))\<lparr>event := (event (dev (nd s)))
    \<lparr>MPS_Ad0Reg := 0x01 AND MPS_Ad0Reg (event_mask (command_mbx (dev (nd s))))\<rparr>\<rparr>\<rparr>"
  have n: "rcv_q Cmd_msgs n = rcvCmdMsgQ (nd s)" "sram n = m" "kmem n = kmem (nd s)"
    "upstrm_fifo (command_mbx (dev n)) = f" by (simp_all add: n_def rcv_q_def f(1))
  obtain q' m' ms where d: "mbx_drain ts (fifo_size f) f Cmd_msgs 0 n = Inr (1,
      set_rcv_q Cmd_msgs q' (n\<lparr>sram := m', kmem := (kmem n)\<lparr>upcoming := rest\<rparr>, messages := ms\<rparr>))"
    "drained f m'" "same_outside f (sram n) m'" "dm_inv q'" "dm_list q' = [p]" "carries x (ms p)"
    by (rule drain_dispatch_one [of f n x Cmd_msgs p rest ts]) (use f(2-4) q mem n in auto)
  define n1 where "n1 = count_irq ((set_rcv_q Cmd_msgs q' (n\<lparr>sram := m', kmem := (kmem n)\<lparr>upcoming := rest\<rparr>,
    messages := ms\<rparr>))\<lparr>cmd_tasklet := True\<rparr>)"
  have bits: "bit (0x01 :: u32) 0" "\<not> bit (0x01 :: u32) 1" by (simp_all add: bit_iff_odd)
  have i: "ifx_mpsdrv_cmd0_irq ts 0x01 ?a = Inr n1"
    using d(1) bits n(4) unfolding ifx_mpsdrv_cmd0_irq_def Let_def
    by (simp add: n_def [symmetric] n1_def ifx_mpsdrv_mbx_read_uscMsg_def Let_def)
  let ?t = "n1\<lparr>cmd_tasklet := False\<rparr>"
  have t: "rcvCmdMsgQ ?t = q'" "messages ?t = ms" "calls ?t = []"
    "callback_function (dev ?t) = callback_function (dev (nd s))"
    by (simp_all add: n1_def n_def count_irq_def upd_mbx_def set_rcv_q_def)
  obtain q2 where t2: "mbx_dispatch (MAX_MPS_DATAMSG_QLEN + 1) Cmd_msgs ?t = Inr (?t\<lparr>
      kmem := (kmem ?t)\<lparr>freed := freed (kmem ?t) @ [(Kfree, p)]\<rparr>,
      calls := [(ADDR_ifx_mps_cmd_rcv_callback, ms p)], rcvCmdMsgQ := q2\<rparr>)" "dm_inv q2" "dm_list q2 = []"
    using cmd_tasklet_one [of ?t p x] d(4-6) mem(2) t x by metis
  let ?n2 = "?t\<lparr>kmem := (kmem ?t)\<lparr>freed := freed (kmem ?t) @ [(Kfree, p)]\<rparr>,
    calls := [(ADDR_ifx_mps_cmd_rcv_callback, ms p)], rcvCmdMsgQ := q2\<rparr>"
  have "serve_cmd0 ts net m s = ifx_mps_cmd_rcv_callback net (ms p) (s\<lparr>nd := ?n2\<rparr>)"
    using i t2(1) run_callbacks_cmd
    by (simp add: serve_cmd0_def ifx_mps_cpu0_do_UpCmd_tasklet_def ifx_mpsdrv_mbx_cmd_upstream_def)
  moreover have "served f m (nd s) ?n2"
    using d(2,3) t2(2,3) mem n(2)
    by (simp add: served_def n1_def n_def count_irq_def upd_mbx_def set_rcv_q_def)
  ultimately show thesis using that d(6) by blast
qed

lemma serve_cmd1_one:
  assumes f: "f = dwstrm_fifo (command_mbx (dev (nd s)))" "wf_fifo f" "fifo_holds f m [x]" "0 < fifo_size f"
    and x: "x \<noteq> []" "callback_function (dev (nd s)) (of_nat (msg_seqno (x ! 0))) = ADDR_ifx_mps_cmd_rcv_callback"
    and q: "dm_inv (rcvCmdMsgQ (nd s))" "dm_list (rcvCmdMsgQ (nd s)) = []"
    and mem: "upcoming (kmem (nd s)) = p # rest" "p \<noteq> 0" and idle: "m CPU0_CP0_STATUS = 0"
  obtains n2 c where "serve_cmd1 ts stats net m s = ifx_mps_cmd_rcv_callback net c (s\<lparr>nd := n2\<rparr>)"
    "carries x c" "served f m (nd s) n2"
proof -
  let ?a = "(nd s)\<lparr>sram := m, calls := []\<rparr>"
  define n where "n = ?a\<lparr>cpu0_2_cpu1_icr := 0x10\<rparr>"
  have n: "rcv_q Cmd_msgs n = rcvCmdMsgQ (nd s)" "sram n = m" "kmem n = kmem (nd s)"
    "dwstrm_fifo (command_mbx (dev n)) = f" by (simp_all add: n_def rcv_q_def f(1))
  obtain q' m' ms where d: "mbx_drain ts (fifo_size f) f Cmd_msgs 0 n = Inr (1,
      set_rcv_q Cmd_msgs q' (n\<lparr>sram := m', kmem := (kmem n)\<lparr>upcoming := rest\<rparr>, messages := ms\<rparr>))"
    "drained f m'" "same_outside f (sram n) m'" "dm_inv q'" "dm_list q' = [p]" "carries x (ms p)"
    by (rule drain_dispatch_one [of f n x Cmd_msgs p rest ts]) (use f(2-4) q mem n in auto)
  define n1 where "n1 = count_irq ((set_rcv_q Cmd_msgs q' (n\<lparr>sram := m', kmem := (kmem n)\<lparr>upcoming := rest\<rparr>,
    messages := ms\<rparr>))\<lparr>cmd_tasklet := True\<rparr>)"
  have "n\<lparr>sram := stats_request stats (sram n)\<rparr> = n" using idle n(2) by (simp add: stats_request_def)
  moreover have "bit (0x10 :: u32) 4" by (simp add: bit_iff_odd)
  ultimately have i: "ifx_mpsdrv_cmd1_irq ts stats 0x10 ?a = Inr n1"
    using d(1) n(4) unfolding ifx_mpsdrv_cmd1_irq_def Let_def
    by (simp add: n_def [symmetric] n1_def ifx_mpsdrv_mbx_read_dscMsg_def Let_def)
  let ?t = "n1\<lparr>cmd_tasklet := False\<rparr>"
  have t: "rcvCmdMsgQ ?t = q'" "messages ?t = ms" "calls ?t = []"
    "callback_function (dev ?t) = callback_function (dev (nd s))"
    by (simp_all add: n1_def n_def count_irq_def upd_mbx_def set_rcv_q_def)
  obtain q2 where t2: "mbx_dispatch (MAX_MPS_DATAMSG_QLEN + 1) Cmd_msgs ?t = Inr (?t\<lparr>
      kmem := (kmem ?t)\<lparr>freed := freed (kmem ?t) @ [(Kfree, p)]\<rparr>,
      calls := [(ADDR_ifx_mps_cmd_rcv_callback, ms p)], rcvCmdMsgQ := q2\<rparr>)" "dm_inv q2" "dm_list q2 = []"
    using cmd_tasklet_one [of ?t p x] d(4-6) mem(2) t x by metis
  let ?n2 = "?t\<lparr>kmem := (kmem ?t)\<lparr>freed := freed (kmem ?t) @ [(Kfree, p)]\<rparr>,
    calls := [(ADDR_ifx_mps_cmd_rcv_callback, ms p)], rcvCmdMsgQ := q2\<rparr>"
  have "serve_cmd1 ts stats net m s = ifx_mps_cmd_rcv_callback net (ms p) (s\<lparr>nd := ?n2\<rparr>)"
    using i t2(1) run_callbacks_cmd
    by (simp add: serve_cmd1_def ifx_mps_cpu1_do_DnCmd_tasklet_def ifx_mpsdrv_mbx_cmd_downstream_def)
  moreover have "served f m (nd s) ?n2"
    using d(2,3) t2(2,3) mem n(2)
    by (simp add: served_def n1_def n_def count_irq_def upd_mbx_def set_rcv_q_def)
  ultimately show thesis using that d(6) by blast
qed

section \<open>A remote allocation\<close>

abbreviation (input) up_cmd :: mps_fifo where "up_cmd \<equiv> std_mailboxes ! 0"
abbreviation (input) dn_cmd :: mps_fifo where "dn_cmd \<equiv> std_mailboxes ! 1"

text \<open>A CPU whose command mailbox is set up, with the driver's callback for sequence number 0, no received
  command pending, and memory for one message.\<close>

definition cmd_ready :: "mps_linux \<Rightarrow> bool" where
  "cmd_ready s \<longleftrightarrow> upstrm_fifo (command_mbx (dev (nd s))) = up_cmd \<and> dwstrm_fifo (command_mbx (dev (nd s))) = dn_cmd
     \<and> callback_function (dev (nd s)) 0 = ADDR_ifx_mps_cmd_rcv_callback
     \<and> dm_inv (rcvCmdMsgQ (nd s)) \<and> dm_list (rcvCmdMsgQ (nd s)) = []
     \<and> upcoming (kmem (nd s)) \<noteq> [] \<and> hd (upcoming (kmem (nd s))) \<noteq> 0"

definition cmd_idle :: "mem \<Rightarrow> bool" where
  "cmd_idle m \<longleftrightarrow> drained up_cmd m \<and> drained dn_cmd m \<and> m CPU0_CP0_STATUS = 0"

lemma cmd_fifos:
  "wf_fifo up_cmd" "wf_fifo dn_cmd" "footprint up_cmd \<inter> footprint dn_cmd = {}"
  "fifo_words up_cmd = 16" "fifo_words dn_cmd = 16" "min_space up_cmd = fifo_size up_cmd"
  "min_space dn_cmd = fifo_size dn_cmd" "0 < fifo_size up_cmd" "0 < fifo_size dn_cmd"
  "115 \<notin> footprint up_cmd" "115 \<notin> footprint dn_cmd"
proof -
  show "wf_fifo up_cmd" "wf_fifo dn_cmd" using std_mailboxes_wf by (simp_all add: std_mailboxes_def)
  show "footprint up_cmd \<inter> footprint dn_cmd = {}"
    by (auto simp: std_mailboxes_def footprint_def region_def fifo_words_def)
  show "115 \<notin> footprint up_cmd" "115 \<notin> footprint dn_cmd"
    by (auto simp: std_mailboxes_def footprint_def region_def fifo_words_def)
qed (simp_all add: std_mailboxes_def fifo_words_def)

text \<open>The request of CPU1 into the idle link.\<close>

lemma tx_cmd:
  "tx_mbx 1 MPS_TYPE_DOWNSTREAM_CMD = Some ((Command, True), 1)"
  "tx_mbx 0 MPS_TYPE_DOWNSTREAM_CMD = Some ((Command, False), 0x10)"
  by (simp_all add: tx_mbx_def MPS_TYPE_DOWNSTREAM_CMD_def MPS_TYPE_UPSTREAM_DATA_def MPS_TYPE_DOWNSTREAM_DATA_def
    MPS_TYPE_UPSTREAM_CMD_def MPS_TYPE_UPSTREAM_APP_CMD_def MPS_TYPE_DOWNSTREAM_APP_CMD_def MPS_CPU_0_ID_def)

text \<open>The commands of CPU1 that carry one word and are answered with a buffer.\<close>

definition alloc_cmd :: "mps_cmd_op \<Rightarrow> bool" where
  "alloc_cmd c \<longleftrightarrow> c \<in> {DATALIST_ALLOC, SKB_ALLOC, DATA_ALLOC}"

lemma alloc_request:
  assumes s: "cmd_ready s" "cpu_id (nd s) = 1" and m: "cmd_idle (sram (nd s))" and c: "alloc_cmd c"
  obtains m1 x where
    "remote_request (cmd_code (CPU1 c)) arg s = s\<lparr>msg_data := replicate DATA_MESSAGE_WORDS 0,
       nd := raise_irq 1 ((nd s)\<lparr>sram := m1\<rparr>), cmd_wakeuplist_balance := cmd_wakeuplist_balance s + 1\<rparr>"
    "fifo_holds up_cmd m1 [x]" "same_outside up_cmd (sram (nd s)) m1"
    "length x = 3" "x ! 0 = header0 MPS_TYPE_DOWNSTREAM_CMD 0 (cmd_code (CPU1 c))" "x ! 2 = arg"
proof -
  let ?msg = "data_message MPS_TYPE_DOWNSTREAM_CMD 0 (cmd_code (CPU1 c)) 4 [arg]"
  have "cmd_message (cpu_id (nd s)) (cmd_code (CPU1 c)) arg [] = Some ?msg"
    using c by (auto simp: cmd_message_def alloc_cmd_def Let_def simp del: cmd_code.simps)
  moreover have "\<exists>m x. ifx_mpsdrv_mbx_send ?msg (nd s) = (OK, raise_irq 1 ((nd s)\<lparr>sram := m\<rparr>))
    \<and> fifo_holds up_cmd m [x] \<and> same_outside up_cmd (sram (nd s)) m \<and> x = mark_ready (take ((11 + 4) div 4) ?msg)"
    by (rule send_message [OF tx_cmd(1) [folded s(2)] _ cmd_fifos(1)])
       (use s m cmd_fifos in \<open>simp_all add: cmd_ready_def cmd_idle_def mbx_fifo_def mbx_dev_def MPS_TYPE_DOWNSTREAM_CMD_def\<close>)
  ultimately obtain m1 where m1: "ifx_cmd_process 0 (cmd_code (CPU1 c)) arg [] (nd s) = (OK, raise_irq 1 ((nd s)\<lparr>sram := m1\<rparr>))"
    "fifo_holds up_cmd m1 [mark_ready (take 3 ?msg)]" "same_outside up_cmd (sram (nd s)) m1"
    by (auto simp: ifx_cmd_process_def)
  have "mark_ready (take 3 ?msg) ! 2 = arg" "length (mark_ready (take 3 ?msg)) = 3"
    "mark_ready (take 3 ?msg) ! 0 = header0 MPS_TYPE_DOWNSTREAM_CMD 0 (cmd_code (CPU1 c))"
    by (simp_all add: mark_ready_def data_message_def eval_nat_numeral)
  with m1 show thesis by (intro that [of m1]) (simp_all add: remote_request_def)
qed

text \<open>CPU0 executes the request and answers with a buffer.\<close>

lemma alloc_execute:
  assumes msg: "msg_cmd (pmsg ! 0) = cmd_code (CPU1 c)" "pmsg ! 2 = arg"
  shows "c = SKB_ALLOC \<Longrightarrow> ifx_mps_cpu0_skbuff_alloc arg s = (b, s1)
      \<Longrightarrow> cmd_execute net pmsg s = Inr (Some (MPS_TYPE_DOWNSTREAM_CMD, 8, [b, arg]), s1)"
    and "c = DATA_ALLOC \<Longrightarrow> ifx_mps_cpu0_buff_alloc arg s = (b, s1)
      \<Longrightarrow> cmd_execute net pmsg s = Inr (Some (MPS_TYPE_DOWNSTREAM_CMD, 8, [b, arg]), s1)"
  using assms(1) assms(2) [unfolded numeral_2_eq_2] by (simp_all add: cmd_execute_def Let_def del: cmd_code.simps)

lemma alloc_response:
  assumes s: "upstrm_fifo (command_mbx (dev (nd s))) = up_cmd" "dwstrm_fifo (command_mbx (dev (nd s))) = dn_cmd"
      "cpu_id (nd s) = 0" and d: "drained dn_cmd (sram (nd s))"
    and seq: "msg_seqno (pmsg ! 0) = 0" and cmd: "msg_cmd (pmsg ! 0) = cmd_code (CPU1 c)"
    and ex: "cmd_execute net pmsg s0 = Inr (Some (MPS_TYPE_DOWNSTREAM_CMD, 8, [b, arg]), s)"
  obtains m2 x where
    "ifx_mps_cmd_rcv_callback net pmsg s0 = Inr (s\<lparr>nd := raise_irq 0x10 ((nd s)\<lparr>sram := m2\<rparr>)\<rparr>)"
    "fifo_holds dn_cmd m2 [x]" "same_outside dn_cmd (sram (nd s)) m2"
    "length x = 4" "x ! 0 = header0 MPS_TYPE_DOWNSTREAM_CMD 0 (cmd_code (CPU1 c) + 0x1000)" "x ! 2 = b"
proof -
  let ?msg = "data_message MPS_TYPE_DOWNSTREAM_CMD 0 (cmd_code (CPU1 c) + 0x1000) 8 [b, arg]"
  have "\<exists>m x. ifx_mpsdrv_mbx_send ?msg (nd s) = (OK, raise_irq 0x10 ((nd s)\<lparr>sram := m\<rparr>))
    \<and> fifo_holds dn_cmd m [x] \<and> same_outside dn_cmd (sram (nd s)) m \<and> x = mark_ready (take ((11 + 8) div 4) ?msg)"
    by (rule send_message [OF tx_cmd(2) [folded s(3)] _ cmd_fifos(2)])
       (use s d cmd_fifos in \<open>simp_all add: mbx_fifo_def mbx_dev_def MPS_TYPE_DOWNSTREAM_CMD_def\<close>)
  then obtain m2 where m2: "ifx_mpsdrv_mbx_send ?msg (nd s) = (OK, raise_irq 0x10 ((nd s)\<lparr>sram := m2\<rparr>))"
    "fifo_holds dn_cmd m2 [mark_ready (take 4 ?msg)]" "same_outside dn_cmd (sram (nd s)) m2" by auto
  have "\<not> 0x1000 < msg_cmd (pmsg ! 0)" using cmd cmd_code_less [of "CPU1 c"] by simp
  then have "ifx_mps_cmd_rcv_callback net pmsg s0 = Inr (s\<lparr>nd := raise_irq 0x10 ((nd s)\<lparr>sram := m2\<rparr>)\<rparr>)"
    using m2(1) ex seq cmd by (simp add: ifx_mps_cmd_rcv_callback_def cmd_request_def del: cmd_code.simps)
  moreover have "mark_ready (take 4 ?msg) ! 2 = b" "length (mark_ready (take 4 ?msg)) = 4"
    "mark_ready (take 4 ?msg) ! 0 = header0 MPS_TYPE_DOWNSTREAM_CMD 0 (cmd_code (CPU1 c) + 0x1000)"
    by (simp_all add: mark_ready_def data_message_def eval_nat_numeral del: cmd_code.simps)
  ultimately show thesis using m2 that by blast
qed

lemma alloc_answer:
  assumes c: "alloc_cmd c" and msg: "msg_cmd (pmsg ! 0) = cmd_code (CPU1 c) + 0x1000"
  shows "ifx_mps_cmd_rcv_callback net pmsg s = Inr (s\<lparr>msg_data := take DATA_MESSAGE_WORDS pmsg,
    cmd_callback_flag := True, cmd_wakeuplist_balance := cmd_wakeuplist_balance s - 1\<rparr>)"
  using assms
  by (auto simp: ifx_mps_cmd_rcv_callback_def cmd_response_def known_response_def alloc_cmd_def simp del: cmd_code.simps)
     (simp_all add: op_index_def cmd_ops_def)

text \<open>The first half of the round trip: CPU1's request and CPU0's answer to it.\<close>

lemma alloc_served_by_cpu0:
  assumes s0: "cmd_ready s0" "cpu_id (nd s0) = 0" and x: "fifo_holds up_cmd m1 [x]" "length x = 3"
      "x ! 0 = header0 MPS_TYPE_DOWNSTREAM_CMD 0 (cmd_code (CPU1 SKB_ALLOC))" "x ! 2 = siz"
    and d: "drained dn_cmd m1" and b: "kalloc (kernel (pools (nd s0))) = (b, h)"
  obtains s0' y where "serve_cmd0 truesize net m1 s0 = Inr s0'" "kernel (pools (nd s0')) = h"
    "drained up_cmd (sram (nd s0'))" "fifo_holds dn_cmd (sram (nd s0')) [y]" "sram (nd s0') 115 = m1 115"
    "length y = 4" "y ! 0 = header0 MPS_TYPE_DOWNSTREAM_CMD 0 (cmd_code (CPU1 SKB_ALLOC) + 0x1000)" "y ! 2 = b"
proof -
  obtain p0 r0 where p0: "upcoming (kmem (nd s0)) = p0 # r0" "p0 \<noteq> 0"
    using s0(1) by (cases "upcoming (kmem (nd s0))") (auto simp: cmd_ready_def)
  have cb0: "x \<noteq> []" "callback_function (dev (nd s0)) (of_nat (msg_seqno (x ! 0))) = ADDR_ifx_mps_cmd_rcv_callback"
    using s0(1) x(2,3) by (auto simp: cmd_ready_def header0_seqno)
  obtain n2 c where c: "serve_cmd0 truesize net m1 s0 = ifx_mps_cmd_rcv_callback net c (s0\<lparr>nd := n2\<rparr>)"
    "carries x c" "served up_cmd m1 (nd s0) n2"
    by (rule serve_cmd0_one [OF _ cmd_fifos(1) x(1) cmd_fifos(8) cb0 _ _ p0]) (use s0(1) in \<open>auto simp: cmd_ready_def\<close>)
  have cw: "c ! 0 = x ! 0" "c ! 2 = siz"
    using carries_nth [OF c(2), of 0] carries_nth [OF c(2), of 2] x(2,4) by (simp_all add: DATA_MESSAGE_WORDS_def)
  have cmd: "msg_cmd (c ! 0) = cmd_code (CPU1 SKB_ALLOC)" "msg_seqno (c ! 0) = 0"
    using cw x(3) header0_cmd cmd_code_less [of "CPU1 SKB_ALLOC"] by (simp_all add: header0_seqno del: cmd_code.simps)
  let ?s = "s0\<lparr>nd := n2\<lparr>pools := (pools (nd s0))\<lparr>kernel := h\<rparr>\<rparr>\<rparr>"
  have "ifx_mps_cpu0_skbuff_alloc siz (s0\<lparr>nd := n2\<rparr>) = (b, ?s)"
    using b c(3) by (simp add: ifx_mps_cpu0_skbuff_alloc_def served_def)
  note ex = alloc_execute(1) [OF cmd(1) cw(2) refl this]
  have so: "same_outside up_cmd m1 (sram n2)" "drained up_cmd (sram n2)" using c(3) by (simp_all add: served_def)
  note d2 = same_outside_other(2) [OF so(1) cmd_fifos(3) d]
  obtain m2 y where y: "ifx_mps_cmd_rcv_callback net c (s0\<lparr>nd := n2\<rparr>) = Inr (?s\<lparr>nd := raise_irq 0x10 ((nd ?s)\<lparr>sram := m2\<rparr>)\<rparr>)"
    "fifo_holds dn_cmd m2 [y]" "same_outside dn_cmd (sram (nd ?s)) m2"
    "length y = 4" "y ! 0 = header0 MPS_TYPE_DOWNSTREAM_CMD 0 (cmd_code (CPU1 SKB_ALLOC) + 0x1000)" "y ! 2 = b"
    by (rule alloc_response [OF _ _ _ _ cmd(2,1) ex]) (use s0 c(3) d2 in \<open>auto simp: cmd_ready_def served_def\<close>)
  have so2: "same_outside dn_cmd (sram n2) m2" using y(3) by simp
  have "footprint dn_cmd \<inter> footprint up_cmd = {}" using cmd_fifos(3) by (simp only: Int_commute)
  from same_outside_other(2) [OF so2 this so(2)] have u: "drained up_cmd m2" .
  have st: "m2 115 = m1 115" using so(1) so2 cmd_fifos(10,11) by (auto simp: same_outside_def)
  have "serve_cmd0 truesize net m1 s0 = Inr (?s\<lparr>nd := raise_irq 0x10 ((nd ?s)\<lparr>sram := m2\<rparr>)\<rparr>)" using c(1) y(1) by simp
  from that [OF this] u st y(2,4-6) show thesis by (simp add: raise_irq_def)
qed

text \<open>The second half: CPU1 takes the answer and the caller returns.\<close>

lemma alloc_answered_at_cpu1:
  assumes s1: "cmd_ready s1" and y: "drained up_cmd m2" "fifo_holds dn_cmd m2 [y]" "m2 115 = 0"
    "length y = 4" "y ! 0 = header0 MPS_TYPE_DOWNSTREAM_CMD 0 (cmd_code (CPU1 SKB_ALLOC) + 0x1000)" "y ! 2 = b"
  obtains n c where "serve_cmd1 truesize stats net m2 s1 = Inr (s1\<lparr>nd := n, msg_data := c, cmd_callback_flag := True,
      cmd_wakeuplist_balance := cmd_wakeuplist_balance s1 - 1\<rparr>)" "c ! 2 = b" "cmd_idle (sram n)"
proof -
  obtain p1 r1 where p1: "upcoming (kmem (nd s1)) = p1 # r1" "p1 \<noteq> 0"
    using s1 by (cases "upcoming (kmem (nd s1))") (auto simp: cmd_ready_def)
  have cb1: "y \<noteq> []" "callback_function (dev (nd s1)) (of_nat (msg_seqno (y ! 0))) = ADDR_ifx_mps_cmd_rcv_callback"
    using s1 y(4,5) by (auto simp: cmd_ready_def header0_seqno)
  obtain n c where c: "serve_cmd1 truesize stats net m2 s1 = ifx_mps_cmd_rcv_callback net c (s1\<lparr>nd := n\<rparr>)"
    "carries y c" "served dn_cmd m2 (nd s1) n"
    by (rule serve_cmd1_one [OF _ cmd_fifos(2) y(2) cmd_fifos(9) cb1 _ _ p1])
       (use s1 y(3) in \<open>auto simp: cmd_ready_def\<close>)
  have cw: "c ! 0 = y ! 0" "c ! 2 = b" "length c = DATA_MESSAGE_WORDS"
    using carries_nth [OF c(2), of 0] carries_nth [OF c(2), of 2] c(2) y(4,6) by (simp_all add: DATA_MESSAGE_WORDS_def carries_def)
  have "msg_cmd (c ! 0) = cmd_code (CPU1 SKB_ALLOC) + 0x1000"
    using cw y(5) header0_cmd cmd_code_less [of "CPU1 SKB_ALLOC"] by (simp del: cmd_code.simps)
  from alloc_answer [OF _ this, of net "s1\<lparr>nd := n\<rparr>"] c(1) cw(3)
  have a: "serve_cmd1 truesize stats net m2 s1 = Inr (s1\<lparr>nd := n, msg_data := c, cmd_callback_flag := True,
      cmd_wakeuplist_balance := cmd_wakeuplist_balance s1 - 1\<rparr>)"
    by (simp add: alloc_cmd_def)
  have "footprint dn_cmd \<inter> footprint up_cmd = {}" using cmd_fifos(3) by (simp only: Int_commute)
  from same_outside_other(2) [OF _ this y(1)] c(3) have "cmd_idle (sram n)"
    using y(3) cmd_fifos(11) by (auto simp: cmd_idle_def served_def same_outside_def)
  with a cw(2) that show thesis by blast
qed

section \<open>Data lists\<close>

text \<open>The chain of nodes from \<open>q\<close> on: the addresses of the nodes and of their data buffers.\<close>

fun chain :: "(u32 \<Rightarrow> data_list) \<Rightarrow> u32 \<Rightarrow> (u32 \<times> u32) list \<Rightarrow> bool" where
  "chain ns q [] \<longleftrightarrow> q = 0"
| "chain ns q ((a, d) # es) \<longleftrightarrow> q = a \<and> a \<noteq> 0 \<and> dl_data (ns a) = d \<and> chain ns (dl_next (ns a)) es"

definition node_addrs :: "(u32 \<times> u32) list \<Rightarrow> u32 list" where
  "node_addrs es = concat (map (\<lambda>(a, d). [a, d]) es)"

lemma chain_upd: "q' \<notin> fst ` set es \<Longrightarrow> chain (ns(q' := v)) q es = chain ns q es"
  by (induction es arbitrary: q) auto

lemma chain_len: "chain (ns(q' := (ns q')\<lparr>dl_len := k\<rparr>)) q es = chain ns q es"
  by (induction es arbitrary: q) auto

lemma new_node_spec:
  assumes "upcoming (kmem (nd s)) = a # d # rest" "a \<noteq> 0"
  shows "new_node s = Inr (a, (with_kmem ((kmem (nd s))\<lparr>upcoming := rest\<rparr>) s)
    \<lparr>dnodes := (dnodes s)(a := (dnodes s a)\<lparr>dl_data := d\<rparr>)\<rparr>)"
  using assms by (simp add: new_node_def kalloc.simps)

text \<open>Appending: the nodes after the last one \<open>r\<close> of the list so far.\<close>

lemma append_nodes_spec:
  assumes "upcoming (kmem (nd s)) = node_addrs es @ rest" and "length es = k"
    and "0 \<notin> fst ` set es" and "distinct (r # map fst es)"
  shows "\<exists>s' l. append_nodes k r s = Inr (l, s') \<and> kmem (nd s') = (kmem (nd s))\<lparr>upcoming := rest\<rparr>
    \<and> nd s' = (nd s)\<lparr>kmem := kmem (nd s')\<rparr> \<and> dlists s' = dlists s
    \<and> l = last (r # map fst es) \<and> dl_data (dnodes s' r) = dl_data (dnodes s r)
    \<and> (es \<noteq> [] \<longrightarrow> dl_next (dnodes s' r) = fst (hd es))
    \<and> chain ((dnodes s')(l := (dnodes s' l)\<lparr>dl_next := 0\<rparr>)) (if es = [] then 0 else fst (hd es)) es
    \<and> (\<forall>x. x \<notin> set (r # map fst es) \<longrightarrow> dnodes s' x = dnodes s x)"
  using assms
proof (induction es arbitrary: k r s)
  case Nil
  then show ?case by (simp add: node_addrs_def)
next
  case (Cons e es)
  obtain a d where e: "e = (a, d)" by (cases e)
  from Cons.prems e obtain k' where k: "k = Suc k'" "length es = k'" by auto
  have up: "upcoming (kmem (nd s)) = a # d # (node_addrs es @ rest)" and a: "a \<noteq> 0"
    using Cons.prems(1,3) e by (auto simp: node_addrs_def)
  let ?h = "(kmem (nd s))\<lparr>upcoming := node_addrs es @ rest\<rparr>"
  let ?ns = "(dnodes s)(a := (dnodes s a)\<lparr>dl_data := d, dl_len := 0\<rparr>)"
  let ?s = "(with_kmem ?h s)\<lparr>dnodes := ?ns(r := (?ns r)\<lparr>dl_next := a\<rparr>)\<rparr>"
  have st: "append_nodes k r s = append_nodes k' a ?s"
    using new_node_spec [OF up a] k by (simp add: Let_def)
  have "upcoming (kmem (nd ?s)) = node_addrs es @ rest" by (simp add: with_kmem_def)
  moreover have "0 \<notin> fst ` set es" "distinct (a # map fst es)" using Cons.prems e by auto
  ultimately obtain s' l where
    r: "append_nodes k' a ?s = Inr (l, s')" "kmem (nd s') = (kmem (nd ?s))\<lparr>upcoming := rest\<rparr>"
      "nd s' = (nd ?s)\<lparr>kmem := kmem (nd s')\<rparr>" "dlists s' = dlists ?s" "l = last (a # map fst es)"
      "dl_data (dnodes s' a) = dl_data (dnodes ?s a)" "es \<noteq> [] \<longrightarrow> dl_next (dnodes s' a) = fst (hd es)"
      "chain ((dnodes s')(l := (dnodes s' l)\<lparr>dl_next := 0\<rparr>)) (if es = [] then 0 else fst (hd es)) es"
      "\<forall>x. x \<notin> set (a # map fst es) \<longrightarrow> dnodes s' x = dnodes ?s x"
    using Cons.IH [of ?s k' a] k(2) by blast
  have ra: "r \<noteq> a" "r \<notin> set (map fst es)" "a \<notin> set (map fst es)" using Cons.prems(4) e by auto
  have rr: "dnodes s' r = (dnodes s r)\<lparr>dl_next := a\<rparr>" using r(9) ra by simp
  let ?fin = "(dnodes s')(l := (dnodes s' l)\<lparr>dl_next := 0\<rparr>)"
  have "dl_data (?fin a) = d" using r(6) ra by auto
  moreover have "dl_next (?fin a) = (if es = [] then 0 else fst (hd es))"
    using r(5,7) ra by (cases "es = []") (auto simp: last_map)
  ultimately have c: "chain ?fin (if e # es = [] then 0 else fst (hd (e # es))) (e # es)" using r(8) a e by simp
  have n: "dlists s' = dlists s" "nd s' = (nd s)\<lparr>kmem := kmem (nd s')\<rparr>" "kmem (nd s') = (kmem (nd s))\<lparr>upcoming := rest\<rparr>"
    using r(2,3,4) by (simp_all add: with_kmem_def)
  have "\<forall>x. x \<notin> set (r # map fst (e # es)) \<longrightarrow> dnodes s' x = dnodes s x" using r(9) e by simp
  moreover have "append_nodes k r s = Inr (l, s')" "l = last (r # map fst (e # es))"
    "dl_data (dnodes s' r) = dl_data (dnodes s r)" "e # es \<noteq> [] \<longrightarrow> dl_next (dnodes s' r) = fst (hd (e # es))"
    using st r(1,5) rr e by simp_all
  ultimately show ?case using c n by blast
qed

text \<open>Freeing takes the data buffers of the first \<open>k\<close> nodes.\<close>

lemma free_nodes_spec:
  assumes "chain (dnodes s) q es" and "k \<le> length es"
  shows "\<exists>s' l. free_nodes k q s = Inr (l, s') \<and> dlists s' = dlists s
    \<and> kmem (nd s') = (kmem (nd s))\<lparr>freed := freed (kmem (nd s)) @ map (Pair Kfree \<circ> snd) (take k es)\<rparr>"
  using assms
proof (induction k arbitrary: q es s)
  case (Suc k)
  then obtain a d es' where es: "es = (a, d) # es'" by (cases es) auto
  have q: "q = a" "a \<noteq> 0" "dl_data (dnodes s a) = d" "chain (dnodes s) (dl_next (dnodes s a)) es'"
    using Suc.prems(1) es by auto
  let ?s = "(with_kmem (kfree_as Kfree d (kmem (nd s))) s)\<lparr>dnodes := (dnodes s)(a := (dnodes s a)\<lparr>dl_len := 0\<rparr>)\<rparr>"
  have "free_nodes (Suc k) q s = free_nodes k (dl_next (dnodes s a)) ?s" using q by simp
  moreover have "chain (dnodes ?s) (dl_next (dnodes s a)) es'" using q(4) by (simp add: chain_len)
  from Suc.IH [OF this] Suc.prems es obtain s' l where "free_nodes k (dl_next (dnodes s a)) ?s = Inr (l, s')"
    "dlists s' = dlists ?s"
    "kmem (nd s') = (kmem (nd ?s))\<lparr>freed := freed (kmem (nd ?s)) @ map (Pair Kfree \<circ> snd) (take k es')\<rparr>" by auto
  ultimately show ?case using es by (simp add: with_kmem_def kfree_as_def)
qed simp

section \<open>Data messages\<close>

text \<open>What the mailbox holds for a network buffer sent with \<open>ifx_mps_data_send\<close>.\<close>

definition data_entry :: "nat \<Rightarrow> u8 \<times> u32 \<times> u32 \<Rightarrow> u32 list" where
  "data_entry cpu d = (case d of (seq, addr, len) \<Rightarrow> mark_ready (take 4 (buf_message cpu DATAMSG
     MPS_TYPE_DOWNSTREAM_DATA MPS_TYPE_UPSTREAM_DATA seq addr len)))"

lemma data_entry_words:
  "length (data_entry cpu (seq, addr, len)) = 4" "data_entry cpu (seq, addr, len) ! 2 = addr"
  "data_entry cpu (seq, addr, len) ! 3 = len"
  "data_entry cpu (seq, addr, len) ! 0 = header0 (if cpu = MPS_CPU_0_ID then MPS_TYPE_DOWNSTREAM_DATA
     else MPS_TYPE_UPSTREAM_DATA) seq (cmd_code (if cpu = MPS_CPU_0_ID then CPU0 DATAMSG else CPU1 DATAMSG))"
  by (simp_all add: data_entry_def buf_message_def mark_ready_def data_message_def eval_nat_numeral del: cmd_code.simps)

definition data_mbx :: "nat \<Rightarrow> mbx_ref \<times> bool" where
  "data_mbx cpu = (if cpu = MPS_CPU_0_ID then (Wifi 1, False) else (Wifi 0, True))"

lemma tx_data:
  "tx_mbx cpu (if cpu = MPS_CPU_0_ID then MPS_TYPE_DOWNSTREAM_DATA else MPS_TYPE_UPSTREAM_DATA)
     = Some (data_mbx cpu, if cpu = MPS_CPU_0_ID then 0x20 else 0x02)"
  by (simp add: tx_mbx_def data_mbx_def)

lemma data_send_spec:
  assumes f: "f = mbx_fifo (data_mbx (cpu_id (nd s))) (dev (nd s))" "wf_fifo f" and h: "fifo_holds f (sram (nd s)) q"
    and space: "min_space f = fifo_size f" and send: "ifx_mps_data_send seq addr len s = Inr (rc, s')"
  shows "rc = 0 \<and> fifo_holds f (sram (nd s')) (q @ [data_entry (cpu_id (nd s)) (seq, addr, len)])
    \<or> rc = - 1 \<and> fifo_holds f (sram (nd s')) q"
    and "dev (nd s') = dev (nd s)" and "cpu_id (nd s') = cpu_id (nd s)"
proof -
  let ?t = "if cpu_id (nd s) = MPS_CPU_0_ID then MPS_TYPE_DOWNSTREAM_DATA else MPS_TYPE_UPSTREAM_DATA"
  let ?msg = "buf_message (cpu_id (nd s)) DATAMSG MPS_TYPE_DOWNSTREAM_DATA MPS_TYPE_UPSTREAM_DATA seq addr len"
  obtain retval n1 where sn: "ifx_mpsdrv_mbx_send ?msg (nd s) = (retval, n1)" by (cases "ifx_mpsdrv_mbx_send ?msg (nd s)")
  have t: "?t < 256" by (simp add: MPS_TYPE_DOWNSTREAM_DATA_def MPS_TYPE_UPSTREAM_DATA_def)
  have w: "msg_words (?msg ! 1) = 4" "\<not> msg_next_wrapped (?msg ! 1)"
    using len_words [of 8] len_word(2) [of 8] by (simp_all add: buf_message_def)
  have x: "length (take 4 ?msg) = 4" "take 4 ?msg ! 0 = ?msg ! 0" "take 4 ?msg ! 1 = ?msg ! 1"
    by (simp_all add: buf_message_def DATA_MESSAGE_WORDS_def)
  have "msg_type (?msg ! 0) = ?t" using header0_type [OF t] by (simp add: buf_message_def)
  then have tx: "tx_mbx (cpu_id (nd s)) (msg_type (take 4 ?msg ! 0))
      = Some (data_mbx (cpu_id (nd s)), if cpu_id (nd s) = MPS_CPU_0_ID then 0x20 else 0x02)"
    using tx_data x(2) by simp
  have sn4: "ifx_mpsdrv_mbx_send (take 4 ?msg) (nd s) = (retval, n1)"
    using sn send_prefix [of ?msg "nd s"] w(1) by (simp add: buf_message_def DATA_MESSAGE_WORDS_def)
  have len: "length (take 4 ?msg) = msg_words (take 4 ?msg ! 1)" "\<not> msg_next_wrapped (take 4 ?msg ! 1)" using w x by simp_all
  note f' = f(2) [unfolded f(1)] and h' = h [unfolded f(1)]
  note sp = send_spec [OF tx f' h' len sn4]
  have d: "dev n1 = dev (nd s)" using send_keeps_dev [OF tx f' h' len sn4] space f(1) by simp
  have c: "cpu_id n1 = cpu_id (nd s)"
    using sn by (auto simp: ifx_mpsdrv_mbx_send_def Let_def split: option.splits prod.splits if_splits)
  have s': "sram (nd s') = sram n1 \<and> dev (nd s') = dev n1 \<and> cpu_id (nd s') = cpu_id n1 \<and> rc = (if retval \<noteq> OK then - 1 else 0)"
    using send sn by (auto simp: ifx_mps_data_send_def book_keep_def split: if_splits sum.splits prod.splits)
  then show "dev (nd s') = dev (nd s)" "cpu_id (nd s') = cpu_id (nd s)" using d c by simp_all
  show "rc = 0 \<and> fifo_holds f (sram (nd s')) (q @ [data_entry (cpu_id (nd s)) (seq, addr, len)])
    \<or> rc = - 1 \<and> fifo_holds f (sram (nd s')) q"
    using sp s' f(1) by (auto simp: data_entry_def)
qed

definition serve_data1 :: "(u32 \<Rightarrow> nat) \<Rightarrow> (skb_call \<Rightarrow> u32) \<Rightarrow> mem \<Rightarrow> mps_linux \<Rightarrow> fault + mps_linux" where
  "serve_data1 truesize net m s =
     (case ifx_mpsdrv_data1_irq truesize 0x20 ((nd s)\<lparr>sram := m, calls := []\<rparr>) of
        Inl f \<Rightarrow> Inl f
      | Inr n1 \<Rightarrow>
        (case ifx_mps_cpu1_do_DnData_tasklet n1 of
           Inl f \<Rightarrow> Inl f
         | Inr n2 \<Rightarrow> run_callbacks net (calls n2) (s\<lparr>nd := n2\<rparr>)))"

fun send_all :: "(u8 \<times> u32 \<times> u32) list \<Rightarrow> mps_linux \<Rightarrow> fault + s32 list \<times> mps_linux" where
  "send_all [] s = Inr ([], s)"
| "send_all ((seq, addr, len) # ds) s =
     (case ifx_mps_data_send seq addr len s of
        Inl f \<Rightarrow> Inl f
      | Inr (rc, s1) \<Rightarrow>
        (case send_all ds s1 of Inl f \<Rightarrow> Inl f | Inr (rcs, s2) \<Rightarrow> Inr (rc # rcs, s2)))"

text \<open>The data that were accepted.\<close>

definition accepted :: "'a list \<Rightarrow> s32 list \<Rightarrow> 'a list" where
  "accepted ds rcs = map fst (filter (\<lambda>(d, rc). rc = 0) (zip ds rcs))"

lemma send_all_holds:
  assumes "f = mbx_fifo (data_mbx (cpu_id (nd s))) (dev (nd s))" and "wf_fifo f" and "fifo_holds f (sram (nd s)) q"
    and "min_space f = fifo_size f" and "send_all ds s = Inr (rcs, s')"
  shows "fifo_holds f (sram (nd s')) (q @ map (data_entry (cpu_id (nd s))) (accepted ds rcs))"
  using assms
proof (induction ds arbitrary: s q rcs)
  case Nil
  then show ?case by (simp add: accepted_def)
next
  case (Cons d ds)
  obtain seq addr len where d: "d = (seq, addr, len)" by (cases d)
  from Cons.prems(5) d obtain rc s1 rcs' where s: "ifx_mps_data_send seq addr len s = Inr (rc, s1)"
    "send_all ds s1 = Inr (rcs', s')" "rcs = rc # rcs'" by (auto split: sum.splits prod.splits)
  note sp = data_send_spec [OF Cons.prems(1-4) s(1)]
  have f: "f = mbx_fifo (data_mbx (cpu_id (nd s1))) (dev (nd s1))" using Cons.prems(1) sp(2,3) by simp
  from sp(1) show ?case
  proof
    assume "rc = 0 \<and> fifo_holds f (sram (nd s1)) (q @ [data_entry (cpu_id (nd s)) (seq, addr, len)])"
    with Cons.IH [OF f Cons.prems(2) _ Cons.prems(4) s(2), of "q @ [data_entry (cpu_id (nd s)) d]"] sp(3) show ?case
      by (simp add: s(3) d accepted_def)
  next
    assume "rc = - 1 \<and> fifo_holds f (sram (nd s1)) q"
    with Cons.IH [OF f Cons.prems(2) _ Cons.prems(4) s(2)] sp(3) show ?case by (auto simp: s(3) d accepted_def)
  qed
qed

text \<open>The data callback of CPU1 on copies of data messages.\<close>

lemma data_callbacks_run:
  assumes "list_all2 carries (map (data_entry 0) ds) cs" and "cpu_id (nd s) \<noteq> MPS_CPU_0_ID"
    and "\<forall>d\<in>set ds. callback_function (dev n) (fst d) = ADDR_ifx_mbx_data_rcv_callback \<and> data_callback_funct s (fst d) \<noteq> 0"
  shows "run_callbacks net (invocations (callback_function (dev n)) cs) s
    = Inr (s\<lparr>data_calls := data_calls s @ map (\<lambda>(seq, addr, len). (data_callback_funct s seq, addr, len)) ds\<rparr>)"
  using assms
proof (induction ds arbitrary: cs s)
  case Nil
  then show ?case by (simp add: invocations_def)
next
  case (Cons d ds)
  obtain seq addr len where d: "d = (seq, addr, len)" by (cases d)
  from Cons.prems(1) obtain c cs' where cs: "cs = c # cs'" "carries (data_entry 0 d) c"
    "list_all2 carries (map (data_entry 0) ds) cs'" by (auto simp: list_all2_Cons1)
  note w = data_entry_words [of 0 seq addr len]
  have c: "c ! 0 = data_entry 0 d ! 0" "c ! 2 = addr" "c ! 3 = len"
    using carries_nth [OF cs(2), of 0] carries_nth [OF cs(2), of 2] carries_nth [OF cs(2), of 3] w d
    by (simp_all add: DATA_MESSAGE_WORDS_def)
  have h: "msg_seqno (c ! 0) = unat seq" "msg_cmd (c ! 0) = cmd_code (CPU0 DATAMSG)"
    using c(1) w(4) d cmd_code_less [of "CPU0 DATAMSG"]
    by (simp_all add: header0_seqno header0_cmd MPS_CPU_0_ID_def del: cmd_code.simps)
  have cb: "callback_function (dev n) seq = ADDR_ifx_mbx_data_rcv_callback" "data_callback_funct s seq \<noteq> 0"
    using Cons.prems(3) d by auto
  let ?s = "s\<lparr>data_calls := data_calls s @ [(data_callback_funct s seq, addr, len)]\<rparr>"
  have "ifx_mbx_data_rcv_callback c s = Inr ?s"
    using h c cb(2) Cons.prems(2) by (simp add: ifx_mbx_data_rcv_callback_def call_registered_def cmd_op_def Let_def del: cmd_code.simps)
  then have "run_callbacks net (invocations (callback_function (dev n)) cs) s
      = run_callbacks net (invocations (callback_function (dev n)) cs') ?s"
    using h cb(1) cs(1) by (simp add: invocations_def run_callback_def ADDR_ifx_mbx_data_rcv_callback_def)
  also have "\<dots> = Inr (?s\<lparr>data_calls := data_calls ?s @ map (\<lambda>(seq, addr, len). (data_callback_funct ?s seq, addr, len)) ds\<rparr>)"
    by (rule Cons.IH [OF cs(3)]) (use Cons.prems in auto)
  finally show ?case using d by simp
qed

section \<open>Registered functions\<close>

text \<open>The services register and unregister their functions in any order.\<close>

inductive reg_step :: "mps_linux \<Rightarrow> mps_linux \<Rightarrow> bool" where
  Register: "cb \<noteq> 0 \<Longrightarrow> ifx_mps_register_callback seq cb s = (rc, s') \<Longrightarrow> reg_step s s'"
| Unregister: "ifx_mps_unregister_callback seq s = (rc, s') \<Longrightarrow> reg_step s s'"

inductive_cases reg_stepE: "reg_step s s'"

text \<open>The table of functions here and the table of callbacks in the device layer agree.\<close>

definition tables_agree :: "mps_linux \<Rightarrow> bool" where
  "tables_agree s \<longleftrightarrow> data_callback_funct s 0 = 0 \<and> (\<forall>seq. seq \<noteq> 0 \<longrightarrow>
     callback_function (dev (nd s)) seq = (if data_callback_funct s seq = 0 then 0 else ADDR_ifx_mbx_data_rcv_callback))"

lemma reg_step_agree: "reg_step s s' \<Longrightarrow> tables_agree s \<Longrightarrow> tables_agree s'"
  by (erule reg_stepE)
     (auto simp: tables_agree_def ifx_mps_register_callback_def ifx_mps_unregister_callback_def
       ifx_mpsdrv_register_callback_def ifx_mpsdrv_unregister_callback_def split: if_splits)

lemma reg_step_cpu: "reg_step s s' \<Longrightarrow> cpu_id (nd s') = cpu_id (nd s)"
  by (erule reg_stepE)
     (auto simp: ifx_mps_register_callback_def ifx_mps_unregister_callback_def
       ifx_mpsdrv_register_callback_def ifx_mpsdrv_unregister_callback_def split: if_splits)

lemma reg_steps_agree:
  assumes "reg_step\<^sup>*\<^sup>* s s'" and "tables_agree s"
  shows "tables_agree s' \<and> cpu_id (nd s') = cpu_id (nd s)"
  using assms by (induction rule: rtranclp_induct) (auto intro: reg_step_agree simp: reg_step_cpu)

section \<open>Properties\<close>

text \<open>C2: A remote allocation goes all the way round.  When CPU1 asks for a network buffer over an idle
  command link, the caller waits; CPU0's interrupt, tasklet and callback take the request, allocate
  and answer; CPU1's interrupt, tasklet and callback store the answer; and the caller returns with
  exactly the buffer CPU0's allocator gave (or \<open>NULL\<close> when it failed), the balance of waiting callers
  as before and the link idle again.\<close>

theorem remote_alloc_round_trip:
  assumes s0: "cmd_ready s0" "cpu_id (nd s0) = 0" and s1: "cmd_ready s1" "cpu_id (nd s1) = 1"
    and m: "cmd_idle (sram (nd s1))" and flag: "\<not> cmd_callback_flag s1"
    and b: "kalloc (kernel (pools (nd s0))) = (b, h)"
  shows "\<exists>s1' s0' s1'' s2. ifx_mps_skbuff_alloc False siz s1 = (Waiting, s1')
    \<and> serve_cmd0 truesize net (sram (nd s1')) s0 = Inr s0'
    \<and> serve_cmd1 truesize stats net (sram (nd s0')) s1' = Inr s1''
    \<and> cmd_answer False s1'' = (Returned b, s2) \<and> kernel (pools (nd s0')) = h
    \<and> cmd_wakeuplist_balance s2 = cmd_wakeuplist_balance s1 \<and> \<not> cmd_callback_flag s2 \<and> cmd_idle (sram (nd s2))"
proof -
  obtain m1 x where r: "remote_request (cmd_code (CPU1 SKB_ALLOC)) siz s1 = s1\<lparr>msg_data := replicate DATA_MESSAGE_WORDS 0,
       nd := raise_irq 1 ((nd s1)\<lparr>sram := m1\<rparr>), cmd_wakeuplist_balance := cmd_wakeuplist_balance s1 + 1\<rparr>"
    and x: "fifo_holds up_cmd m1 [x]" "same_outside up_cmd (sram (nd s1)) m1"
    "length x = 3" "x ! 0 = header0 MPS_TYPE_DOWNSTREAM_CMD 0 (cmd_code (CPU1 SKB_ALLOC))" "x ! 2 = siz"
    by (rule alloc_request [OF s1 m, of SKB_ALLOC siz]) (simp_all add: alloc_cmd_def)
  define s1' where "s1' = s1\<lparr>msg_data := replicate DATA_MESSAGE_WORDS 0,
       nd := raise_irq 1 ((nd s1)\<lparr>sram := m1\<rparr>), cmd_wakeuplist_balance := cmd_wakeuplist_balance s1 + 1\<rparr>"
  have w: "ifx_mps_skbuff_alloc False siz s1 = (Waiting, s1')"
    using s1(2) flag by (simp add: ifx_mps_skbuff_alloc_def r s1'_def [symmetric] del: cmd_code.simps)
      (simp add: cmd_answer_def s1'_def)
  have n1: "sram (nd s1') = m1" "dev (nd s1') = dev (nd s1)" "kmem (nd s1') = kmem (nd s1)"
    "rcvCmdMsgQ (nd s1') = rcvCmdMsgQ (nd s1)" by (simp_all add: s1'_def raise_irq_def)
  have dn: "drained dn_cmd m1" using m same_outside_other(2) [OF x(2) cmd_fifos(3)] by (simp add: cmd_idle_def)
  have st: "m1 115 = 0" using m x(2) cmd_fifos(10) by (simp add: cmd_idle_def same_outside_def)
  obtain s0' y where y: "serve_cmd0 truesize net m1 s0 = Inr s0'" "kernel (pools (nd s0')) = h"
    "drained up_cmd (sram (nd s0'))" "fifo_holds dn_cmd (sram (nd s0')) [y]" "sram (nd s0') 115 = m1 115"
    "length y = 4" "y ! 0 = header0 MPS_TYPE_DOWNSTREAM_CMD 0 (cmd_code (CPU1 SKB_ALLOC) + 0x1000)" "y ! 2 = b"
    by (rule alloc_served_by_cpu0 [OF s0 x(1,3-5) dn b])
  have "cmd_ready s1'" "sram (nd s0') 115 = 0" using s1(1) y(5) st by (simp_all add: cmd_ready_def n1)
  from alloc_answered_at_cpu1 [OF this(1) y(3,4) this(2) y(6-8)] obtain n c where
    a: "serve_cmd1 truesize stats net (sram (nd s0')) s1' = Inr (s1'\<lparr>nd := n, msg_data := c, cmd_callback_flag := True,
      cmd_wakeuplist_balance := cmd_wakeuplist_balance s1' - 1\<rparr>)" "c ! 2 = b" "cmd_idle (sram n)" by blast
  have "cmd_wakeuplist_balance s1' - 1 = cmd_wakeuplist_balance s1" by (simp add: s1'_def)
  then show ?thesis using w y(1,2) a n1(1) by (auto simp: cmd_answer_def)
qed

definition demo_cmd_node :: "nat \<Rightarrow> mps_node" where
  "demo_cmd_node cpu = (demo_node cpu (\<lambda>_. 0))\<lparr>dev := zero_dev\<lparr>
     command_mbx := zero_mbx\<lparr>upstrm_fifo := std_mailboxes ! 0, dwstrm_fifo := std_mailboxes ! 1\<rparr>,
     callback_function := (\<lambda>q. if q = 0 then ADDR_ifx_mps_cmd_rcv_callback else 0)\<rparr>,
     pools := demo_pools\<lparr>kernel := \<lparr>upcoming = [0x80345000], freed = []\<rparr>\<rparr>\<rparr>"

definition demo_linux :: "nat \<Rightarrow> mps_linux" where
  "demo_linux cpu = \<lparr>nd = demo_cmd_node cpu, msg_data = replicate 6 0, cmd_callback_flag = False,
     cmd_wakeuplist_balance = 0, data_callback_funct = (\<lambda>_. 0), data_calls = [],
     dlists = (\<lambda>_. \<lparr>dl_no = 0, dl_datalist = 0\<rparr>), dnodes = (\<lambda>_. \<lparr>dl_data = 0, dl_len = 0, dl_next = 0\<rparr>), skb_log = []\<rparr>"

lemma demo_linux_ready: "cmd_ready (demo_linux cpu)" "cpu_id (nd (demo_linux cpu)) = cpu"
  "cmd_idle (sram (nd (demo_linux cpu)))" "\<not> cmd_callback_flag (demo_linux cpu)"
proof -
  show "cmd_ready (demo_linux cpu)"
    by (simp add: cmd_ready_def demo_linux_def demo_cmd_node_def demo_node_def dm_inv_def dm_list_def dm_ring_def
      ring_inv_def ring_list_def ring_len_def MAX_MPS_DATAMSG_QLEN_def)
  show "cpu_id (nd (demo_linux cpu)) = cpu" "\<not> cmd_callback_flag (demo_linux cpu)"
    by (simp_all add: demo_linux_def demo_cmd_node_def demo_node_def)
  show "cmd_idle (sram (nd (demo_linux cpu)))"
    by (simp add: cmd_idle_def drained_def straight_def demo_linux_def demo_cmd_node_def demo_node_def
      std_mailboxes_def fifo_words_def msg_ready_def msg_next_wrapped_def)
qed

theorem remote_alloc_round_trip_witness:
  "\<exists>s1' s0' s1'' s2. ifx_mps_skbuff_alloc False 1500 (demo_linux 1) = (Waiting, s1')
    \<and> serve_cmd0 (\<lambda>_. 0) (\<lambda>_. 0) (sram (nd s1')) (demo_linux 0) = Inr s0'
    \<and> serve_cmd1 (\<lambda>_. 0) \<lparr>ath_wireless_stats = (\<lambda>_. 0), ath_stats = (\<lambda>_. 0), wifi0_stats = 0\<rparr> (\<lambda>_. 0)
        (sram (nd s0')) s1' = Inr s1''
    \<and> cmd_answer False s1'' = (Returned 0x80345000, s2) \<and> cmd_idle (sram (nd s2))"
proof -
  have "kalloc (kernel (pools (nd (demo_linux 0)))) = (0x80345000, \<lparr>upcoming = [], freed = []\<rparr>)"
    by (simp add: demo_linux_def demo_cmd_node_def kalloc.simps)
  from remote_alloc_round_trip [OF demo_linux_ready(1,2) demo_linux_ready this,
      of 1500 "\<lambda>_. 0" "\<lambda>_. 0" "\<lparr>ath_wireless_stats = (\<lambda>_. 0), ath_stats = (\<lambda>_. 0), wifi0_stats = 0\<rparr>"]
  show ?thesis by blast
qed



text \<open>A data list that is allocated and freed again leaks.  Of the list of \<open>n\<close> entries, which takes
  \<open>n + 1\<close> nodes with a data buffer each, the release gives back the first \<open>n\<close> data buffers and the head;
  the nodes themselves and the last data buffer are never released.\<close>

theorem datalist_free_leaks:
  assumes mem: "upcoming (kmem (nd s)) = p # node_addrs es @ rest" and len: "length es = n + 1"
    and ok: "p \<noteq> 0" "0 \<notin> fst ` set es" "distinct (map fst es)"
  shows "\<exists>s1 s2. ifx_mps_cpu0_datalist_alloc (int n) s = Inr (p, s1) \<and> upcoming (kmem (nd s1)) = rest
    \<and> ifx_mps_cpu0_datalist_free p s1 = Inr s2
    \<and> freed (kmem (nd s2)) = freed (kmem (nd s)) @ map (Pair Kfree) (map snd (take n es) @ [p])"
proof -
  obtain a d es' where es: "es = (a, d) # es'" "length es' = n" using len by (cases es) auto
  let ?h = "(kmem (nd s))\<lparr>upcoming := node_addrs es @ rest\<rparr>"
  let ?s0 = "with_kmem ?h s"
  have up: "upcoming (kmem (nd ?s0)) = a # d # (node_addrs es' @ rest)" and a: "a \<noteq> 0"
    using es ok by (auto simp: with_kmem_def node_addrs_def)
  note nn = new_node_spec [OF up a]
  define s1 where "s1 = (with_kmem ((kmem (nd ?s0))\<lparr>upcoming := node_addrs es' @ rest\<rparr>) ?s0)
    \<lparr>dnodes := (dnodes ?s0)(a := (dnodes ?s0 a)\<lparr>dl_data := d\<rparr>)\<rparr>"
  have "upcoming (kmem (nd s1)) = node_addrs es' @ rest" "0 \<notin> fst ` set es'" "distinct (a # map fst es')"
    using es ok by (auto simp: s1_def with_kmem_def)
  then obtain s2 l where r: "append_nodes n a s1 = Inr (l, s2)" "kmem (nd s2) = (kmem (nd s1))\<lparr>upcoming := rest\<rparr>"
      "l = last (a # map fst es')" "dl_data (dnodes s2 a) = dl_data (dnodes s1 a)"
      "es' \<noteq> [] \<longrightarrow> dl_next (dnodes s2 a) = fst (hd es')"
      "chain ((dnodes s2)(l := (dnodes s2 l)\<lparr>dl_next := 0\<rparr>)) (if es' = [] then 0 else fst (hd es')) es'"
    using append_nodes_spec [of s1 es' rest n a] es(2) by blast
  let ?fin = "(dnodes s2)(l := (dnodes s2 l)\<lparr>dl_next := 0\<rparr>)"
  define s3 where "s3 = s2\<lparr>dnodes := ?fin, dlists := (dlists s2)(p := \<lparr>dl_no = int n, dl_datalist = a\<rparr>)\<rparr>"
  have al: "ifx_mps_cpu0_datalist_alloc (int n) s = Inr (p, s3)"
    using mem ok(1) nn r(1) by (simp add: ifx_mps_cpu0_datalist_alloc_def kalloc.simps s1_def [symmetric] s3_def)
  have "dl_data (?fin a) = d" using r(4) by (auto simp: s1_def)
  moreover have "a \<noteq> last (map fst es')" if "es' \<noteq> []" using that ok(3) es(1) last_in_set [of "map fst es'"] by auto
  then have "dl_next (?fin a) = (if es' = [] then 0 else fst (hd es'))" using r(3,5) by auto
  ultimately have "chain (dnodes s3) a es" using r(6) a es(1) by (simp add: s3_def)
  from free_nodes_spec [OF this, of n] len obtain s4 l' where f: "free_nodes n a s3 = Inr (l', s4)"
    "kmem (nd s4) = (kmem (nd s3))\<lparr>freed := freed (kmem (nd s3)) @ map (Pair Kfree \<circ> snd) (take n es)\<rparr>" by auto
  have k: "kmem (nd s3) = (kmem (nd s))\<lparr>upcoming := rest\<rparr>" using r(2) by (simp add: s3_def s1_def with_kmem_def)
  have "\<exists>s5. ifx_mps_cpu0_datalist_free p s3 = Inr s5 \<and> kmem (nd s5) = kfree_as Kfree p (kmem (nd s4))"
    using f(1) ok(1) by (simp add: ifx_mps_cpu0_datalist_free_def s3_def with_kmem_def)
  with al f(2) k show ?thesis by (auto simp: kfree_as_def)
qed

theorem datalist_free_leaks_witness:
  "\<exists>s1 s2. ifx_mps_cpu0_datalist_alloc 2 (demo_linux 0) = Inr (1, s1) \<and> upcoming (kmem (nd s1)) = [8, 9, 10]
    \<and> ifx_mps_cpu0_datalist_free 1 s1 = Inr s2 \<and> freed (kmem (nd s2)) = [(Kfree, 3), (Kfree, 5), (Kfree, 1)]"
proof -
  have "upcoming (kmem (nd (demo_linux 0))) = 1 # node_addrs [(2, 3), (4, 5), (6, 7)] @ [8, 9, 10]"
    "freed (kmem (nd (demo_linux 0))) = []"
    by (simp_all add: demo_linux_def demo_cmd_node_def demo_node_def node_addrs_def)
  from datalist_free_leaks [OF this(1), of 2] this(2) show ?thesis by simp
qed

definition demo_sender :: mps_linux where
  "demo_sender = (demo_linux 0)\<lparr>nd := demo_cpu0\<lparr>pools := demo_pools\<lparr>mps_buff_pool_array := None\<rparr>\<rparr>\<rparr>"

definition demo_receiver :: mps_linux where
  "demo_receiver = (demo_linux 1)\<lparr>nd := (demo_cmd_node 1)\<lparr>dev := (dev demo_cpu0)\<lparr>callback_function :=
     (\<lambda>q. if q = 0x14 then ADDR_ifx_mbx_data_rcv_callback else 0)\<rparr>\<rparr>,
     data_callback_funct := (\<lambda>q. if q = 0x14 then 0x80012340 else 0)\<rparr>"

lemma demo_sender_ok:
  "cpu_id (nd demo_sender) = MPS_CPU_0_ID" "dwstrm_fifo (wifi_mbx (dev (nd demo_sender)) ! 1) = std_mailboxes ! 3"
  "drained (std_mailboxes ! 3) (sram (nd demo_sender))"
  by (simp_all add: demo_sender_def demo_cpu0_def demo_node_def MPS_CPU_0_ID_def drained_def straight_def
    std_mailboxes_def fifo_words_def msg_ready_def msg_next_wrapped_def)

lemma demo_sent: "\<exists>s'. send_all [(0x14, 0x00100000, 64)] demo_sender = Inr ([0], s')"
proof -
  let ?n = "nd demo_sender"
  have f: "std_mailboxes ! 3 = mbx_fifo (Wifi 1, False) (dev ?n)" "wf_fifo (std_mailboxes ! 3)"
    using demo_sender_ok std_mailboxes_wf by (simp_all add: mbx_fifo_def mbx_dev_def std_mailboxes_def)
  have tx: "tx_mbx (cpu_id ?n) MPS_TYPE_DOWNSTREAM_DATA = Some ((Wifi 1, False), 0x20)"
    using tx_data [of MPS_CPU_0_ID] demo_sender_ok(1) by (simp add: data_mbx_def)
  have "\<exists>m x. ifx_mpsdrv_mbx_send (data_message MPS_TYPE_DOWNSTREAM_DATA 0x14 (cmd_code (CPU0 DATAMSG)) 8 [0x00100000, 64]) ?n
      = (OK, raise_irq 0x20 (?n\<lparr>sram := m\<rparr>)) \<and> fifo_holds (std_mailboxes ! 3) m [x]
      \<and> same_outside (std_mailboxes ! 3) (sram ?n) m
      \<and> x = mark_ready (take ((11 + 8) div 4) (data_message MPS_TYPE_DOWNSTREAM_DATA 0x14 (cmd_code (CPU0 DATAMSG)) 8 [0x00100000, 64]))"
    by (rule send_message [OF tx f demo_sender_ok(3)])
       (simp_all add: MPS_TYPE_DOWNSTREAM_DATA_def std_mailboxes_def fifo_words_def)
  then obtain m where "ifx_mpsdrv_mbx_send (buf_message (cpu_id ?n) DATAMSG MPS_TYPE_DOWNSTREAM_DATA
      MPS_TYPE_UPSTREAM_DATA 0x14 0x00100000 64) ?n = (OK, raise_irq 0x20 (?n\<lparr>sram := m\<rparr>))"
    using demo_sender_ok(1) by (auto simp: buf_message_def)
  moreover have "cpu_id (raise_irq 0x20 (?n\<lparr>sram := m\<rparr>)) = MPS_CPU_0_ID"
    "mps_buff_pool_array (pools (raise_irq 0x20 (?n\<lparr>sram := m\<rparr>))) = None" for m
    by (simp_all add: demo_sender_ok(1)) (simp add: raise_irq_def demo_sender_def)
  ultimately show ?thesis
    using demo_sender_ok(1)
    by (simp add: ifx_mps_data_send_def book_keep_def ifx_cpu0_release_q_lists_def ifx_cpu0_topup_q_lists_def MPS_GET_BUF_POOL_def)
qed

text \<open>Over every sequence of registrations and deregistrations, whenever the device layer passes a
  data message on CPU1 to the data callback, that callback finds a registered function and does not
  call the null pointer.\<close>

theorem data_callback_never_null:
  assumes steps: "reg_step\<^sup>*\<^sup>* s s'" and init: "tables_agree s" and cpu: "cpu_id (nd s) = MPS_CPU_1_ID"
    and called: "callback_function (dev (nd s')) (of_nat (msg_seqno (rw ! 0))) = ADDR_ifx_mbx_data_rcv_callback"
    and seq: "of_nat (msg_seqno (rw ! 0)) \<noteq> (0 :: u8)"
  shows "\<exists>s''. ifx_mbx_data_rcv_callback rw s' = Inr s''"
proof -
  have a: "tables_agree s'" "cpu_id (nd s') \<noteq> MPS_CPU_0_ID"
    using reg_steps_agree [OF steps init] cpu by (simp_all add: MPS_CPU_0_ID_def MPS_CPU_1_ID_def)
  have "data_callback_funct s' (of_nat (msg_seqno (rw ! 0))) \<noteq> 0"
    using a(1) called seq by (auto simp: tables_agree_def ADDR_ifx_mbx_data_rcv_callback_def)
  then have "\<exists>s1. call_registered rw s' = Inr s1" by (simp add: call_registered_def Let_def)
  with a(2) show ?thesis
    by (auto simp: ifx_mbx_data_rcv_callback_def split: option.splits mps_cmd_op.splits)
qed

theorem data_callback_never_null_witness:
  "\<exists>s''. ifx_mbx_data_rcv_callback (data_message 2 7 0x101 8 [0x1000, 64])
     (snd (ifx_mps_register_callback 7 0x80010000 (demo_linux 1))) = Inr s''"
proof (rule data_callback_never_null)
  show "reg_step\<^sup>*\<^sup>* (demo_linux 1) (snd (ifx_mps_register_callback 7 0x80010000 (demo_linux 1)))"
    by (rule r_into_rtranclp, rule reg_step.Register [OF _ prod.collapse [symmetric]]) simp
  show "tables_agree (demo_linux 1)"
    by (simp add: tables_agree_def demo_linux_def demo_cmd_node_def)
  show "cpu_id (nd (demo_linux 1)) = MPS_CPU_1_ID" using demo_linux_ready(2) by (simp add: MPS_CPU_1_ID_def)
qed (simp_all add: header0_seqno ifx_mps_register_callback_def ifx_mpsdrv_register_callback_def demo_linux_def demo_cmd_node_def)

text \<open>A reset of CPU1 strands the registered functions.  It clears the callbacks of the device layer but
  not the table of functions, so the service's messages are no longer delivered, and registering
  again is refused and does not restore the callback.\<close>

theorem reset_strands_registrations:
  assumes cpu: "cpu_id (nd s) = MPS_CPU_0_ID" and reg: "data_callback_funct s seq \<noteq> 0" "seq \<noteq> 0"
    and reset: "ifx_mpsdrv_reset (nd s) = Inr (rc, n)"
  shows "fst (ifx_mps_register_callback seq cb (s\<lparr>nd := n\<rparr>)) = ERROR
    \<and> callback_function (dev (nd (snd (ifx_mps_register_callback seq cb (s\<lparr>nd := n\<rparr>))))) seq = 0"
proof -
  have "callback_function (dev n) = (\<lambda>_. 0)"
    using reset cpu by (auto simp: ifx_mpsdrv_reset_def ifx_mpsdrv_reset_structures_def Let_def split: sum.splits prod.splits)
  with reg show ?thesis by (simp add: ifx_mps_register_callback_def)
qed

theorem reset_strands_registrations_witness:
  "\<exists>n. let s = snd (ifx_mps_register_callback 7 0x80010000 ((demo_linux 0)\<lparr>nd := (nd (demo_linux 0))\<lparr>dev :=
        (dev (nd (demo_linux 0)))\<lparr>wifi_mbx := [], dev_wakeup_pending := Some \<lparr>sem_addr = 1, sem_count = 1\<rparr>\<rparr>\<rparr>\<rparr>))
   in ifx_mpsdrv_reset (nd s) = Inr (OK, n) \<and> fst (ifx_mps_register_callback 7 0x80020000 (s\<lparr>nd := n\<rparr>)) = ERROR"
proof -
  define s where "s = snd (ifx_mps_register_callback 7 0x80010000 ((demo_linux 0)\<lparr>nd := (nd (demo_linux 0))\<lparr>dev :=
        (dev (nd (demo_linux 0)))\<lparr>wifi_mbx := [], dev_wakeup_pending := Some \<lparr>sem_addr = 1, sem_count = 1\<rparr>\<rparr>\<rparr>\<rparr>))"
  have s: "cpu_id (nd s) = MPS_CPU_0_ID" "data_callback_funct s 7 \<noteq> 0"
    by (simp_all add: s_def ifx_mps_register_callback_def ifx_mpsdrv_register_callback_def demo_linux_def
      demo_cmd_node_def demo_node_def MPS_CPU_0_ID_def)
  have "\<exists>n. ifx_mpsdrv_reset (nd s) = Inr (OK, n)"
    by (simp add: s_def ifx_mps_register_callback_def ifx_mpsdrv_register_callback_def demo_linux_def
      demo_cmd_node_def demo_node_def ifx_mpsdrv_reset_def ifx_mpsdrv_reset_structures_def zero_dev_def
      sem_up_if_zero_def MPS_CPU_0_ID_def Let_def)
  then obtain n where n: "ifx_mpsdrv_reset (nd s) = Inr (OK, n)" by blast
  from reset_strands_registrations [OF s _ n, of "0x80020000"] n show ?thesis
    unfolding s_def [symmetric] Let_def by auto
qed

end
