(* ===== verification/Mps_Chardev.thy ===== *)
theory Mps_Chardev
  imports Mps_Linux Kstring
begin

text \<open>
  The driver towards user space (\<open>mps_tpe_linux.c\<close>): opening, closing and controlling the character
  device, the files under \<open>/proc/driver/ifx_mps\<close>, with the parser of the commands written to
  \<open>mps1_apps_ready\<close>, and the initialisation of the module.  A driver is the state of the kernel interface
  with what the module registered in the kernel.
\<close>

section \<open>Opening and closing\<close>

text \<open>The argument \<open>inode\<close> is a pointer that callers inside the kernel abuse for a minor number from 1 to
  5; otherwise the minor number is that of the inode.\<close>

definition from_kernel :: "u32 \<Rightarrow> bool" where
  "from_kernel inode \<longleftrightarrow> inode \<in> {1, 2, 3, 4, 5}"

definition mbx_of_minor :: "nat \<Rightarrow> mbx_ref option" where
  "mbx_of_minor num =
     (if num = 1 then Some Command else if num = 2 then Some (Wifi 0) else if num = 3 then Some (Wifi 1)
      else if num = 4 then Some (Wifi 2) else if num = 5 then Some (Wifi 3) else None)"

text \<open>Whether the device structure exists: \<open>wifi_mbx\<close> has \<open>MPSDRV_NUM_WIFI_CHANNEL\<close> elements.\<close>

definition mbx_exists :: "mbx_ref \<Rightarrow> bool" where
  "mbx_exists r = (case r of Command \<Rightarrow> True | Wifi i \<Rightarrow> i < MPSDRV_NUM_WIFI_CHANNEL)"

text \<open>The result is the return code and \<open>file_p->private_data\<close>, which only an open from user space sets.\<close>

definition ifx_mps_open ::
  "u32 \<Rightarrow> nat \<Rightarrow> mbx_ref option \<Rightarrow> mps_node \<Rightarrow> fault + s32 \<times> mbx_ref option \<times> mps_node" where
  "ifx_mps_open inode minor private_data n =
     (case mbx_of_minor (if from_kernel inode then unat inode else minor) of
        None \<Rightarrow> Inr (- EINVAL, private_data, n)
      | Some r \<Rightarrow>
          if \<not> mbx_exists r then Inl Out_of_bounds
          else case ifx_mpsdrv_common_open r (r = Command) n of
            (rc, n1) \<Rightarrow>
              if rc = OK then Inr (0, if from_kernel inode then private_data else Some r, n1)
              else Inr (- EMFILE, private_data, n1))"

definition ifx_mps_close :: "u32 \<Rightarrow> mbx_ref option \<Rightarrow> mps_node \<Rightarrow> fault + s32 \<times> mps_node" where
  "ifx_mps_close inode private_data n =
     (case (if from_kernel inode then mbx_of_minor (unat inode) else private_data) of
        None \<Rightarrow> Inr (- ENODEV, n)
      | Some r \<Rightarrow>
          if \<not> mbx_exists r then Inl Out_of_bounds else Inr (0, snd (ifx_mpsdrv_common_close r n)))"

section \<open>Control\<close>

text \<open>The numbers \<open>_IOR('O', 8, char*)\<close> and \<open>_IO('O', 6)\<close>.\<close>

definition FIO_MPS_GETVERSION :: u32 where "FIO_MPS_GETVERSION = 0x40044F08"
definition FIO_MPS_RESET :: u32 where "FIO_MPS_RESET = 0x20004F06"

definition ifx_mps_device_version :: string where "ifx_mps_device_version = ''1.5.0''"

text \<open>The result has the bytes written to \<open>arg\<close>: \<open>strlen\<close> of them, without the terminating zero.\<close>

definition ifx_mps_ioctl :: "u32 \<Rightarrow> u32 \<Rightarrow> mps_node \<Rightarrow> fault + s32 \<times> string \<times> mps_node" where
  "ifx_mps_ioctl inode nCmd n =
     (if nCmd = FIO_MPS_GETVERSION then Inr (OK, ifx_mps_device_version, n)
      else if nCmd = FIO_MPS_RESET then
        (case ifx_mpsdrv_reset n of Inl f \<Rightarrow> Inl f | Inr (rc, n1) \<Rightarrow> Inr (rc, [], n1))
      else Inr (- ENOIOCTLCMD, [], n))"

section \<open>Files under \<open>/proc\<close>\<close>

text \<open>One call of the \<open>read_proc\<close> function: from the text of the file the end-of-file flag, the offset of
  \<open>*start\<close> in the page and the number of bytes.\<close>

definition ifx_mps_read_proc :: "string \<Rightarrow> int \<Rightarrow> int \<Rightarrow> bool \<times> int \<times> int" where
  "ifx_mps_read_proc page off cnt =
     (let len = int (length page); eof = (len \<le> off + cnt); len1 = len - off;
          len2 = (if len1 > cnt then cnt else len1); len3 = (if len2 < 0 then 0 else len2)
      in (eof, off, len3))"

text \<open>The bytes of the user's buffer; \<open>None\<close> where \<open>get_user\<close> faults.\<close>

type_synonym user_buffer = "nat \<Rightarrow> char option"

definition separators :: "char set" where
  "separators = {CHR 0x22, CHR 0x0A, CHR 0x0D, CHR 0x09, CHR '' '', CHR '',''}"

fun strn_len :: "user_buffer \<Rightarrow> nat \<Rightarrow> nat \<Rightarrow> s32 + nat" where
  "strn_len ub i 0 = Inr 0"
| "strn_len ub i (Suc k) =
     (case ub i of
        None \<Rightarrow> Inl (- EFAULT)
      | Some c \<Rightarrow>
          if c \<in> separators then Inr 0
          else (case strn_len ub (i + 1) k of Inl e \<Rightarrow> Inl e | Inr l \<Rightarrow> Inr (l + 1)))"

fun count_trail_chars :: "user_buffer \<Rightarrow> nat \<Rightarrow> nat \<Rightarrow> s32 + nat" where
  "count_trail_chars ub i 0 = Inr 0"
| "count_trail_chars ub i (Suc k) =
     (case ub i of
        None \<Rightarrow> Inl (- EFAULT)
      | Some c \<Rightarrow>
          if c \<in> separators \<or> c = CHR ''='' then
            (case count_trail_chars ub (i + 1) k of Inl e \<Rightarrow> Inl e | Inr l \<Rightarrow> Inr (l + 1))
          else Inr 0)"

text \<open>\<open>copy_from_user\<close> of \<open>len\<close> bytes, and the C string that is then in the buffer.\<close>

definition user_bytes :: "user_buffer \<Rightarrow> nat \<Rightarrow> nat \<Rightarrow> string" where
  "user_bytes ub i len = map (\<lambda>j. case ub (i + j) of None \<Rightarrow> CHR 0x00 | Some c \<Rightarrow> c) [0..<len]"

definition BUF_SIZE :: nat where "BUF_SIZE = 80"

text \<open>A token is read into \<open>char buf[80]\<close> and terminated at its length.\<close>

definition read_token :: "user_buffer \<Rightarrow> nat \<Rightarrow> fault + (s32 + nat \<times> string)" where
  "read_token ub i =
     (case strn_len ub i BUF_SIZE of
        Inl e \<Rightarrow> Inr (Inl e)
      | Inr len \<Rightarrow> if len < BUF_SIZE then Inr (Inr (len, c_string (user_bytes ub i len))) else Inl Out_of_bounds)"

definition ifx_mps_set_mps1rdy_proc :: "user_buffer \<Rightarrow> nat \<Rightarrow> mem \<Rightarrow> fault + s32 \<times> mem" where
  "ifx_mps_set_mps1rdy_proc ub cnt m =
     (case read_token ub 0 of
        Inl f \<Rightarrow> Inl f
      | Inr (Inl e) \<Rightarrow> Inr (e, m)
      | Inr (Inr (len, cmd)) \<Rightarrow>
          if \<not> strstr cmd ''SET_BIT'' \<and> \<not> strstr cmd ''CLR_BIT'' then Inr (- EFAULT, m)
          else case count_trail_chars ub len BUF_SIZE of
            Inl e \<Rightarrow> Inr (e, m)
          | Inr skip \<Rightarrow>
            (case read_token ub (len + skip) of
               Inl f \<Rightarrow> Inl f
             | Inr (Inl e) \<Rightarrow> Inr (e, m)
             | Inr (Inr (len2, num)) \<Rightarrow>
                 let bitn = unat (simple_strtoul10 num 0) mod 2 ^ 16 in
                 if bitn \<ge> 16 then Inr (- EFAULT, m)
                 else Inr (int cnt, ifx_mpsdrv_ctrl_mps1_apps_ready_bit (if strstr cmd ''SET_BIT'' then 1 else 0) bitn m)))"

definition ifx_mps_get_mps1rdy_proc :: "mem \<Rightarrow> string" where
  "ifx_mps_get_mps1rdy_proc m =
     (let ready = ifx_mpsdrv_get_mps1_apps_ready_bits m in
      ''-----<MPS1_APPS_READY_BITS>-----'' @ [CHR 0x0A] @ ''-F-E-D-C-B-A-9-8-7-6-5-4-3-2-1-0'' @ [CHR 0x0A]
      @ concat (map (\<lambda>i. if bit ready i then '' 1'' else '' 0'') (rev [0..<16])) @ [CHR 0x0A])"

section \<open>Initialisation of the module\<close>

record mps_driver =
  lx :: mps_linux
  ifx_mps_major_id :: u8
  proc_entries :: "string list"

text \<open>The environment: the results of \<open>register_chrdev\<close>, of the two requests for interrupts and of
  \<open>proc_mkdir\<close>.\<close>

record init_env =
  chrdev_result :: s32
  irq1_result :: s32
  irq2_result :: s32
  proc_ok :: bool

definition ifx_mps_init_module :: "init_env \<Rightarrow> u32 \<Rightarrow> mps_driver \<Rightarrow> fault + s32 \<times> mps_driver" where
  "ifx_mps_init_module env pool_array d =
     (let result = chrdev_result env in
      if result < 0 then Inr (result, d)
      else
        let s = (lx d)\<lparr>msg_data := replicate DATA_MESSAGE_WORDS 0, cmd_callback_flag := False, cmd_wakeuplist_balance := 0\<rparr>;
            d1 = d\<lparr>lx := s, ifx_mps_major_id :=
              (if ifx_mps_major_id d = 0 then of_int result else ifx_mps_major_id d)\<rparr>
        in case ifx_mpsdrv_initial_structures pool_array (nd s) of
             Inl f \<Rightarrow> Inl f
           | Inr (rc, n1) \<Rightarrow>
               if rc \<noteq> 0 then Inr (- ENOMEM, d1\<lparr>lx := s\<lparr>nd := n1\<rparr>\<rparr>)
               else case ifx_mpsdrv_init_IRQs (irq1_result env) (irq2_result env) n1 of
                 (rc2, n2) \<Rightarrow>
                   if rc2 \<noteq> 0 then Inr (rc2, d1\<lparr>lx := s\<lparr>nd := n2\<rparr>\<rparr>)
                   else Inr (0, d1\<lparr>lx := s\<lparr>nd := snd (ifx_mpsdrv_register_callback 0 ADDR_ifx_mps_cmd_rcv_callback n2)\<rparr>,
                     proc_entries := (if proc_ok env then proc_entries d @ [''version'', ''mps1_apps_ready'']
                       else proc_entries d)\<rparr>))"

section \<open>Reading a file in pieces\<close>

text \<open>A reader that continues at the offset it has reached, until the end-of-file flag; out of fuel it has
  no result.\<close>

fun read_file :: "nat \<Rightarrow> string \<Rightarrow> int \<Rightarrow> int \<Rightarrow> string option" where
  "read_file fuel page off cnt =
     (case ifx_mps_read_proc page off cnt of
        (eof, start, len) \<Rightarrow>
          let piece = take (nat len) (drop (nat start) page) in
          if eof then Some piece
          else case fuel of 0 \<Rightarrow> None
            | Suc k \<Rightarrow> map_option (append piece) (read_file k page (off + len) cnt))"

declare read_file.simps [simp del]

lemma read_file_rest:
  assumes "0 < cnt" and "off \<le> length page" and "length page - off \<le> fuel"
  shows "read_file fuel page (int off) cnt = Some (drop off page)"
  using assms
proof (induction fuel arbitrary: off)
  case 0
  then show ?case by (simp add: read_file.simps ifx_mps_read_proc_def Let_def)
next
  case (Suc fuel)
  show ?case
  proof (cases "int (length page) \<le> int off + cnt")
    case True
    then show ?thesis using Suc.prems by (simp add: read_file.simps ifx_mps_read_proc_def Let_def)
  next
    case False
    let ?c = "nat cnt"
    have c: "cnt = int ?c" "off + ?c \<le> length page" "0 < ?c" using False Suc.prems by auto
    have "read_file fuel page (int (off + ?c)) cnt = Some (drop (off + ?c) page)"
      by (rule Suc.IH) (use Suc.prems c in auto)
    moreover have "take ?c (drop off page) @ drop (off + ?c) page = drop off page"
      by (metis add.commute append_take_drop_id drop_drop)
    ultimately show ?thesis using False c by (simp add: read_file.simps [of "Suc fuel"] ifx_mps_read_proc_def Let_def)
  qed
qed

text \<open>C20: A reader of a file under \<open>/proc\<close> that asks for any positive number of bytes at a time reaches
  the end of the file, after at most as many calls as the text has characters and one, and has read
  exactly the text.\<close>

theorem proc_file_read_in_pieces:
  assumes "0 < cnt"
  shows "read_file (length page) page 0 cnt = Some page"
  using read_file_rest [of cnt 0 page "length page"] assms by simp

theorem proc_file_read_in_pieces_witness:
  "read_file 166 (replicate 166 (CHR ''x'')) 0 3 = Some (replicate 166 (CHR ''x''))"
  using proc_file_read_in_pieces [of 3 "replicate 166 (CHR ''x'')"] by simp

section \<open>Tokens\<close>

definition holds_text :: "user_buffer \<Rightarrow> nat \<Rightarrow> string \<Rightarrow> bool" where
  "holds_text ub i s \<longleftrightarrow> (\<forall>j<length s. ub (i + j) = Some (s ! j))"

lemma holds_text_Cons: "holds_text ub i (c # s) \<longleftrightarrow> ub i = Some c \<and> holds_text ub (i + 1) s"
  by (auto simp: holds_text_def nth_Cons' less_Suc_eq_0_disj)

lemma holds_text_append: "holds_text ub i (s @ t) \<longleftrightarrow> holds_text ub i s \<and> holds_text ub (i + length s) t"
  by (induction s arbitrary: i) (auto simp: holds_text_Cons, simp add: holds_text_def)

lemma strn_len_token:
  assumes "holds_text ub i (s @ [c])" and "set s \<inter> separators = {}" and "c \<in> separators" and "length s < k"
  shows "strn_len ub i k = Inr (length s)"
  using assms
proof (induction s arbitrary: i k)
  case Nil
  then obtain k' where "k = Suc k'" by (cases k) auto
  with Nil show ?case by (simp add: holds_text_Cons)
next
  case (Cons x s)
  then obtain k' where "k = Suc k'" by (cases k) auto
  with Cons show ?case by (auto simp: holds_text_Cons)
qed

lemma strn_len_long:
  assumes "holds_text ub i s" and "set s \<inter> separators = {}"
  shows "strn_len ub i (length s) = Inr (length s)"
  using assms by (induction s arbitrary: i) (auto simp: holds_text_Cons)

lemma user_bytes_text: "holds_text ub i s \<Longrightarrow> user_bytes ub i (length s) = s"
  by (rule nth_equalityI) (auto simp: user_bytes_def holds_text_def)

lemma read_token_text:
  assumes t: "holds_text ub i (s @ [c])" and s: "set s \<inter> separators = {}" "CHR 0x00 \<notin> set s" "length s < BUF_SIZE"
    and c: "c \<in> separators"
  shows "read_token ub i = Inr (Inr (length s, s))"
proof -
  have "c_string s = s" using s(2) by (simp add: c_string_def takeWhile_eq_all_conv) blast
  moreover have "user_bytes ub i (length s) = s" using t by (simp add: holds_text_append user_bytes_text)
  ultimately show ?thesis using strn_len_token [OF t s(1) c s(3)] s(3) by (simp add: read_token_def)
qed

section \<open>Decimal numbers\<close>

fun decimal :: "nat \<Rightarrow> string" where
  "decimal n = (if n < 10 then [char_of (48 + n)] else decimal (n div 10) @ [char_of (48 + n mod 10)])"

declare decimal.simps [simp del]

lemma digit_of_digit: "d < 10 \<Longrightarrow> digit_of (char_of (48 + d)) = Some d"
  by (simp add: digit_of_def of_char_of Let_def take_bit_nat_eq_self)

lemma strtoul_append:
  assumes "list_all (\<lambda>c. digit_of c \<noteq> None) s"
  shows "simple_strtoul10 (s @ t) acc = simple_strtoul10 t (simple_strtoul10 s acc)"
  using assms by (induction s arbitrary: acc) auto

lemma decimal_digits: "list_all (\<lambda>c. digit_of c \<noteq> None) (decimal n)"
  by (induction n rule: decimal.induct)
     (subst decimal.simps, use digit_of_digit in \<open>auto simp: digit_of_digit\<close>)

lemma strtoul_decimal: "simple_strtoul10 (decimal n) 0 = of_nat n"
proof (induction n rule: decimal.induct)
  case (1 n)
  show ?case
  proof (cases "n < 10")
    case True
    then show ?thesis by (simp add: decimal.simps [of n] digit_of_digit)
  next
    case False
    have "simple_strtoul10 (decimal n) 0 = of_nat (n div 10) * 10 + of_nat (n mod 10)"
      using False 1 by (simp add: decimal.simps [of n] strtoul_append [OF decimal_digits] digit_of_digit)
    also have "\<dots> = of_nat (n div 10 * 10 + n mod 10)" by (simp only: of_nat_add of_nat_mult of_nat_numeral)
    also have "\<dots> = of_nat n" by (simp only: div_mult_mod_eq)
    finally show ?thesis .
  qed
qed

lemma decimal_length: "n < 10 ^ k \<Longrightarrow> 0 < k \<Longrightarrow> length (decimal n) \<le> k"
proof (induction k arbitrary: n)
  case (Suc k)
  show ?case
  proof (cases "n < 10")
    case True
    then show ?thesis by (simp add: decimal.simps [of n])
  next
    case False
    then have "0 < k" using Suc.prems by (cases k) auto
    moreover have "n div 10 < 10 ^ k" using Suc.prems by (simp add: less_mult_imp_div_less mult.commute)
    ultimately have "length (decimal (n div 10)) \<le> k" by (rule Suc.IH [rotated])
    with False show ?thesis by (simp add: decimal.simps [of n])
  qed
qed simp

lemma decimal_clean: "set (decimal n) \<inter> separators = {}" "CHR 0x00 \<notin> set (decimal n)"
proof -
  have d: "digit_of c \<noteq> None" if "c \<in> set (decimal n)" for c using decimal_digits [of n] that by (auto simp: list_all_iff)
  have "digit_of c = None" if "c \<in> separators \<or> c = CHR 0x00" for c
    using that by (auto simp: separators_def digit_of_def)
  with d show "set (decimal n) \<inter> separators = {}" "CHR 0x00 \<notin> set (decimal n)" by blast+
qed

section \<open>The ready file\<close>

lemma separators_simps [simp]:
  "CHR '' '' \<in> separators" "CHR 0x0A \<in> separators"
  by (simp_all add: separators_def)

lemma decimal_not_empty: "decimal n \<noteq> []"
  by (subst decimal.simps) simp

lemma count_trail_one:
  assumes "holds_text ub i (CHR '' '' # decimal n)"
  shows "count_trail_chars ub i BUF_SIZE = Inr 1"
proof -
  obtain c s where c: "decimal n = c # s" using decimal_not_empty by (cases "decimal n") auto
  have "digit_of c \<noteq> None" using decimal_digits [of n] c by simp
  then have "c \<notin> separators" "c \<noteq> CHR ''=''" by (auto simp: separators_def digit_of_def)
  then show ?thesis using assms c
    by (simp add: BUF_SIZE_def holds_text_Cons numeral_eq_Suc separators_def)
qed

lemma strstr_cmd:
  "strstr ''SET_BIT'' ''SET_BIT''" "strstr ''CLR_BIT'' ''CLR_BIT''" "\<not> strstr ''CLR_BIT'' ''SET_BIT''"
  by simp_all

text \<open>The command line as \<open>echo\<close> writes it, and its effect for every 32-bit number.\<close>

lemma proc_command:
  assumes cmd: "cmd = ''SET_BIT'' \<or> cmd = ''CLR_BIT''" and n: "n < 2 ^ 32"
    and t: "holds_text ub 0 (cmd @ CHR '' '' # decimal n @ [CHR 0x0A])"
  shows "ifx_mps_set_mps1rdy_proc ub cnt m =
    Inr (if n mod 2 ^ 16 < 16
         then (int cnt, ifx_mpsdrv_ctrl_mps1_apps_ready_bit (if cmd = ''SET_BIT'' then 1 else 0) (n mod 2 ^ 16) m)
         else (- EFAULT, m))"
proof -
  have sep: "set cmd \<inter> separators = {}" "CHR 0x00 \<notin> set cmd" "length cmd = 7"
    using cmd by (auto simp: separators_def)
  have t1: "holds_text ub 0 (cmd @ [CHR '' ''])" and t2: "holds_text ub 7 (CHR '' '' # decimal n)"
    and t3: "holds_text ub 8 (decimal n @ [CHR 0x0A])"
    using t sep(3) by (simp_all add: holds_text_append holds_text_Cons holds_text_def [of _ _ "[]"])
  have r1: "read_token ub 0 = Inr (Inr (7, cmd))"
    using read_token_text [OF t1] sep by (simp add: BUF_SIZE_def)
  have "length (decimal n) < BUF_SIZE"
    using decimal_length [of n 10] n by (simp add: BUF_SIZE_def)
  then have r2: "read_token ub 8 = Inr (Inr (length (decimal n), decimal n))"
    using read_token_text [OF t3 decimal_clean] by simp
  have u: "unat (simple_strtoul10 (decimal n) 0) = n" using n by (simp add: strtoul_decimal)
  show ?thesis
    using cmd by (auto simp: ifx_mps_set_mps1rdy_proc_def r1 r2 u count_trail_one [OF t2] strstr_cmd Let_def not_le)
qed

text \<open>What the file shows for an application.\<close>

definition shown_bit :: "string \<Rightarrow> nat \<Rightarrow> bool" where
  "shown_bit page k \<longleftrightarrow> page ! (67 + 2 * (15 - k)) = CHR ''1''"

lemma concat_pairs_nth:
  assumes "\<And>x. x \<in> set xs \<Longrightarrow> length (f x) = 2" and "i < length xs" and "j < 2"
  shows "concat (map f xs) ! (2 * i + j) = f (xs ! i) ! j"
  using assms
proof (induction xs arbitrary: i)
  case (Cons x xs)
  show ?case
  proof (cases i)
    case 0
    then show ?thesis using Cons.prems by (simp add: nth_append)
  next
    case (Suc i')
    then have "concat (map f xs) ! (2 * i' + j) = f (xs ! i') ! j" using Cons.prems by (intro Cons.IH) auto
    then show ?thesis using Suc Cons.prems by (simp add: nth_append)
  qed
qed simp

lemma shown_bit_page:
  assumes "k < 16"
  shows "shown_bit (ifx_mps_get_mps1rdy_proc m) k \<longleftrightarrow> bit (ifx_mpsdrv_get_mps1_apps_ready_bits m) k"
proof -
  define h where "h = ''-----<MPS1_APPS_READY_BITS>-----'' @ [CHR 0x0A] @ ''-F-E-D-C-B-A-9-8-7-6-5-4-3-2-1-0'' @ [CHR 0x0A]"
  define f where "f = (\<lambda>i. if bit (ifx_mpsdrv_get_mps1_apps_ready_bits m) i then '' 1'' else '' 0'')"
  have p: "ifx_mps_get_mps1rdy_proc m = h @ concat (map f (rev [0..<16])) @ [CHR 0x0A]"
    by (simp add: ifx_mps_get_mps1rdy_proc_def h_def f_def Let_def del: upt_rec_numeral)
  have l: "length h = 66" by (simp add: h_def)
  have lf: "length (f x) = 2" for x by (simp add: f_def)
  have lc: "length (concat (map f (rev [0..<16]))) = 32"
    by (simp add: length_concat o_def lf sum_list_triv del: upt_rec_numeral)
  have "concat (map f (rev [0..<16])) ! (2 * (15 - k) + 1) = f (rev [0..<16] ! (15 - k)) ! 1"
    by (rule concat_pairs_nth) (use lf assms in auto)
  also have "rev [0..<16] ! (15 - k) = k" using assms by (simp add: rev_nth del: upt_rec_numeral)
  finally have c: "concat (map f (rev [0..<16])) ! (2 * (15 - k) + 1) = f k ! 1" .
  have even: "2 * (15 - k) < 31" by arith
  have "ifx_mps_get_mps1rdy_proc m ! (67 + 2 * (15 - k)) = f k ! 1"
    using c l lc even by (simp add: p nth_append del: upt_rec_numeral)
  then show ?thesis by (simp add: shown_bit_def f_def)
qed

text \<open>C19: Writing \<open>SET_BIT n\<close> or \<open>CLR_BIT n\<close> to \<open>mps1_apps_ready\<close>, \<open>n\<close> a decimal number below 16, is accepted in
  full, and the text read from the file afterwards shows the bit of \<open>n\<close> set or cleared and every other bit
  as before.\<close>

theorem ready_file_round_trip:
  assumes cmd: "cmd = ''SET_BIT'' \<or> cmd = ''CLR_BIT''" and n: "n < 16" and k: "k < 16"
    and t: "holds_text ub 0 (cmd @ CHR '' '' # decimal n @ [CHR 0x0A])"
  shows "\<exists>m'. ifx_mps_set_mps1rdy_proc ub cnt m = Inr (int cnt, m')
    \<and> shown_bit (ifx_mps_get_mps1rdy_proc m') k
      = (if k = n then cmd = ''SET_BIT'' else shown_bit (ifx_mps_get_mps1rdy_proc m) k)"
  using proc_command [OF cmd _ t, of cnt m] n k by (simp add: shown_bit_page ctrl_ready_bit)

definition text_buffer :: "string \<Rightarrow> user_buffer" where
  "text_buffer s i = (if i < length s then Some (s ! i) else None)"

lemma holds_text_buffer: "holds_text (text_buffer s) 0 s"
  by (simp add: holds_text_def text_buffer_def)

theorem ready_file_round_trip_witness:
  "\<exists>m'. ifx_mps_set_mps1rdy_proc (text_buffer (''SET_BIT'' @ CHR '' '' # decimal 12 @ [CHR 0x0A])) 11 (\<lambda>_. 0) = Inr (11, m')
    \<and> shown_bit (ifx_mps_get_mps1rdy_proc m') 12 = (''SET_BIT'' = ''SET_BIT'')"
  using ready_file_round_trip [OF _ _ _ holds_text_buffer, of "''SET_BIT''" 12 12 11 "\<lambda>_. 0"] by simp

text \<open>The number is truncated to 16 bits before its check: a number of 65536 or more whose low half
  is below 16 is accepted and sets the bit of that half.\<close>

theorem bit_number_truncated:
  assumes k: "k < 16" and n: "n = k + 2 ^ 16 * j" "n < 2 ^ 32"
    and t: "holds_text ub 0 (''SET_BIT'' @ CHR '' '' # decimal n @ [CHR 0x0A])"
  shows "\<exists>m'. ifx_mps_set_mps1rdy_proc ub cnt m = Inr (int cnt, m') \<and> shown_bit (ifx_mps_get_mps1rdy_proc m') k"
  using proc_command [OF _ n(2) t, of cnt m] n k by (simp add: shown_bit_page ctrl_ready_bit)

theorem bit_number_truncated_witness:
  "\<exists>m'. ifx_mps_set_mps1rdy_proc (text_buffer (''SET_BIT'' @ CHR '' '' # decimal 65537 @ [CHR 0x0A])) 14 (\<lambda>_. 0) = Inr (14, m')
     \<and> shown_bit (ifx_mps_get_mps1rdy_proc m') 1"
  using bit_number_truncated [OF _ _ _ holds_text_buffer, of 1 65537 1 14 "\<lambda>_. 0"] by simp

lemma long_token:
  assumes "holds_text ub i s" and "set s \<inter> separators = {}" and "BUF_SIZE \<le> length s"
  shows "read_token ub i = Inl Out_of_bounds"
proof -
  have "holds_text ub i (take BUF_SIZE s)" using assms(1) by (simp add: holds_text_def)
  moreover have "set (take BUF_SIZE s) \<inter> separators = {}" using assms(2) by (auto dest: in_set_takeD)
  ultimately have "strn_len ub i (length (take BUF_SIZE s)) = Inr (length (take BUF_SIZE s))" by (rule strn_len_long)
  then show ?thesis using assms(3) by (simp add: read_token_def min_absorb2)
qed

text \<open>A word of 80 or more characters written to \<open>mps1_apps_ready\<close> makes the driver store the terminating
  zero behind its buffer of 80 bytes.\<close>

theorem long_token_overflows:
  assumes "holds_text ub 0 s" and "set s \<inter> separators = {}" and "80 \<le> length s"
  shows "ifx_mps_set_mps1rdy_proc ub cnt m = Inl Out_of_bounds"
  using long_token [OF assms(1,2)] assms(3) by (simp add: ifx_mps_set_mps1rdy_proc_def BUF_SIZE_def)

theorem long_token_overflows_witness:
  "ifx_mps_set_mps1rdy_proc (text_buffer (replicate 80 (CHR ''S''))) 80 (\<lambda>_. 0) = Inl Out_of_bounds"
  by (rule long_token_overflows [OF holds_text_buffer]) (auto simp: separators_def)

section \<open>Opening and closing a device\<close>

text \<open>The minor numbers 4 and 5 pass the check of \<open>ifx_mps_open\<close> and \<open>ifx_mps_close\<close>, but the driver has
  only two data mailboxes: both calls use a structure behind the array, from the kernel and from user space.\<close>

theorem minors_beyond_mailboxes:
  assumes "num = 4 \<or> num = 5" and "if from_kernel inode then unat inode = num else minor = num"
  shows "ifx_mps_open inode minor p n = Inl Out_of_bounds
    \<and> ifx_mps_close inode (if from_kernel inode then p else mbx_of_minor num) n = Inl Out_of_bounds"
  using assms
  by (auto simp: ifx_mps_open_def ifx_mps_close_def mbx_of_minor_def mbx_exists_def MPSDRV_NUM_WIFI_CHANNEL_def
    split: if_splits)

theorem minors_beyond_mailboxes_witness:
  "ifx_mps_open 5 0 None (demo_node 1 (\<lambda>_. 0)) = Inl Out_of_bounds
   \<and> ifx_mps_open 0x80345000 4 None (demo_node 1 (\<lambda>_. 0)) = Inl Out_of_bounds"
  using minors_beyond_mailboxes [of 5 5 0 None "demo_node 1 (\<lambda>_. 0)"]
    minors_beyond_mailboxes [of 4 "0x80345000" 4 None "demo_node 1 (\<lambda>_. 0)"]
  by (simp add: from_kernel_def)

text \<open>A mailbox device that is not in use can be opened; a second open is refused with \<open>-EMFILE\<close> and
  changes nothing; after the close the device can be opened again.\<close>

theorem open_is_exclusive:
  assumes r: "mbx_of_minor num = Some r" "mbx_exists r" and user: "\<not> from_kernel inode" and n: "length (wifi_mbx (dev n)) = 2"
    and free: "\<not> Installed (mbx_dev r (dev n))"
  shows "\<exists>n1 n2 n3. ifx_mps_open inode num None n = Inr (0, Some r, n1)
    \<and> ifx_mps_open inode num None n1 = Inr (- EMFILE, None, n1)
    \<and> ifx_mps_close inode (Some r) n1 = Inr (0, n2) \<and> ifx_mps_open inode num None n2 = Inr (0, Some r, n3)"
proof -
  let ?n1 = "snd (ifx_mpsdrv_common_open r (r = Command) n)"
  have i1: "Installed (mbx_dev r (dev ?n1))"
    using r n free by (cases r) (auto simp: ifx_mpsdrv_common_open_def mbx_dev_def upd_mbx_def mbx_exists_def
      MPSDRV_NUM_WIFI_CHANNEL_def)
  have l1: "length (wifi_mbx (dev ?n1)) = 2"
    using n by (cases r) (auto simp: ifx_mpsdrv_common_open_def upd_mbx_def)
  have i2: "\<not> Installed (mbx_dev r (dev (snd (ifx_mpsdrv_common_close r ?n1))))"
    using r l1 by (cases r) (auto simp: ifx_mpsdrv_common_close_def mbx_dev_def upd_mbx_def mbx_exists_def Let_def
      MPSDRV_NUM_WIFI_CHANNEL_def)
  have "ifx_mps_open inode num None n = Inr (0, Some r, ?n1)"
    using r user free by (simp add: ifx_mps_open_def ifx_mpsdrv_common_open_def)
  moreover have "ifx_mps_open inode num None ?n1 = Inr (- EMFILE, None, ?n1)"
    using r user i1 by (simp add: ifx_mps_open_def ifx_mpsdrv_common_open_def [of _ _ ?n1])
  moreover have "ifx_mps_close inode (Some r) ?n1 = Inr (0, snd (ifx_mpsdrv_common_close r ?n1))"
    using r user by (simp add: ifx_mps_close_def)
  moreover have "\<exists>n3. ifx_mps_open inode num None (snd (ifx_mpsdrv_common_close r ?n1)) = Inr (0, Some r, n3)"
    using r user i2 by (simp add: ifx_mps_open_def ifx_mpsdrv_common_open_def [of _ _ "snd (ifx_mpsdrv_common_close r ?n1)"])
  ultimately show ?thesis by blast
qed

theorem open_is_exclusive_witness:
  "\<exists>n1 n2 n3. ifx_mps_open 0x80345000 2 None (demo_node 1 (\<lambda>_. 0)) = Inr (0, Some (Wifi 0), n1)
    \<and> ifx_mps_open 0x80345000 2 None n1 = Inr (- EMFILE, None, n1)
    \<and> ifx_mps_close 0x80345000 (Some (Wifi 0)) n1 = Inr (0, n2) \<and> ifx_mps_open 0x80345000 2 None n2 = Inr (0, Some (Wifi 0), n3)"
  by (rule open_is_exclusive) (simp_all add: mbx_of_minor_def mbx_exists_def MPSDRV_NUM_WIFI_CHANNEL_def from_kernel_def
    demo_node_def zero_dev_def zero_mbx_def mbx_dev_def)

section \<open>After the initialisation of both modules\<close>

lemma init_fresh:
  assumes "ifx_mpsdrv_initial_structures pa n = Inr (OK, n')"
  shows "callback_function (dev n') = (\<lambda>_. 0)" "dm_inv (rcvCmdMsgQ n')" "dm_list (rcvCmdMsgQ n') = []"
    "cpu_id n' = cpu_id n"
proof -
  have *: "callback_function (dev n') = (\<lambda>_. 0) \<and> (\<exists>q. rcvCmdMsgQ n' = mps_datamsg_queue_init q) \<and> cpu_id n' = cpu_id n"
    using assms unfolding ifx_mpsdrv_initial_structures_def Let_def
    by (auto simp: zero_dev_def kick_cpu1_def split: sum.splits prod.splits bool.splits if_splits)
  then obtain q where q: "rcvCmdMsgQ n' = mps_datamsg_queue_init q" by blast
  show "callback_function (dev n') = (\<lambda>_. 0)" "cpu_id n' = cpu_id n" using * by blast+
  show "dm_inv (rcvCmdMsgQ n')" "dm_list (rcvCmdMsgQ n') = []"
    by (simp_all add: q mps_datamsg_queue_init_def dm_inv_def dm_list_def dm_ring_def ring_inv_def ring_list_def
      ring_len_def MAX_MPS_DATAMSG_QLEN_def)
qed

lemma init_module_cases:
  assumes "ifx_mps_init_module env pa d = Inr (0, d')"
  obtains n1 where "ifx_mpsdrv_initial_structures pa (nd (lx d)) = Inr (OK, n1)"
    "dev (nd (lx d')) = (dev n1)\<lparr>callback_function := (callback_function (dev n1))(0 := ADDR_ifx_mps_cmd_rcv_callback)\<rparr>"
    "sram (nd (lx d')) = sram n1" "rcvCmdMsgQ (nd (lx d')) = rcvCmdMsgQ n1" "\<not> cmd_callback_flag (lx d')"
    "cpu_id (nd (lx d')) = cpu_id (nd (lx d))"
proof -
  obtain rc n1 where i: "ifx_mpsdrv_initial_structures pa (nd (lx d)) = Inr (rc, n1)"
    using assms by (auto simp: ifx_mps_init_module_def Let_def split: if_splits sum.splits)
  have rc: "rc = 0" using assms i by (auto simp: ifx_mps_init_module_def Let_def split: if_splits)
  note i = i [unfolded rc]
  show thesis
    by (rule that [OF i])
       (use assms i init_fresh [OF i] in \<open>auto simp: ifx_mps_init_module_def Let_def ifx_mpsdrv_init_IRQs_def
         ifx_mpsdrv_register_callback_def split: if_splits\<close>)
qed

text \<open>One more allocation succeeds after the set-up.\<close>

definition spare_allocation :: "mps_driver \<Rightarrow> bool" where
  "spare_allocation d \<longleftrightarrow> upcoming (kmem (nd (lx d))) \<noteq> [] \<and> hd (upcoming (kmem (nd (lx d)))) \<noteq> 0"

lemma init_module_ready:
  assumes d': "ifx_mps_init_module env pa d = Inr (0, d')" and spare: "spare_allocation d'"
    and pub: "cpu_id (nd (lx d)) = MPS_CPU_0_ID \<or> published (sram (nd (lx d)))"
  shows "cmd_ready (lx d')"
    and "sram (nd (lx d')) = (if cpu_id (nd (lx d)) = MPS_CPU_0_ID
      then sram (kick_cpu1 ((nd (lx d))\<lparr>sram := publish_mailboxes pa (sram (nd (lx d)))\<rparr>)) else sram (nd (lx d)))"
proof -
  obtain n1 where n1: "ifx_mpsdrv_initial_structures pa (nd (lx d)) = Inr (OK, n1)"
    "dev (nd (lx d')) = (dev n1)\<lparr>callback_function := (callback_function (dev n1))(0 := ADDR_ifx_mps_cmd_rcv_callback)\<rparr>"
    "sram (nd (lx d')) = sram n1" "rcvCmdMsgQ (nd (lx d')) = rcvCmdMsgQ n1"
    by (rule init_module_cases [OF d'])
  have p: "published (if cpu_id (nd (lx d)) = MPS_CPU_0_ID
      then sram (kick_cpu1 ((nd (lx d))\<lparr>sram := publish_mailboxes pa (sram (nd (lx d)))\<rparr>)) else sram (nd (lx d)))"
    using pub publish_published by auto
  have m: "mailboxes (dev n1) = std_mailboxes" by (rule init_mailboxes(1) [OF n1(1) p])
  then have "upstrm_fifo (command_mbx (dev n1)) = up_cmd" "dwstrm_fifo (command_mbx (dev n1)) = dn_cmd"
    by (simp_all add: mailboxes_def std_mailboxes_def)
  then show "cmd_ready (lx d')"
    using spare init_fresh [OF n1(1)] by (simp add: cmd_ready_def n1(2,4) spare_allocation_def)
  show "sram (nd (lx d')) = (if cpu_id (nd (lx d)) = MPS_CPU_0_ID
      then sram (kick_cpu1 ((nd (lx d))\<lparr>sram := publish_mailboxes pa (sram (nd (lx d)))\<rparr>)) else sram (nd (lx d)))"
    using init_mailboxes(2) [OF n1(1) p] n1(3) by simp
qed

lemma publish_idle: "cmd_idle (sram (kick_cpu1 (n\<lparr>sram := publish_mailboxes pa m\<rparr>)))"
  by (simp add: cmd_idle_def drained_def straight_def std_mailboxes_def kick_cpu1_def publish_mailboxes_def
     fifo_words_def)

text \<open>C18: Once the module has been initialised on CPU0 and then, over the same SRAM, on CPU1, the command
  mailboxes of both are connected, idle and served by the command callback, and no answer is pending:
  the state from which a remote allocation succeeds.\<close>

theorem modules_establish_command_link:
  assumes 0: "ifx_mps_init_module env0 pa d0 = Inr (0, d0')" "cpu_id (nd (lx d0)) = MPS_CPU_0_ID"
    and 1: "ifx_mps_init_module env1 pa' d1 = Inr (0, d1')" "cpu_id (nd (lx d1)) = MPS_CPU_1_ID"
    and shared: "sram (nd (lx d1)) = sram (nd (lx d0'))" and spare: "spare_allocation d0'" "spare_allocation d1'"
  shows "cmd_ready (lx d0') \<and> cmd_ready (lx d1') \<and> cmd_idle (sram (nd (lx d1'))) \<and> \<not> cmd_callback_flag (lx d1')
    \<and> cpu_id (nd (lx d0')) = 0 \<and> cpu_id (nd (lx d1')) = 1"
proof -
  have m0: "sram (nd (lx d0')) = sram (kick_cpu1 ((nd (lx d0))\<lparr>sram := publish_mailboxes pa (sram (nd (lx d0)))\<rparr>))"
    using init_module_ready(2) [OF 0(1) spare(1)] 0(2) by simp
  have pub: "published (sram (nd (lx d1)))" by (simp add: shared m0 publish_published)
  have ne: "MPS_CPU_1_ID \<noteq> MPS_CPU_0_ID" "MPS_CPU_1_ID = 1" "MPS_CPU_0_ID = 0"
    by (simp_all add: MPS_CPU_0_ID_def MPS_CPU_1_ID_def)
  have "sram (nd (lx d1')) = sram (nd (lx d1))" using init_module_ready(2) [OF 1(1) spare(2)] pub 1(2) ne by simp
  then have "cmd_idle (sram (nd (lx d1')))" by (simp add: shared m0 publish_idle)
  moreover have "\<not> cmd_callback_flag (lx d1')" "cpu_id (nd (lx d1')) = 1"
    by (rule init_module_cases [OF 1(1)]; use 1(2) ne in simp)+
  moreover have "cpu_id (nd (lx d0')) = 0" by (rule init_module_cases [OF 0(1)]) (use 0(2) ne in simp)
  ultimately show ?thesis using init_module_ready(1) [OF 0(1) spare(1)] init_module_ready(1) [OF 1(1) spare(2)] 0(2) pub by simp
qed

definition demo_driver :: "nat \<Rightarrow> mem \<Rightarrow> mps_driver" where
  "demo_driver cpu m = \<lparr>lx = (demo_linux cpu)\<lparr>nd := demo_node cpu m\<rparr>, ifx_mps_major_id = 0, proc_entries = []\<rparr>"

definition demo_env :: init_env where
  "demo_env = \<lparr>chrdev_result = 244, irq1_result = 0, irq2_result = 0, proc_ok = True\<rparr>"

lemma demo_module: "\<exists>d. ifx_mps_init_module demo_env pa (demo_driver cpu m) = Inr (0, d) \<and> spare_allocation d"
  by (simp add: ifx_mps_init_module_def demo_env_def demo_driver_def ifx_mpsdrv_initial_structures_def init_command_mbx_def
    init_wifi_mbx_def new_sem_def demo_node_def kick_cpu1_def kalloc.simps Let_def ifx_mpsdrv_init_IRQs_def
    ifx_mpsdrv_register_callback_def spare_allocation_def zero_dev_def)

theorem modules_establish_command_link_witness:
  "\<exists>d0 d1. ifx_mps_init_module demo_env 0xA0123000 (demo_driver 0 (\<lambda>_. 7)) = Inr (0, d0)
     \<and> ifx_mps_init_module demo_env 0 (demo_driver 1 (sram (nd (lx d0)))) = Inr (0, d1)
     \<and> cmd_ready (lx d0) \<and> cmd_ready (lx d1) \<and> cmd_idle (sram (nd (lx d1)))"
proof -
  obtain d0 where 0: "ifx_mps_init_module demo_env 0xA0123000 (demo_driver 0 (\<lambda>_. 7)) = Inr (0, d0)" "spare_allocation d0"
    using demo_module by blast
  obtain d1 where 1: "ifx_mps_init_module demo_env 0 (demo_driver 1 (sram (nd (lx d0)))) = Inr (0, d1)" "spare_allocation d1"
    using demo_module by blast
  show ?thesis using modules_establish_command_link [OF 0(1) _ 1(1) _ _ 0(2) 1(2)] 0 1
    by (simp add: demo_driver_def demo_node_def MPS_CPU_0_ID_def MPS_CPU_1_ID_def)
qed

end
