(* ===== verification/Mps_Skb.thy ===== *)
theory Mps_Skb
  imports Mps_Linux
begin

text \<open>
  The operations on network buffers that CPU1 performs itself (\<open>mps_tpe_linux.c\<close>, compiled for core 1): copy,
  clone, head expansion, head-room reallocation, expanding copy, trimming, allocation and release of
  \<open>MPS_BUF\<close>s, which are \<open>sk_buff\<close>s taken from the pools that CPU0 fills.  A world has the buffer headers by
  address, the bytes of memory, the reference counts that copies take, and the pools.  Addresses of bytes are
  integers: the pointers of a buffer lie in one memory area and never wrap.
\<close>

section \<open>Buffers\<close>

record sk_buff =
  skb_next :: u32
  skb_prev :: u32
  skb_list :: u32
  skb_sk :: u32
  skb_stamp :: "u32 \<times> u32"
  skb_dev :: u32
  real_dev :: u32
  h_raw :: int
  nh_raw :: int
  mac_raw :: int
  skb_dst :: u32
  skb_cb :: "u8 list"
  skb_len :: nat
  data_len :: nat
  csum :: u32
  cloned :: u8
  pkt_type :: u8
  ip_summed :: u8
  skb_priority :: u32
  users :: int
  protocol :: u16
  security :: u16
  skb_truesize :: nat
  skb_head :: int
  skb_data :: int
  skb_tail :: int
  skb_end :: int
  skb_destructor :: u32
  nfmark :: u32
  nfcache :: u32
  nfct :: u32

record skb_world =
  skbs :: "u32 \<Rightarrow> sk_buff"
  mem_bytes :: "int \<Rightarrow> u8"
  dst_refcnt :: "u32 \<Rightarrow> int"
  nfct_use :: "u32 \<Rightarrow> int"
  skb_pools :: mps_pools
  net_calls :: "skb_call list"

datatype skb_fault = Bug | Pool_fault fault

definition GFP_ATOMIC :: u32 where "GFP_ATOMIC = 0x20"

definition set_skb :: "u32 \<Rightarrow> sk_buff \<Rightarrow> skb_world \<Rightarrow> skb_world" where
  "set_skb p b w = w\<lparr>skbs := (skbs w)(p := b)\<rparr>"

text \<open>An \<open>unsigned int\<close> read as \<open>int\<close>, and the conversion back.\<close>

definition s32_of :: "nat \<Rightarrow> int" where
  "s32_of n = (if n < 2 ^ 31 then int n else int n - 2 ^ 32)"

definition u32_of :: "int \<Rightarrow> nat" where
  "u32_of i = nat (i mod 2 ^ 32)"

definition memcpy :: "int \<Rightarrow> int \<Rightarrow> nat \<Rightarrow> (int \<Rightarrow> u8) \<Rightarrow> (int \<Rightarrow> u8)" where
  "memcpy d s n b = (\<lambda>a. if d \<le> a \<and> a < d + int n then b (s + (a - d)) else b a)"

section \<open>Header, data and tail\<close>

text \<open>\<open>dst_clone\<close> and \<open>nf_conntrack_get\<close> take a reference unless the pointer is \<open>NULL\<close>.\<close>

definition take_ref :: "u32 \<Rightarrow> (u32 \<Rightarrow> int) \<Rightarrow> (u32 \<Rightarrow> int)" where
  "take_ref p r = (if p = 0 then r else r(p := r p + 1))"

definition copy_skb_header :: "u32 \<Rightarrow> u32 \<Rightarrow> skb_world \<Rightarrow> skb_world" where
  "copy_skb_header new old w =
     (let n = skbs w new; b = skbs w old; offset = skb_data n - skb_data b
      in (set_skb new (n\<lparr>skb_list := 0, skb_sk := 0, skb_dev := skb_dev b, real_dev := real_dev b,
            skb_priority := skb_priority b, protocol := protocol b, skb_dst := skb_dst b,
            h_raw := h_raw b + offset, nh_raw := nh_raw b + offset, mac_raw := mac_raw b + offset,
            skb_cb := skb_cb b, users := 1, pkt_type := pkt_type b, skb_stamp := skb_stamp b,
            skb_destructor := 0, security := security b, nfmark := nfmark b, nfcache := nfcache b,
            nfct := nfct b\<rparr>) w)
         \<lparr>dst_refcnt := take_ref (skb_dst b) (dst_refcnt w), nfct_use := take_ref (nfct b) (nfct_use w)\<rparr>)"

definition mps_skb_reserve :: "int \<Rightarrow> sk_buff \<Rightarrow> sk_buff" where
  "mps_skb_reserve len b = b\<lparr>skb_data := skb_data b + len, skb_tail := skb_tail b + len\<rparr>"

definition mps_skb_is_nonlinear :: "sk_buff \<Rightarrow> bool" where
  "mps_skb_is_nonlinear b \<longleftrightarrow> data_len b \<noteq> 0"

text \<open>The kernel's \<open>skb_put\<close>; \<open>mps_skb_put\<close> is the same function with its own message.\<close>

definition skb_put :: "nat \<Rightarrow> sk_buff \<Rightarrow> skb_fault + int \<times> sk_buff" where
  "skb_put len b =
     (if mps_skb_is_nonlinear b then Inl Bug
      else let b1 = b\<lparr>skb_tail := skb_tail b + int len, skb_len := u32_add (skb_len b) len\<rparr>
           in if skb_tail b1 > skb_end b1 then Inl Bug else Inr (skb_tail b, b1))"

definition mps_skb_headlen :: "sk_buff \<Rightarrow> nat" where
  "mps_skb_headlen b = u32_sub (skb_len b) (data_len b)"

text \<open>Copying from a buffer.  What page fragments and fragment lists hold is not copied: the call fails
  then.  A negative length would make \<open>memcpy\<close> run over all memory.\<close>

definition mps_skb_copy_bits ::
  "sk_buff \<Rightarrow> int \<Rightarrow> int \<Rightarrow> int \<Rightarrow> (int \<Rightarrow> u8) \<Rightarrow> skb_fault + s32 \<times> (int \<Rightarrow> u8)" where
  "mps_skb_copy_bits b offset to len m =
     (let start = s32_of (u32_sub (skb_len b) (data_len b)) in
      if offset > s32_of (skb_len b) - len then Inr (- EFAULT, m)
      else if start - offset > 0 then
        let copy = (if start - offset > len then len else start - offset) in
        if copy < 0 then Inl (Pool_fault Out_of_bounds)
        else Inr (if len - copy = 0 then 0 else - EFAULT, memcpy to (skb_data b + offset) (nat copy) m)
      else Inr (if len = 0 then 0 else - EFAULT, m))"

section \<open>Allocation, release and copies\<close>

definition ifx_mps_dev_kfree_skb :: "nat \<Rightarrow> u32 \<Rightarrow> u8 \<Rightarrow> skb_world \<Rightarrow> skb_fault + s32 \<times> skb_world" where
  "ifx_mps_dev_kfree_skb cpu buf seq w =
     (case ifx_mps_fast_free_mps_buf cpu (\<lambda>b. skb_truesize (skbs w b)) buf seq (skb_pools w) of
        Inl f \<Rightarrow> Inl (Pool_fault f) | Inr (rc, ps) \<Rightarrow> Inr (rc, w\<lparr>skb_pools := ps\<rparr>))"

definition ifx_mps_alloc_skb :: "nat \<Rightarrow> nat \<Rightarrow> u8 \<Rightarrow> skb_world \<Rightarrow> skb_fault + u32 \<times> skb_world" where
  "ifx_mps_alloc_skb cpu sz seq w =
     (case ifx_mps_fast_alloc_mps_buf cpu sz seq (skb_pools w) of
        Inl f \<Rightarrow> Inl (Pool_fault f) | Inr (p, ps) \<Rightarrow> Inr (p, w\<lparr>skb_pools := ps\<rparr>))"

definition ifx_mps_dev_alloc_skb :: "nat \<Rightarrow> nat \<Rightarrow> u8 \<Rightarrow> skb_world \<Rightarrow> skb_fault + u32 \<times> skb_world" where
  "ifx_mps_dev_alloc_skb cpu len seq w = ifx_mps_alloc_skb cpu len seq w"

text \<open>A buffer that is not from the pools goes to the kernel's function; \<open>net\<close> is its result.\<close>

definition kernel_skb :: "(skb_call \<Rightarrow> u32) \<Rightarrow> skb_call \<Rightarrow> skb_world \<Rightarrow> u32 \<times> skb_world" where
  "kernel_skb net c w = (net c, w\<lparr>net_calls := net_calls w @ [c]\<rparr>)"

text \<open>The common part of the copying functions: reserve, put, copy from the start of the old buffer's
  area to the start of the new one's, and copy the header.\<close>

definition dup_skb :: "int \<Rightarrow> int \<Rightarrow> u32 \<Rightarrow> u32 \<Rightarrow> skb_world \<Rightarrow> skb_fault + skb_world" where
  "dup_skb room headerlen p n w =
     (let w1 = set_skb n (mps_skb_reserve room (skbs w n)) w in
      case skb_put (skb_len (skbs w1 p)) (skbs w1 n) of
        Inl e \<Rightarrow> Inl e
      | Inr (_, b) \<Rightarrow>
        let w2 = set_skb n b w1;
            w3 = set_skb n ((skbs w2 n)\<lparr>csum := csum (skbs w2 p), ip_summed := ip_summed (skbs w2 p)\<rparr>) w2 in
        (case mps_skb_copy_bits (skbs w3 p) (- headerlen) (skb_head (skbs w3 n))
                (headerlen + s32_of (skb_len (skbs w3 p))) (mem_bytes w3) of
           Inl e \<Rightarrow> Inl e
         | Inr (rc, m) \<Rightarrow> if rc \<noteq> 0 then Inl Bug else Inr (copy_skb_header n p (w3\<lparr>mem_bytes := m\<rparr>))))"

definition skb_headroom :: "sk_buff \<Rightarrow> int" where
  "skb_headroom b = skb_data b - skb_head b"

definition ifx_mps_skb_copy ::
  "(skb_call \<Rightarrow> u32) \<Rightarrow> nat \<Rightarrow> u32 \<Rightarrow> u8 \<Rightarrow> skb_world \<Rightarrow> skb_fault + u32 \<times> skb_world" where
  "ifx_mps_skb_copy net cpu p seq w =
     (let skb = skbs w p; headerlen = skb_data skb - skb_head skb in
      if ifx_mps_is_mps_buffer p = 0 then Inr (kernel_skb net (Skb_copy p GFP_ATOMIC) w)
      else case ifx_mps_alloc_skb cpu (u32_of (skb_end skb - skb_head skb + int (data_len skb))) seq w of
        Inl e \<Rightarrow> Inl e
      | Inr (n, w1) \<Rightarrow>
          if n = 0 then Inr (0, w1)
          else (case dup_skb headerlen headerlen p n w1 of Inl e \<Rightarrow> Inl e | Inr w2 \<Rightarrow> Inr (n, w2)))"

definition ifx_mps_skb_clone ::
  "(skb_call \<Rightarrow> u32) \<Rightarrow> nat \<Rightarrow> u32 \<Rightarrow> u8 \<Rightarrow> skb_world \<Rightarrow> skb_fault + u32 \<times> skb_world" where
  "ifx_mps_skb_clone net cpu p seq w = ifx_mps_skb_copy net cpu p seq w"

definition ifx_mps_pskb_expand_head ::
  "(skb_call \<Rightarrow> u32) \<Rightarrow> nat \<Rightarrow> u32 \<Rightarrow> int \<Rightarrow> int \<Rightarrow> u8 \<Rightarrow> skb_world \<Rightarrow> skb_fault + s32 \<times> skb_world" where
  "ifx_mps_pskb_expand_head net cpu p nhead ntail seq w =
     (let skb = skbs w p; siz = nhead + (skb_end skb - skb_head skb) + ntail; headerlen = skb_data skb - skb_head skb in
      if ifx_mps_is_mps_buffer p = 0 then
        (case kernel_skb net (Pskb_expand_head p (of_int nhead) (of_int ntail) GFP_ATOMIC) w of
           (r, w1) \<Rightarrow> Inr (s32_of (unat r), w1))
      else case ifx_mps_alloc_skb cpu (u32_of siz) seq w of
        Inl e \<Rightarrow> Inl e
      | Inr (n, w1) \<Rightarrow>
          if n = 0 then Inr (- ENOMEM, w1)
          else (case dup_skb nhead headerlen p n w1 of
            Inl e \<Rightarrow> Inl e
          | Inr w2 \<Rightarrow>
            let w3 = set_skb n ((skbs w2 n)\<lparr>cloned := 1\<rparr>) w2;
                w4 = set_skb p ((skbs w3 p)\<lparr>cloned := 1\<rparr>) w3;
                hd = skb_head (skbs w4 n);
                w5 = set_skb n ((skbs w4 n)\<lparr>skb_head := skb_head (skbs w4 p)\<rparr>) w4;
                w6 = set_skb p ((skbs w5 p)\<lparr>skb_head := hd\<rparr>) w5
            in (case ifx_mps_dev_kfree_skb cpu n seq w6 of Inl e \<Rightarrow> Inl e | Inr (_, w7) \<Rightarrow> Inr (0, w7))))"

definition ifx_mps_skb_realloc_headroom ::
  "(skb_call \<Rightarrow> u32) \<Rightarrow> nat \<Rightarrow> u32 \<Rightarrow> nat \<Rightarrow> u8 \<Rightarrow> skb_world \<Rightarrow> skb_fault + u32 \<times> skb_world" where
  "ifx_mps_skb_realloc_headroom net cpu p headroom seq w =
     (let skb = skbs w p; delta = int headroom - skb_headroom skb; headerlen = skb_data skb - skb_head skb in
      if ifx_mps_is_mps_buffer p = 0 then Inr (kernel_skb net (Skb_realloc_headroom p (of_nat headroom)) w)
      else case ifx_mps_alloc_skb cpu
          (u32_of ((if delta > 0 then delta else 0) + (skb_end skb - skb_head skb))) seq w of
        Inl e \<Rightarrow> Inl e
      | Inr (n, w1) \<Rightarrow>
          if n = 0 then Inr (0, w1)
          else (case dup_skb (if delta \<noteq> 0 then int headroom else skb_headroom skb) headerlen p n w1 of
            Inl e \<Rightarrow> Inl e | Inr w2 \<Rightarrow> Inr (n, w2)))"

text \<open>The expanding copy uses the kernel's \<open>skb_copy_bits\<close>, which continues with the page fragments and
  the fragment list; that part is the parameter \<open>frags\<close>.\<close>

definition skb_copy_bits ::
  "(sk_buff \<Rightarrow> int \<Rightarrow> int \<Rightarrow> int \<Rightarrow> (int \<Rightarrow> u8) \<Rightarrow> s32 \<times> (int \<Rightarrow> u8)) \<Rightarrow>
   sk_buff \<Rightarrow> int \<Rightarrow> int \<Rightarrow> int \<Rightarrow> (int \<Rightarrow> u8) \<Rightarrow> skb_fault + s32 \<times> (int \<Rightarrow> u8)" where
  "skb_copy_bits frags b offset to len m =
     (let start = s32_of (u32_sub (skb_len b) (data_len b)) in
      if offset > s32_of (skb_len b) - len then Inr (- EFAULT, m)
      else if start - offset > 0 then
        let copy = (if start - offset > len then len else start - offset) in
        if copy < 0 then Inl (Pool_fault Out_of_bounds)
        else let m1 = memcpy to (skb_data b + offset) (nat copy) m
             in if len - copy = 0 then Inr (0, m1) else Inr (frags b (offset + copy) (to + copy) (len - copy) m1)
      else Inr (frags b offset to len m))"

definition ifx_mps_skb_copy_expand ::
  "(skb_call \<Rightarrow> u32) \<Rightarrow> (sk_buff \<Rightarrow> int \<Rightarrow> int \<Rightarrow> int \<Rightarrow> (int \<Rightarrow> u8) \<Rightarrow> s32 \<times> (int \<Rightarrow> u8)) \<Rightarrow>
   nat \<Rightarrow> u32 \<Rightarrow> int \<Rightarrow> int \<Rightarrow> u8 \<Rightarrow> skb_world \<Rightarrow> skb_fault + u32 \<times> skb_world" where
  "ifx_mps_skb_copy_expand net frags cpu p newheadroom newtailroom seq w =
     (let skb = skbs w p in
      if ifx_mps_is_mps_buffer p = 0 then
        Inr (kernel_skb net (Skb_copy_expand p (of_int newheadroom) (of_int newtailroom) GFP_ATOMIC) w)
      else case ifx_mps_alloc_skb cpu
          (u32_of (newheadroom + newtailroom + skb_end skb - skb_head skb + int (data_len skb))) seq w of
        Inl e \<Rightarrow> Inl e
      | Inr (n, w1) \<Rightarrow>
          if n = 0 then Inr (0, w1)
          else let w2 = set_skb n (mps_skb_reserve newheadroom (skbs w1 n)) w1 in
            (case skb_put (skb_len (skbs w2 p)) (skbs w2 n) of
               Inl e \<Rightarrow> Inl e
             | Inr (_, b) \<Rightarrow>
               let w3 = set_skb n b w2 in
               (case skb_copy_bits frags (skbs w3 p) (- newheadroom) (skb_head (skbs w3 n))
                       (newheadroom + s32_of (skb_len (skbs w3 p))) (mem_bytes w3) of
                  Inl e \<Rightarrow> Inl e
                | Inr (rc, m) \<Rightarrow>
                    if rc \<noteq> 0 then Inl Bug else Inr (n, copy_skb_header n p (w3\<lparr>mem_bytes := m\<rparr>)))))"

section \<open>Trimming\<close>

definition mps_pskb_trim :: "nat \<Rightarrow> sk_buff \<Rightarrow> sk_buff" where
  "mps_pskb_trim len b =
     (if mps_skb_headlen b < len then
        b\<lparr>data_len := u32_sub (data_len b) (u32_sub (skb_len b) len), skb_len := len\<rparr>
      else if len \<le> mps_skb_headlen b then b\<lparr>skb_len := len, data_len := 0, skb_tail := skb_data b + int len\<rparr>
      else b\<lparr>data_len := u32_sub (data_len b) (u32_sub (skb_len b) len), skb_len := len\<rparr>)"

definition mps_skb_trim :: "nat \<Rightarrow> sk_buff \<Rightarrow> sk_buff" where
  "mps_skb_trim len b =
     (if data_len b = 0 then b\<lparr>skb_len := len, skb_tail := skb_data b + int len\<rparr> else mps_pskb_trim len b)"

definition ifx_mps_skb_trim :: "nat \<Rightarrow> sk_buff \<Rightarrow> sk_buff" where
  "ifx_mps_skb_trim len b = (if skb_len b > len then mps_skb_trim len b else b)"

section \<open>Linear buffers and their content\<close>

definition wf_skb :: "sk_buff \<Rightarrow> bool" where
  "wf_skb b \<longleftrightarrow> skb_head b \<le> skb_data b \<and> data_len b \<le> skb_len b \<and> skb_len b < 2 ^ 31
     \<and> skb_tail b = skb_data b + int (skb_len b - data_len b) \<and> skb_tail b \<le> skb_end b"

text \<open>A buffer as the pool hands it out: empty, with \<open>res\<close> bytes reserved in front.\<close>

definition fresh_skb :: "nat \<Rightarrow> sk_buff \<Rightarrow> bool" where
  "fresh_skb res b \<longleftrightarrow> skb_data b = skb_head b + int res \<and> skb_tail b = skb_data b \<and> skb_len b = 0 \<and> data_len b = 0"

definition payload :: "(int \<Rightarrow> u8) \<Rightarrow> sk_buff \<Rightarrow> u8 list" where
  "payload m b = map (\<lambda>i. m (skb_data b + int i)) [0..<skb_len b]"

definition apart :: "sk_buff \<Rightarrow> sk_buff \<Rightarrow> bool" where
  "apart a b \<longleftrightarrow> skb_end a \<le> skb_head b \<or> skb_end b \<le> skb_head a"

lemma s32_of_small: "n < 2 ^ 31 \<Longrightarrow> s32_of n = int n"
  by (simp add: s32_of_def)

lemma skb_set [simp]:
  "skbs (set_skb p b w) q = (if q = p then b else skbs w q)" "mem_bytes (set_skb p b w) = mem_bytes w"
  "skb_pools (set_skb p b w) = skb_pools w"
  by (simp_all add: set_skb_def)

lemma copy_header_frame:
  "new \<noteq> old \<Longrightarrow> skbs (copy_skb_header new old w) old = skbs w old" "mem_bytes (copy_skb_header new old w) = mem_bytes w"
  "skb_pools (copy_skb_header new old w) = skb_pools w"
  by (simp_all add: copy_skb_header_def Let_def)

lemma copy_header_fields:
  "skb_head (skbs (copy_skb_header new old w) new) = skb_head (skbs w new)"
  "skb_data (skbs (copy_skb_header new old w) new) = skb_data (skbs w new)"
  "skb_tail (skbs (copy_skb_header new old w) new) = skb_tail (skbs w new)"
  "skb_end (skbs (copy_skb_header new old w) new) = skb_end (skbs w new)"
  "skb_len (skbs (copy_skb_header new old w) new) = skb_len (skbs w new)"
  "data_len (skbs (copy_skb_header new old w) new) = data_len (skbs w new)"
  "skb_truesize (skbs (copy_skb_header new old w) new) = skb_truesize (skbs w new)"
  by (simp_all add: copy_skb_header_def Let_def)

lemma copy_bits_all:
  assumes "data_len b = 0" and "skb_len b < 2 ^ 31" and "0 \<le> hl"
  shows "mps_skb_copy_bits b (- hl) to (hl + s32_of (skb_len b)) m =
    Inr (0, memcpy to (skb_data b - hl) (nat hl + skb_len b) m)"
proof (cases "hl = 0 \<and> skb_len b = 0")
  case True
  then have "memcpy to (skb_data b - hl) (nat hl + skb_len b) m = m" by (intro ext) (auto simp: memcpy_def)
  then show ?thesis using True assms by (simp add: mps_skb_copy_bits_def s32_of_small Let_def)
next
  case False
  then have "0 < hl + int (skb_len b)" using assms by auto
  moreover have "nat (hl + int (skb_len b)) = nat hl + skb_len b" using assms by (simp add: nat_add_distrib)
  ultimately show ?thesis using assms by (simp add: mps_skb_copy_bits_def s32_of_small Let_def add.commute)
qed

text \<open>The new buffer's header after reserve and put, and the outcome of the whole copy.\<close>

definition put_header :: "int \<Rightarrow> sk_buff \<Rightarrow> sk_buff \<Rightarrow> sk_buff" where
  "put_header room b n = n\<lparr>skb_data := skb_data n + room, skb_tail := skb_data n + room + int (skb_len b), skb_len := skb_len b,
     csum := csum b, ip_summed := ip_summed b\<rparr>"

lemma dup_skb_spec:
  assumes b: "wf_skb (skbs w p)" "data_len (skbs w p) = 0" and n: "fresh_skb res (skbs w n)" "n \<noteq> p"
    and hl: "hl = skb_headroom (skbs w p)"
  shows "dup_skb room hl p n w =
    (if skb_data (skbs w n) + room + int (skb_len (skbs w p)) > skb_end (skbs w n) then Inl Bug
     else Inr (copy_skb_header n p ((set_skb n (put_header room (skbs w p) (skbs w n)) w)
       \<lparr>mem_bytes := memcpy (skb_head (skbs w n)) (skb_head (skbs w p)) (nat hl + skb_len (skbs w p)) (mem_bytes w)\<rparr>)))"
proof -
  let ?b = "skbs w p" and ?n = "skbs w n"
  have l: "skb_len ?b < 2 ^ 31" "0 \<le> hl" "skb_data ?b - hl = skb_head ?b"
    using b hl by (simp_all add: wf_skb_def skb_headroom_def)
  have put: "skb_put (skb_len ?b) (mps_skb_reserve room ?n) =
    (if skb_data ?n + room + int (skb_len ?b) > skb_end ?n then Inl Bug
     else Inr (skb_data ?n + room, ?n\<lparr>skb_data := skb_data ?n + room,
       skb_tail := skb_data ?n + room + int (skb_len ?b), skb_len := skb_len ?b\<rparr>))"
    using n l by (simp add: skb_put_def mps_skb_reserve_def fresh_skb_def mps_skb_is_nonlinear_def Let_def)
  show ?thesis
    using n(2) put copy_bits_all [OF b(2) l(1,2)] l(3)
    by (simp add: dup_skb_def Let_def put_header_def set_skb_def)
qed

lemma memcpy_dest: "d \<le> a \<Longrightarrow> a < d + int k \<Longrightarrow> memcpy d s k m a = m (s + (a - d))"
  by (simp add: memcpy_def)

lemma memcpy_other: "a < d \<or> d + int k \<le> a \<Longrightarrow> memcpy d s k m a = m a"
  by (auto simp: memcpy_def)

lemma payload_cong:
  "skb_data a = skb_data b \<Longrightarrow> skb_len a = skb_len b \<Longrightarrow>
   (\<And>x. skb_data b \<le> x \<Longrightarrow> x < skb_data b + int (skb_len b) \<Longrightarrow> m x = m' x) \<Longrightarrow> payload m a = payload m' b"
  by (simp add: payload_def)

lemma dup_skb_result:
  assumes b: "wf_skb (skbs w p)" "data_len (skbs w p) = 0" and n: "fresh_skb res (skbs w n)" "n \<noteq> p"
    and hl: "hl = skb_headroom (skbs w p)" and room: "0 \<le> room" and ap: "apart (skbs w n) (skbs w p)"
    and le: "hl \<le> int res + room"
    and fits: "skb_data (skbs w n) + room + int (skb_len (skbs w p)) \<le> skb_end (skbs w n)"
  obtains w' where "dup_skb room hl p n w = Inr w'" "skbs w' p = skbs w p" "skb_pools w' = skb_pools w"
    "payload (mem_bytes w') (skbs w p) = payload (mem_bytes w) (skbs w p)"
    "skb_len (skbs w' n) = skb_len (skbs w p)" "wf_skb (skbs w' n)" "skb_head (skbs w' n) = skb_head (skbs w n)"
    "skb_headroom (skbs w' n) = int res + room"
    "\<And>i. i < skb_len (skbs w p) \<Longrightarrow> payload (mem_bytes w') (skbs w' n) ! i =
      (if i + nat (int res + room - hl) < skb_len (skbs w p)
       then payload (mem_bytes w) (skbs w p) ! (i + nat (int res + room - hl))
       else mem_bytes w (skb_data (skbs w n) + room + int i))"
proof -
  let ?b = "skbs w p" and ?n = "skbs w n"
  let ?m = "memcpy (skb_head ?n) (skb_head ?b) (nat hl + skb_len ?b) (mem_bytes w)"
  let ?w = "(set_skb n (put_header room ?b ?n) w)\<lparr>mem_bytes := ?m\<rparr>"
  let ?w' = "copy_skb_header n p ?w"
  have wn: "skbs ?w n = put_header room ?b ?n" by simp
  have hl0: "0 \<le> hl" "skb_data ?b = skb_head ?b + hl" using b hl by (simp_all add: wf_skb_def skb_headroom_def)
  have d: "dup_skb room hl p n w = Inr ?w'" using dup_skb_spec [OF b n hl, of room] fits by simp
  have m: "mem_bytes ?w' = ?m" by (simp add: copy_header_frame)
  have h: "skb_data (skbs ?w' n) = skb_data ?n + room" "skb_len (skbs ?w' n) = skb_len ?b" "skb_head (skbs ?w' n) = skb_head ?n"
    "skb_end (skbs ?w' n) = skb_end ?n" "data_len (skbs ?w' n) = 0"
    "skb_tail (skbs ?w' n) = skb_data ?n + room + int (skb_len ?b)"
    using n(1) by (simp_all add: copy_header_fields wn put_header_def fresh_skb_def)
  have bend: "skb_head ?b + hl + int (skb_len ?b) \<le> skb_end ?b" using b hl0 by (simp add: wf_skb_def)
  have nd: "skb_data ?n = skb_head ?n + int res" using n(1) by (simp add: fresh_skb_def)
  show thesis
  proof (rule that [OF d])
    show "skbs ?w' p = ?b" using n(2) by (simp add: copy_header_frame)
    show "skb_pools ?w' = skb_pools w" by (simp add: copy_header_frame)
    show "payload (mem_bytes ?w') ?b = payload (mem_bytes w) ?b"
      unfolding m by (rule payload_cong; (rule memcpy_other)?) (use ap bend nd fits le hl0 room in \<open>auto simp: apart_def\<close>)
    show "skb_len (skbs ?w' n) = skb_len ?b" "skb_head (skbs ?w' n) = skb_head ?n" by (rule h)+
    show "wf_skb (skbs ?w' n)" using b room fits by (simp add: wf_skb_def h nd)
    show "skb_headroom (skbs ?w' n) = int res + room" by (simp add: skb_headroom_def h nd)
    fix i assume i: "i < skb_len ?b"
    have p: "payload (mem_bytes ?w') (skbs ?w' n) ! i = ?m (skb_head ?n + (int res + room + int i))"
      using i by (simp add: payload_def h m nd add.assoc)
    show "payload (mem_bytes ?w') (skbs ?w' n) ! i =
      (if i + nat (int res + room - hl) < skb_len ?b then payload (mem_bytes w) ?b ! (i + nat (int res + room - hl))
       else mem_bytes w (skb_data ?n + room + int i))"
    proof (cases "i + nat (int res + room - hl) < skb_len ?b")
      case True
      then have lt: "int res + room + int i < hl + int (skb_len ?b)" using le by linarith
      have "?m (skb_head ?n + (int res + room + int i)) = mem_bytes w (skb_head ?b + (int res + room + int i))"
        using room lt hl0 by (simp add: memcpy_def)
      then show ?thesis using True p le hl0 by (simp add: payload_def algebra_simps)
    next
      case False
      then have "?m (skb_head ?n + (int res + room + int i)) = mem_bytes w (skb_head ?n + (int res + room + int i))"
        by (intro memcpy_other) (use le hl0 in auto)
      then show ?thesis using False p nd by (simp add: algebra_simps)
    qed
  qed
qed

lemma alloc_skb_world: "ifx_mps_fast_alloc_mps_buf cpu k seq (skb_pools w) = Inr (n, ps) \<Longrightarrow>
   ifx_mps_alloc_skb cpu k seq w = Inr (n, w\<lparr>skb_pools := ps\<rparr>)"
  by (simp add: ifx_mps_alloc_skb_def)

lemma dup_skb_shift:
  assumes b: "wf_skb (skbs w p)" "data_len (skbs w p) = 0" and n: "fresh_skb res (skbs w n)" "n \<noteq> p" "apart (skbs w n) (skbs w p)"
    and room: "0 \<le> room" "skb_headroom (skbs w p) + int k = int res + room"
    and fits: "skb_data (skbs w n) + room + int (skb_len (skbs w p)) \<le> skb_end (skbs w n)"
  obtains w' where "dup_skb room (skb_headroom (skbs w p)) p n w = Inr w'"
    "skb_len (skbs w' n) = skb_len (skbs w p)" "skb_headroom (skbs w' n) = int res + room"
    "take (skb_len (skbs w p) - k) (payload (mem_bytes w') (skbs w' n)) = drop k (payload (mem_bytes w) (skbs w p))"
proof -
  let ?hl = "skb_headroom (skbs w p)"
  have k: "nat (int res + room - ?hl) = k" "?hl \<le> int res + room" using room by linarith+
  obtain w' where w': "dup_skb room ?hl p n w = Inr w'" "skb_len (skbs w' n) = skb_len (skbs w p)"
      "skb_headroom (skbs w' n) = int res + room"
      "\<And>i. i < skb_len (skbs w p) \<Longrightarrow> payload (mem_bytes w') (skbs w' n) ! i =
        (if i + k < skb_len (skbs w p) then payload (mem_bytes w) (skbs w p) ! (i + k)
         else mem_bytes w (skb_data (skbs w n) + room + int i))"
    by (rule dup_skb_result [of w p res n ?hl room]) (use b n room fits k in auto)
  have l: "length (payload (mem_bytes w') (skbs w' n)) = skb_len (skbs w p)"
    "length (payload (mem_bytes w) (skbs w p)) = skb_len (skbs w p)" by (simp_all add: payload_def w'(2))
  have "take (skb_len (skbs w p) - k) (payload (mem_bytes w') (skbs w' n)) = drop k (payload (mem_bytes w) (skbs w p))"
    by (rule nth_equalityI) (use w'(4) in \<open>auto simp: l add.commute\<close>)
  then show thesis using that w' by blast
qed

section \<open>An example\<close>

definition blank_skb :: sk_buff where
  "blank_skb = \<lparr>skb_next = 0, skb_prev = 0, skb_list = 0, skb_sk = 0, skb_stamp = (0, 0), skb_dev = 0, real_dev = 0,
     h_raw = 0, nh_raw = 0, mac_raw = 0, skb_dst = 0, skb_cb = [], skb_len = 0, data_len = 0, csum = 0, cloned = 0,
     pkt_type = 0, ip_summed = 0, skb_priority = 0, users = 1, protocol = 0, security = 0, skb_truesize = 1600,
     skb_head = 0, skb_data = 0, skb_tail = 0, skb_end = 0, skb_destructor = 0, nfmark = 0, nfcache = 0, nfct = 0\<rparr>"

definition demo_skb :: sk_buff where
  "demo_skb = blank_skb\<lparr>skb_len := 20, skb_head := 1000, skb_data := 1010, skb_tail := 1030, skb_end := 2000\<rparr>"

text \<open>A buffer of 20 bytes at \<open>0x80300000\<close>; the pool's next buffer has \<open>res\<close> bytes reserved.\<close>

definition demo_world :: "int \<Rightarrow> skb_world" where
  "demo_world res = \<lparr>skbs = (\<lambda>_. blank_skb)(0x80300000 := demo_skb,
       0x80100000 := blank_skb\<lparr>skb_head := 3000, skb_data := 3000 + res, skb_tail := 3000 + res, skb_end := 5000\<rparr>),
     mem_bytes = of_int, dst_refcnt = (\<lambda>_. 1), nfct_use = (\<lambda>_. 1), skb_pools = demo_pools, net_calls = []\<rparr>"

lemma demo_world_alloc: "\<exists>ps. ifx_mps_fast_alloc_mps_buf 1 k 7 (skb_pools (demo_world res)) = Inr (0x80100000, ps)"
  by (simp add: demo_world_def ifx_mps_fast_alloc_mps_buf_def demo_get MPS_CPU_0_ID_def demo_pool_def
    mps_get_buf_size_entry_def mps_dequeue_head_def queue_macro_defs demo_ring_def Let_def)

lemma demo_world_skbs:
  "skbs (demo_world res) 0x80300000 = demo_skb"
  "skbs (demo_world res) 0x80100000 = blank_skb\<lparr>skb_head := 3000, skb_data := 3000 + res, skb_tail := 3000 + res, skb_end := 5000\<rparr>"
  "mem_bytes (demo_world res) = of_int"
  by (simp_all add: demo_world_def)

lemma demo_world_ok:
  "ifx_mps_is_mps_buffer 0x80300000 \<noteq> 0" "wf_skb demo_skb" "data_len demo_skb = 0" "skb_headroom demo_skb = 10"
  "fresh_skb r (skbs (demo_world (int r)) 0x80100000)" "apart (skbs (demo_world res) 0x80100000) demo_skb"
  "skb_len demo_skb = 20" "skb_data (skbs (demo_world res) 0x80100000) = 3000 + res" "skb_end (skbs (demo_world res) 0x80100000) = 5000"
  by (simp_all add: ifx_mps_is_mps_buffer_def CPU1_RAM_PHYADDR_BEGIN_def PHYSADDR_def wf_skb_def demo_skb_def
    blank_skb_def skb_headroom_def fresh_skb_def apart_def demo_world_skbs)

lemma demo_free:
  "ifx_mps_fast_alloc_mps_buf 1 k 7 demo_pools = Inr (0x80100000, ps) \<Longrightarrow>
   \<exists>rc ps'. ifx_mps_fast_free_mps_buf 1 ts 0x80100000 7 ps = Inr (rc, ps')"
  by (auto simp: ifx_mps_fast_alloc_mps_buf_def demo_get MPS_CPU_0_ID_def demo_pool_def mps_get_buf_size_entry_def
      mps_dequeue_head_def queue_macro_defs demo_ring_def Let_def ifx_mps_fast_free_mps_buf_def MPS_GET_BUF_POOL_def
      set_pool_def demo_pools_def set_entry0_def split: prod.splits sum.splits option.splits if_splits)

section \<open>Properties\<close>

text \<open>C29: \<open>ifx_mps_skb_copy\<close> of a linear pool buffer, when the pool hands out a buffer that has room for it,
  leaves the original alone and returns a well-formed buffer of the same length; its payload is the
  original's if the new buffer had no bytes reserved.  A buffer without the room stops the kernel.\<close>

theorem skb_copy_outcome:
  assumes mps: "ifx_mps_is_mps_buffer p \<noteq> 0" and b: "wf_skb (skbs w p)" "data_len (skbs w p) = 0"
    and alloc: "ifx_mps_fast_alloc_mps_buf cpu (u32_of (skb_end (skbs w p) - skb_head (skbs w p))) seq (skb_pools w) = Inr (n, ps)"
    and n: "n \<noteq> 0" "n \<noteq> p" "fresh_skb res (skbs w n)" "apart (skbs w n) (skbs w p)"
  shows "if skb_data (skbs w n) + skb_headroom (skbs w p) + int (skb_len (skbs w p)) \<le> skb_end (skbs w n)
    then \<exists>w'. ifx_mps_skb_copy net cpu p seq w = Inr (n, w') \<and> skbs w' p = skbs w p \<and> skb_pools w' = ps
      \<and> payload (mem_bytes w') (skbs w p) = payload (mem_bytes w) (skbs w p) \<and> wf_skb (skbs w' n)
      \<and> skb_headroom (skbs w' n) = int res + skb_headroom (skbs w p)
      \<and> (res = 0 \<longrightarrow> payload (mem_bytes w') (skbs w' n) = payload (mem_bytes w) (skbs w p))
    else ifx_mps_skb_copy net cpu p seq w = Inl Bug"
proof -
  let ?w = "w\<lparr>skb_pools := ps\<rparr>" and ?hl = "skb_headroom (skbs w p)"
  have hl: "skb_data (skbs w p) - skb_head (skbs w p) = ?hl" "0 \<le> ?hl" using b by (simp_all add: skb_headroom_def wf_skb_def)
  have c: "ifx_mps_skb_copy net cpu p seq w = (case dup_skb ?hl ?hl p n ?w of Inl e \<Rightarrow> Inl e | Inr w2 \<Rightarrow> Inr (n, w2))"
    using mps alloc n(1) b(2) by (simp add: ifx_mps_skb_copy_def alloc_skb_world Let_def hl)
  show ?thesis
  proof (cases "skb_data (skbs w n) + ?hl + int (skb_len (skbs w p)) \<le> skb_end (skbs w n)")
    case False
    then show ?thesis using dup_skb_spec [of ?w p res n ?hl ?hl] b n by (simp add: c)
  next
    case True
    obtain w' where w': "dup_skb ?hl ?hl p n ?w = Inr w'" "skbs w' p = skbs w p" "skb_pools w' = ps"
      "payload (mem_bytes w') (skbs w p) = payload (mem_bytes w) (skbs w p)" "wf_skb (skbs w' n)"
      "skb_len (skbs w' n) = skb_len (skbs w p)" "skb_headroom (skbs w' n) = int res + ?hl"
      "\<And>i. i < skb_len (skbs w p) \<Longrightarrow> payload (mem_bytes w') (skbs w' n) ! i =
        (if i + nat (int res) < skb_len (skbs w p) then payload (mem_bytes w) (skbs w p) ! (i + nat (int res))
         else mem_bytes w (skb_data (skbs w n) + ?hl + int i))"
      by (rule dup_skb_result [of ?w p res n ?hl ?hl]) (use b n hl True in auto)
    have "payload (mem_bytes w') (skbs w' n) = payload (mem_bytes w) (skbs w p)" if "res = 0"
      by (rule nth_equalityI) (use that w'(6,8) in \<open>simp_all add: payload_def\<close>)
    then show ?thesis using True w' c by simp
  qed
qed

theorem skb_copy_outcome_witness:
  "\<exists>w'. ifx_mps_skb_copy (\<lambda>_. 0) 1 0x80300000 7 (demo_world 0) = Inr (0x80100000, w')
     \<and> payload (mem_bytes w') (skbs w' 0x80100000) = payload of_int demo_skb"
proof -
  obtain ps where "ifx_mps_fast_alloc_mps_buf 1 (u32_of (skb_end demo_skb - skb_head demo_skb)) 7 (skb_pools (demo_world 0))
    = Inr (0x80100000, ps)" using demo_world_alloc by blast
  then show ?thesis
    using skb_copy_outcome [of "0x80300000" "demo_world 0" 1 7 "0x80100000" ps 0 "\<lambda>_. 0"] demo_world_ok(5) [of 0] demo_world_ok
    by (auto simp: demo_world_skbs(1,3))
qed

text \<open>The pools hold buffers of \<open>dev_alloc_skb\<close>, which reserve 16 bytes: the copy of such a buffer starts 16
  bytes late, so the first 16 bytes of the payload are lost.\<close>

theorem skb_copy_shifted:
  assumes mps: "ifx_mps_is_mps_buffer p \<noteq> 0" and b: "wf_skb (skbs w p)" "data_len (skbs w p) = 0"
    and alloc: "ifx_mps_fast_alloc_mps_buf cpu (u32_of (skb_end (skbs w p) - skb_head (skbs w p))) seq (skb_pools w) = Inr (n, ps)"
    and n: "n \<noteq> 0" "n \<noteq> p" "fresh_skb 16 (skbs w n)" "apart (skbs w n) (skbs w p)"
    and fits: "skb_data (skbs w n) + skb_headroom (skbs w p) + int (skb_len (skbs w p)) \<le> skb_end (skbs w n)"
  shows "\<exists>w'. ifx_mps_skb_copy net cpu p seq w = Inr (n, w') \<and> skb_len (skbs w' n) = skb_len (skbs w p)
    \<and> take (skb_len (skbs w p) - 16) (payload (mem_bytes w') (skbs w' n)) = drop 16 (payload (mem_bytes w) (skbs w p))"
proof -
  let ?w = "w\<lparr>skb_pools := ps\<rparr>" and ?hl = "skb_headroom (skbs w p)"
  have hl: "skb_data (skbs w p) - skb_head (skbs w p) = ?hl" "0 \<le> ?hl" using b by (simp_all add: skb_headroom_def wf_skb_def)
  obtain w' where "dup_skb ?hl ?hl p n ?w = Inr w'" "skb_len (skbs w' n) = skb_len (skbs w p)"
    "take (skb_len (skbs w p) - 16) (payload (mem_bytes w') (skbs w' n)) = drop 16 (payload (mem_bytes w) (skbs w p))"
    by (rule dup_skb_shift [of ?w p 16 n ?hl 16]) (use b n hl fits in auto)
  moreover have "ifx_mps_skb_copy net cpu p seq w = (case dup_skb ?hl ?hl p n ?w of Inl e \<Rightarrow> Inl e | Inr w2 \<Rightarrow> Inr (n, w2))"
    using mps alloc n(1) b(2) by (simp add: ifx_mps_skb_copy_def alloc_skb_world Let_def hl)
  ultimately show ?thesis by auto
qed

theorem skb_copy_shifted_witness:
  "\<exists>w'. ifx_mps_skb_copy (\<lambda>_. 0) 1 0x80300000 7 (demo_world 16) = Inr (0x80100000, w')
     \<and> take 4 (payload (mem_bytes w') (skbs w' 0x80100000)) = drop 16 (payload of_int demo_skb)"
proof -
  obtain ps where "ifx_mps_fast_alloc_mps_buf 1 (u32_of (skb_end demo_skb - skb_head demo_skb)) 7 (skb_pools (demo_world 16))
    = Inr (0x80100000, ps)" using demo_world_alloc by blast
  then show ?thesis
    using skb_copy_shifted [of "0x80300000" "demo_world 16" 1 7 "0x80100000" ps "\<lambda>_. 0"] demo_world_ok(5) [of 16] demo_world_ok
    by (auto simp: demo_world_skbs(1,3))
qed

text \<open>The expanding copy of a linear pool buffer into a fresh one has the payload of the original and the
  head room asked for; that head room is filled with the bytes in front of the original's payload, which are
  bytes in front of its area when more head room is asked for than the original has.\<close>

theorem copy_expand_outcome:
  assumes mps: "ifx_mps_is_mps_buffer p \<noteq> 0" and b: "wf_skb (skbs w p)" "data_len (skbs w p) = 0"
    and alloc: "ifx_mps_fast_alloc_mps_buf cpu (u32_of (nh + nt + skb_end (skbs w p) - skb_head (skbs w p))) seq (skb_pools w) = Inr (n, ps)"
    and n: "n \<noteq> 0" "n \<noteq> p" "fresh_skb 0 (skbs w n)" and nh: "0 \<le> nh" "0 < nh + int (skb_len (skbs w p))"
    and fits: "skb_data (skbs w n) + nh + int (skb_len (skbs w p)) \<le> skb_end (skbs w n)"
  shows "\<exists>w'. ifx_mps_skb_copy_expand net frags cpu p nh nt seq w = Inr (n, w') \<and> wf_skb (skbs w' n)
    \<and> payload (mem_bytes w') (skbs w' n) = payload (mem_bytes w) (skbs w p) \<and> skb_headroom (skbs w' n) = nh
    \<and> map (\<lambda>i. mem_bytes w' (skb_head (skbs w' n) + int i)) [0..<nat nh]
      = map (\<lambda>i. mem_bytes w (skb_data (skbs w p) - nh + int i)) [0..<nat nh]"
proof -
  let ?b = "skbs w p" and ?n = "skbs w n"
  let ?k = "?n\<lparr>skb_data := skb_data ?n + nh, skb_tail := skb_data ?n + nh + int (skb_len ?b), skb_len := skb_len ?b\<rparr>"
  let ?m = "memcpy (skb_head ?n) (skb_data ?b - nh) (nat nh + skb_len ?b) (mem_bytes w)"
  let ?w = "(set_skb n ?k (w\<lparr>skb_pools := ps\<rparr>))\<lparr>mem_bytes := ?m\<rparr>"
  let ?w' = "copy_skb_header n p ?w"
  have len: "skb_len ?b < 2 ^ 31" using b by (simp add: wf_skb_def)
  have put: "skb_put (skb_len ?b) (mps_skb_reserve nh ?n) = Inr (skb_data ?n + nh, ?k)"
    using n fits len by (simp add: skb_put_def mps_skb_reserve_def fresh_skb_def mps_skb_is_nonlinear_def Let_def)
  have "nat (nh + int (skb_len ?b)) = nat nh + skb_len ?b" using nh by (simp add: nat_add_distrib)
  then have bits: "skb_copy_bits frags ?b (- nh) (skb_head ?n) (nh + s32_of (skb_len ?b)) (mem_bytes w) = Inr (0, ?m)"
    using b(2) nh len by (simp add: skb_copy_bits_def s32_of_small Let_def add.commute)
  have "ifx_mps_skb_copy_expand net frags cpu p nh nt seq w = Inr (n, ?w')"
    using mps alloc n b(2) put bits by (simp add: ifx_mps_skb_copy_expand_def alloc_skb_world Let_def set_skb_def)
  moreover have "wf_skb (skbs ?w' n)" "skb_headroom (skbs ?w' n) = nh"
    using b n nh fits by (simp_all add: wf_skb_def copy_header_fields fresh_skb_def skb_headroom_def)
  moreover have "payload (mem_bytes ?w') (skbs ?w' n) = payload (mem_bytes w) ?b"
    using n(3) nh by (simp add: payload_def copy_header_fields copy_header_frame fresh_skb_def memcpy_def)
  moreover have "mem_bytes ?w' (skb_head (skbs ?w' n) + int i) = mem_bytes w (skb_data ?b - nh + int i)" if "i < nat nh" for i
    using that nh by (auto simp: copy_header_fields copy_header_frame memcpy_def)
  ultimately show ?thesis by auto
qed

theorem copy_expand_outcome_witness:
  "\<exists>w'. ifx_mps_skb_copy_expand (\<lambda>_. 0) (\<lambda>_ _ _ _ m. (- EFAULT, m)) 1 0x80300000 12 3 7 (demo_world 0) = Inr (0x80100000, w')
     \<and> payload (mem_bytes w') (skbs w' 0x80100000) = payload of_int demo_skb \<and> skb_headroom (skbs w' 0x80100000) = 12
     \<and> skb_data demo_skb - 12 < skb_head demo_skb"
proof -
  obtain ps where "ifx_mps_fast_alloc_mps_buf 1 (u32_of (12 + 3 + skb_end demo_skb - skb_head demo_skb)) 7 (skb_pools (demo_world 0))
    = Inr (0x80100000, ps)" using demo_world_alloc by blast
  then show ?thesis
    using copy_expand_outcome [of "0x80300000" "demo_world 0" 1 12 3 7 "0x80100000" ps "\<lambda>_. 0" "\<lambda>_ _ _ _ m. (- EFAULT, m)"]
      demo_world_ok(5) [of 0] demo_world_ok by (auto simp: demo_world_skbs(1,3) demo_skb_def)
qed

text \<open>Reallocation with \<open>k\<close> bytes more head room copies the old area to the start of the new one, so that the
  payload of the result starts \<open>k\<close> bytes late.\<close>

theorem realloc_headroom_shifted:
  assumes mps: "ifx_mps_is_mps_buffer p \<noteq> 0" and b: "wf_skb (skbs w p)" "data_len (skbs w p) = 0"
    and more: "int headroom = skb_headroom (skbs w p) + int k" "0 < k"
    and alloc: "ifx_mps_fast_alloc_mps_buf cpu (u32_of (int k + (skb_end (skbs w p) - skb_head (skbs w p)))) seq (skb_pools w) = Inr (n, ps)"
    and n: "n \<noteq> 0" "n \<noteq> p" "fresh_skb 0 (skbs w n)" "apart (skbs w n) (skbs w p)"
    and fits: "skb_data (skbs w n) + int headroom + int (skb_len (skbs w p)) \<le> skb_end (skbs w n)"
  shows "\<exists>w'. ifx_mps_skb_realloc_headroom net cpu p headroom seq w = Inr (n, w')
    \<and> skb_headroom (skbs w' n) = int headroom \<and> skb_len (skbs w' n) = skb_len (skbs w p)
    \<and> take (skb_len (skbs w p) - k) (payload (mem_bytes w') (skbs w' n)) = drop k (payload (mem_bytes w) (skbs w p))"
proof -
  let ?w = "w\<lparr>skb_pools := ps\<rparr>" and ?hl = "skb_headroom (skbs w p)"
  have hl: "skb_data (skbs w p) - skb_head (skbs w p) = ?hl" by (simp add: skb_headroom_def)
  obtain w' where "dup_skb (int headroom) ?hl p n ?w = Inr w'" "skb_len (skbs w' n) = skb_len (skbs w p)"
    "skb_headroom (skbs w' n) = int headroom"
    "take (skb_len (skbs w p) - k) (payload (mem_bytes w') (skbs w' n)) = drop k (payload (mem_bytes w) (skbs w p))"
    by (rule dup_skb_shift [of ?w p 0 n "int headroom" k]) (use b n more fits in auto)
  moreover have "ifx_mps_skb_realloc_headroom net cpu p headroom seq w =
      (case dup_skb (int headroom) ?hl p n ?w of Inl e \<Rightarrow> Inl e | Inr w2 \<Rightarrow> Inr (n, w2))"
    using mps alloc n(1) more by (simp add: ifx_mps_skb_realloc_headroom_def alloc_skb_world Let_def hl)
  ultimately show ?thesis by auto
qed

theorem realloc_headroom_shifted_witness:
  "\<exists>w'. ifx_mps_skb_realloc_headroom (\<lambda>_. 0) 1 0x80300000 14 7 (demo_world 0) = Inr (0x80100000, w')
     \<and> take 16 (payload (mem_bytes w') (skbs w' 0x80100000)) = drop 4 (payload of_int demo_skb)"
proof -
  obtain ps where "ifx_mps_fast_alloc_mps_buf 1 (u32_of (int 4 + (skb_end demo_skb - skb_head demo_skb))) 7 (skb_pools (demo_world 0))
    = Inr (0x80100000, ps)" using demo_world_alloc by blast
  then show ?thesis
    using realloc_headroom_shifted [of "0x80300000" "demo_world 0" 14 4 1 7 "0x80100000" ps "\<lambda>_. 0"] demo_world_ok(5) [of 0] demo_world_ok
    by (auto simp: demo_world_skbs(1,3))
qed

text \<open>A successful head expansion leaves the buffer with the new area's start but with its data and end
  pointers in the old area, and that old area is what the release of the temporary buffer gives back.\<close>

theorem expand_head_dangles:
  assumes mps: "ifx_mps_is_mps_buffer p \<noteq> 0" and b: "wf_skb (skbs w p)" "data_len (skbs w p) = 0"
    and alloc: "ifx_mps_fast_alloc_mps_buf cpu (u32_of (nhead + (skb_end (skbs w p) - skb_head (skbs w p)) + ntail)) seq
        (skb_pools w) = Inr (n, ps)"
    and n: "n \<noteq> 0" "n \<noteq> p" "fresh_skb res (skbs w n)"
    and fits: "skb_data (skbs w n) + nhead + int (skb_len (skbs w p)) \<le> skb_end (skbs w n)"
    and free: "\<And>ts. \<exists>r. ifx_mps_fast_free_mps_buf cpu ts n seq ps = Inr r"
  shows "\<exists>w' rc ts. ifx_mps_pskb_expand_head net cpu p nhead ntail seq w = Inr (0, w')
    \<and> skb_head (skbs w' p) = skb_head (skbs w n) \<and> skb_head (skbs w' n) = skb_head (skbs w p)
    \<and> skb_data (skbs w' p) = skb_data (skbs w p) \<and> skb_end (skbs w' p) = skb_end (skbs w p)
    \<and> ifx_mps_fast_free_mps_buf cpu ts n seq ps = Inr (rc, skb_pools w')"
proof -
  let ?w = "w\<lparr>skb_pools := ps\<rparr>" and ?hl = "skb_headroom (skbs w p)"
  have hl: "skb_data (skbs w p) - skb_head (skbs w p) = ?hl" by (simp add: skb_headroom_def)
  define w2 where "w2 = copy_skb_header n p ((set_skb n (put_header nhead (skbs w p) (skbs w n)) ?w)
       \<lparr>mem_bytes := memcpy (skb_head (skbs w n)) (skb_head (skbs w p)) (nat ?hl + skb_len (skbs w p)) (mem_bytes w)\<rparr>)"
  have d: "dup_skb nhead ?hl p n ?w = Inr w2"
    using dup_skb_spec [of ?w p res n ?hl nhead] b n fits by (simp add: w2_def)
  have f: "skbs w2 p = skbs w p" "skb_head (skbs w2 n) = skb_head (skbs w n)" "skb_pools w2 = ps"
    using n(2) by (simp_all add: w2_def copy_header_frame copy_header_fields put_header_def)
  define w4 where "w4 = set_skb p ((skbs w2 p)\<lparr>cloned := 1\<rparr>) (set_skb n ((skbs w2 n)\<lparr>cloned := 1\<rparr>) w2)"
  define w6 where "w6 = set_skb p ((skbs w4 p)\<lparr>skb_head := skb_head (skbs w4 n)\<rparr>)
     (set_skb n ((skbs w4 n)\<lparr>skb_head := skb_head (skbs w4 p)\<rparr>) w4)"
  have e: "ifx_mps_pskb_expand_head net cpu p nhead ntail seq w =
      (case ifx_mps_dev_kfree_skb cpu n seq w6 of Inl e \<Rightarrow> Inl e | Inr (_, w7) \<Rightarrow> Inr (0, w7))"
    using mps alloc n by (simp add: ifx_mps_pskb_expand_head_def alloc_skb_world Let_def hl d w6_def w4_def)
  have ps6: "skb_pools w6 = ps" by (simp add: w6_def w4_def f)
  obtain rc ps' where r: "ifx_mps_fast_free_mps_buf cpu (\<lambda>b. skb_truesize (skbs w6 b)) n seq ps = Inr (rc, ps')"
    using free by (metis surj_pair)
  have "ifx_mps_pskb_expand_head net cpu p nhead ntail seq w = Inr (0, w6\<lparr>skb_pools := ps'\<rparr>)"
    using r by (simp add: e ifx_mps_dev_kfree_skb_def ps6)
  moreover have "skb_head (skbs w6 p) = skb_head (skbs w n)" "skb_head (skbs w6 n) = skb_head (skbs w p)"
    "skb_data (skbs w6 p) = skb_data (skbs w p)" "skb_end (skbs w6 p) = skb_end (skbs w p)"
    using n(2) f by (simp_all add: w6_def w4_def)
  ultimately show ?thesis using r by (intro exI [of _ "w6\<lparr>skb_pools := ps'\<rparr>"] exI [of _ rc]) auto
qed

theorem expand_head_dangles_witness:
  "\<exists>w'. ifx_mps_pskb_expand_head (\<lambda>_. 0) 1 0x80300000 10 0 7 (demo_world 0) = Inr (0, w')
     \<and> skb_head (skbs w' 0x80300000) = 3000 \<and> skb_data (skbs w' 0x80300000) = 1010"
proof -
  obtain ps where a: "ifx_mps_fast_alloc_mps_buf 1 (u32_of (10 + (skb_end demo_skb - skb_head demo_skb) + 0)) 7 (skb_pools (demo_world 0))
    = Inr (0x80100000, ps)" using demo_world_alloc by blast
  have f: "\<exists>rc ps'. ifx_mps_fast_free_mps_buf 1 ts 0x80100000 7 ps = Inr (rc, ps')" for ts
    by (rule demo_free) (use a in \<open>simp add: demo_world_def\<close>)
  then have "\<exists>r. ifx_mps_fast_free_mps_buf 1 ts 0x80100000 7 ps = Inr r" for ts by blast
  then show ?thesis
    using expand_head_dangles [of "0x80300000" "demo_world 0" 1 10 0 7 "0x80100000" ps 0 "\<lambda>_. 0"] a demo_world_ok(5) [of 0] demo_world_ok
    by (auto simp: demo_world_skbs(1)) (auto simp: demo_world_skbs demo_skb_def blank_skb_def)
qed



end
