(* ===== verification/Dma_Core.thy ===== *)
theory Dma_Core
  imports Icu "HOL-Library.Multiset"
begin

text \<open>
  The central DMA driver (\<open>basic/dma-core.c\<close>): twenty channels with rings of descriptors, six peripheral
  devices, the interrupt handler, and the tasklet that serves pending channels by weight.  The registers of a
  channel, which the hardware multiplexes through a selection register, are functions of the channel number.
  What a peripheral driver provides (buffer functions and the event handler) is a parameter or a script in the
  state: \<open>alloc_script\<close> has the results of its coming \<open>buffer_alloc\<close> calls.
\<close>

section \<open>State\<close>

datatype dma_dir = RX | TX

text \<open>Descriptors: the status word has \<open>OWN\<close>, \<open>C\<close>, \<open>SoP\<close> and \<open>EoP\<close> in its upper bits, the byte offset from bit 23
  on and the length in its lower half.\<close>

record dma_desc =
  desc_word :: u32
  Data_Pointer :: u32

record dma_channel_info =
  rel_chan_no :: nat
  pri :: nat
  chan_dir :: dma_dir
  chan_irq :: nat
  desc_base :: nat
  desc_len :: nat
  curr_desc :: nat
  prev_desc :: nat
  weight :: int
  default_weight :: int
  packet_size :: nat
  control :: bool
  opt :: "nat \<Rightarrow> u32"
  dma_dev :: nat

record dma_device_info =
  device_name :: string
  reserved :: bool
  tx_burst_len :: nat
  current_tx_chan :: nat
  current_rx_chan :: nat
  tx_chan :: "nat list"
  rx_chan :: "nat list"
  has_handler :: bool

record dma_state =
  icu_regs :: icu
  chans :: "nat \<Rightarrow> dma_channel_info"
  devs :: "nat \<Rightarrow> dma_device_info"
  descs :: "nat \<Rightarrow> dma_desc"
  DMA_CS :: nat
  DMA_IRNEN :: u32
  CCTRL :: "nat \<Rightarrow> u32"
  CIE :: "nat \<Rightarrow> u32"
  CIS :: "nat \<Rightarrow> u32"
  CDLEN :: "nat \<Rightarrow> nat"
  CDBA :: "nat \<Rightarrow> nat"
  CPOLL :: "nat \<Rightarrow> u32"
  DMA_CTRL :: u32
  PCTRL :: "nat \<Rightarrow> u32"
  PMU_PWDCR :: u32
  int_status :: u32
  in_process :: bool
  tasklet_scheduled :: bool
  alloc_script :: "(u32 \<times> u32 \<times> u32) list"
  bufs_freed :: "(u32 \<times> u32) list"

text \<open>The table of channels (the variant without the second receive path).\<close>

record dma_chan_map =
  map_dev_name :: string
  map_dir :: dma_dir
  map_pri :: nat
  map_irq :: nat
  map_rel_chan_no :: nat

definition global_device_name :: "string list" where
  "global_device_name = [''PPE'', ''DEU'', ''SPI'', ''SDIO'', ''MCTRL0'', ''MCTRL1'']"

definition chan_entry :: "string \<Rightarrow> dma_dir \<Rightarrow> nat \<Rightarrow> nat \<Rightarrow> nat \<Rightarrow> dma_chan_map" where
  "chan_entry n d p i r = \<lparr>map_dev_name = n, map_dir = d, map_pri = p, map_irq = i, map_rel_chan_no = r\<rparr>"

definition default_dma_map :: "dma_chan_map list" where
  "default_dma_map =
    [chan_entry ''PPE'' RX 0 64 0, chan_entry ''PPE'' TX 0 65 0, chan_entry ''PPE'' RX 1 66 1, chan_entry ''PPE'' TX 1 67 1,
     chan_entry ''PPE'' RX 2 68 2, chan_entry ''PPE'' TX 2 69 2, chan_entry ''PPE'' RX 3 70 3, chan_entry ''PPE'' TX 3 71 3,
     chan_entry ''DEU'' RX 0 72 0, chan_entry ''DEU'' TX 0 73 0, chan_entry ''DEU'' RX 1 74 1, chan_entry ''DEU'' TX 1 75 1,
     chan_entry ''SPI'' RX 0 89 0, chan_entry ''SPI'' TX 0 90 0, chan_entry ''SDIO'' RX 0 91 0, chan_entry ''SDIO'' TX 0 92 0,
     chan_entry ''MCTRL0'' RX 0 93 0, chan_entry ''MCTRL0'' TX 0 62 0, chan_entry ''MCTRL1'' RX 1 80 1,
     chan_entry ''MCTRL1'' TX 1 85 1]"

definition MAX_DMA_CHANNEL_NUM :: nat where "MAX_DMA_CHANNEL_NUM = 20"
definition MAX_DMA_DEVICE_NUM :: nat where "MAX_DMA_DEVICE_NUM = 6"
definition DMA_INT_BUDGET :: nat where "DMA_INT_BUDGET = 100"
definition DANUBE_DMA_DESCRIPTOR_OFFSET :: nat where "DANUBE_DMA_DESCRIPTOR_OFFSET = 25"
definition DANUBE_DMA_CH_DEFAULT_WEIGHT :: int where "DANUBE_DMA_CH_DEFAULT_WEIGHT = 100"

definition RCV_INT :: nat where "RCV_INT = 1"
definition TX_BUF_FULL_INT :: nat where "TX_BUF_FULL_INT = 2"
definition TRANSMIT_CPT_INT :: nat where "TRANSMIT_CPT_INT = 4"

definition dma_owns :: "dma_desc \<Rightarrow> bool" where "dma_owns d = bit (desc_word d) 31"
definition desc_C :: "dma_desc \<Rightarrow> bool" where "desc_C d = bit (desc_word d) 30"
definition data_length :: "dma_desc \<Rightarrow> nat" where "data_length d = unat (take_bit 16 (desc_word d))"

definition CPHYSADDR :: "u32 \<Rightarrow> u32" where "CPHYSADDR a = a AND 0x1FFFFFFF"
definition va :: "u32 \<Rightarrow> u32" where "va a = a + 0x80000000"

definition set_chan :: "nat \<Rightarrow> dma_channel_info \<Rightarrow> dma_state \<Rightarrow> dma_state" where
  "set_chan i c s = s\<lparr>chans := (chans s)(i := c)\<rparr>"

definition set_dev :: "nat \<Rightarrow> dma_device_info \<Rightarrow> dma_state \<Rightarrow> dma_state" where
  "set_dev i d s = s\<lparr>devs := (devs s)(i := d)\<rparr>"

definition set_desc :: "nat \<Rightarrow> dma_desc \<Rightarrow> dma_state \<Rightarrow> dma_state" where
  "set_desc i d s = s\<lparr>descs := (descs s)(i := d)\<rparr>"

section \<open>Channels\<close>

definition select_chan :: "nat \<Rightarrow> dma_state \<Rightarrow> dma_state" where
  "select_chan c s = s\<lparr>DMA_CS := c\<rparr>"

definition enable_chan :: "nat \<Rightarrow> dma_state \<Rightarrow> dma_state" where
  "enable_chan c s = s\<lparr>DMA_CS := c, CCTRL := (CCTRL s)(c := CCTRL s c OR 1)\<rparr>"

definition disable_chan :: "nat \<Rightarrow> dma_state \<Rightarrow> dma_state" where
  "disable_chan c s = s\<lparr>DMA_CS := c, CCTRL := (CCTRL s)(c := CCTRL s c AND NOT 1)\<rparr>"

definition enable_ch_irq :: "nat \<Rightarrow> dma_state \<Rightarrow> dma_state" where
  "enable_ch_irq c s = s\<lparr>DMA_CS := c, CIE := (CIE s)(c := 0x4A), DMA_IRNEN := DMA_IRNEN s OR push_bit c 1,
     icu_regs := enable_danube_irq (chan_irq (chans s c)) (icu_regs s)\<rparr>"

definition disable_ch_irq :: "nat \<Rightarrow> dma_state \<Rightarrow> dma_state" where
  "disable_ch_irq c s = s\<lparr>int_status := int_status s AND NOT (push_bit c 1), DMA_CS := c, CIE := (CIE s)(c := 0),
     DMA_IRNEN := DMA_IRNEN s AND NOT (push_bit c 1),
     icu_regs := mask_and_ack_danube_irq (chan_irq (chans s c)) (icu_regs s)\<rparr>"

definition open_chan :: "nat \<Rightarrow> dma_state \<Rightarrow> dma_state" where
  "open_chan c s =
     (let s1 = s\<lparr>DMA_CS := c, CCTRL := (CCTRL s)(c := CCTRL s c OR 1)\<rparr>
      in if chan_dir (chans s c) = RX then enable_ch_irq c s1 else s1)"

definition close_chan :: "nat \<Rightarrow> dma_state \<Rightarrow> dma_state" where
  "close_chan c s = disable_ch_irq c (s\<lparr>DMA_CS := c, CCTRL := (CCTRL s)(c := CCTRL s c AND NOT 1)\<rparr>)"

definition reset_chan :: "nat \<Rightarrow> dma_state \<Rightarrow> dma_state" where
  "reset_chan c s = s\<lparr>DMA_CS := c, CCTRL := (CCTRL s)(c := CCTRL s c OR 2)\<rparr>"

section \<open>Buffers of the peripheral driver\<close>

text \<open>\<open>buffer_alloc\<close> returns the buffer, its byte offset and the driver's own value.\<close>

definition buffer_alloc :: "dma_state \<Rightarrow> (u32 \<times> u32 \<times> u32) \<times> dma_state" where
  "buffer_alloc s = (case alloc_script s of [] \<Rightarrow> ((0, 0, 0), s) | b # bs \<Rightarrow> (b, s\<lparr>alloc_script := bs\<rparr>))"

definition buffer_free :: "u32 \<Rightarrow> u32 \<Rightarrow> dma_state \<Rightarrow> dma_state" where
  "buffer_free p o' s = s\<lparr>bufs_freed := bufs_freed s @ [(p, o')]\<rparr>"

section \<open>Interrupts and the tasklet\<close>

text \<open>\<open>handler dev ev\<close> is what the event handler of a peripheral driver does.\<close>

definition call_handler ::
  "(nat \<Rightarrow> nat \<Rightarrow> dma_state \<Rightarrow> dma_state) \<Rightarrow> nat \<Rightarrow> nat \<Rightarrow> dma_state \<Rightarrow> dma_state" where
  "call_handler handler d ev s = (if has_handler (devs s d) then handler d ev s else s)"

definition rx_chan_intr_handler :: "(nat \<Rightarrow> nat \<Rightarrow> dma_state \<Rightarrow> dma_state) \<Rightarrow> nat \<Rightarrow> dma_state \<Rightarrow> dma_state" where
  "rx_chan_intr_handler handler c s =
     (let pCh = chans s c; d = dma_dev pCh; rx = descs s (desc_base pCh + curr_desc pCh) in
      if \<not> dma_owns rx \<and> desc_C rx \<and> data_length rx < 1536 then
        let s1 = set_dev d ((devs s d)\<lparr>current_rx_chan := rel_chan_no pCh\<rparr>) s;
            s2 = call_handler handler d RCV_INT s1
        in set_chan c ((chans s2 c)\<lparr>weight := weight (chans s2 c) - 1\<rparr>) s2
      else
        let s1 = s\<lparr>CIS := (CIS s)(c := CIS s c OR 0x7E), icu_regs := enable_danube_irq (chan_irq pCh) (icu_regs s)\<rparr>
        in if dma_owns rx then s1\<lparr>int_status := int_status s1 AND NOT (push_bit c 1)\<rparr> else s1)"

definition tx_chan_intr_handler :: "(nat \<Rightarrow> nat \<Rightarrow> dma_state \<Rightarrow> dma_state) \<Rightarrow> nat \<Rightarrow> dma_state \<Rightarrow> dma_state" where
  "tx_chan_intr_handler handler c s =
     (let pCh = chans s c; d = dma_dev pCh;
          s1 = s\<lparr>CIS := (CIS s)(c := CIS s c OR 0x7E), int_status := int_status s AND NOT (push_bit c 1)\<rparr>;
          s2 = set_dev d ((devs s1 d)\<lparr>current_tx_chan := rel_chan_no pCh\<rparr>) s1
      in call_handler handler d TRANSMIT_CPT_INT s2)"

text \<open>The choice of the next channel: the first of those with the greatest positive weight.\<close>

fun wfq_scan :: "u32 \<Rightarrow> (nat \<Rightarrow> dma_channel_info) \<Rightarrow> nat list \<Rightarrow> nat option \<times> int \<Rightarrow> nat option \<times> int" where
  "wfq_scan st ch [] best = best"
| "wfq_scan st ch (i # is) best =
     wfq_scan st ch is
       (if bit st i \<and> weight (ch i) > 0 \<and> weight (ch i) > snd best then (Some i, weight (ch i)) else best)"

definition wfq_select :: "dma_state \<Rightarrow> nat option" where
  "wfq_select s = fst (wfq_scan (int_status s) (chans s) [0..<MAX_DMA_CHANNEL_NUM] (None, 0))"

text \<open>One round of the tasklet's loop.\<close>

definition dma_round :: "(nat \<Rightarrow> nat \<Rightarrow> dma_state \<Rightarrow> dma_state) \<Rightarrow> dma_state \<Rightarrow> dma_state" where
  "dma_round handler s = (case wfq_select s of
     Some c \<Rightarrow> if map_dir (default_dma_map ! c) = RX then rx_chan_intr_handler handler c s else tx_chan_intr_handler handler c s
   | None \<Rightarrow> s\<lparr>chans := (\<lambda>i. if i < MAX_DMA_CHANNEL_NUM then (chans s i)\<lparr>weight := default_weight (chans s i)\<rparr>
       else chans s i)\<rparr>)"

text \<open>The loop with the rounds the budget still allows; the flag says that it ended because nothing is pending.\<close>

fun dma_loop :: "(nat \<Rightarrow> nat \<Rightarrow> dma_state \<Rightarrow> dma_state) \<Rightarrow> nat \<Rightarrow> dma_state \<Rightarrow> bool \<times> dma_state" where
  "dma_loop handler 0 s = (int_status s = 0, s)"
| "dma_loop handler (Suc n) s = (if int_status s = 0 then (True, s) else dma_loop handler n (dma_round handler s))"

definition do_dma_tasklet :: "(nat \<Rightarrow> nat \<Rightarrow> dma_state \<Rightarrow> dma_state) \<Rightarrow> dma_state \<Rightarrow> dma_state" where
  "do_dma_tasklet handler s =
     (case dma_loop handler (DMA_INT_BUDGET + 1) (s\<lparr>tasklet_scheduled := False\<rparr>) of
        (False, s1) \<Rightarrow> s1\<lparr>tasklet_scheduled := True\<rparr>
      | (True, s1) \<Rightarrow>
          let s2 = s1\<lparr>in_process := False\<rparr>
          in if int_status s2 \<noteq> 0 then s2\<lparr>in_process := True, tasklet_scheduled := True\<rparr> else s2)"

definition dma_interrupt :: "nat \<Rightarrow> nat \<Rightarrow> dma_state \<Rightarrow> dma_state" where
  "dma_interrupt irq c s =
     (let s1 = s\<lparr>int_status := int_status s OR push_bit c 1,
                icu_regs := mask_and_ack_danube_irq irq (icu_regs s)\<rparr>
      in if \<not> in_process s1 then s1\<lparr>in_process := True, tasklet_scheduled := True\<rparr> else s1)"

section \<open>Devices\<close>

text \<open>The index returned for a name that no device has is the one behind the array.\<close>

fun reserve_scan :: "string \<Rightarrow> nat \<Rightarrow> nat \<Rightarrow> dma_state \<Rightarrow> nat option \<times> dma_state" where
  "reserve_scan name i 0 s = (Some i, s)"
| "reserve_scan name i (Suc n) s =
     (if name = device_name (devs s i) then
        (if reserved (devs s i) then (None, s) else (Some i, set_dev i ((devs s i)\<lparr>reserved := True\<rparr>) s))
      else reserve_scan name (i + 1) n s)"

definition dma_device_reserve :: "string \<Rightarrow> dma_state \<Rightarrow> nat option \<times> dma_state" where
  "dma_device_reserve name s = reserve_scan name 0 MAX_DMA_DEVICE_NUM s"

definition dma_device_release :: "nat \<Rightarrow> dma_state \<Rightarrow> dma_state" where
  "dma_device_release d s = set_dev d ((devs s d)\<lparr>reserved := False\<rparr>) s"

definition zero_desc :: dma_desc where
  "zero_desc = \<lparr>desc_word = 0, Data_Pointer = 0\<rparr>"

text \<open>The waits for the reset bit to clear are the hardware's; the register has its later value then.\<close>

definition register_tx :: "nat \<Rightarrow> dma_state \<Rightarrow> dma_state" where
  "register_tx c s =
     (let pCh = chans s c in
      if control pCh then
        s\<lparr>descs := (\<lambda>i. if desc_base pCh \<le> i \<and> i < desc_base pCh + desc_len pCh then zero_desc else descs s i),
          DMA_CS := c, CDLEN := (CDLEN s)(c := desc_len pCh), DMA_IRNEN := DMA_IRNEN s OR push_bit c 1,
          CCTRL := (CCTRL s)(c := 0x30100)\<rparr>
      else s)"

text \<open>The word written to a fresh receive descriptor: the fields byte offset (2 bits), OWN and length.\<close>

definition rx_word :: "u32 \<Rightarrow> nat \<Rightarrow> u32" where
  "rx_word off len = 0x80000000 OR push_bit 23 (take_bit 2 off) OR take_bit 16 (of_nat len)"

fun fill_rx :: "nat \<Rightarrow> nat \<Rightarrow> nat \<Rightarrow> dma_state \<Rightarrow> dma_state" where
  "fill_rx c j 0 s = s"
| "fill_rx c j (Suc n) s =
     (case buffer_alloc s of
        ((b, off, o'), s1) \<Rightarrow>
          let s2 = set_chan c ((chans s1 c)\<lparr>opt := (opt (chans s1 c))(j := o')\<rparr>) s1 in
          if b = 0 then s2
          else fill_rx c (j + 1) n (set_desc (desc_base (chans s2 c) + j)
            \<lparr>desc_word = rx_word off (packet_size (chans s2 c)), Data_Pointer = CPHYSADDR b\<rparr> s2))"

definition register_rx :: "nat \<Rightarrow> dma_state \<Rightarrow> dma_state" where
  "register_rx c s =
     (if control (chans s c) then
        let s1 = fill_rx c 0 (desc_len (chans s c)) s
        in s1\<lparr>DMA_CS := c, CDLEN := (CDLEN s1)(c := desc_len (chans s1 c)), CIE := (CIE s1)(c := 0x0A),
             DMA_IRNEN := DMA_IRNEN s1 OR push_bit c 1, CCTRL := (CCTRL s1)(c := 0x30000),
             icu_regs := enable_danube_irq (chan_irq (chans s1 c)) (icu_regs s1)\<rparr>
      else s)"

definition dma_device_register :: "nat \<Rightarrow> dma_state \<Rightarrow> dma_state" where
  "dma_device_register d s = fold register_rx (rx_chan (devs s d)) (fold register_tx (tx_chan (devs s d)) s)"

text \<open>Whether a descriptor holds a buffer when its channel is closed.\<close>

definition holds_buffer :: "dma_desc \<Rightarrow> bool" where
  "holds_buffer x \<longleftrightarrow> \<not> dma_owns x \<and> desc_C x \<or> dma_owns x \<and> data_length x > 0"

fun drain_descs :: "bool \<Rightarrow> nat \<Rightarrow> nat \<Rightarrow> nat \<Rightarrow> dma_state \<Rightarrow> dma_state" where
  "drain_descs clear c j 0 s = s"
| "drain_descs clear c j (Suc n) s =
     (let i = desc_base (chans s c) + j; x = descs s i;
          s1 = (if holds_buffer x then buffer_free (va (Data_Pointer x)) (opt (chans s c) j) s else s)
      in drain_descs clear c (j + 1) n (if clear then set_desc i zero_desc s1 else s1))"

definition unregister_tx :: "nat \<Rightarrow> dma_state \<Rightarrow> dma_state" where
  "unregister_tx c s =
     (if control (chans s c) then
        let s1 = set_chan c ((chans s c)\<lparr>curr_desc := 0, prev_desc := 0, control := False\<rparr>)
                   (s\<lparr>DMA_CS := c, CIE := (CIE s)(c := 0), DMA_IRNEN := DMA_IRNEN s AND NOT (push_bit c 1),
                      CCTRL := (CCTRL s)(c := CCTRL s c AND NOT 1)\<rparr>)
        in drain_descs True c 0 (desc_len (chans s1 c)) s1
      else s)"

definition unregister_rx :: "nat \<Rightarrow> dma_state \<Rightarrow> dma_state" where
  "unregister_rx c s =
     (let s1 = set_chan c ((chans s c)\<lparr>curr_desc := 0, prev_desc := 0, control := False\<rparr>)
                 (s\<lparr>icu_regs := disable_danube_irq (chan_irq (chans s c)) (icu_regs s),
                    int_status := int_status s AND NOT (push_bit c 1), DMA_CS := c, CIE := (CIE s)(c := 0),
                    DMA_IRNEN := DMA_IRNEN s AND NOT (push_bit c 1), CCTRL := (CCTRL s)(c := CCTRL s c AND NOT 1)\<rparr>)
      in drain_descs False c 0 (desc_len (chans s1 c)) s1)"

definition dma_device_unregister :: "nat \<Rightarrow> dma_state \<Rightarrow> dma_state" where
  "dma_device_unregister d s = fold unregister_rx (rx_chan (devs s d)) (fold unregister_tx (tx_chan (devs s d)) s)"

section \<open>Reading and writing\<close>

datatype dma_fault = Null_handler | Reclaim_forever

definition next_desc :: "dma_channel_info \<Rightarrow> nat" where
  "next_desc c = (if curr_desc c + 1 = desc_len c then 0 else curr_desc c + 1)"

text \<open>The results are the length, the buffer and the driver's value; \<open>None\<close> where nothing is stored.\<close>

definition dma_device_read :: "nat \<Rightarrow> dma_state \<Rightarrow> nat \<times> (u32 \<times> u32) option \<times> dma_state" where
  "dma_device_read d s =
     (let c = rx_chan (devs s d) ! current_rx_chan (devs s d); pCh = chans s c;
          i = desc_base pCh + curr_desc pCh; rx = descs s i in
      if \<not> (\<not> dma_owns rx \<and> desc_C rx) then (0, None, s)
      else case buffer_alloc s of
        ((b, off, p), s1) \<Rightarrow>
          let res = (if b \<noteq> 0 then (data_length rx, Some (va (Data_Pointer rx), opt pCh (curr_desc pCh))) else (0, Some (0, 0)));
              s2 = (if b \<noteq> 0 then
                      set_desc i \<lparr>desc_word = 0x80000000 OR push_bit 23 off OR of_nat (packet_size pCh), Data_Pointer = CPHYSADDR b\<rparr>
                        (set_chan c (pCh\<lparr>opt := (opt pCh)(curr_desc pCh := p)\<rparr>) s1)
                    else s1)
          in (fst res, snd res, set_chan c ((chans s2 c)\<lparr>curr_desc := next_desc (chans s2 c)\<rparr>) s2))"

text \<open>The loop that releases transmitted buffers; out of fuel it has no result.\<close>

fun reclaim :: "nat \<Rightarrow> nat \<Rightarrow> dma_state \<Rightarrow> dma_state option" where
  "reclaim fuel c s =
     (let pCh = chans s c; i = desc_base pCh + prev_desc pCh; tx = descs s i in
      if \<not> dma_owns tx \<and> desc_C tx then
        (case fuel of 0 \<Rightarrow> None
         | Suc n \<Rightarrow>
             let s1 = set_desc i zero_desc (buffer_free (va (Data_Pointer tx)) (opt pCh (prev_desc pCh)) s)
             in reclaim n c (set_chan c ((chans s1 c)\<lparr>prev_desc := (prev_desc pCh + 1) mod desc_len pCh\<rparr>) s1))
      else Some s)"

declare reclaim.simps [simp del]

definition tx_word :: "u32 \<Rightarrow> nat \<Rightarrow> u32" where
  "tx_word off len = 0x80000000 OR 0x20000000 OR 0x10000000 OR push_bit 23 off OR of_nat len"

text \<open>The handler for a full ring is called without a check that there is one.\<close>

definition tell_full ::
  "(nat \<Rightarrow> nat \<Rightarrow> dma_state \<Rightarrow> dma_state) \<Rightarrow> nat \<Rightarrow> dma_state \<Rightarrow> dma_fault + dma_state" where
  "tell_full handler d s = (if has_handler (devs s d) then Inr (handler d TX_BUF_FULL_INT s) else Inl Null_handler)"

definition dma_device_write ::
  "(nat \<Rightarrow> nat \<Rightarrow> dma_state \<Rightarrow> dma_state) \<Rightarrow> nat \<Rightarrow> u32 \<Rightarrow> nat \<Rightarrow> u32 \<Rightarrow> dma_state \<Rightarrow> dma_fault + nat \<times> dma_state" where
  "dma_device_write handler d dataptr len o' s0 =
     (let c = tx_chan (devs s0 d) ! current_tx_chan (devs s0 d) in
      case reclaim (desc_len (chans s0 c)) c s0 of
        None \<Rightarrow> Inl Reclaim_forever
      | Some s \<Rightarrow>
          let pCh = chans s c; i = desc_base pCh + curr_desc pCh; tx = descs s i in
          if dma_owns tx \<or> desc_C tx then
            (case tell_full handler d s of Inl f \<Rightarrow> Inl f | Inr s1 \<Rightarrow> Inr (0, s1))
          else
            let off = CPHYSADDR dataptr mod of_nat (tx_burst_len (devs s d) * 4);
                s1 = set_desc i \<lparr>desc_word = tx_word off len, Data_Pointer = CPHYSADDR dataptr - off\<rparr>
                       (set_chan c (pCh\<lparr>opt := (opt pCh)(curr_desc pCh := o'), curr_desc := next_desc pCh\<rparr>) s)
            in case (if dma_owns (descs s1 (desc_base pCh + next_desc pCh)) then tell_full handler d s1 else Inr s1) of
                 Inl f \<Rightarrow> Inl f
               | Inr s2 \<Rightarrow>
                   let s3 = select_chan c s2
                   in Inr (len, if bit (CCTRL s3 c) 0 then s3 else open_chan c s3))"

section \<open>Initialisation\<close>

definition reset_channels :: "dma_chan_map list \<Rightarrow> dma_state \<Rightarrow> dma_state" where
  "reset_channels m s = s\<lparr>chans := (\<lambda>j. if j < MAX_DMA_CHANNEL_NUM
     then (chans s j)\<lparr>rel_chan_no := map_rel_chan_no (m ! j), control := False, default_weight := DANUBE_DMA_CH_DEFAULT_WEIGHT,
       weight := DANUBE_DMA_CH_DEFAULT_WEIGHT, curr_desc := 0, prev_desc := 0\<rparr>
     else chans s j)\<rparr>"

definition assign_chan :: "dma_chan_map list \<Rightarrow> nat \<Rightarrow> nat \<Rightarrow> dma_state \<Rightarrow> dma_state" where
  "assign_chan m i j s =
     (let e = m ! j in
      if device_name (devs s i) = map_dev_name e then
        let s1 = set_chan j ((chans s j)\<lparr>chan_dir := map_dir e, pri := map_pri e, dma_dev := i\<rparr>) s
        in set_dev i (case map_dir e of
             RX \<Rightarrow> (devs s1 i)\<lparr>rx_chan := rx_chan (devs s1 i) @ [j]\<rparr>
           | TX \<Rightarrow> (devs s1 i)\<lparr>tx_chan := tx_chan (devs s1 i) @ [j]\<rparr>) s1
      else s)"

definition map_device :: "dma_chan_map list \<Rightarrow> nat \<Rightarrow> dma_state \<Rightarrow> dma_state" where
  "map_device m i s =
     (let s1 = set_dev i ((devs s i)\<lparr>tx_chan := [], rx_chan := [], has_handler := False, tx_burst_len := 4\<rparr>) s;
          s2 = (if i = 0 then s1\<lparr>PCTRL := (PCTRL s1)(0 := PCTRL s1 0 OR 0xF40)\<rparr>
                else if i = 1 then s1\<lparr>PCTRL := (PCTRL s1)(1 := 0x14)\<rparr> else s1)
      in fold (assign_chan m i) [0..<MAX_DMA_CHANNEL_NUM] (reset_channels m s2))"

text \<open>\<open>req\<close> has the results of \<open>request_irq\<close> by channel; the channels up to a refused one have their numbers.\<close>

definition set_irqs :: "dma_chan_map list \<Rightarrow> nat \<Rightarrow> dma_state \<Rightarrow> dma_state" where
  "set_irqs m n s = s\<lparr>chans := (\<lambda>i. if i < n then (chans s i)\<lparr>chan_irq := map_irq (m ! i)\<rparr> else chans s i)\<rparr>"

definition map_dma_chan :: "(nat \<Rightarrow> s32) \<Rightarrow> dma_chan_map list \<Rightarrow> dma_state \<Rightarrow> s32 \<times> dma_state" where
  "map_dma_chan req m s =
     (let s1 = s\<lparr>devs := (\<lambda>i. if i < MAX_DMA_DEVICE_NUM then (devs s i)\<lparr>device_name := global_device_name ! i\<rparr> else devs s i)\<rparr>
      in case find (\<lambda>i. req i \<noteq> 0) [0..<MAX_DMA_CHANNEL_NUM] of
           Some i \<Rightarrow> (- EFAULT, set_irqs m (i + 1) s1)
         | None \<Rightarrow> (1, fold (map_device m) [0..<MAX_DMA_DEVICE_NUM] (set_irqs m MAX_DMA_CHANNEL_NUM s1)))"

definition chip_cctrl :: "nat \<Rightarrow> u32" where
  "chip_cctrl i =
     (if i = 8 \<or> i = 9 then 2 AND NOT 0x600
      else if i = 10 \<or> i = 11 then (2 AND NOT 0x600) OR 0x200
      else if i = 16 \<or> i = 17 then 2 OR 0x600
      else if i = 18 \<or> i = 19 then (2 AND NOT 0x600) OR 0x200
      else 2)"

definition dma_chip_init :: "dma_state \<Rightarrow> dma_state" where
  "dma_chip_init s =
     (let s1 = s\<lparr>PMU_PWDCR := PMU_PWDCR s AND NOT 0x20, DMA_CTRL := DMA_CTRL s OR 1, DMA_IRNEN := 0,
            CCTRL := (\<lambda>i. if i < MAX_DMA_CHANNEL_NUM then chip_cctrl i else CCTRL s i),
            CPOLL := (\<lambda>i. if i < MAX_DMA_CHANNEL_NUM then 0x80000040 else CPOLL s i)\<rparr>
      in fold disable_chan [0..<MAX_DMA_CHANNEL_NUM] s1)"

definition init_ring :: "nat \<Rightarrow> dma_state \<Rightarrow> dma_state" where
  "init_ring i s =
     (let base = i * DANUBE_DMA_DESCRIPTOR_OFFSET;
          s1 = set_chan i ((chans s i)\<lparr>desc_base := base, curr_desc := 0, desc_len := DANUBE_DMA_DESCRIPTOR_OFFSET\<rparr>) s
      in (select_chan i s1)\<lparr>CDBA := (CDBA s1)(i := base), CDLEN := (CDLEN s1)(i := DANUBE_DMA_DESCRIPTOR_OFFSET)\<rparr>)"

text \<open>The page for the descriptors has room for 512 of them.\<close>

definition danube_dma_init :: "s32 \<Rightarrow> (nat \<Rightarrow> s32) \<Rightarrow> bool \<Rightarrow> dma_state \<Rightarrow> s32 \<times> dma_state" where
  "danube_dma_init chrdev req page s =
     (if chrdev \<noteq> 0 then (chrdev, s)
      else
        let s1 = snd (map_dma_chan req default_dma_map (dma_chip_init s)) in
        if \<not> page then (- ENOMEM, s1)
        else (0, fold init_ring [0..<MAX_DMA_CHANNEL_NUM] (s1\<lparr>descs := (\<lambda>i. if i < 512 then zero_desc else descs s1 i)\<rparr>)))"

section \<open>The choice of a channel\<close>

lemma wfq_scan_spec:
  assumes "wfq_scan st ch is best = (r, v)"
  shows "(r, v) = best \<and> (\<forall>i\<in>set is. bit st i \<longrightarrow> weight (ch i) > 0 \<longrightarrow> weight (ch i) \<le> snd best)
    \<or> (\<exists>xs c ys. is = xs @ c # ys \<and> r = Some c \<and> v = weight (ch c) \<and> bit st c \<and> v > 0 \<and> v > snd best
        \<and> (\<forall>i\<in>set xs. bit st i \<longrightarrow> weight (ch i) > 0 \<longrightarrow> weight (ch i) < v)
        \<and> (\<forall>i\<in>set ys. bit st i \<longrightarrow> weight (ch i) > 0 \<longrightarrow> weight (ch i) \<le> v))"
  using assms
proof (induction "is" arbitrary: best)
  case (Cons a "is")
  define b where "b = (if bit st a \<and> weight (ch a) > 0 \<and> weight (ch a) > snd best then (Some a, weight (ch a)) else best)"
  have "wfq_scan st ch is b = (r, v)" using Cons.prems by (simp add: b_def)
  from Cons.IH [OF this] show ?case
  proof
    assume h: "(r, v) = b \<and> (\<forall>i\<in>set is. bit st i \<longrightarrow> weight (ch i) > 0 \<longrightarrow> weight (ch i) \<le> snd b)"
    show ?thesis
    proof (cases "bit st a \<and> weight (ch a) > 0 \<and> weight (ch a) > snd best")
      case True
      then have "r = Some a" "v = weight (ch a)" using h by (simp_all add: b_def)
      then show ?thesis using True h by (intro disjI2 exI [of _ "[]"] exI [of _ a] exI [of _ "is"]) (simp add: b_def)
    next
      case False
      then show ?thesis using h by (auto simp: b_def)
    qed
  next
    assume "\<exists>xs c ys. is = xs @ c # ys \<and> r = Some c \<and> v = weight (ch c) \<and> bit st c \<and> v > 0 \<and> v > snd b
        \<and> (\<forall>i\<in>set xs. bit st i \<longrightarrow> weight (ch i) > 0 \<longrightarrow> weight (ch i) < v)
        \<and> (\<forall>i\<in>set ys. bit st i \<longrightarrow> weight (ch i) > 0 \<longrightarrow> weight (ch i) \<le> v)"
    then obtain xs c ys where h: "is = xs @ c # ys" "r = Some c" "v = weight (ch c)" "bit st c" "v > 0" "v > snd b"
      "\<forall>i\<in>set xs. bit st i \<longrightarrow> weight (ch i) > 0 \<longrightarrow> weight (ch i) < v"
      "\<forall>i\<in>set ys. bit st i \<longrightarrow> weight (ch i) > 0 \<longrightarrow> weight (ch i) \<le> v" by blast
    have "v > snd best" "bit st a \<longrightarrow> weight (ch a) > 0 \<longrightarrow> weight (ch a) < v"
      using h(6) by (auto simp: b_def split: if_splits)
    then show ?thesis using h by (intro disjI2 exI [of _ "a # xs"] exI [of _ c] exI [of _ ys]) simp
  qed
qed simp

lemma upt_split: "[0..<n] = xs @ c # ys \<Longrightarrow> xs = [0..<c] \<and> ys = [Suc c..<n] \<and> c < n"
proof -
  assume e: "[0..<n] = xs @ c # ys"
  have l: "length xs < n" using arg_cong [OF e, of length] by simp
  have c: "c = length xs" using arg_cong [OF e, of "\<lambda>l. l ! length xs"] l by simp
  have "xs = take c [0..<n]" "ys = drop (Suc c) [0..<n]" using e c by simp_all
  then show ?thesis using l c by (simp add: take_upt drop_upt)
qed

lemma wfq_select_spec:
  "case wfq_select s of
     None \<Rightarrow> \<forall>i<MAX_DMA_CHANNEL_NUM. bit (int_status s) i \<longrightarrow> weight (chans s i) \<le> 0
   | Some c \<Rightarrow> c < MAX_DMA_CHANNEL_NUM \<and> bit (int_status s) c \<and> weight (chans s c) > 0
       \<and> (\<forall>i<MAX_DMA_CHANNEL_NUM. bit (int_status s) i \<longrightarrow> weight (chans s i) \<le> weight (chans s c)
            \<and> (i < c \<longrightarrow> weight (chans s i) < weight (chans s c)))"
proof -
  obtain r v where e: "wfq_scan (int_status s) (chans s) [0..<MAX_DMA_CHANNEL_NUM] (None, 0) = (r, v)" by force
  from wfq_scan_spec [OF e] consider
      "r = None" "\<forall>i\<in>set [0..<MAX_DMA_CHANNEL_NUM]. bit (int_status s) i \<longrightarrow> weight (chans s i) > 0 \<longrightarrow> weight (chans s i) \<le> 0"
    | xs c ys where "[0..<MAX_DMA_CHANNEL_NUM] = xs @ c # ys" "r = Some c" "v = weight (chans s c)" "bit (int_status s) c" "v > 0"
      "\<forall>i\<in>set xs. bit (int_status s) i \<longrightarrow> weight (chans s i) > 0 \<longrightarrow> weight (chans s i) < v"
      "\<forall>i\<in>set ys. bit (int_status s) i \<longrightarrow> weight (chans s i) > 0 \<longrightarrow> weight (chans s i) \<le> v"
    by auto
  then show ?thesis
  proof cases
    case 1
    then show ?thesis using e by (auto simp: wfq_select_def)
  next
    case 2
    have u: "xs = [0..<c]" "ys = [Suc c..<MAX_DMA_CHANNEL_NUM]" "c < MAX_DMA_CHANNEL_NUM" using upt_split [OF 2(1)] by auto
    have "weight (chans s i) \<le> weight (chans s c) \<and> (i < c \<longrightarrow> weight (chans s i) < weight (chans s c))"
      if i: "i < MAX_DMA_CHANNEL_NUM" "bit (int_status s) i" for i
    proof (cases "weight (chans s i) > 0")
      case True
      then show ?thesis using i 2(3,6,7) u by (cases i c rule: linorder_cases) fastforce+
    next
      case False
      then show ?thesis using 2(3,5) by simp
    qed
    then show ?thesis using e 2(2-5) u(3) by (simp add: wfq_select_def)
  qed
qed


section \<open>Scheduling of the tasklet\<close>

definition keeps_sched :: "(nat \<Rightarrow> nat \<Rightarrow> dma_state \<Rightarrow> dma_state) \<Rightarrow> bool" where
  "keeps_sched handler \<longleftrightarrow> (\<forall>d ev s. in_process (handler d ev s) = in_process s
     \<and> tasklet_scheduled (handler d ev s) = tasklet_scheduled s)"

lemma set_frames [simp]:
  "in_process (set_chan c x s) = in_process s" "tasklet_scheduled (set_chan c x s) = tasklet_scheduled s"
  "int_status (set_chan c x s) = int_status s" "descs (set_chan c x s) = descs s" "devs (set_chan c x s) = devs s"
  "chans (set_chan c x s) = (chans s)(c := x)" "bufs_freed (set_chan c x s) = bufs_freed s"
  "alloc_script (set_chan c x s) = alloc_script s" "CCTRL (set_chan c x s) = CCTRL s"
  "in_process (set_dev d y s) = in_process s" "tasklet_scheduled (set_dev d y s) = tasklet_scheduled s"
  "devs (set_dev d y s) = (devs s)(d := y)" "chans (set_dev d y s) = chans s"
  "chans (set_desc i z s) = chans s" "devs (set_desc i z s) = devs s" "descs (set_desc i z s) = (descs s)(i := z)"
  "bufs_freed (set_desc i z s) = bufs_freed s" "CCTRL (set_desc i z s) = CCTRL s"
  "chans (buffer_free p q s) = chans s" "devs (buffer_free p q s) = devs s" "descs (buffer_free p q s) = descs s"
  "bufs_freed (buffer_free p q s) = bufs_freed s @ [(p, q)]" "CCTRL (buffer_free p q s) = CCTRL s"
  by (simp_all add: set_chan_def set_dev_def set_desc_def buffer_free_def)

lemma call_handler_frame:
  "keeps_sched h \<Longrightarrow> in_process (call_handler h d ev s) = in_process s \<and> tasklet_scheduled (call_handler h d ev s) = tasklet_scheduled s"
  by (simp add: call_handler_def keeps_sched_def)

lemma round_frame:
  "keeps_sched h \<Longrightarrow> in_process (dma_round h s) = in_process s \<and> tasklet_scheduled (dma_round h s) = tasklet_scheduled s"
  by (simp add: dma_round_def rx_chan_intr_handler_def tx_chan_intr_handler_def Let_def call_handler_frame split: option.split)

lemma loop_frame:
  "keeps_sched h \<Longrightarrow> dma_loop h n s = (b, s') \<Longrightarrow> in_process s' = in_process s \<and> tasklet_scheduled s' = tasklet_scheduled s"
proof (induction n arbitrary: s)
  case (Suc n)
  show ?case
  proof (cases "int_status s = 0")
    case False
    then show ?thesis using Suc round_frame [OF Suc.prems(1), of s] by simp
  qed (use Suc in simp)
qed simp

lemma loop_result: "dma_loop h n s = (b, s') \<Longrightarrow> b = (int_status s' = 0) \<and> (\<not> b \<longrightarrow> int_status s \<noteq> 0)"
proof (induction n arbitrary: s)
  case (Suc n)
  show ?case
  proof (cases "int_status s = 0")
    case False
    then show ?thesis using Suc.IH [of "dma_round h s"] Suc.prems by simp
  qed (use Suc in simp)
qed simp

definition sched_inv :: "dma_state \<Rightarrow> bool" where
  "sched_inv s \<longleftrightarrow> (int_status s \<noteq> 0 \<longrightarrow> in_process s) \<and> (in_process s \<longrightarrow> tasklet_scheduled s)"

text \<open>What can happen to a running driver: an interrupt of a channel, a run of the scheduled tasklet, and a
  driver that opens, closes or masks a channel.\<close>

inductive dma_step :: "(nat \<Rightarrow> nat \<Rightarrow> dma_state \<Rightarrow> dma_state) \<Rightarrow> dma_state \<Rightarrow> dma_state \<Rightarrow> bool" for handler where
  Interrupt: "c < MAX_DMA_CHANNEL_NUM \<Longrightarrow> dma_step handler s (dma_interrupt irq c s)"
| Tasklet: "tasklet_scheduled s \<Longrightarrow> dma_step handler s (do_dma_tasklet handler s)"
| Open: "dma_step handler s (open_chan c s)"
| Close: "dma_step handler s (close_chan c s)"
| Mask: "dma_step handler s (disable_ch_irq c s)"

lemma sched_inv_tasklet:
  assumes h: "keeps_sched handler" and s: "sched_inv s"
  shows "sched_inv (do_dma_tasklet handler s)"
proof -
  obtain b s' where l: "dma_loop handler (DMA_INT_BUDGET + 1) (s\<lparr>tasklet_scheduled := False\<rparr>) = (b, s')" by force
  note r = loop_result [OF l] and f = loop_frame [OF h l]
  show ?thesis
  proof (cases b)
    case True
    then show ?thesis using l r by (simp add: do_dma_tasklet_def sched_inv_def)
  next
    case False
    then show ?thesis using l r f s by (simp add: do_dma_tasklet_def sched_inv_def)
  qed
qed

lemma sched_inv_step:
  assumes "dma_step handler s s'" and "keeps_sched handler" and "sched_inv s"
  shows "sched_inv s'"
  using assms(1)
proof cases
  case (Interrupt c irq)
  then show ?thesis using assms(3) by (auto simp: dma_interrupt_def sched_inv_def Let_def)
next
  case Tasklet
  then show ?thesis using sched_inv_tasklet assms by simp
next
  case (Open c)
  then show ?thesis using assms(3) by (simp add: open_chan_def enable_ch_irq_def sched_inv_def Let_def)
next
  case (Close c)
  then show ?thesis using assms(3) by (auto simp: close_chan_def disable_ch_irq_def sched_inv_def)
next
  case (Mask c)
  then show ?thesis using assms(3) by (auto simp: disable_ch_irq_def sched_inv_def)
qed


section \<open>A packet that is never taken\<close>

definition jammed :: "nat \<Rightarrow> dma_state \<Rightarrow> bool" where
  "jammed c s \<longleftrightarrow> c < MAX_DMA_CHANNEL_NUM \<and> int_status s = push_bit c 1 \<and> map_dir (default_dma_map ! c) = RX \<and> weight (chans s c) > 0
     \<and> \<not> dma_owns (descs s (desc_base (chans s c) + curr_desc (chans s c)))
     \<and> data_length (descs s (desc_base (chans s c) + curr_desc (chans s c))) \<ge> 1536"

lemma jammed_select: "jammed c s \<Longrightarrow> wfq_select s = Some c"
proof -
  assume j: "jammed c s"
  have b: "bit (int_status s) i \<longleftrightarrow> i = c" for i
    using j bit_exp_iff [where 'a = "32 word", of c i] by (auto simp: jammed_def MAX_DMA_CHANNEL_NUM_def)
  show ?thesis using wfq_select_spec [of s] j b by (auto simp: jammed_def split: option.splits)
qed

lemma jammed_round:
  assumes "jammed c s"
  shows "jammed c (dma_round handler s) \<and> int_status (dma_round handler s) \<noteq> 0
    \<and> chans (dma_round handler s) = chans s \<and> descs (dma_round handler s) = descs s"
proof -
  let ?s = "s\<lparr>CIS := (CIS s)(c := CIS s c OR 0x7E), icu_regs := enable_danube_irq (chan_irq (chans s c)) (icu_regs s)\<rparr>"
  have "dma_round handler s = ?s"
    using jammed_select [OF assms] assms by (simp add: dma_round_def rx_chan_intr_handler_def jammed_def Let_def)
  moreover have "push_bit c 1 \<noteq> (0 :: u32)" using assms by (simp add: jammed_def MAX_DMA_CHANNEL_NUM_def push_bit_eq_0_iff)
  ultimately show ?thesis using assms by (simp add: jammed_def)
qed

lemma jammed_loop:
  "jammed c s \<Longrightarrow> \<exists>s'. dma_loop handler n s = (False, s') \<and> jammed c s' \<and> chans s' = chans s \<and> descs s' = descs s"
proof (induction n arbitrary: s)
  case 0
  then show ?case using jammed_round [OF 0] by (auto simp: jammed_def MAX_DMA_CHANNEL_NUM_def push_bit_eq_0_iff)
next
  case (Suc n)
  have "int_status s \<noteq> 0" using Suc.prems by (auto simp: jammed_def MAX_DMA_CHANNEL_NUM_def push_bit_eq_0_iff)
  then show ?case using Suc.IH [of "dma_round handler s"] jammed_round [OF Suc.prems, of handler] by auto
qed

lemma jammed_tasklet:
  assumes "jammed c s"
  shows "jammed c (do_dma_tasklet handler s) \<and> tasklet_scheduled (do_dma_tasklet handler s)
    \<and> descs (do_dma_tasklet handler s) = descs s \<and> chans (do_dma_tasklet handler s) = chans s"
proof -
  have "jammed c (s\<lparr>tasklet_scheduled := False\<rparr>)" using assms by (simp add: jammed_def)
  from jammed_loop [OF this, of handler "DMA_INT_BUDGET + 1"] obtain s' where
    "dma_loop handler (DMA_INT_BUDGET + 1) (s\<lparr>tasklet_scheduled := False\<rparr>) = (False, s')" "jammed c s'" "chans s' = chans s" "descs s' = descs s"
    by auto
  then show ?thesis by (simp add: do_dma_tasklet_def jammed_def)
qed

text \<open>C35: The receive handler neither delivers a frame of 1536 bytes or more nor takes it off the ring, and it clears the
  pending bit only when the hardware owns the descriptor.  From then on the channel stays pending, every run of the tasklet
  uses up its budget and schedules itself again, and no descriptor ever changes.\<close>

theorem oversized_packet_jams:
  assumes "jammed c s"
  shows "tasklet_scheduled ((do_dma_tasklet handler ^^ Suc k) s) \<and> int_status ((do_dma_tasklet handler ^^ Suc k) s) = int_status s
    \<and> descs ((do_dma_tasklet handler ^^ Suc k) s) = descs s"
proof -
  have "jammed c ((do_dma_tasklet handler ^^ n) s) \<and> descs ((do_dma_tasklet handler ^^ n) s) = descs s" for n
  proof (induction n)
    case (Suc n)
    then show ?case using jammed_tasklet [of c "(do_dma_tasklet handler ^^ n) s" handler] by simp
  qed (use assms in simp)
  from this [of k] this [of "Suc k"] show ?thesis
    using jammed_tasklet [of c "(do_dma_tasklet handler ^^ k) s" handler] assms by (auto simp: jammed_def)
qed


section \<open>The transmit ring\<close>

text \<open>The slot that holds the \<open>i\<close>-th outstanding buffer of a channel, and what it holds.\<close>

definition tx_slot :: "dma_channel_info \<Rightarrow> nat \<Rightarrow> nat" where
  "tx_slot ch i = (prev_desc ch + i) mod desc_len ch"

definition tx_entry :: "dma_state \<Rightarrow> nat \<Rightarrow> nat \<Rightarrow> u32 \<times> u32" where
  "tx_entry s c k = (va (Data_Pointer (descs s (desc_base (chans s c) + k))), opt (chans s c) k)"

text \<open>The ring of a channel holds the outstanding buffers \<open>q\<close>, oldest first: their descriptors belong to the
  hardware with a length that is not zero or are complete, all others are free.\<close>

definition tx_ring :: "dma_state \<Rightarrow> nat \<Rightarrow> (u32 \<times> u32) list \<Rightarrow> bool" where
  "tx_ring s c q \<longleftrightarrow> prev_desc (chans s c) < desc_len (chans s c) \<and> length q \<le> desc_len (chans s c)
     \<and> curr_desc (chans s c) = tx_slot (chans s c) (length q)
     \<and> (\<forall>i<length q. q ! i = tx_entry s c (tx_slot (chans s c) i)
          \<and> holds_buffer (descs s (desc_base (chans s c) + tx_slot (chans s c) i)))
     \<and> (\<forall>i. length q \<le> i \<longrightarrow> i < desc_len (chans s c) \<longrightarrow>
          \<not> dma_owns (descs s (desc_base (chans s c) + tx_slot (chans s c) i))
          \<and> \<not> desc_C (descs s (desc_base (chans s c) + tx_slot (chans s c) i)))"

lemma slot_eq:
  "i < desc_len ch \<Longrightarrow> j < desc_len ch \<Longrightarrow> tx_slot ch i = tx_slot ch j \<longleftrightarrow> i = j"
proof -
  assume i: "i < desc_len ch" and j: "j < desc_len ch"
  have le: "a = b" if "(p + a) mod n = (p + b) mod n" "a \<le> b" "b < n" for p n a b :: nat
  proof -
    have "n dvd p + b - (p + a)" using that mod_eq_dvd_iff_nat [of "p + a" "p + b" n] by simp
    then show ?thesis using that nat_dvd_not_less [of "b - a" n] by (cases "a = b") auto
  qed
  show ?thesis
  proof
    assume "tx_slot ch i = tx_slot ch j"
    then show "i = j" using le [of "prev_desc ch" i "desc_len ch" j] le [of "prev_desc ch" j "desc_len ch" i] i j
      by (cases "i \<le> j") (simp_all add: tx_slot_def)
  qed simp
qed

lemma zero_desc_free: "\<not> dma_owns zero_desc" "\<not> desc_C zero_desc"
  by (simp_all add: dma_owns_def desc_C_def zero_desc_def)

text \<open>The state after the release of the oldest buffer.\<close>

definition release_head :: "nat \<Rightarrow> dma_state \<Rightarrow> dma_state" where
  "release_head c s =
     (let pCh = chans s c; i = desc_base pCh + prev_desc pCh;
          s1 = set_desc i zero_desc (buffer_free (va (Data_Pointer (descs s i))) (opt pCh (prev_desc pCh)) s)
      in set_chan c ((chans s1 c)\<lparr>prev_desc := (prev_desc pCh + 1) mod desc_len pCh\<rparr>) s1)"

lemma release_head_ring:
  assumes r: "tx_ring s c (x # q)"
  shows "tx_ring (release_head c s) c q" "bufs_freed (release_head c s) = bufs_freed s @ [x]"
    "devs (release_head c s) = devs s" "CCTRL (release_head c s) = CCTRL s"
    "desc_len (chans (release_head c s) c) = desc_len (chans s c)" "control (chans (release_head c s) c) = control (chans s c)"
proof -
  let ?ch = "chans s c" and ?ch' = "chans (release_head c s) c" and ?n = "desc_len (chans s c)"
  have n: "prev_desc ?ch < ?n" "Suc (length q) \<le> ?n" using r by (simp_all add: tx_ring_def)
  have ch': "?ch' = ?ch\<lparr>prev_desc := (prev_desc ?ch + 1) mod ?n\<rparr>" by (simp add: release_head_def Let_def)
  have d': "descs (release_head c s) = (descs s)(desc_base ?ch + prev_desc ?ch := zero_desc)" by (simp add: release_head_def Let_def)
  have slot: "tx_slot ?ch' i = tx_slot ?ch (Suc i)" for i by (simp add: tx_slot_def ch' mod_add_left_eq)
  have s0: "tx_slot ?ch 0 = prev_desc ?ch" using n by (simp add: tx_slot_def)
  have ne: "tx_slot ?ch (Suc i) \<noteq> prev_desc ?ch" if "Suc i < ?n" for i
    using slot_eq [of "Suc i" ?ch 0] that n s0 by simp
  have x: "x = tx_entry s c (prev_desc ?ch)" using r s0 by (auto simp: tx_ring_def)
  have q: "q ! i = tx_entry s c (tx_slot ?ch (Suc i))" if "i < length q" for i using r that by (auto simp: tx_ring_def)
  show "bufs_freed (release_head c s) = bufs_freed s @ [x]" by (simp add: release_head_def Let_def x tx_entry_def)
  show "devs (release_head c s) = devs s" "CCTRL (release_head c s) = CCTRL s" "desc_len ?ch' = ?n" "control ?ch' = control ?ch"
    by (simp_all add: release_head_def Let_def)
  have wrap: "tx_slot ?ch ?n = prev_desc ?ch" using n by (simp add: tx_slot_def)
  have full: "\<not> dma_owns (descs (release_head c s) (desc_base ?ch + tx_slot ?ch (Suc i)))
      \<and> \<not> desc_C (descs (release_head c s) (desc_base ?ch + tx_slot ?ch (Suc i)))" if i: "length q \<le> i" "i < ?n" for i
  proof (cases "Suc i = ?n")
    case True
    then show ?thesis using wrap by (simp add: d' zero_desc_free)
  next
    case False
    then have "Suc i < ?n" "length (x # q) \<le> Suc i" using i by simp_all
    then show ?thesis using r ne [of i] unfolding tx_ring_def by (simp add: d')
  qed
  have "tx_slot ?ch' (length q) = curr_desc ?ch" using r by (simp add: slot tx_ring_def)
  moreover have "q ! i = tx_entry (release_head c s) c (tx_slot ?ch (Suc i))
      \<and> holds_buffer (descs (release_head c s) (desc_base ?ch + tx_slot ?ch (Suc i)))" if i: "i < length q" for i
  proof -
    have "Suc i < length (x # q)" "Suc i < ?n" using i n by simp_all
    then show ?thesis using r q [OF i] ne [of i] unfolding tx_ring_def by (simp add: d' ch' tx_entry_def)
  qed
  ultimately show "tx_ring (release_head c s) c q"
    using n full slot by (simp add: tx_ring_def ch') 
qed

lemma reclaim_ring:
  assumes "tx_ring s c q" and "length q \<le> fuel"
  shows "\<exists>k s'. reclaim fuel c s = Some s' \<and> k \<le> length q \<and> tx_ring s' c (drop k q) \<and> bufs_freed s' = bufs_freed s @ take k q
    \<and> devs s' = devs s \<and> CCTRL s' = CCTRL s \<and> control (chans s' c) = control (chans s c)"
  using assms
proof (induction q arbitrary: s fuel)
  case Nil
  have p: "prev_desc (chans s c) < desc_len (chans s c)" using Nil by (simp add: tx_ring_def)
  then have "tx_slot (chans s c) 0 = prev_desc (chans s c)" by (simp add: tx_slot_def)
  then have "\<not> desc_C (descs s (desc_base (chans s c) + prev_desc (chans s c)))" using Nil p by (simp add: tx_ring_def) (metis bot_nat_0.extremum_strict neq0_conv)
  then have "reclaim fuel c s = Some s" by (simp add: reclaim.simps Let_def)
  then show ?case using Nil by auto
next
  case (Cons x q)
  let ?ch = "chans s c"
  show ?case
  proof (cases "\<not> dma_owns (descs s (desc_base ?ch + prev_desc ?ch)) \<and> desc_C (descs s (desc_base ?ch + prev_desc ?ch))")
    case False
    then have "reclaim fuel c s = Some s" by (subst reclaim.simps) (auto simp: Let_def)
    then show ?thesis using Cons.prems by (intro exI [of _ 0] exI [of _ s]) simp
  next
    case True
    obtain f where f: "fuel = Suc f" using Cons.prems(2) by (cases fuel) auto
    have r: "reclaim fuel c s = reclaim f c (release_head c s)"
      using True by (subst reclaim.simps) (simp add: f release_head_def Let_def)
    note h = release_head_ring [OF Cons.prems(1)]
    obtain k s' where "reclaim f c (release_head c s) = Some s'" "k \<le> length q" "tx_ring s' c (drop k q)"
      "bufs_freed s' = bufs_freed (release_head c s) @ take k q" "devs s' = devs s" "CCTRL s' = CCTRL s"
      "control (chans s' c) = control (chans s c)"
      using Cons.IH [OF h(1), of f] Cons.prems(2) f h(3,4,6) by auto
    then show ?thesis using r h(2) by (intro exI [of _ "Suc k"] exI [of _ s']) simp
  qed
qed


lemma tx_ring_cong:
  "chans s' c = chans s c \<Longrightarrow> descs s' = descs s \<Longrightarrow> tx_ring s' c q = tx_ring s c q"
  by (simp add: tx_ring_def tx_entry_def)

lemma tx_word_own: "bit (tx_word off len) 31"
  using bit_exp_iff [where 'a = "32 word", of 31 31] by (simp add: tx_word_def bit_or_iff)

lemma tx_word_length: "0 < len \<Longrightarrow> len < 65536 \<Longrightarrow> take_bit 16 (tx_word off len) \<noteq> 0"
proof -
  assume len: "0 < len" "len < 65536"
  have "take_bit 16 (of_nat len :: u32) \<noteq> 0"
    using len by (simp add: take_bit_of_nat take_bit_nat_eq_self unat_eq_zero [symmetric] unat_of_nat take_bit_nat_def)
  then show ?thesis by (simp add: tx_word_def take_bit_or take_bit_push_bit)
qed

text \<open>Descriptor, channel and ring after a buffer has been queued.\<close>

definition put_tx :: "nat \<Rightarrow> u32 \<Rightarrow> u32 \<Rightarrow> u32 \<Rightarrow> dma_state \<Rightarrow> dma_state" where
  "put_tx c w p o' s = set_desc (desc_base (chans s c) + curr_desc (chans s c)) \<lparr>desc_word = w, Data_Pointer = p\<rparr>
     (set_chan c ((chans s c)\<lparr>opt := (opt (chans s c))(curr_desc (chans s c) := o'), curr_desc := next_desc (chans s c)\<rparr>) s)"

lemma put_tx_ring:
  assumes r: "tx_ring s c q" and room: "length q < desc_len (chans s c)" and w: "bit w 31" "take_bit 16 w \<noteq> 0"
  shows "tx_ring (put_tx c w p o' s) c (q @ [(va p, o')])"
proof -
  let ?ch = "chans s c" and ?n = "desc_len (chans s c)" and ?s' = "put_tx c w p o' s"
  let ?ch' = "chans ?s' c"
  have ch': "?ch' = ?ch\<lparr>opt := (opt ?ch)(curr_desc ?ch := o'), curr_desc := next_desc ?ch\<rparr>"
    "descs ?s' = (descs s)(desc_base ?ch + curr_desc ?ch := \<lparr>desc_word = w, Data_Pointer = p\<rparr>)" by (simp_all add: put_tx_def)
  have cur: "curr_desc ?ch = tx_slot ?ch (length q)" and pn: "prev_desc ?ch < ?n" using r by (simp_all add: tx_ring_def)
  have cn: "curr_desc ?ch < ?n" using pn by (simp add: cur tx_slot_def)
  have slot: "tx_slot ?ch' i = tx_slot ?ch i" for i by (simp add: tx_slot_def ch')
  have ne: "tx_slot ?ch i \<noteq> curr_desc ?ch" if "i \<noteq> length q" "i < ?n" for i
    using slot_eq [of i ?ch "length q"] that room by (simp add: cur)
  have nx: "next_desc ?ch = tx_slot ?ch (Suc (length q))"
    using cn by (auto simp: next_desc_def cur tx_slot_def mod_Suc)
  have q: "q ! i = tx_entry s c (tx_slot ?ch i)"
      "holds_buffer (descs s (desc_base ?ch + tx_slot ?ch i))" if "i < length q" for i
    using r that by (auto simp: tx_ring_def)
  have z: "\<not> dma_owns (descs s (desc_base ?ch + tx_slot ?ch i))" "\<not> desc_C (descs s (desc_base ?ch + tx_slot ?ch i))"
    if "length q \<le> i" "i < ?n" for i using r that by (auto simp: tx_ring_def)
  have old: "(q @ [(va p, o')]) ! i = tx_entry ?s' c (tx_slot ?ch i)
      \<and> holds_buffer (descs ?s' (desc_base ?ch + tx_slot ?ch i))"
    if i: "i < length (q @ [(va p, o')])" for i
  proof (cases "i = length q")
    case True
    then show ?thesis using w by (simp add: ch' tx_entry_def holds_buffer_def dma_owns_def data_length_def unat_gt_0 cur [symmetric])
  next
    case False
    then have i': "i < length q" using i by simp
    then show ?thesis using q [OF i'] ne [of i] room by (simp add: nth_append ch' tx_entry_def)
  qed
  have new: "\<not> dma_owns (descs ?s' (desc_base ?ch + tx_slot ?ch i)) \<and> \<not> desc_C (descs ?s' (desc_base ?ch + tx_slot ?ch i))"
    if "Suc (length q) \<le> i" "i < ?n" for i
    using z [of i] ne [of i] that by (simp add: ch')
  show ?thesis using old new nx pn room slot unfolding tx_ring_def by (simp add: ch')
qed

lemma write_ring:
  assumes r: "tx_ring s c q" and c: "c = tx_chan (devs s d) ! current_tx_chan (devs s d)" and hh: "has_handler (devs s d)"
    and h: "\<And>ev s. handler d ev s = s"
    and e: "e = (va (CPHYSADDR p - CPHYSADDR p mod of_nat (tx_burst_len (devs s d) * 4)), o')" and len: "0 < len" "len < 65536"
  shows "\<exists>k rc s'. dma_device_write handler d p len o' s = Inr (rc, s') \<and> k \<le> length q
    \<and> bufs_freed s' = bufs_freed s @ take k q \<and> devs s' = devs s \<and> control (chans s' c) = control (chans s c)
    \<and> (rc = len \<and> tx_ring s' c (drop k q @ [e])
       \<or> rc = 0 \<and> tx_ring s' c (drop k q) \<and> length (drop k q) = desc_len (chans s' c))"
proof -
  have lq: "length q \<le> desc_len (chans s c)" using r by (simp add: tx_ring_def)
  from reclaim_ring [OF r lq] obtain k t where t: "reclaim (desc_len (chans s c)) c s = Some t" "k \<le> length q" "tx_ring t c (drop k q)"
    "bufs_freed t = bufs_freed s @ take k q" "devs t = devs s" "CCTRL t = CCTRL s"
    "control (chans t c) = control (chans s c)" by blast
  let ?ch = "chans t c" let ?q = "drop k q"
  let ?tx = "descs t (desc_base ?ch + curr_desc ?ch)"
  have cur: "curr_desc ?ch = tx_slot ?ch (length ?q)" "length ?q \<le> desc_len ?ch" "prev_desc ?ch < desc_len ?ch"
    using t(3) by (simp_all add: tx_ring_def)
  show ?thesis
  proof (cases "length ?q < desc_len ?ch")
    case True
    have free: "\<not> dma_owns ?tx" "\<not> desc_C ?tx" using t(3) True cur(1) by (auto simp: tx_ring_def)
    define off where "off = CPHYSADDR p mod of_nat (tx_burst_len (devs s d) * 4)"
    define t1 where "t1 = put_tx c (tx_word off len) (CPHYSADDR p - off) o' t"
    have r1: "tx_ring t1 c (?q @ [e])" unfolding t1_def e off_def [symmetric] by (rule put_tx_ring [OF t(3) True tx_word_own tx_word_length [OF len]])
    have f1: "devs t1 = devs s" "bufs_freed t1 = bufs_freed t" "CCTRL t1 = CCTRL t" "control (chans t1 c) = control (chans s c)"
      by (simp_all add: t1_def put_tx_def t)
    define t3 where "t3 = (let t2 = select_chan c t1 in if bit (CCTRL t2 c) 0 then t2 else open_chan c t2)"
    have tell: "tell_full handler d t1 = Inr t1" using hh h f1 by (simp add: tell_full_def)
    have w: "dma_device_write handler d p len o' s = Inr (len, t3)"
      unfolding dma_device_write_def Let_def c [symmetric] t(1) option.case t(5) off_def [symmetric] put_tx_def [symmetric]
        t1_def [symmetric] tell
      by (simp add: free t3_def Let_def)
    have f3: "chans t3 = chans t1" "descs t3 = descs t1" "devs t3 = devs t1" "bufs_freed t3 = bufs_freed t1"
      by (simp_all add: t3_def Let_def select_chan_def open_chan_def enable_ch_irq_def)
    have "tx_ring t3 c (?q @ [e])" using tx_ring_cong [of t3 c t1] r1 f3 by simp
    then show ?thesis using w t f1 f3 by (intro exI [of _ k] exI [of _ len] exI [of _ t3]) simp
  next
    case False
    then have l: "length ?q = desc_len ?ch" using cur by simp
    have "tx_slot ?ch (length ?q) = tx_slot ?ch 0" unfolding l by (simp add: tx_slot_def)
    moreover have "0 < length ?q" using cur l by simp
    ultimately have "holds_buffer ?tx" using t(3) cur(1) by (auto simp: tx_ring_def)
    then have "dma_owns ?tx \<or> desc_C ?tx" by (auto simp: holds_buffer_def)
    then have "dma_device_write handler d p len o' s = Inr (0, t)"
      using t(1,5) hh h by (simp add: dma_device_write_def c [symmetric] Let_def tell_full_def)
    then show ?thesis using t l by (intro exI [of _ k] exI [of _ 0] exI [of _ t]) simp
  qed
qed

text \<open>The hardware gives a descriptor back.\<close>

definition tx_complete :: "nat \<Rightarrow> nat \<Rightarrow> dma_state \<Rightarrow> dma_state" where
  "tx_complete c k s =
     (let i = desc_base (chans s c) + k; d = descs s i
      in set_desc i (d\<lparr>desc_word := (desc_word d AND NOT 0x80000000) OR 0x40000000\<rparr>) s)"

lemma complete_ring:
  assumes r: "tx_ring s c q" and k: "k < desc_len (chans s c)" and own: "dma_owns (descs s (desc_base (chans s c) + k))"
  shows "tx_ring (tx_complete c k s) c q"
proof -
  let ?ch = "chans s c" and ?s' = "tx_complete c k s"
  have ch: "chans ?s' = chans s" by (simp add: tx_complete_def Let_def)
  have C: "holds_buffer (descs ?s' (desc_base ?ch + k))"
    using bit_exp_iff [where 'a = "32 word", of 30 30] bit_exp_iff [where 'a = "32 word", of 31 31]
      bit_exp_iff [where 'a = "32 word", of 30 31]
    by (simp add: tx_complete_def Let_def holds_buffer_def dma_owns_def desc_C_def bit_or_iff bit_and_iff bit_not_iff)
  have same: "descs ?s' (desc_base ?ch + j) = descs s (desc_base ?ch + j)" if "j \<noteq> k" for j
    using that by (simp add: tx_complete_def Let_def)
  have ptr: "tx_entry ?s' c j = tx_entry s c j" for j by (simp add: tx_entry_def tx_complete_def Let_def)
  have used: "k \<noteq> tx_slot ?ch i" if "length q \<le> i" "i < desc_len ?ch" for i
    using r own that by (auto simp: tx_ring_def)
  show ?thesis
    using r unfolding tx_ring_def ch ptr by (metis C same used)
qed

inductive tx_run :: "(nat \<Rightarrow> nat \<Rightarrow> dma_state \<Rightarrow> dma_state) \<Rightarrow> nat \<Rightarrow> nat \<Rightarrow> dma_state \<Rightarrow> (u32 \<times> u32) list \<Rightarrow> dma_state \<Rightarrow> bool"
  for handler d c s where
  Start: "tx_run handler d c s [] s"
| Write: "tx_run handler d c s acc s1 \<Longrightarrow> 0 < len \<Longrightarrow> len < 65536 \<Longrightarrow>
    dma_device_write handler d p len o' s1 = Inr (rc, s2) \<Longrightarrow>
    tx_run handler d c s (if rc = 0 then acc
      else acc @ [(va (CPHYSADDR p - CPHYSADDR p mod of_nat (tx_burst_len (devs s1 d) * 4)), o')]) s2"
| Complete: "tx_run handler d c s acc s1 \<Longrightarrow> k < desc_len (chans s1 c) \<Longrightarrow> dma_owns (descs s1 (desc_base (chans s1 c) + k)) \<Longrightarrow>
    tx_run handler d c s acc (tx_complete c k s1)"

lemma tx_run_ring:
  assumes run: "tx_run handler d c s acc s'" and r: "tx_ring s c []"
    and c: "c = tx_chan (devs s d) ! current_tx_chan (devs s d)" and hh: "has_handler (devs s d)" and h: "\<And>ev s. handler d ev s = s"
  shows "\<exists>q. tx_ring s' c q \<and> bufs_freed s' @ q = bufs_freed s @ acc \<and> devs s' = devs s \<and> control (chans s' c) = control (chans s c)"
  using run
proof induction
  case Start
  then show ?case using r by auto
next
  case (Write acc s1 len p o' rc s2)
  then obtain q where q: "tx_ring s1 c q" "bufs_freed s1 @ q = bufs_freed s @ acc" "devs s1 = devs s"
    "control (chans s1 c) = control (chans s c)" by blast
  define e where "e = (va (CPHYSADDR p - CPHYSADDR p mod of_nat (tx_burst_len (devs s1 d) * 4)), o')"
  obtain k where k: "k \<le> length q" "bufs_freed s2 = bufs_freed s1 @ take k q" "devs s2 = devs s1"
    "control (chans s2 c) = control (chans s1 c)"
    "rc = len \<and> tx_ring s2 c (drop k q @ [e]) \<or> rc = 0 \<and> tx_ring s2 c (drop k q)"
    using write_ring [OF q(1) _ _ _ e_def, where handler = handler and len = len] Write.hyps c hh h q(3) by auto
  have f: "bufs_freed s2 @ drop k q = bufs_freed s @ acc" using k(2) q(2) by simp
  show ?case
  proof (cases "rc = 0")
    case True
    then show ?thesis using k f q(3,4) Write.hyps(2) by auto
  next
    case False
    then show ?thesis using k f q(3,4) unfolding e_def [symmetric]
      by (intro exI [of _ "drop k q @ [e]"]) (simp add: append_assoc [symmetric] del: append_assoc)
  qed
next
  case (Complete acc s1 k)
  then obtain q where q: "tx_ring s1 c q" "bufs_freed s1 @ q = bufs_freed s @ acc" "devs s1 = devs s"
    "control (chans s1 c) = control (chans s c)" by blast
  have "tx_ring (tx_complete c k s1) c q" by (rule complete_ring [OF q(1) Complete.hyps(2,3)])
  moreover have "bufs_freed (tx_complete c k s1) = bufs_freed s1" "devs (tx_complete c k s1) = devs s1"
    "chans (tx_complete c k s1) = chans s1"
    by (simp_all add: tx_complete_def Let_def)
  ultimately show ?case using q by auto
qed


section \<open>Closing a device\<close>

text \<open>What closing a channel hands to the peripheral driver: the buffers of all descriptors that hold one.\<close>

definition held_bufs :: "dma_state \<Rightarrow> nat \<Rightarrow> nat \<Rightarrow> nat \<Rightarrow> (u32 \<times> u32) list" where
  "held_bufs s c j n = map (tx_entry s c) (filter (\<lambda>k. holds_buffer (descs s (desc_base (chans s c) + k))) [j..<j + n])"

lemma held_bufs_Suc:
  "held_bufs s c j (Suc n) =
    (if holds_buffer (descs s (desc_base (chans s c) + j)) then [tx_entry s c j] else []) @ held_bufs s c (Suc j) n"
proof -
  have "[j..<j + Suc n] = j # [Suc j..<Suc j + n]" by (simp add: upt_conv_Cons del: upt_Suc)
  then show ?thesis by (simp add: held_bufs_def del: upt_Suc)
qed

lemma held_bufs_cong:
  "chans s' c = chans s c \<Longrightarrow> (\<And>k. j \<le> k \<Longrightarrow> descs s' (desc_base (chans s c) + k) = descs s (desc_base (chans s c) + k)) \<Longrightarrow>
    held_bufs s' c j n = held_bufs s c j n"
  unfolding held_bufs_def by (rule map_cong [OF filter_cong]) (auto simp: tx_entry_def)

lemma drain_descs_effect:
  "bufs_freed (drain_descs clear c j n s) = bufs_freed s @ held_bufs s c j n
    \<and> chans (drain_descs clear c j n s) = chans s \<and> devs (drain_descs clear c j n s) = devs s
    \<and> descs (drain_descs clear c j n s) = (\<lambda>i. if clear \<and> desc_base (chans s c) + j \<le> i \<and> i < desc_base (chans s c) + j + n
        then zero_desc else descs s i)"
proof (induction n arbitrary: j s)
  case 0
  show ?case by (auto simp: held_bufs_def fun_eq_iff)
next
  case (Suc n)
  let ?i = "desc_base (chans s c) + j"
  define s1 where "s1 = (if holds_buffer (descs s ?i) then buffer_free (va (Data_Pointer (descs s ?i))) (opt (chans s c) j) s else s)"
  define s2 where "s2 = (if clear then set_desc ?i zero_desc s1 else s1)"
  have d: "drain_descs clear c j (Suc n) s = drain_descs clear c (Suc j) n s2" by (simp add: s1_def s2_def Let_def)
  have ch: "chans s2 = chans s" "devs s2 = devs s" by (simp_all add: s1_def s2_def)
  have ds: "descs s2 = (if clear then (descs s)(?i := zero_desc) else descs s)" by (simp add: s1_def s2_def)
  have "held_bufs s2 c (Suc j) n = held_bufs s c (Suc j) n" by (rule held_bufs_cong) (simp_all add: ch ds)
  moreover have "bufs_freed s2 = bufs_freed s @ (if holds_buffer (descs s ?i) then [tx_entry s c j] else [])"
    by (simp add: s1_def s2_def tx_entry_def)
  ultimately show ?case using Suc.IH [of "Suc j" s2] unfolding d by (auto simp: ch ds held_bufs_Suc fun_eq_iff)
qed

lemma slots_used:
  assumes r: "tx_ring s c q"
  shows "{k. k < desc_len (chans s c) \<and> holds_buffer (descs s (desc_base (chans s c) + k))} = tx_slot (chans s c) ` {..<length q}"
proof -
  let ?ch = "chans s c" let ?n = "desc_len ?ch"
  have lt: "tx_slot ?ch i < ?n" for i using r by (simp add: tx_ring_def tx_slot_def)
  have "inj_on (tx_slot ?ch) {..<?n}" using slot_eq by (intro inj_onI) auto
  then have all: "tx_slot ?ch ` {..<?n} = {..<?n}"
    using lt by (intro card_subset_eq) (auto simp: card_image)
  have used: "holds_buffer (descs s (desc_base ?ch + tx_slot ?ch i))" if "i < length q" for i using r that by (simp add: tx_ring_def)
  have free: "\<not> holds_buffer (descs s (desc_base ?ch + tx_slot ?ch i))" if "length q \<le> i" "i < ?n" for i
    using r that by (auto simp: tx_ring_def holds_buffer_def)
  show ?thesis
  proof (intro set_eqI iffI)
    fix k assume k: "k \<in> {k. k < ?n \<and> holds_buffer (descs s (desc_base ?ch + k))}"
    then obtain i where "i < ?n" "k = tx_slot ?ch i" using all by (metis (no_types, lifting) imageE lessThan_iff mem_Collect_eq)
    then show "k \<in> tx_slot ?ch ` {..<length q}" using k free [of i] by (cases "i < length q") auto
  next
    fix k assume "k \<in> tx_slot ?ch ` {..<length q}"
    then show "k \<in> {k. k < ?n \<and> holds_buffer (descs s (desc_base ?ch + k))}" using used lt by auto
  qed
qed

lemma held_bufs_ring:
  assumes r: "tx_ring s c q"
  shows "mset (held_bufs s c 0 (desc_len (chans s c))) = mset q"
proof -
  let ?ch = "chans s c" let ?n = "desc_len ?ch"
  have lq: "length q \<le> ?n" using r by (simp add: tx_ring_def)
  let ?used = "filter (\<lambda>k. holds_buffer (descs s (desc_base ?ch + k))) [0..<?n]"
  let ?slots = "map (tx_slot ?ch) [0..<length q]"
  have "distinct ?slots" using lq slot_eq [of _ ?ch] by (auto simp: distinct_map inj_on_def)
  moreover have "set ?used = set ?slots" using slots_used [OF r] by (auto simp: lessThan_atLeast0)
  moreover have "distinct ?used" by simp
  ultimately have "mset ?used = mset ?slots" using set_eq_iff_mset_eq_distinct [of ?used ?slots] by blast
  then have "mset (map (tx_entry s c) ?used) = mset (map (tx_entry s c) ?slots)" by (simp only: mset_map)
  moreover have "map (tx_entry s c) ?slots = q" using r by (intro nth_equalityI) (simp_all add: tx_ring_def)
  ultimately show ?thesis unfolding held_bufs_def by (simp only: add_0)
qed

lemma unregister_tx_releases:
  assumes r: "tx_ring s c q" and on: "control (chans s c)"
  shows "mset (bufs_freed (unregister_tx c s)) = mset (bufs_freed s) + mset q \<and> tx_ring (unregister_tx c s) c []"
proof -
  define s1 where "s1 = set_chan c ((chans s c)\<lparr>curr_desc := 0, prev_desc := 0, control := False\<rparr>)
                   (s\<lparr>DMA_CS := c, CIE := (CIE s)(c := 0), DMA_IRNEN := DMA_IRNEN s AND NOT (push_bit c 1),
                      CCTRL := (CCTRL s)(c := CCTRL s c AND NOT 1)\<rparr>)"
  let ?n = "desc_len (chans s c)"
  have u: "unregister_tx c s = drain_descs True c 0 ?n s1" using on by (simp add: unregister_tx_def s1_def Let_def)
  have h: "held_bufs s1 c 0 ?n = held_bufs s c 0 ?n" by (simp add: held_bufs_def s1_def tx_entry_def)
  have n: "0 < ?n" using r by (simp add: tx_ring_def)
  have f1: "bufs_freed s1 = bufs_freed s" "chans s1 c = (chans s c)\<lparr>curr_desc := 0, prev_desc := 0, control := False\<rparr>"
    by (simp_all add: s1_def)
  note e = drain_descs_effect [of True c 0 ?n s1]
  have "mset (bufs_freed (unregister_tx c s)) = mset (bufs_freed s) + mset q"
    using e h held_bufs_ring [OF r] by (simp add: u f1)
  moreover have "tx_ring (unregister_tx c s) c []"
    using e n by (simp add: u tx_ring_def f1 zero_desc_free tx_slot_def)
  ultimately show ?thesis by simp
qed


text \<open>A receive channel keeps its descriptors: closing it a second time hands the same buffers out again.\<close>

lemma unregister_rx_again:
  "\<exists>bs. bufs_freed (unregister_rx c s) = bufs_freed s @ bs
    \<and> bufs_freed (unregister_rx c (unregister_rx c s)) = bufs_freed s @ bs @ bs"
proof -
  have one: "bufs_freed (unregister_rx c t) = bufs_freed t @ held_bufs t c 0 (desc_len (chans t c))
      \<and> descs (unregister_rx c t) = descs t \<and> desc_len (chans (unregister_rx c t) c) = desc_len (chans t c)
      \<and> desc_base (chans (unregister_rx c t) c) = desc_base (chans t c) \<and> opt (chans (unregister_rx c t) c) = opt (chans t c)" for t
    by (simp add: unregister_rx_def Let_def drain_descs_effect held_bufs_def tx_entry_def)
  then have "held_bufs (unregister_rx c s) c 0 (desc_len (chans s c)) = held_bufs s c 0 (desc_len (chans s c))"
    by (simp add: held_bufs_def tx_entry_def)
  then show ?thesis using one [of s] one [of "unregister_rx c s"] by simp
qed

section \<open>The rings after initialisation\<close>

lemma init_ring_chans:
  "chans (fold init_ring [0..<n] s) = (\<lambda>i. if i < n
     then (chans s i)\<lparr>desc_base := i * DANUBE_DMA_DESCRIPTOR_OFFSET, curr_desc := 0, desc_len := DANUBE_DMA_DESCRIPTOR_OFFSET\<rparr>
     else chans s i)"
  by (induction n) (auto simp: init_ring_def select_chan_def Let_def)

lemma init_ring_descs: "descs (fold init_ring [0..<n] s) = descs s"
  by (induction n) (auto simp: init_ring_def select_chan_def set_chan_def Let_def)

lemma rings_disjoint:
  "c \<noteq> c' \<Longrightarrow> {c * n..<c * n + n} \<inter> {c' * n..<c' * n + (n :: nat)} = {}"
proof -
  assume "c \<noteq> c'"
  then consider "Suc c \<le> c'" | "Suc c' \<le> c" by linarith
  then show ?thesis
  proof cases
    case 1
    then have "Suc c * n \<le> c' * n" by (rule mult_le_mono1)
    then show ?thesis by auto
  next
    case 2
    then have "Suc c' * n \<le> c * n" by (rule mult_le_mono1)
    then show ?thesis by auto
  qed
qed

text \<open>The descriptors of a channel.\<close>

definition ring_of :: "dma_state \<Rightarrow> nat \<Rightarrow> nat set" where
  "ring_of s c = {desc_base (chans s c)..<desc_base (chans s c) + desc_len (chans s c)}"

text \<open>The initialisation gives every channel a cleared ring of 25 descriptors inside the one page it allocates, and no
  two channels share a descriptor.\<close>

theorem init_lays_out_rings:
  assumes "danube_dma_init 0 req True s = (rc, s')" and "c < MAX_DMA_CHANNEL_NUM"
  shows "rc = 0 \<and> ring_of s' c \<subseteq> {..<512} \<and> (\<forall>i\<in>ring_of s' c. descs s' i = zero_desc)
    \<and> (\<forall>c'<MAX_DMA_CHANNEL_NUM. c' \<noteq> c \<longrightarrow> ring_of s' c \<inter> ring_of s' c' = {})
    \<and> curr_desc (chans s' c) = 0 \<and> desc_len (chans s' c) = DANUBE_DMA_DESCRIPTOR_OFFSET"
proof -
  define s1 where "s1 = snd (map_dma_chan req default_dma_map (dma_chip_init s))"
  define s2 where "s2 = s1\<lparr>descs := (\<lambda>i. if i < 512 then zero_desc else descs s1 i)\<rparr>"
  have s': "rc = 0" "s' = fold init_ring [0..<MAX_DMA_CHANNEL_NUM] s2"
    using assms(1) unfolding danube_dma_init_def s1_def [symmetric] Let_def s2_def [symmetric] by auto
  have ring: "ring_of s' i = {i * 25..<i * 25 + 25}" if "i < MAX_DMA_CHANNEL_NUM" for i
    using that by (simp add: ring_of_def s'(2) init_ring_chans DANUBE_DMA_DESCRIPTOR_OFFSET_def)
  have d: "descs s' i = (if i < 512 then zero_desc else descs s1 i)" for i
    by (simp add: s'(2) init_ring_descs s2_def)
  have sub: "ring_of s' c \<subseteq> {..<512}" using assms(2) ring [OF assms(2)] by (auto simp: MAX_DMA_CHANNEL_NUM_def)
  have dis: "ring_of s' c \<inter> ring_of s' c' = {}" if "c' < MAX_DMA_CHANNEL_NUM" "c' \<noteq> c" for c'
    using rings_disjoint [of c c' 25] that ring [OF assms(2)] ring [OF that(1)] by simp
  have zero: "descs s' i = zero_desc" if "i \<in> ring_of s' c" for i using sub that d [of i] by auto
  show ?thesis using s'(1) sub dis zero assms(2) by (simp add: s'(2) init_ring_chans)
qed

text \<open>Registration of a device clears the transmit rings that are under its control, so that they start empty.\<close>

lemma register_tx_empty:
  assumes "control (chans s c)" and "0 < desc_len (chans s c)" and "curr_desc (chans s c) = 0" and "prev_desc (chans s c) = 0"
  shows "tx_ring (register_tx c s) c []"
proof -
  have ch: "chans (register_tx c s) = chans s" by (simp add: register_tx_def Let_def)
  have "descs (register_tx c s) (desc_base (chans s c) + tx_slot (chans s c) i) = zero_desc" for i
    using assms(1,2) by (simp add: register_tx_def Let_def tx_slot_def)
  then show ?thesis using assms by (simp add: tx_ring_def ch zero_desc_free) (simp add: tx_slot_def)
qed

lemma reserve_scan_unknown:
  "(\<And>j. i \<le> j \<Longrightarrow> j < i + n \<Longrightarrow> device_name (devs s j) \<noteq> name) \<Longrightarrow> reserve_scan name i n s = (Some (i + n), s)"
proof (induction n arbitrary: i)
  case (Suc n)
  have "reserve_scan name (Suc i) n s = (Some (Suc i + n), s)" using Suc.prems by (intro Suc.IH) simp
  moreover have "name \<noteq> device_name (devs s i)" using Suc.prems [of i] by simp
  ultimately show ?case by simp
qed simp

text \<open>A name that no device has is answered with the address behind the table.\<close>

lemma reserve_unknown_name:
  "(\<And>i. i < MAX_DMA_DEVICE_NUM \<Longrightarrow> device_name (devs s i) \<noteq> name) \<Longrightarrow> dma_device_reserve name s = (Some MAX_DMA_DEVICE_NUM, s)"
  unfolding dma_device_reserve_def by (subst reserve_scan_unknown) auto

text \<open>A packet for which no replacement buffer can be had is dropped, but its descriptor stays with the CPU: the
  hardware does not get it back, and the next turn of the ring finds the same packet there.\<close>

lemma read_without_buffer:
  assumes "c = rx_chan (devs s d) ! current_rx_chan (devs s d)"
    and "\<not> dma_owns (descs s (desc_base (chans s c) + curr_desc (chans s c)))"
    and "desc_C (descs s (desc_base (chans s c) + curr_desc (chans s c)))" and "buffer_alloc s = ((0, off, p), s1)"
  shows "\<exists>s'. dma_device_read d s = (0, Some (0, 0), s') \<and> descs s' = descs s1 \<and> curr_desc (chans s' c) = next_desc (chans s1 c)"
  using assms by (simp add: dma_device_read_def Let_def)

section \<open>Concrete runs\<close>

definition demo_chan :: "nat \<Rightarrow> dma_channel_info" where
  "demo_chan i = \<lparr>rel_chan_no = 0, pri = 0, chan_dir = TX, chan_irq = 65, desc_base = i * 25, desc_len = 25, curr_desc = 0,
     prev_desc = 0, weight = 100, default_weight = 100, packet_size = 1536, control = True, opt = (\<lambda>_. 0), dma_dev = 0\<rparr>"

definition demo_dma :: dma_state where
  "demo_dma = \<lparr>icu_regs = demo_icu, chans = demo_chan,
     devs = (\<lambda>_. \<lparr>device_name = ''PPE'', reserved = True, tx_burst_len = 4, current_tx_chan = 0, current_rx_chan = 0,
       tx_chan = [1], rx_chan = [0], has_handler = True\<rparr>),
     descs = (\<lambda>i. zero_desc), DMA_CS = 0, DMA_IRNEN = 0, CCTRL = (\<lambda>_. 0), CIE = (\<lambda>_. 0), CIS = (\<lambda>_. 0), CDLEN = (\<lambda>_. 25),
     CDBA = (\<lambda>_. 0), CPOLL = (\<lambda>_. 0), DMA_CTRL = 0, PCTRL = (\<lambda>_. 0), PMU_PWDCR = 0, int_status = 0, in_process = False,
     tasklet_scheduled = False, alloc_script = [], bufs_freed = []\<rparr>"


text \<open>A frame of 1540 bytes arrives on channel 0.\<close>

definition demo_big :: dma_state where
  "demo_big = demo_dma\<lparr>descs := (\<lambda>_. \<lparr>desc_word = 0x40000604, Data_Pointer = 0x1000\<rparr>), int_status := 1\<rparr>"

theorem oversized_packet_jams_witness:
  "tasklet_scheduled ((do_dma_tasklet (\<lambda>_ _ s. s) ^^ Suc 1000) demo_big)
    \<and> int_status ((do_dma_tasklet (\<lambda>_ _ s. s) ^^ Suc 1000) demo_big) = 1"
proof -
  have "\<not> bit (0x40000604 :: u32) 31" "take_bit 16 (0x40000604 :: u32) = 0x604" by simp_all
  then have "jammed 0 demo_big"
    by (simp add: jammed_def demo_big_def demo_dma_def demo_chan_def MAX_DMA_CHANNEL_NUM_def dma_owns_def data_length_def
        default_dma_map_def chan_entry_def)
  moreover have "int_status demo_big = 1" by (simp add: demo_big_def)
  ultimately show ?thesis using oversized_packet_jams [of 0 demo_big 1000 "\<lambda>_ _ s. s"] by (simp del: funpow.simps)
qed

lemma demo_ring: "tx_ring demo_dma 1 []"
  by (simp add: tx_ring_def demo_dma_def demo_chan_def zero_desc_free tx_slot_def)

text \<open>One accepted write on the idle channel.\<close>

lemma demo_run:
  obtains s' where "tx_run (\<lambda>_ _ s. s) 0 1 demo_dma [(0x80001000, 7)] s'"
proof -
  have c: "(1 :: nat) = tx_chan (devs demo_dma 0) ! current_tx_chan (devs demo_dma 0)" "has_handler (devs demo_dma 0)"
    by (simp_all add: demo_dma_def)
  obtain rc s' where w: "dma_device_write (\<lambda>_ _ s. s) 0 0x8000100A 60 7 demo_dma = Inr (rc, s')" "rc \<noteq> 0"
    using write_ring [OF demo_ring c(1,2), of "\<lambda>_ _ s. s" _ "0x8000100A" 7 60]
    by (auto simp: tx_ring_def)
  have e: "(va (CPHYSADDR 0x8000100A - CPHYSADDR 0x8000100A mod of_nat (tx_burst_len (devs demo_dma 0) * 4)), 7 :: u32)
      = (0x80001000, 7)" by (simp add: va_def CPHYSADDR_def demo_dma_def)
  show ?thesis
    by (rule that [of s']) (use tx_run.Write [OF tx_run.Start _ _ w(1)] w(2) in \<open>unfold e, simp\<close>)
qed



theorem init_lays_out_rings_witness:
  "ring_of (snd (danube_dma_init 0 (\<lambda>_. 0) True demo_dma)) 3 \<inter> ring_of (snd (danube_dma_init 0 (\<lambda>_. 0) True demo_dma)) 19 = {}"
  using init_lays_out_rings [of "\<lambda>_. 0" demo_dma "fst (danube_dma_init 0 (\<lambda>_. 0) True demo_dma)"
    "snd (danube_dma_init 0 (\<lambda>_. 0) True demo_dma)" 3] by (simp add: MAX_DMA_CHANNEL_NUM_def)

end
