(* ===== verification/Asc.thy ===== *)
theory Asc
  imports Icu Fifo_Spec
begin

text \<open>
  The serial driver (\<open>drivers/char/ifx_asc.c\<close>) for the port of core 1, with what it uses of the kernel: the transmit
  ring of \<open>serial_core.c\<close>, the flip buffer of \<open>tty_io.c\<close> and the interrupt layer.  Hardware is the registers of the port, the
  characters with their status that the receive FIFO will show, and the list of characters written to the transmit
  register; \<open>tx_stuck\<close> says that the transmit FIFO does not drain, so that waiting for it does not end.  The counters
  of the proc file, which run in step with those of \<open>icount\<close>, are left out.
\<close>

section \<open>State\<close>

record asc =
  asc_clc :: u32
  asc_mcon :: u32
  asc_whbstate :: u32
  asc_rxfcon :: u32
  asc_txfcon :: u32
  asc_fstat :: u32
  asc_bg :: u32
  asc_fdv :: u32
  asc_irnen :: u32
  rx_fifo :: "(u32 \<times> u32) list"
  tx_sent :: "u8 list"
  tx_stuck :: bool
  asc_icu :: icu
  asc_tx_irq_on :: nat
  asc_info :: bool
  xmit_buf :: "nat \<Rightarrow> u8"
  xmit_head :: nat
  xmit_tail :: nat
  tty_stopped :: bool
  tty_hw_stopped :: bool
  x_char :: u8
  write_wakeup :: bool
  icount_rx :: u32
  icount_tx :: u32
  icount_parity :: u32
  icount_frame :: u32
  icount_overrun :: u32
  read_status_mask :: u32
  ignore_status_mask :: u32
  flip_buf :: "(u8 \<times> nat) list"
  dont_flip :: bool
  low_latency :: bool
  flip_queued :: bool
  received :: "(u8 \<times> nat) list"
  uartclk :: u32
  port_uartclk :: u32

definition TIR :: nat where "TIR = 32"
definition RIR :: nat where "RIR = 34"
definition EIR :: nat where "EIR = 35"

definition UART_XMIT_SIZE :: nat where "UART_XMIT_SIZE = 1024"
definition WAKEUP_CHARS :: nat where "WAKEUP_CHARS = 256"
definition TTY_FLIPBUF_SIZE :: nat where "TTY_FLIPBUF_SIZE = 512"

abbreviation (input) TTY_NORMAL :: nat where "TTY_NORMAL \<equiv> 0"
abbreviation (input) TTY_FRAME :: nat where "TTY_FRAME \<equiv> 2"
abbreviation (input) TTY_PARITY :: nat where "TTY_PARITY \<equiv> 3"
abbreviation (input) TTY_OVERRUN :: nat where "TTY_OVERRUN \<equiv> 4"

abbreviation (input) ASCSTATE_PE :: u32 where "ASCSTATE_PE \<equiv> 0x10000"
abbreviation (input) ASCSTATE_FE :: u32 where "ASCSTATE_FE \<equiv> 0x20000"
abbreviation (input) ASCSTATE_ROE :: u32 where "ASCSTATE_ROE \<equiv> 0x80000"
abbreviation (input) ASCSTATE_ANY :: u32 where "ASCSTATE_ANY \<equiv> 0xB0000"
abbreviation (input) UART_DUMMY_UER_RX :: u32 where "UART_DUMMY_UER_RX \<equiv> 1"
abbreviation (input) ASCMCON_R :: u32 where "ASCMCON_R \<equiv> 0x8000"

section \<open>Transmission\<close>

text \<open>Sending one character waits for a free place; without one it has no result.\<close>

definition ifx_asc_serial_out :: "u8 \<Rightarrow> asc \<Rightarrow> asc option" where
  "ifx_asc_serial_out ch s = (if tx_stuck s then None else Some (s\<lparr>tx_sent := tx_sent s @ [ch]\<rparr>))"

definition ifx_asc_stop_tx :: "asc \<Rightarrow> asc" where
  "ifx_asc_stop_tx s =
     (if asc_tx_irq_on s \<noteq> 0 then s\<lparr>asc_icu := disable_irq TIR (asc_icu s), asc_tx_irq_on := 0\<rparr> else s)"

definition CIRC_CNT :: "nat \<Rightarrow> nat \<Rightarrow> nat" where
  "CIRC_CNT head tail = nat ((int head - int tail) mod int UART_XMIT_SIZE)"

definition ifx_asc_tx_chars :: "asc \<Rightarrow> asc option" where
  "ifx_asc_tx_chars s =
     (if xmit_head s = xmit_tail s \<or> tty_stopped s \<or> tty_hw_stopped s then Some (ifx_asc_stop_tx s)
      else if x_char s \<noteq> 0 then
        (case ifx_asc_serial_out (x_char s) s of
           None \<Rightarrow> None | Some s1 \<Rightarrow> Some (s1\<lparr>icount_tx := icount_tx s1 + 1, x_char := 0\<rparr>))
      else case ifx_asc_serial_out (xmit_buf s (xmit_tail s)) s of
        None \<Rightarrow> None
      | Some s1 \<Rightarrow>
          let s2 = s1\<lparr>xmit_tail := (xmit_tail s1 + 1) mod UART_XMIT_SIZE, icount_tx := icount_tx s1 + 1\<rparr>;
              s3 = (if CIRC_CNT (xmit_head s2) (xmit_tail s2) < WAKEUP_CHARS then s2\<lparr>write_wakeup := True\<rparr> else s2)
          in Some (if xmit_head s3 = xmit_tail s3 then ifx_asc_stop_tx s3 else s3))"

definition ifx_asc_start_tx :: "asc \<Rightarrow> asc option" where
  "ifx_asc_start_tx s =
     (let s1 = (if asc_tx_irq_on s = 0 then s\<lparr>asc_icu := enable_irq TIR (asc_icu s), asc_tx_irq_on := asc_tx_irq_on s + 1\<rparr> else s)
      in if asc_info s1 then ifx_asc_tx_chars s1 else Some s1)"

definition ifx_asc_tx_int :: "asc \<Rightarrow> asc option" where
  "ifx_asc_tx_int s = ifx_asc_tx_chars s"

text \<open>A character is queued when there is a free place.\<close>

definition uart_put_char :: "u8 \<Rightarrow> asc \<Rightarrow> bool \<times> asc" where
  "uart_put_char ch s =
     (if CIRC_CNT (xmit_tail s) (xmit_head s + 1) \<noteq> 0
      then (True, s\<lparr>xmit_buf := (xmit_buf s)(xmit_head s := ch), xmit_head := (xmit_head s + 1) mod UART_XMIT_SIZE\<rparr>)
      else (False, s))"

section \<open>Reception\<close>

definition ifx_asc_stop_rx :: "asc \<Rightarrow> asc" where
  "ifx_asc_stop_rx s = s\<lparr>asc_whbstate := 1\<rparr>"

definition flush_to_ldisc :: "asc \<Rightarrow> asc" where
  "flush_to_ldisc s =
     (if dont_flip s then s\<lparr>flip_queued := True\<rparr> else s\<lparr>received := received s @ flip_buf s, flip_buf := []\<rparr>)"

definition tty_flip_buffer_push :: "asc \<Rightarrow> asc" where
  "tty_flip_buffer_push s = (if low_latency s then flush_to_ldisc s else s\<lparr>flip_queued := True\<rparr>)"

text \<open>An entry of the flip buffer; \<open>None\<close> is a write behind the buffer.\<close>

definition flip_put :: "u8 \<times> nat \<Rightarrow> asc \<Rightarrow> asc option" where
  "flip_put x s = (if length (flip_buf s) < TTY_FLIPBUF_SIZE then Some (s\<lparr>flip_buf := flip_buf s @ [x]\<rparr>) else None)"

definition rx_errors :: "u32 \<Rightarrow> asc \<Rightarrow> asc" where
  "rx_errors rsr s =
     (let s1 = (if rsr AND ASCSTATE_PE \<noteq> 0 then s\<lparr>icount_parity := icount_parity s + 1, asc_whbstate := asc_whbstate s OR 4\<rparr>
                else if rsr AND ASCSTATE_FE \<noteq> 0 then s\<lparr>icount_frame := icount_frame s + 1, asc_whbstate := asc_whbstate s OR 8\<rparr>
                else s)
      in if rsr AND ASCSTATE_ROE \<noteq> 0 then s1\<lparr>icount_overrun := icount_overrun s1 + 1, asc_whbstate := asc_whbstate s1 OR 0x20\<rparr>
         else s1)"

text \<open>One round of the loop; the flag is false when the function gives up because the flip buffer stays full.\<close>

definition rx_one :: "asc \<Rightarrow> (u32 \<times> bool \<times> asc) option" where
  "rx_one s0 =
     (let (ch, st) = (case rx_fifo s0 of [] \<Rightarrow> (0, 0) | x # _ \<Rightarrow> x);
          s = s0\<lparr>rx_fifo := tl (rx_fifo s0)\<rparr>;
          rsr = (st AND ASCSTATE_ANY) OR UART_DUMMY_UER_RX;
          s1 = (if length (flip_buf s) \<ge> TTY_FLIPBUF_SIZE then flush_to_ldisc s else s)
      in if length (flip_buf s1) \<ge> TTY_FLIPBUF_SIZE then Some (ch, False, s1)
         else
           let s2 = s1\<lparr>icount_rx := icount_rx s1 + 1\<rparr>;
               bad = (rsr AND ASCSTATE_ANY \<noteq> 0);
               s3 = (if bad then rx_errors rsr s2 else s2);
               rsr1 = (if bad then rsr AND read_status_mask s3 else rsr);
               flag = (if bad \<and> rsr1 AND ASCSTATE_PE \<noteq> 0 then TTY_PARITY
                       else if bad \<and> rsr1 AND ASCSTATE_FE \<noteq> 0 then TTY_FRAME else TTY_NORMAL)
           in case (if rsr1 AND ignore_status_mask s3 = 0 then flip_put (ucast ch, flag) s3 else Some s3) of
                None \<Rightarrow> None
              | Some s4 \<Rightarrow>
                  (case (if rsr1 AND ASCSTATE_ROE \<noteq> 0 \<and> length (flip_buf s4) < TTY_FLIPBUF_SIZE
                         then flip_put (0, TTY_OVERRUN) s4 else Some s4) of
                     None \<Rightarrow> None | Some s5 \<Rightarrow> Some (ch, True, s5)))"

fun rx_loop :: "nat \<Rightarrow> u32 \<Rightarrow> asc \<Rightarrow> (u32 \<times> bool \<times> asc) option" where
  "rx_loop 0 ch s = Some (ch, True, s)"
| "rx_loop (Suc n) ch s =
     (case rx_one s of
        None \<Rightarrow> None
      | Some (ch1, go, s1) \<Rightarrow> if go then rx_loop n ch1 s1 else Some (ch1, False, s1))"

definition ifx_asc_rx_chars :: "asc \<Rightarrow> asc option" where
  "ifx_asc_rx_chars s =
     (case rx_loop (unat (asc_fstat s AND 0x3F)) 0 s of
        None \<Rightarrow> None
      | Some (ch, go, s1) \<Rightarrow> Some (if go \<and> ch \<noteq> 0 then tty_flip_buffer_push s1 else s1))"

definition ifx_asc_rx_int :: "asc \<Rightarrow> asc option" where
  "ifx_asc_rx_int s = ifx_asc_rx_chars s"

definition ifx_asc_er_int :: "asc \<Rightarrow> asc" where
  "ifx_asc_er_int s = s\<lparr>asc_whbstate := ((asc_whbstate s OR 4) OR 8) OR 0x20\<rparr>"

definition ifx_asc_tx_empty :: "asc \<Rightarrow> u32" where
  "ifx_asc_tx_empty s = (if asc_fstat s AND 0x3F00 \<noteq> 0 then 0 else 1)"

section \<open>Starting and stopping the port\<close>

text \<open>\<open>mem\<close> says for which of the interrupt numbers the kernel has memory; \<open>info\<close> identifies the port's structure.\<close>

definition ifx_asc_startup :: "u32 \<Rightarrow> (nat \<Rightarrow> bool) \<Rightarrow> u32 \<Rightarrow> asc \<Rightarrow> s32 \<times> asc" where
  "ifx_asc_startup fpi_hz mem info s =
     (let clk = (if uartclk s = 0 then fpi_hz div 2 else uartclk s);
          s1 = s\<lparr>uartclk := clk, port_uartclk := clk, asc_info := True, asc_rxfcon := 0x102 OR 1, asc_txfcon := 0x102 OR 1,
                 asc_whbstate := asc_whbstate s OR 2, asc_irnen := 7\<rparr>
      in case request_irq (mem RIR) RIR info (asc_icu s1) of (rc, i1) \<Rightarrow>
           if rc \<noteq> 0 then (rc, s1\<lparr>asc_icu := i1\<rparr>)
           else case request_irq (mem TIR) TIR info i1 of (rc, i2) \<Rightarrow>
             if rc \<noteq> 0 then (rc, s1\<lparr>asc_icu := free_irq RIR info i2\<rparr>)
             else
               let s2 = s1\<lparr>asc_icu := disable_irq TIR i2, asc_tx_irq_on := 0\<rparr> in
               case request_irq (mem EIR) EIR info (asc_icu s2) of (rc, i3) \<Rightarrow>
                 if rc \<noteq> 0 then (rc, s2\<lparr>asc_icu := free_irq TIR info (free_irq RIR info i3)\<rparr>)
                 else (0, s2\<lparr>asc_icu := i3\<rparr>))"

definition ifx_asc_shutdown :: "u32 \<Rightarrow> asc \<Rightarrow> asc" where
  "ifx_asc_shutdown info s =
     (let i1 = disable_irq EIR (disable_irq TIR (disable_irq RIR (asc_icu s)));
          i2 = free_irq EIR info (free_irq TIR info (free_irq RIR info i1))
      in s\<lparr>asc_irnen := 0, asc_icu := i2, asc_rxfcon := (asc_rxfcon s OR 2) AND NOT 1, asc_txfcon := (asc_txfcon s OR 2) AND NOT 1\<rparr>)"

section \<open>Speed and framing\<close>

definition speed_con :: "u32 \<Rightarrow> u32" where
  "speed_con cflag =
     (let con = (if cflag AND 0x30 = 0x20 then 0x2 OR 0x10 else if cflag AND 0x100 \<noteq> 0 then 0x0 OR 0x10 else 0x0);
          con1 = (if cflag AND 0x40 \<noteq> 0 then con OR 0x80 else con);
          con2 = (if cflag AND 0x100 \<noteq> 0 then (if cflag AND 0x200 = 0 then con1 AND NOT 0x20 else con1 OR 0x20) else con1)
      in (con2 OR 0x20000) OR 0x200)"

definition read_mask :: "u32 \<Rightarrow> u32" where
  "read_mask iflag = (if iflag AND 0x10 \<noteq> 0 then 0x80000 OR 0x30000 else 0x80000)"

definition ignore_mask :: "u32 \<Rightarrow> u32 \<Rightarrow> u32" where
  "ignore_mask cflag iflag =
     (let m = (if iflag AND 4 \<noteq> 0 then 0x30000 else 0);
          m1 = (if iflag AND 1 \<noteq> 0 \<and> iflag AND 4 \<noteq> 0 then m OR 0x80000 else m)
      in if cflag AND 0x80 = 0 then m1 OR UART_DUMMY_UER_RX else m1)"

text \<open>The function first waits until the transmit FIFO is empty.\<close>

definition ifx_asc_change_speed :: "u32 \<Rightarrow> u32 \<Rightarrow> u32 \<Rightarrow> asc \<Rightarrow> asc option" where
  "ifx_asc_change_speed cflag iflag quot s =
     (if tx_stuck s then None
      else Some (s\<lparr>read_status_mask := read_mask iflag, ignore_status_mask := ignore_mask cflag iflag,
        asc_mcon := speed_con cflag OR ASCMCON_R,
        asc_bg := (if asc_fdv s = 0 then quot div 2 - 1 else (quot * asc_fdv s + 256) div 512 - 1),
        asc_whbstate := asc_whbstate s OR 2\<rparr>))"

definition ifx_asc_verify_port :: "u32 \<Rightarrow> int \<Rightarrow> int \<Rightarrow> s32" where
  "ifx_asc_verify_port typ irq baud_base =
     (if (typ \<noteq> 0 \<and> typ \<noteq> 43) \<or> irq < 0 \<or> irq \<ge> 161 \<or> baud_base < 9600 then - EINVAL else 0)"

section \<open>Console\<close>

fun ifx_asc_console_write :: "u8 list \<Rightarrow> asc \<Rightarrow> asc option" where
  "ifx_asc_console_write [] s = Some s"
| "ifx_asc_console_write (c # cs) s =
     (case (if c = 10 then ifx_asc_serial_out 13 s else Some s) of
        None \<Rightarrow> None
      | Some s1 \<Rightarrow> (case ifx_asc_serial_out c s1 of None \<Rightarrow> None | Some s2 \<Rightarrow> ifx_asc_console_write cs s2))"

definition round_baud :: "int \<Rightarrow> int" where
  "round_baud b0 =
     (let b1 = (if b0 > 1100 \<and> b0 < 2400 then 1200 else b0);
          b2 = (if b1 > 2300 \<and> b1 < 4800 then 2400 else b1);
          b3 = (if b2 > 4700 \<and> b2 < 9600 then 4800 else b2);
          b4 = (if b3 > 9500 \<and> b3 < 19200 then 9600 else b3);
          b5 = (if b4 > 19000 \<and> b4 < 38400 then 19200 else b4);
          b6 = (if b5 > 38400 \<and> b5 < 57600 then 38400 else b5);
          b7 = (if b6 > 57600 \<and> b6 < 115200 then 57600 else b6)
      in if b7 > 115200 \<and> b7 < 230400 then 115200 else b7)"

text \<open>Speed, parity and number of bits as the registers have them; \<open>None\<close> is a division by zero.\<close>

definition ifx_asc_console_get_options :: "asc \<Rightarrow> int \<times> char \<times> nat \<Rightarrow> (int \<times> char \<times> nat) option" where
  "ifx_asc_console_get_options s opts =
     (let lcr_h = asc_mcon s in
      if lcr_h AND ASCMCON_R = 0 then Some opts
      else
        let modus = lcr_h AND 0xF;
            parity = (if modus = 0x12 \<or> modus = 0x10 then (if lcr_h AND 0x20 \<noteq> 0 then CHR ''o'' else CHR ''e'') else CHR ''n'');
            bits = (if modus = 0x12 then 7 else 8);
            quot = asc_bg s + 1;
            d = (if lcr_h AND 0x200 \<noteq> 0 then 1 else if lcr_h AND 0x100 \<noteq> 0 then 3 else 2);
            frac = (if lcr_h AND 0x200 \<noteq> 0 then 512 else 1);
            q = d * 512 * 16 * quot
        in if q = 0 then None else Some (round_baud (sint (frac * (port_uartclk s div q))), parity, bits))"

section \<open>Initialisation\<close>

text \<open>Fractional divider and reload value by the clock selection; the last row has a decimal point for a comma in its first
  entry, which makes its reload value zero.\<close>

definition g_danube_asc_baud :: "((nat \<times> nat) \<times> (nat \<times> nat)) list" where
  "g_danube_asc_baud = [((436, 76), (419, 36)), ((453, 63), (453, 31)), ((501, 58), (510, 29)), ((419, 0), (453, 19))]"

definition baud_entry :: "u32 \<Rightarrow> nat \<times> nat" where
  "baud_entry cgu_sys =
     (let row = g_danube_asc_baud ! unat (cgu_sys AND 3) in if cgu_sys AND 0x40 \<noteq> 0 then snd row else fst row)"

definition ifx_asc_init_hardware :: "u32 \<Rightarrow> asc \<Rightarrow> asc" where
  "ifx_asc_init_hardware cgu_sys s =
     s\<lparr>asc_clc := 0x100,
       asc_mcon := (((0x0 OR 0xC00000) OR 0x20000) OR (0x200 OR 0x100)) OR ASCMCON_R,
       asc_txfcon := asc_txfcon s OR (1 OR 1), asc_rxfcon := asc_rxfcon s OR 1,
       asc_fdv := of_nat (fst (baud_entry cgu_sys)), asc_bg := of_nat (snd (baud_entry cgu_sys)),
       asc_whbstate := 0xFD OR 2\<rparr>"

section \<open>The transmit ring\<close>

definition xmit_wf :: "asc \<Rightarrow> bool" where
  "xmit_wf s \<longleftrightarrow> xmit_head s < UART_XMIT_SIZE \<and> xmit_tail s < UART_XMIT_SIZE"

definition xmit_list :: "asc \<Rightarrow> u8 list" where
  "xmit_list s = map (\<lambda>i. xmit_buf s ((xmit_tail s + i) mod UART_XMIT_SIZE)) [0..<CIRC_CNT (xmit_head s) (xmit_tail s)]"

text \<open>The port may send, and the ring holds \<open>q\<close>.\<close>

definition sending :: "asc \<Rightarrow> u8 list \<Rightarrow> bool" where
  "sending s q \<longleftrightarrow> xmit_wf s \<and> xmit_list s = q \<and> \<not> tty_stopped s \<and> \<not> tty_hw_stopped s \<and> x_char s = 0 \<and> \<not> tx_stuck s"

lemma circ_cnt_eq: "h < UART_XMIT_SIZE \<Longrightarrow> t < UART_XMIT_SIZE \<Longrightarrow> CIRC_CNT h t = (if t \<le> h then h - t else h + UART_XMIT_SIZE - t)"
proof -
  assume h: "h < UART_XMIT_SIZE" and t: "t < UART_XMIT_SIZE"
  show ?thesis
  proof (cases "t \<le> h")
    case True
    then have "(int h - int t) mod int UART_XMIT_SIZE = int (h - t)" using h by (simp add: of_nat_diff)
    then show ?thesis using True by (simp add: CIRC_CNT_def)
  next
    case False
    have "(int h - int t) mod int UART_XMIT_SIZE = (int h - int t + int UART_XMIT_SIZE) mod int UART_XMIT_SIZE" by simp
    also have "\<dots> = int h - int t + int UART_XMIT_SIZE" using False t by (intro mod_pos_pos_trivial) auto
    finally show ?thesis using False t by (simp add: CIRC_CNT_def nat_diff_distrib of_nat_diff [symmetric])
  qed
qed

lemma circ_cnt_0: "h < UART_XMIT_SIZE \<Longrightarrow> t < UART_XMIT_SIZE \<Longrightarrow> CIRC_CNT h t = 0 \<longleftrightarrow> h = t"
  by (auto simp: circ_cnt_eq)

lemma xmit_list_empty: "xmit_wf s \<Longrightarrow> xmit_list s = [] \<longleftrightarrow> xmit_head s = xmit_tail s"
  by (simp add: xmit_list_def xmit_wf_def circ_cnt_0)

lemma circ_cnt_pop:
  assumes "h < UART_XMIT_SIZE" "t < UART_XMIT_SIZE" "h \<noteq> t"
  shows "CIRC_CNT h t = Suc (CIRC_CNT h ((t + 1) mod UART_XMIT_SIZE))"
  using assms by (cases "t + 1 = UART_XMIT_SIZE") (auto simp: circ_cnt_eq)

lemma xmit_list_pop:
  assumes w: "xmit_wf s" "xmit_list s = c # q"
    and s': "xmit_buf s' = xmit_buf s" "xmit_head s' = xmit_head s" "xmit_tail s' = (xmit_tail s + 1) mod UART_XMIT_SIZE"
  shows "xmit_buf s (xmit_tail s) = c" "xmit_list s' = q" "xmit_wf s'"
proof -
  let ?n = "CIRC_CNT (xmit_head s') (xmit_tail s')"
  have b: "xmit_head s < UART_XMIT_SIZE" "xmit_tail s < UART_XMIT_SIZE" using w(1) by (simp_all add: xmit_wf_def)
  have "xmit_head s \<noteq> xmit_tail s" using xmit_list_empty [OF w(1)] w(2) by simp
  then have n: "CIRC_CNT (xmit_head s) (xmit_tail s) = Suc ?n" using circ_cnt_pop [OF b] s' by simp
  have u: "[0..<Suc ?n] = 0 # map Suc [0..<?n]" by (simp add: upt_conv_Cons map_Suc_upt del: upt_Suc)
  have m: "(xmit_tail s + Suc i) mod UART_XMIT_SIZE = (xmit_tail s' + i) mod UART_XMIT_SIZE" for i
    by (simp add: s'(3) mod_simps)
  have "xmit_list s = xmit_buf s (xmit_tail s) # xmit_list s'"
    using b m unfolding xmit_list_def n u by (simp add: s'(1))
  then show "xmit_buf s (xmit_tail s) = c" "xmit_list s' = q" using w(2) by simp_all
  show "xmit_wf s'" using b s' by (simp add: xmit_wf_def)
qed

lemma stop_tx_frame [simp]:
  "xmit_buf (ifx_asc_stop_tx s) = xmit_buf s" "xmit_head (ifx_asc_stop_tx s) = xmit_head s" "xmit_tail (ifx_asc_stop_tx s) = xmit_tail s"
  "tty_stopped (ifx_asc_stop_tx s) = tty_stopped s" "tty_hw_stopped (ifx_asc_stop_tx s) = tty_hw_stopped s"
  "x_char (ifx_asc_stop_tx s) = x_char s" "tx_stuck (ifx_asc_stop_tx s) = tx_stuck s" "tx_sent (ifx_asc_stop_tx s) = tx_sent s"
  "asc_tx_irq_on (ifx_asc_stop_tx s) = 0"
  by (simp_all add: ifx_asc_stop_tx_def)

lemma sending_stop_tx [simp]: "sending (ifx_asc_stop_tx s) q = sending s q"
  by (simp add: sending_def xmit_wf_def xmit_list_def)

lemma tx_chars_Nil: "sending s [] \<Longrightarrow> ifx_asc_tx_chars s = Some (ifx_asc_stop_tx s)"
  using xmit_list_empty [of s] by (simp add: ifx_asc_tx_chars_def sending_def)

lemma tx_chars_Cons:
  assumes r: "sending s (c # q)"
  obtains s' where "ifx_asc_tx_chars s = Some s'" "sending s' q" "tx_sent s' = tx_sent s @ [c]" "q = [] \<Longrightarrow> asc_tx_irq_on s' = 0"
proof -
  have w: "xmit_wf s" "xmit_list s = c # q" using r by (simp_all add: sending_def)
  define s2 where "s2 = s\<lparr>tx_sent := tx_sent s @ [xmit_buf s (xmit_tail s)], xmit_tail := (xmit_tail s + 1) mod UART_XMIT_SIZE, icount_tx := icount_tx s + 1\<rparr>"
  define s3 where "s3 = (if CIRC_CNT (xmit_head s2) (xmit_tail s2) < WAKEUP_CHARS then s2\<lparr>write_wakeup := True\<rparr> else s2)"
  have f: "xmit_buf s3 = xmit_buf s" "xmit_head s3 = xmit_head s" "xmit_tail s3 = (xmit_tail s + 1) mod UART_XMIT_SIZE"
    by (simp_all add: s3_def s2_def)
  note p = xmit_list_pop [OF w f]
  have s3: "sending s3 q" "tx_sent s3 = tx_sent s @ [c]" using r p by (simp_all add: sending_def s3_def s2_def)
  have ne: "xmit_head s \<noteq> xmit_tail s" using xmit_list_empty [OF w(1)] w(2) by simp
  have t: "ifx_asc_tx_chars s = Some (if xmit_head s3 = xmit_tail s3 then ifx_asc_stop_tx s3 else s3)"
    using r ne by (simp add: ifx_asc_tx_chars_def sending_def ifx_asc_serial_out_def s3_def s2_def Let_def)
  have e: "q = [] \<longleftrightarrow> xmit_head s3 = xmit_tail s3" using xmit_list_empty [OF p(3)] p(2) by simp
  show ?thesis
  proof (cases "q = []")
    case True
    then show ?thesis using that t e s3 by simp
  next
    case False
    then show ?thesis using that [of s3] t e s3 by simp
  qed
qed

lemma put_char_effect:
  assumes r: "sending s q" and p: "uart_put_char ch s = (b, s')"
  shows "sending s' (if b then q @ [ch] else q)"
proof (cases b)
  case False
  then show ?thesis using assms by (auto simp: uart_put_char_def split: if_splits)
next
  case True
  let ?h = "xmit_head s" and ?t = "xmit_tail s"
  have b: "?h < UART_XMIT_SIZE" "?t < UART_XMIT_SIZE" using r by (simp_all add: sending_def xmit_wf_def)
  have pos: "0 < UART_XMIT_SIZE" by (simp add: UART_XMIT_SIZE_def)
  have s': "s' = s\<lparr>xmit_buf := (xmit_buf s)(?h := ch), xmit_head := (?h + 1) mod UART_XMIT_SIZE\<rparr>"
    and sp: "CIRC_CNT ?t (?h + 1) \<noteq> 0" using p True by (auto simp: uart_put_char_def split: if_splits)
  have h': "(?h + 1) mod UART_XMIT_SIZE < UART_XMIT_SIZE" using pos by simp
  have "CIRC_CNT ?t (?h + 1) = CIRC_CNT ?t ((?h + 1) mod UART_XMIT_SIZE)"
    by (simp add: CIRC_CNT_def zmod_int mod_simps)
  then have ne: "(?h + 1) mod UART_XMIT_SIZE \<noteq> ?t" using sp circ_cnt_0 [OF b(2) h'] by auto
  let ?n = "CIRC_CNT ?h ?t"
  have n: "CIRC_CNT ((?h + 1) mod UART_XMIT_SIZE) ?t = Suc ?n"
    using b ne by (cases "?h + 1 = UART_XMIT_SIZE") (auto simp: circ_cnt_eq)
  have at: "(?t + ?n) mod UART_XMIT_SIZE = ?h" using b by (auto simp: circ_cnt_eq)
  have lt: "?n < UART_XMIT_SIZE" using b by (auto simp: circ_cnt_eq)
  have other: "(?t + i) mod UART_XMIT_SIZE \<noteq> ?h" if "i < ?n" for i
    using b that lt by (cases "?t + i < UART_XMIT_SIZE") (auto simp: circ_cnt_eq le_mod_geq split: if_splits)
  have "xmit_list s' = xmit_list s @ [ch]"
    using at other by (simp add: xmit_list_def s' n [simplified])
  then show ?thesis using r True h' by (simp add: sending_def s' xmit_wf_def)
qed

text \<open>The transmitter as the reading side of the queue.\<close>

definition tx_get :: "asc \<Rightarrow> u8 option \<times> asc" where
  "tx_get s = (case ifx_asc_tx_int s of
     None \<Rightarrow> (None, s) | Some s' \<Rightarrow> (if tx_sent s' = tx_sent s then None else Some (last (tx_sent s')), s'))"

lemma tx_get_Nil: "sending s [] \<Longrightarrow> tx_get s = (None, ifx_asc_stop_tx s)"
  by (simp add: tx_get_def ifx_asc_tx_int_def tx_chars_Nil)

lemma tx_get_Cons:
  assumes "sending s (c # q)"
  obtains s' where "tx_get s = (Some c, s')" "sending s' q"
proof -
  obtain s' where "ifx_asc_tx_chars s = Some s'" "sending s' q" "tx_sent s' = tx_sent s @ [c]"
    using tx_chars_Cons [OF assms] by metis
  then show ?thesis using that by (simp add: tx_get_def ifx_asc_tx_int_def)
qed

interpretation uart: lossless_queue sending "\<lambda>_. True" uart_put_char tx_get
proof unfold_locales
  fix s q x s'
  show "sending s q \<Longrightarrow> True \<Longrightarrow> uart_put_char x s = (True, s') \<Longrightarrow> sending s' (q @ [x])"
    using put_char_effect [of s q x True s'] by simp
  show "sending s q \<Longrightarrow> True \<Longrightarrow> uart_put_char x s = (False, s') \<Longrightarrow> sending s' q"
    using put_char_effect [of s q x False s'] by simp
  show "sending s q \<Longrightarrow> tx_get s = (Some x, s') \<Longrightarrow> \<exists>q'. q = x # q' \<and> sending s' q'"
    by (cases q) (auto simp: tx_get_Nil elim: tx_get_Cons)
  show "sending s q \<Longrightarrow> tx_get s = (None, s') \<Longrightarrow> q = [] \<and> sending s' []"
    by (cases q) (auto simp: tx_get_Nil elim: tx_get_Cons)
qed



fun tx_ints :: "nat \<Rightarrow> asc \<Rightarrow> asc option" where
  "tx_ints 0 s = Some s"
| "tx_ints (Suc n) s = (case ifx_asc_tx_int s of None \<Rightarrow> None | Some s1 \<Rightarrow> tx_ints n s1)"

text \<open>A ring of \<open>n\<close> characters is sent by \<open>n\<close> transmit interrupts, or by any greater number: all of them are sent in order, then
  the ring is empty and the transmit interrupt is switched off.\<close>

theorem transmission_ends:
  assumes "sending s q" and "length q \<le> n" and "0 < n"
  shows "\<exists>s'. tx_ints n s = Some s' \<and> tx_sent s' = tx_sent s @ q \<and> sending s' [] \<and> asc_tx_irq_on s' = 0"
proof -
  have idle: "\<exists>s'. tx_ints k t = Some s' \<and> tx_sent s' = tx_sent t \<and> sending s' [] \<and> asc_tx_irq_on s' = 0"
    if "sending t []" "asc_tx_irq_on t = 0" for k t using that
  proof (induction k arbitrary: t)
    case (Suc k)
    then show ?case using Suc.IH [of "ifx_asc_stop_tx t"] by (simp add: ifx_asc_tx_int_def tx_chars_Nil)
  qed simp
  show ?thesis using assms
  proof (induction n arbitrary: s q)
    case (Suc n)
    show ?case
    proof (cases q)
      case Nil
      then show ?thesis using Suc.prems(1) idle [of "ifx_asc_stop_tx s" n] by (simp add: ifx_asc_tx_int_def tx_chars_Nil)
    next
      case (Cons c q')
      obtain s1 where s1: "ifx_asc_tx_chars s = Some s1" "sending s1 q'" "tx_sent s1 = tx_sent s @ [c]" "q' = [] \<Longrightarrow> asc_tx_irq_on s1 = 0"
        using tx_chars_Cons Suc.prems(1) Cons by metis
      show ?thesis
      proof (cases "q' = []")
        case True
        then show ?thesis using idle [of s1 n] s1 Cons by (simp add: ifx_asc_tx_int_def)
      next
        case False
        then have "0 < n" using Suc.prems(2) Cons by (cases n) auto
        then show ?thesis using Suc.IH [OF s1(2)] Suc.prems(2) s1 Cons by (auto simp: ifx_asc_tx_int_def)
      qed
    qed
  qed simp
qed

section \<open>Balance of the transmit interrupt\<close>

definition tx_balanced :: "asc \<Rightarrow> bool" where
  "tx_balanced s \<longleftrightarrow> asc_tx_irq_on s = 1 \<and> line_on TIR (asc_icu s) \<or> asc_tx_irq_on s = 0 \<and> line_off TIR (asc_icu s)"

text \<open>What can happen to an open port.\<close>

inductive asc_step :: "asc \<Rightarrow> asc \<Rightarrow> bool" where
  Start: "ifx_asc_start_tx s = Some s' \<Longrightarrow> asc_step s s'"
| Stop: "asc_step s (ifx_asc_stop_tx s)"
| Tx: "ifx_asc_tx_int s = Some s' \<Longrightarrow> asc_step s s'"
| Rx: "ifx_asc_rx_int s = Some s' \<Longrightarrow> asc_step s s'"
| Error: "asc_step s (ifx_asc_er_int s)"
| Put: "asc_step s (snd (uart_put_char c s))"
| Stop_rx: "asc_step s (ifx_asc_stop_rx s)"
| Speed: "ifx_asc_change_speed cflag iflag quot s = Some s' \<Longrightarrow> asc_step s s'"
| Console: "ifx_asc_console_write cs s = Some s' \<Longrightarrow> asc_step s s'"

lemma stop_tx_balanced: "tx_balanced s \<Longrightarrow> tx_balanced (ifx_asc_stop_tx s)"
  by (auto simp: tx_balanced_def ifx_asc_stop_tx_def disable_line)

lemma tx_balanced_cong: "asc_icu s' = asc_icu s \<Longrightarrow> asc_tx_irq_on s' = asc_tx_irq_on s \<Longrightarrow> tx_balanced s' = tx_balanced s"
  by (simp add: tx_balanced_def)

lemma serial_out_frame: "ifx_asc_serial_out c s = Some s' \<Longrightarrow> asc_icu s' = asc_icu s \<and> asc_tx_irq_on s' = asc_tx_irq_on s"
  by (auto simp: ifx_asc_serial_out_def split: if_splits)

lemma tx_balanced_upd [simp]:
  "tx_balanced (s\<lparr>tx_sent := a\<rparr>) = tx_balanced s" "tx_balanced (s\<lparr>xmit_tail := b\<rparr>) = tx_balanced s"
  "tx_balanced (s\<lparr>icount_tx := c\<rparr>) = tx_balanced s" "tx_balanced (s\<lparr>write_wakeup := d\<rparr>) = tx_balanced s"
  "tx_balanced (s\<lparr>x_char := e\<rparr>) = tx_balanced s"
  by (simp_all add: tx_balanced_def)

lemma tx_chars_balanced: "tx_balanced s \<Longrightarrow> ifx_asc_tx_chars s = Some s' \<Longrightarrow> tx_balanced s'"
  unfolding ifx_asc_tx_chars_def ifx_asc_serial_out_def Let_def
  by (auto split: if_splits intro!: stop_tx_balanced)

lemma start_tx_balanced:
  assumes "tx_balanced s" "ifx_asc_start_tx s = Some s'"
  shows "tx_balanced s'"
proof -
  define s1 where "s1 = (if asc_tx_irq_on s = 0
    then s\<lparr>asc_icu := enable_irq TIR (asc_icu s), asc_tx_irq_on := asc_tx_irq_on s + 1\<rparr> else s)"
  have "tx_balanced s1" using assms(1) enable_line [of TIR "asc_icu s"] by (auto simp: s1_def tx_balanced_def)
  then show ?thesis using assms(2) tx_chars_balanced [of s1 s']
    by (auto simp: ifx_asc_start_tx_def s1_def [symmetric] Let_def split: if_splits)
qed


lemma flip_frame:
  "asc_icu (flush_to_ldisc s) = asc_icu s" "asc_tx_irq_on (flush_to_ldisc s) = asc_tx_irq_on s"
  "asc_icu (tty_flip_buffer_push s) = asc_icu s" "asc_tx_irq_on (tty_flip_buffer_push s) = asc_tx_irq_on s"
  "asc_icu (rx_errors r s) = asc_icu s" "asc_tx_irq_on (rx_errors r s) = asc_tx_irq_on s"
  by (simp_all add: flush_to_ldisc_def tty_flip_buffer_push_def rx_errors_def Let_def)

lemma flip_put_frame: "flip_put x s = Some s' \<Longrightarrow> asc_icu s' = asc_icu s \<and> asc_tx_irq_on s' = asc_tx_irq_on s"
  by (auto simp: flip_put_def split: if_splits)

lemma rx_one_frame: "rx_one s = Some (ch, go, s') \<Longrightarrow> asc_icu s' = asc_icu s \<and> asc_tx_irq_on s' = asc_tx_irq_on s"
  by (auto simp: rx_one_def Let_def flip_frame split: if_splits option.splits prod.splits dest!: flip_put_frame)

lemma rx_loop_frame: "rx_loop n c s = Some (ch, go, s') \<Longrightarrow> asc_icu s' = asc_icu s \<and> asc_tx_irq_on s' = asc_tx_irq_on s"
  by (induction n arbitrary: c s) (auto split: option.splits if_splits dest!: rx_one_frame)

lemma rx_int_frame: "ifx_asc_rx_int s = Some s' \<Longrightarrow> asc_icu s' = asc_icu s \<and> asc_tx_irq_on s' = asc_tx_irq_on s"
  by (auto simp: ifx_asc_rx_int_def ifx_asc_rx_chars_def flip_frame split: option.splits if_splits dest!: rx_loop_frame)

lemma console_frame: "ifx_asc_console_write cs s = Some s' \<Longrightarrow> asc_icu s' = asc_icu s \<and> asc_tx_irq_on s' = asc_tx_irq_on s"
  by (induction cs arbitrary: s) (fastforce split: option.splits if_splits dest: serial_out_frame)+

lemma step_balanced: "asc_step s s' \<Longrightarrow> tx_balanced s \<Longrightarrow> tx_balanced s'"
proof (induction rule: asc_step.induct)
  case (Rx s s')
  then show ?case using rx_int_frame tx_balanced_cong by blast
next
  case (Console cs s s')
  then show ?case using console_frame tx_balanced_cong by blast
next
  case (Start s s')
  then show ?case using start_tx_balanced by blast
next
  case (Stop s)
  then show ?case by (rule stop_tx_balanced)
next
  case (Tx s s')
  then show ?case using tx_chars_balanced by (simp add: ifx_asc_tx_int_def)
qed (auto simp: ifx_asc_er_int_def uart_put_char_def ifx_asc_stop_rx_def ifx_asc_change_speed_def tx_balanced_def split: if_splits)

lemma startup_balanced:
  assumes "ifx_asc_startup hz mem info s = (0, s')"
  shows "tx_balanced s'"
proof -
  have on: "line_on TIR (snd (request_irq m TIR info i))" if "fst (request_irq m TIR info i) = 0" for m i
    using that by (auto simp: request_irq_def line_on_def bit_and_iff bit_not_iff bit_or_iff bit_2_1 split: if_splits)
  have neq: "TIR \<noteq> EIR" by (simp add: TIR_def EIR_def)
  have keep: "line_off TIR (snd (request_irq m EIR info i)) = line_off TIR i" for m i
    using line_other(2) [OF neq] by (simp add: line_off_def)
  obtain i1 r2 i2 r3 i3 where r: "request_irq (mem TIR) TIR info i1 = (0, i2)" "request_irq (mem EIR) EIR info (disable_irq TIR i2) = (0, i3)"
    "asc_icu s' = i3" "asc_tx_irq_on s' = 0"
    using assms by (auto simp: ifx_asc_startup_def Let_def split: prod.splits if_splits)
  have "line_off TIR (disable_irq TIR i2)" using on [of "mem TIR" i1] r(1) by (simp add: disable_line)
  then show ?thesis using keep [of "mem EIR" "disable_irq TIR i2"] r by (simp add: tx_balanced_def)
qed

text \<open>C38: From the start of the port on, whatever sequence of starts, stops, interrupts, writes and changes of speed follows, the flag
  \<open>asc_tx_irq_on\<close> says whether the transmit interrupt is enabled: it is open when the flag is one, and closed by exactly one
  disabling call when it is zero.  So the driver's calls of \<open>enable_irq\<close> and \<open>disable_irq\<close> are always paired.\<close>

theorem tx_interrupt_balanced:
  assumes "ifx_asc_startup hz mem info s0 = (0, s)" and "asc_step\<^sup>*\<^sup>* s s'"
  shows "(asc_tx_irq_on s' = 1 \<and> line_on TIR (asc_icu s')) \<or> (asc_tx_irq_on s' = 0 \<and> line_off TIR (asc_icu s'))"
proof -
  have "tx_balanced s" by (rule startup_balanced [OF assms(1)])
  with assms(2) have "tx_balanced s'" by (induction rule: rtranclp_induct) (auto intro: step_balanced)
  then show ?thesis by (simp add: tx_balanced_def)
qed


section \<open>Reception\<close>

lemma flush_length: "length (flip_buf (flush_to_ldisc s)) \<le> length (flip_buf s)"
  by (simp add: flush_to_ldisc_def)

lemma rx_errors_flip [simp]:
  "flip_buf (rx_errors r s) = flip_buf s" "received (rx_errors r s) = received s" "rx_fifo (rx_errors r s) = rx_fifo s"
  "read_status_mask (rx_errors r s) = read_status_mask s" "ignore_status_mask (rx_errors r s) = ignore_status_mask s"
  "dont_flip (rx_errors r s) = dont_flip s"
  by (simp_all add: rx_errors_def Let_def)

lemma rx_one_bounded:
  assumes "length (flip_buf s) \<le> TTY_FLIPBUF_SIZE"
  obtains ch go s' where "rx_one s = Some (ch, go, s')" "length (flip_buf s') \<le> TTY_FLIPBUF_SIZE"
proof -
  define t where "t = (if length (flip_buf s) \<ge> TTY_FLIPBUF_SIZE then flush_to_ldisc (s\<lparr>rx_fifo := tl (rx_fifo s)\<rparr>)
    else s\<lparr>rx_fifo := tl (rx_fifo s)\<rparr>)"
  have l: "length (flip_buf t) \<le> TTY_FLIPBUF_SIZE" using assms by (simp add: t_def flush_to_ldisc_def)
  have "\<exists>ch go s'. rx_one s = Some (ch, go, s') \<and> length (flip_buf s') \<le> TTY_FLIPBUF_SIZE"
  proof (cases "length (flip_buf t) \<ge> TTY_FLIPBUF_SIZE")
    case True
    then show ?thesis using l by (auto simp: rx_one_def Let_def t_def split: prod.split)
  next
    case False
    then show ?thesis
      by (auto simp: rx_one_def Let_def t_def [simplified] flip_put_def split: prod.split option.split)
  qed
  then show ?thesis using that by blast
qed

lemma rx_loop_bounded:
  "length (flip_buf s) \<le> TTY_FLIPBUF_SIZE \<Longrightarrow>
    \<exists>ch go s'. rx_loop n c s = Some (ch, go, s') \<and> length (flip_buf s') \<le> TTY_FLIPBUF_SIZE"
proof (induction n arbitrary: c s)
  case (Suc n)
  obtain ch go s1 where s1: "rx_one s = Some (ch, go, s1)" "length (flip_buf s1) \<le> TTY_FLIPBUF_SIZE"
    by (rule rx_one_bounded [OF Suc.prems])
  show ?case
  proof (cases go)
    case True
    then show ?thesis using Suc.IH [OF s1(2), of ch] s1(1) by auto
  next
    case False
    then show ?thesis using s1 by auto
  qed
qed auto

text \<open>C40: Whatever characters and errors the receiver shows, whether or not the line discipline takes them, the receive interrupt returns and
  never writes behind the flip buffer.\<close>

theorem receive_stays_in_buffer:
  assumes "length (flip_buf s) \<le> TTY_FLIPBUF_SIZE"
  shows "\<exists>s'. ifx_asc_rx_int s = Some s' \<and> length (flip_buf s') \<le> TTY_FLIPBUF_SIZE"
proof -
  obtain ch go s1 where "rx_loop (unat (asc_fstat s AND 0x3F)) 0 s = Some (ch, go, s1)" "length (flip_buf s1) \<le> TTY_FLIPBUF_SIZE"
    using rx_loop_bounded [OF assms] by blast
  then show ?thesis by (simp add: ifx_asc_rx_int_def ifx_asc_rx_chars_def tty_flip_buffer_push_def flush_to_ldisc_def)
qed

text \<open>A character without error.\<close>

lemma rx_one_good:
  assumes "rx_fifo s = (c, st) # r" "st AND ASCSTATE_ANY = 0" "ignore_status_mask s AND 1 = 0" "\<not> dont_flip s"
  obtains s' where "rx_one s = Some (c, True, s')" "received s' @ flip_buf s' = received s @ flip_buf s @ [(ucast c, TTY_NORMAL)]"
    "rx_fifo s' = r" "ignore_status_mask s' = ignore_status_mask s" "dont_flip s' = dont_flip s"
proof -
  have pos: "0 < TTY_FLIPBUF_SIZE" by (simp add: TTY_FLIPBUF_SIZE_def)
  have ig: "1 AND ignore_status_mask s = 0" using assms(3) by (simp add: and.commute)
  have roe: "(1 :: u32) AND 0x80000 = 0" by simp
  define t where "t = (if length (flip_buf s) \<ge> TTY_FLIPBUF_SIZE then flush_to_ldisc (s\<lparr>rx_fifo := r\<rparr>) else s\<lparr>rx_fifo := r\<rparr>)"
  have t: "length (flip_buf t) < TTY_FLIPBUF_SIZE" "received t @ flip_buf t = received s @ flip_buf s" "rx_fifo t = r"
    "ignore_status_mask t = ignore_status_mask s" "dont_flip t = dont_flip s"
    using assms(4) pos by (auto simp: t_def flush_to_ldisc_def)
  have tl: "(if TTY_FLIPBUF_SIZE \<le> length (flip_buf s) then flush_to_ldisc (s\<lparr>rx_fifo := r\<rparr>) else s\<lparr>rx_fifo := r\<rparr>) = t"
    by (simp add: t_def)
  define s' where "s' = t\<lparr>icount_rx := icount_rx t + 1, flip_buf := flip_buf t @ [(ucast c, 0)]\<rparr>"
  have "rx_one s = Some (c, True, s')"
    using assms(1,2) ig t unfolding rx_one_def
    by (simp add: Let_def tl flip_put_def s'_def)
  moreover have "received s' @ flip_buf s' = received s @ flip_buf s @ [(ucast c, TTY_NORMAL)]"
    using t(2) by (simp add: s'_def flip: append_assoc)
  ultimately show ?thesis using that t by (simp add: s'_def)
qed

lemma rx_loop_good:
  assumes "n \<le> length (rx_fifo s)" "\<forall>x\<in>set (take n (rx_fifo s)). snd x AND ASCSTATE_ANY = 0" "ignore_status_mask s AND 1 = 0" "\<not> dont_flip s"
  shows "\<exists>s'. rx_loop n c s = Some (if n = 0 then c else fst (rx_fifo s ! (n - 1)), True, s')
    \<and> received s' @ flip_buf s' = received s @ flip_buf s @ map (\<lambda>x. (ucast (fst x), TTY_NORMAL)) (take n (rx_fifo s))
    \<and> rx_fifo s' = drop n (rx_fifo s)"
  using assms
proof (induction n arbitrary: c s)
  case (Suc n)
  obtain c1 st r where r: "rx_fifo s = (c1, st) # r" using Suc.prems(1) by (cases "rx_fifo s") auto
  obtain s1 where s1: "rx_one s = Some (c1, True, s1)" "received s1 @ flip_buf s1 = received s @ flip_buf s @ [(ucast c1, TTY_NORMAL)]"
    "rx_fifo s1 = r" "ignore_status_mask s1 = ignore_status_mask s" "dont_flip s1 = dont_flip s"
    using rx_one_good [OF r] Suc.prems r by auto
  obtain s' where s': "rx_loop n c1 s1 = Some (if n = 0 then c1 else fst (r ! (n - 1)), True, s')"
      "received s' @ flip_buf s' = received s1 @ flip_buf s1 @ map (\<lambda>x. (ucast (fst x), TTY_NORMAL)) (take n r)" "rx_fifo s' = drop n r"
    using Suc.IH [of s1 c1] Suc.prems r s1 by auto
  have "received s' @ flip_buf s' = received s @ flip_buf s @ map (\<lambda>x. (ucast (fst x), TTY_NORMAL)) (take (Suc n) (rx_fifo s))"
    using s'(2) s1(2) r by (simp flip: append_assoc)
  then show ?case using s1(1) s' r by (auto simp: nth_Cons')
qed simp

text \<open>When the receiver holds \<open>n\<close> characters without errors and the line discipline takes what it is given, the receive interrupt takes all
  \<open>n\<close> out of the receiver and passes them on once and in order, behind what was received before, marked as normal.\<close>

theorem receive_passes_on:
  assumes "n = unat (asc_fstat s AND 0x3F)" "n \<le> length (rx_fifo s)"
    "\<forall>x\<in>set (take n (rx_fifo s)). snd x AND ASCSTATE_ANY = 0" "ignore_status_mask s AND 1 = 0" "\<not> dont_flip s"
  shows "\<exists>s'. ifx_asc_rx_int s = Some s' \<and> rx_fifo s' = drop n (rx_fifo s)
    \<and> received s' @ flip_buf s' = received s @ flip_buf s @ map (\<lambda>x. (ucast (fst x), TTY_NORMAL)) (take n (rx_fifo s))"
proof -
  obtain s1 where s1: "rx_loop n 0 s = Some (if n = 0 then 0 else fst (rx_fifo s ! (n - 1)), True, s1)"
    "received s1 @ flip_buf s1 = received s @ flip_buf s @ map (\<lambda>x. (ucast (fst x), TTY_NORMAL)) (take n (rx_fifo s))"
    "rx_fifo s1 = drop n (rx_fifo s)"
    using rx_loop_good [OF assms(2-5), of 0] by blast
  have p: "received (tty_flip_buffer_push s1) @ flip_buf (tty_flip_buffer_push s1) = received s1 @ flip_buf s1"
    "rx_fifo (tty_flip_buffer_push s1) = rx_fifo s1"
    by (simp_all add: tty_flip_buffer_push_def flush_to_ldisc_def)
  show ?thesis using s1 p unfolding ifx_asc_rx_int_def ifx_asc_rx_chars_def assms(1) [symmetric] by auto
qed

text \<open>A burst that ends with a zero character is not pushed: it waits in the flip buffer for the next one.\<close>

lemma zero_character_waits:
  assumes "unat (asc_fstat s AND 0x3F) = 1" "rx_fifo s = [(0, 0)]" "ignore_status_mask s AND 1 = 0" "\<not> dont_flip s"
  shows "\<exists>s1. rx_loop 1 0 s = Some (0, True, s1) \<and> ifx_asc_rx_int s = Some s1"
proof -
  obtain s1 where "rx_one s = Some (0, True, s1)" using rx_one_good [OF assms(2) _ assms(3,4)] by auto
  then show ?thesis using assms(1) by (simp add: ifx_asc_rx_int_def ifx_asc_rx_chars_def)
qed

text \<open>A flow control character is not sent while there is nothing else to send.\<close>

lemma flow_control_waits:
  assumes "xmit_head s = xmit_tail s"
  shows "ifx_asc_tx_chars s = Some (ifx_asc_stop_tx s)" "x_char (ifx_asc_stop_tx s) = x_char s" "tx_sent (ifx_asc_stop_tx s) = tx_sent s"
  using assms by (simp_all add: ifx_asc_tx_chars_def)

section \<open>Console\<close>

text \<open>The console writes its text to the port with a carriage return in front of every line feed, and returns.\<close>

theorem console_output:
  assumes "\<not> tx_stuck s"
  shows "\<exists>s'. ifx_asc_console_write cs s = Some s' \<and> tx_sent s' = tx_sent s @ concat (map (\<lambda>c. if c = 10 then [13, 10] else [c]) cs)"
proof -
  have "\<exists>s'. ifx_asc_console_write cs s = Some s' \<and> \<not> tx_stuck s'
      \<and> tx_sent s' = tx_sent s @ concat (map (\<lambda>c. if c = 10 then [13, 10] else [c]) cs)"
    using assms
  proof (induction cs arbitrary: s)
    case (Cons c cs)
    define t where "t = s\<lparr>tx_sent := tx_sent s @ (if c = 10 then [13, 10] else [c])\<rparr>"
    have "ifx_asc_console_write (c # cs) s = ifx_asc_console_write cs t"
      using Cons.prems by (simp add: ifx_asc_serial_out_def t_def)
    then show ?case using Cons.IH [of t] Cons.prems by (auto simp: t_def)
  qed simp
  then show ?thesis by blast
qed

text \<open>The options that the console reads back from the registers never have parity and always have eight bits, whatever
  framing was set: the parity bit is outside the mask of the mode that the code compares.\<close>

theorem console_options_lose_framing:
  assumes "asc_mcon s AND ASCMCON_R \<noteq> 0" and "ifx_asc_console_get_options s opts = Some (baud, parity, bits)"
  shows "parity = CHR ''n'' \<and> bits = 8"
proof -
  have "x AND 0xF \<noteq> 0x12" "x AND 0xF \<noteq> 0x10" for x :: u32
  proof -
    have "\<not> bit (x AND 0xF) 4" by (simp add: bit_and_iff)
    moreover have "bit (0x12 :: u32) 4" "bit (0x10 :: u32) 4" by simp_all
    ultimately show "x AND 0xF \<noteq> 0x12" "x AND 0xF \<noteq> 0x10" by metis+
  qed
  then show ?thesis using assms by (auto simp: ifx_asc_console_get_options_def Let_def split: if_splits)
qed

lemma slow_clock_reload: "snd (baud_entry 3) = 0"
  by (simp add: baud_entry_def g_danube_asc_baud_def)

section \<open>A start that fails\<close>

lemma request_action:
  "request_irq m irq a i = (rc, i') \<Longrightarrow> action (irq_descs i irq) = [] \<Longrightarrow>
    action (irq_descs i' irq) = (if rc = 0 then [a] else []) \<and> (rc = 0 \<longrightarrow> irq < 161)"
  by (auto simp: request_irq_def split: if_splits)


lemma free_action:
  "irq < 161 \<Longrightarrow> action (irq_descs i irq) = [a] \<Longrightarrow> action (irq_descs (free_irq irq a i) irq) = []"
  by (simp add: free_irq_def set_status_def Let_def)

lemma disable_action: "action (irq_descs (disable_irq irq i) irq') = action (irq_descs i irq')"
  by (simp add: disable_irq_def disable_irq_nosync_def set_status_def Let_def)

lemma actions_other:
  "irq' \<noteq> irq \<Longrightarrow> request_irq m irq a i = (rc, i') \<Longrightarrow> action (irq_descs i' irq') = action (irq_descs i irq')"
  "irq' \<noteq> irq \<Longrightarrow> action (irq_descs (free_irq irq a i) irq') = action (irq_descs i irq')"
  using line_other(2) [of irq' irq m a i] line_other(3) [of irq' irq a i] by simp_all

text \<open>Starting the port is all or nothing for its three interrupts: on success each has the handler of the port, and when one of them
  cannot be had, for whatever reason, none is left behind.\<close>

theorem startup_all_or_nothing:
  assumes free: "\<forall>irq\<in>{RIR, TIR, EIR}. action (irq_descs (asc_icu s) irq) = []"
    and start: "ifx_asc_startup hz mem info s = (rc, s')"
  shows "\<forall>irq\<in>{RIR, TIR, EIR}. action (irq_descs (asc_icu s') irq) = (if rc = 0 then [info] else [])"
proof -
  have d: "RIR \<noteq> TIR" "RIR \<noteq> EIR" "TIR \<noteq> EIR" "RIR < 161" "TIR < 161" "EIR < 161" by (simp_all add: RIR_def TIR_def EIR_def)
  obtain r1 i1 where 1: "request_irq (mem RIR) RIR info (asc_icu s) = (r1, i1)" by force
  obtain r2 i2 where 2: "request_irq (mem TIR) TIR info i1 = (r2, i2)" by force
  obtain r3 i3 where 3: "request_irq (mem EIR) EIR info (disable_irq TIR i2) = (r3, i3)" by force
  have a1: "action (irq_descs i1 RIR) = (if r1 = 0 then [info] else [])" "action (irq_descs i1 TIR) = []" "action (irq_descs i1 EIR) = []"
    using request_action [OF 1] actions_other(1) [OF _ 1] free d by auto
  have a2: "action (irq_descs i2 TIR) = (if r2 = 0 then [info] else [])" "action (irq_descs i2 RIR) = action (irq_descs i1 RIR)"
      "action (irq_descs i2 EIR) = []"
    using request_action [OF 2] actions_other(1) [OF _ 2] a1 d by auto
  have a3: "action (irq_descs i3 EIR) = (if r3 = 0 then [info] else [])" "action (irq_descs i3 RIR) = action (irq_descs i2 RIR)"
      "action (irq_descs i3 TIR) = action (irq_descs i2 TIR)"
    using request_action [OF 3] actions_other(1) [OF _ 3] a2 d by (auto simp: disable_action)
  note f = free_action actions_other(2)
  show ?thesis
  proof (cases "r1 = 0 \<and> r2 = 0 \<and> r3 = 0")
    case True
    then have "rc = 0" "asc_icu s' = i3" using start 1 2 3 by (auto simp: ifx_asc_startup_def Let_def)
    then show ?thesis using a1 a2 a3 True by simp
  next
    case False
    then have rc: "rc \<noteq> 0" using start 1 2 3 by (auto simp: ifx_asc_startup_def Let_def split: if_splits)
    consider "r1 \<noteq> 0" "asc_icu s' = i1" | "r1 = 0" "r2 \<noteq> 0" "asc_icu s' = free_irq RIR info i2"
      | "r1 = 0" "r2 = 0" "r3 \<noteq> 0" "asc_icu s' = free_irq TIR info (free_irq RIR info i3)"
      using start 1 2 3 False by (auto simp: ifx_asc_startup_def Let_def split: if_splits)
    then show ?thesis
    proof cases
      case 1
      then show ?thesis using a1 rc by simp
    next
      case 2
      then show ?thesis using a1 a2 rc d f(1) [of RIR i2 info] f(2) [of _ RIR info i2] by simp
    next
      case 3
      have "action (irq_descs (free_irq RIR info i3) RIR) = []" using 3 a1 a2 a3 d by (simp add: free_action)
      moreover have "action (irq_descs (free_irq RIR info i3) TIR) = [info]" "action (irq_descs (free_irq RIR info i3) EIR) = []"
        using 3 a2 a3 d by (simp_all add: actions_other(2))
      ultimately show ?thesis using 3 rc d f(1) [of TIR "free_irq RIR info i3" info] f(2) [of _ TIR info "free_irq RIR info i3"] by simp
    qed
  qed
qed

section \<open>A concrete port\<close>

definition idle_icu :: icu where
  "idle_icu = init_IRQ \<lparr>ier = (\<lambda>_. 0), isr = (\<lambda>_. 0), ebu_pcc_istat = 0, irq_descs = (\<lambda>_. \<lparr>status = 0, action = [], depth = 0\<rparr>), handled = []\<rparr>"

definition demo_asc :: asc where
  "demo_asc = \<lparr>asc_clc = 0, asc_mcon = 0x8000, asc_whbstate = 0, asc_rxfcon = 0, asc_txfcon = 0, asc_fstat = 2, asc_bg = 76, asc_fdv = 436,
     asc_irnen = 0, rx_fifo = [(65, 0), (66, 0)], tx_sent = [], tx_stuck = False, asc_icu = idle_icu, asc_tx_irq_on = 0, asc_info = False,
     xmit_buf = (\<lambda>_. 0), xmit_head = 0, xmit_tail = 0, tty_stopped = False, tty_hw_stopped = False, x_char = 0, write_wakeup = False,
     icount_rx = 0, icount_tx = 0, icount_parity = 0, icount_frame = 0, icount_overrun = 0, read_status_mask = 0, ignore_status_mask = 0,
     flip_buf = [], dont_flip = False, low_latency = True, flip_queued = False, received = [], uartclk = 0, port_uartclk = 55000000\<rparr>"

lemma demo_sending: "sending demo_asc []"
  by (simp add: sending_def demo_asc_def xmit_wf_def xmit_list_def CIRC_CNT_def UART_XMIT_SIZE_def)


theorem transmission_ends_witness:
  "\<exists>s'. tx_ints 1 (snd (uart_put_char 65 demo_asc)) = Some s' \<and> tx_sent s' = [65] \<and> asc_tx_irq_on s' = 0"
proof -
  obtain b s1 where p: "uart_put_char 65 demo_asc = (b, s1)" by force
  have b: b using p by (simp add: uart_put_char_def demo_asc_def CIRC_CNT_def UART_XMIT_SIZE_def split: if_splits)
  have "sending s1 [65]" using put_char_effect [OF demo_sending p] b by simp
  moreover have "tx_sent s1 = []" using p by (auto simp: uart_put_char_def demo_asc_def split: if_splits)
  ultimately show ?thesis using transmission_ends [of s1 "[65]" 1] p by auto
qed

lemma demo_startup: "\<exists>s. ifx_asc_startup 111000000 (\<lambda>_. True) 5 demo_asc = (0, s)"
  by (simp add: ifx_asc_startup_def request_irq_def demo_asc_def idle_icu_def init_IRQ_def TIR_def RIR_def EIR_def Let_def
    disable_irq_def disable_irq_nosync_def set_status_def)

theorem tx_interrupt_balanced_witness:
  "\<exists>s. ifx_asc_startup 111000000 (\<lambda>_. True) 5 demo_asc = (0, s) \<and> asc_tx_irq_on (ifx_asc_stop_tx s) = 0 \<and> line_off TIR (asc_icu (ifx_asc_stop_tx s))"
proof -
  obtain s where s: "ifx_asc_startup 111000000 (\<lambda>_. True) 5 demo_asc = (0, s)" using demo_startup by blast
  have "asc_step\<^sup>*\<^sup>* s (ifx_asc_stop_tx s)" by (intro r_into_rtranclp asc_step.Stop)
  from tx_interrupt_balanced [OF s this] show ?thesis using s by auto
qed

theorem receive_stays_in_buffer_witness:
  "\<exists>s'. ifx_asc_rx_int demo_asc = Some s' \<and> length (flip_buf s') \<le> TTY_FLIPBUF_SIZE"
  by (rule receive_stays_in_buffer) (simp add: demo_asc_def)

theorem receive_passes_on_witness:
  "\<exists>s'. ifx_asc_rx_int demo_asc = Some s' \<and> received s' @ flip_buf s' = [(65, 0), (66, 0)]"
proof -
  have "(2 :: u32) AND 0x3F = 2" by simp
  then show ?thesis using receive_passes_on [of 2 demo_asc] by (auto simp: demo_asc_def)
qed

theorem console_output_witness:
  "\<exists>s'. ifx_asc_console_write [72, 10] demo_asc = Some s' \<and> tx_sent s' = [72, 13, 10]"
  using console_output [of demo_asc "[72, 10]"] by (auto simp: demo_asc_def)

theorem console_options_lose_framing_witness:
  "\<exists>s baud parity bits. ifx_asc_change_speed 0x320 0 60 demo_asc = Some s
    \<and> ifx_asc_console_get_options s (9600, CHR ''n'', 8) = Some (baud, parity, bits) \<and> parity = CHR ''n'' \<and> bits = 8"
proof -
  obtain s where s: "ifx_asc_change_speed 0x320 0 60 demo_asc = Some s" by (simp add: ifx_asc_change_speed_def demo_asc_def)
  have r: "asc_mcon s AND 0x8000 \<noteq> 0" using s by (auto simp: ifx_asc_change_speed_def demo_asc_def speed_con_def Let_def)
  obtain baud parity bits where o1: "ifx_asc_console_get_options s (9600, CHR ''n'', 8) = Some (baud, parity, bits)"
    using s by (auto simp: ifx_asc_change_speed_def demo_asc_def ifx_asc_console_get_options_def speed_con_def Let_def)
  from console_options_lose_framing [OF r o1] s o1 show ?thesis by blast
qed

theorem startup_all_or_nothing_witness:
  "\<exists>s. ifx_asc_startup 111000000 (\<lambda>_. True) 5 demo_asc = (0, s) \<and> action (irq_descs (asc_icu s) EIR) = [5]"
proof -
  obtain s where s: "ifx_asc_startup 111000000 (\<lambda>_. True) 5 demo_asc = (0, s)" using demo_startup by blast
  have "\<forall>irq\<in>{RIR, TIR, EIR}. action (irq_descs (asc_icu demo_asc) irq) = []"
    by (simp add: demo_asc_def idle_icu_def init_IRQ_def TIR_def RIR_def EIR_def)
  from startup_all_or_nothing [OF this s] s show ?thesis by auto
qed

end
