(* ===== verification/Pci.thy ===== *)
theory Pci
  imports Prelude
begin

text \<open>
  The PCI host bridge: access to the configuration space of the devices and the assignment of their interrupts
  (\<open>arch/mips/pci/ops-danube.c\<close>), and the set-up of the bridge (\<open>basic/pci.c\<close>), with the byte swap by hardware that the
  configuration selects.  Registers and configuration space are one map from addresses to words;
  \<open>latch a old new\<close> is what a register at an address holds after a write, since devices may have read-only and
  write-one-to-clear bits.
\<close>

section \<open>Registers\<close>

type_synonym bus_mem = "u32 \<Rightarrow> u32"
type_synonym latch = "u32 \<Rightarrow> u32 \<Rightarrow> u32 \<Rightarrow> u32"

definition bus_write :: "latch \<Rightarrow> u32 \<Rightarrow> u32 \<Rightarrow> bus_mem \<Rightarrow> bus_mem" where
  "bus_write latch a v m = m(a := latch a (m a) v)"

definition PCI_CFG_BASE :: u32 where "PCI_CFG_BASE = 0xB7000000"
definition PCI_CR_PR_OFFSET :: u32 where "PCI_CR_PR_OFFSET = 0xBE105400"
definition PCI_CS_PR_OFFSET :: u32 where "PCI_CS_PR_OFFSET = 0xB7000000"
definition DANUBE_CGU :: u32 where "DANUBE_CGU = 0xBF103000"
definition DANUBE_GPIO :: u32 where "DANUBE_GPIO = 0xBE100B00"
definition DANUBE_EBU :: u32 where "DANUBE_EBU = 0xBE105300"

definition DANUBE_PCI_MEM_BASE :: u32 where "DANUBE_PCI_MEM_BASE = 0x18000000"
definition DANUBE_PCI_MEM_SIZE :: u32 where "DANUBE_PCI_MEM_SIZE = 0x02000000"

abbreviation (input) PCIBIOS_SUCCESSFUL :: s32 where "PCIBIOS_SUCCESSFUL \<equiv> 0"
abbreviation (input) PCIBIOS_BAD_REGISTER_NUMBER :: s32 where "PCIBIOS_BAD_REGISTER_NUMBER \<equiv> 0x87"

record pci_dev =
  bus_number :: u8
  devfn :: u8
  dev_irq :: nat

section \<open>Configuration space\<close>

text \<open>The register number is cut to 8 bits by the type of the parameter \<open>where\<close>.\<close>

definition cfg_addr :: "pci_dev \<Rightarrow> u32 \<Rightarrow> u32" where
  "cfg_addr d reg = PCI_CFG_BASE OR push_bit 16 (ucast (bus_number d)) OR push_bit 8 (ucast (devfn d)) OR (reg AND 0xFC)"

definition no_slot :: "pci_dev \<Rightarrow> bool" where
  "no_slot d \<longleftrightarrow> bus_number d \<noteq> 0 \<or> devfn d AND 0xF8 > 0x78 \<or> devfn d AND 0xF8 = 0 \<or> devfn d AND 0xF8 = 0x68"

definition danube_pci_config_access ::
  "latch \<Rightarrow> bool \<Rightarrow> pci_dev \<Rightarrow> u32 \<Rightarrow> u32 \<Rightarrow> bus_mem \<Rightarrow> s32 \<times> u32 \<times> bus_mem" where
  "danube_pci_config_access latch wr d reg data m =
     (if no_slot d then (1, data, m)
      else
        let a = cfg_addr d reg;
            m1 = (if wr then bus_write latch a (swab32 data) m else m);
            data1 = (if wr then data else swab32 (m a));
            temp = swab32 (m1 (PCI_CFG_BASE OR 4));
            m2 = bus_write latch (PCI_CFG_BASE OR 0x6804) temp m1
        in (if data1 = 0xFFFFFFFF then 1 else 0, data1, m2))"

text \<open>The results are the return value, the content of \<open>*val\<close>, which was \<open>val\<close> before, and the registers.\<close>

definition byte_shift :: "u32 \<Rightarrow> nat" where
  "byte_shift reg = unat (push_bit 3 (reg AND 3))"

definition danube_pci_read_config_byte :: "latch \<Rightarrow> pci_dev \<Rightarrow> u32 \<Rightarrow> u8 \<Rightarrow> bus_mem \<Rightarrow> s32 \<times> u8 \<times> bus_mem" where
  "danube_pci_read_config_byte latch d reg val m =
     (case danube_pci_config_access latch False d reg 0 m of (e, data, m1) \<Rightarrow>
        if e \<noteq> 0 then (- 1, val, m1)
        else (PCIBIOS_SUCCESSFUL, ucast (drop_bit (byte_shift reg) data AND 0xFF), m1))"

definition danube_pci_read_config_word :: "latch \<Rightarrow> pci_dev \<Rightarrow> u32 \<Rightarrow> u16 \<Rightarrow> bus_mem \<Rightarrow> s32 \<times> u16 \<times> bus_mem" where
  "danube_pci_read_config_word latch d reg val m =
     (if reg AND 1 \<noteq> 0 then (PCIBIOS_BAD_REGISTER_NUMBER, val, m)
      else case danube_pci_config_access latch False d reg 0 m of (e, data, m1) \<Rightarrow>
        if e \<noteq> 0 then (- 1, 0xFFFF, m1)
        else (PCIBIOS_SUCCESSFUL, ucast (drop_bit (byte_shift reg) data AND 0xFFFF), m1))"

definition danube_pci_read_config_dword :: "latch \<Rightarrow> pci_dev \<Rightarrow> u32 \<Rightarrow> u32 \<Rightarrow> bus_mem \<Rightarrow> s32 \<times> u32 \<times> bus_mem" where
  "danube_pci_read_config_dword latch d reg val m =
     (if reg AND 3 \<noteq> 0 then (PCIBIOS_BAD_REGISTER_NUMBER, val, m)
      else case danube_pci_config_access latch False d reg 0 m of (e, data, m1) \<Rightarrow>
        if e \<noteq> 0 then (- 1, val, m1) else (PCIBIOS_SUCCESSFUL, data, m1))"

text \<open>A part of a word is written by reading the word and replacing the part.\<close>

definition merge :: "u32 \<Rightarrow> nat \<Rightarrow> u32 \<Rightarrow> u32 \<Rightarrow> u32" where
  "merge msk k v data = (data AND NOT (push_bit k msk)) OR push_bit k v"

definition modify_config :: "latch \<Rightarrow> u32 \<Rightarrow> pci_dev \<Rightarrow> u32 \<Rightarrow> u32 \<Rightarrow> bus_mem \<Rightarrow> s32 \<times> bus_mem" where
  "modify_config latch msk d reg v m =
     (case danube_pci_config_access latch False d reg 0 m of (e, data, m1) \<Rightarrow>
        if e \<noteq> 0 then (- 1, m1)
        else case danube_pci_config_access latch True d reg (merge msk (byte_shift reg) v data) m1 of (e, _, m2) \<Rightarrow>
          (if e \<noteq> 0 then - 1 else PCIBIOS_SUCCESSFUL, m2))"

definition danube_pci_write_config_byte :: "latch \<Rightarrow> pci_dev \<Rightarrow> u32 \<Rightarrow> u8 \<Rightarrow> bus_mem \<Rightarrow> s32 \<times> bus_mem" where
  "danube_pci_write_config_byte latch d reg val m = modify_config latch 0xFF d reg (ucast val) m"

definition danube_pci_write_config_word :: "latch \<Rightarrow> pci_dev \<Rightarrow> u32 \<Rightarrow> u16 \<Rightarrow> bus_mem \<Rightarrow> s32 \<times> bus_mem" where
  "danube_pci_write_config_word latch d reg val m =
     (if reg AND 1 \<noteq> 0 then (PCIBIOS_BAD_REGISTER_NUMBER, m) else modify_config latch 0xFFFF d reg (ucast val) m)"

definition danube_pci_write_config_dword :: "latch \<Rightarrow> pci_dev \<Rightarrow> u32 \<Rightarrow> u32 \<Rightarrow> bus_mem \<Rightarrow> s32 \<times> bus_mem" where
  "danube_pci_write_config_dword latch d reg val m =
     (if reg AND 3 \<noteq> 0 then (PCIBIOS_BAD_REGISTER_NUMBER, m)
      else case danube_pci_config_access latch True d reg val m of (e, _, m1) \<Rightarrow>
        (if e \<noteq> 0 then - 1 else PCIBIOS_SUCCESSFUL, m1))"

section \<open>Interrupts of the devices\<close>

definition PCI_INTERRUPT_LINE :: u32 where "PCI_INTERRUPT_LINE = 0x3C"
definition PCI_INTERRUPT_PIN :: u32 where "PCI_INTERRUPT_PIN = 0x3D"
definition INT_NUM_IM0_IRL26 :: nat where "INT_NUM_IM0_IRL26 = 26"

text \<open>The variable \<open>pin\<close> is not initialised and keeps its value from device to device.\<close>

definition fixup_dev :: "latch \<Rightarrow> pci_dev \<Rightarrow> u8 \<times> bus_mem \<Rightarrow> pci_dev \<times> u8 \<times> bus_mem" where
  "fixup_dev latch d c =
     (case c of (pin0, m) \<Rightarrow>
      let d1 = d\<lparr>dev_irq := 0\<rparr> in
      case danube_pci_read_config_byte latch d1 PCI_INTERRUPT_PIN pin0 m of (_, pin, m1) \<Rightarrow>
        if pin = 1 then
          let m2 = bus_write latch (DANUBE_EBU + 0x90) (m1 (DANUBE_EBU + 0x90) OR 0xC) m1;
              m3 = bus_write latch (DANUBE_EBU + 0xA4) (m2 (DANUBE_EBU + 0xA4) OR 0x10) m2;
              d2 = d1\<lparr>dev_irq := INT_NUM_IM0_IRL26\<rparr>
          in (d2, pin, snd (danube_pci_write_config_byte latch d2 PCI_INTERRUPT_LINE (of_nat (dev_irq d2)) m3))
        else (d1, pin, m1))"

fun pcibios_fixup_irqs :: "latch \<Rightarrow> pci_dev list \<Rightarrow> u8 \<times> bus_mem \<Rightarrow> pci_dev list \<times> u8 \<times> bus_mem" where
  "pcibios_fixup_irqs latch [] c = ([], c)"
| "pcibios_fixup_irqs latch (d # ds) c =
     (case fixup_dev latch d c of (d', c1) \<Rightarrow>
        case pcibios_fixup_irqs latch ds c1 of (ds', c2) \<Rightarrow> (d' # ds', c2))"

section \<open>Set-up of the bridge\<close>

text \<open>One assignment of a register.\<close>

datatype reg_op = Set u32 u32 | Ors u32 u32 | Ands u32 u32

fun do_reg :: "latch \<Rightarrow> reg_op \<Rightarrow> bus_mem \<Rightarrow> bus_mem" where
  "do_reg latch (Set a v) m = bus_write latch a v m"
| "do_reg latch (Ors a v) m = bus_write latch a (m a OR v) m"
| "do_reg latch (Ands a v) m = bus_write latch a (m a AND v) m"

text \<open>The new value of the arbiter register from its old one.\<close>

definition arbiter :: "u32 \<Rightarrow> u32" where
  "arbiter t =
     (let t1 = t AND NOT (push_bit 16 0xF);
          t2 = t1 OR push_bit 0 1;
          t3 = t2 AND NOT (push_bit 8 3);
          t4 = t3 AND NOT (push_bit 10 3);
          t5 = t4 AND NOT (push_bit 12 3)
      in t5 OR 0xE0000)"

definition startup_clocks :: "reg_op list" where
  "startup_clocks =
    [Ands (DANUBE_CGU + 0x18) (NOT 0xF00000), Ors (DANUBE_CGU + 0x18) 0x800000, Ors (DANUBE_CGU + 0x18) (push_bit 16 1),
     Set (DANUBE_CGU + 0x34) (push_bit 31 1 OR push_bit 30 1),
     Ors (DANUBE_GPIO + 0x40) (push_bit 5 1), Ors (DANUBE_GPIO + 0x54) (push_bit 5 1), Ors (DANUBE_GPIO + 0x48) (push_bit 5 1),
     Ands (DANUBE_GPIO + 0x50) (NOT (push_bit 5 1)), Ands (DANUBE_GPIO + 0x4C) (NOT (push_bit 5 1)),
     Set PCI_CR_PR_OFFSET 0xA, Ands (PCI_CR_PR_OFFSET + 0x30) (NOT (push_bit 24 1)), Ors (PCI_CS_PR_OFFSET + 0x4) 7]"

definition startup_maps :: "reg_op list" where
  "startup_maps =
    [Set (PCI_CR_PR_OFFSET + 0xC0) 0x18000000, Set (PCI_CR_PR_OFFSET + 0xC4) 0x18400000, Set (PCI_CR_PR_OFFSET + 0xC8) 0x18800000,
     Set (PCI_CR_PR_OFFSET + 0xCC) 0x18C00000, Set (PCI_CR_PR_OFFSET + 0xD0) 0x19000000, Set (PCI_CR_PR_OFFSET + 0xD4) 0x19400000,
     Set (PCI_CR_PR_OFFSET + 0xD8) 0x19800000, Set (PCI_CR_PR_OFFSET + 0xDC) 0x19C00000, Set (PCI_CR_PR_OFFSET + 0xE4) 0xBAE00000,
     Set (PCI_CR_PR_OFFSET + 0x44) 0x0C000008, Set (PCI_CR_PR_OFFSET + 0x64) 0, Set (PCI_CS_PR_OFFSET + 0x10) 0,
     Ors (PCI_CR_PR_OFFSET + 0x2C) 3, Ors (PCI_CR_PR_OFFSET + 0x48) 0x80000000, Ors (PCI_CR_PR_OFFSET + 0x4C) 0x80000000,
     Set (PCI_CR_PR_OFFSET + 0xE8) 0x303, Ors (PCI_CR_PR_OFFSET + 0x30) (push_bit 24 1),
     Ands (DANUBE_GPIO + 0x40) (NOT (push_bit 5 1)), Ors (DANUBE_GPIO + 0x40) (push_bit 5 1)]"

definition danube_pci_startup :: "latch \<Rightarrow> bus_mem \<Rightarrow> bus_mem" where
  "danube_pci_startup latch m =
     (let m1 = fold (do_reg latch) startup_clocks m;
          m2 = bus_write latch (PCI_CR_PR_OFFSET + 0x80) (arbiter (m1 (PCI_CR_PR_OFFSET + 0x80))) m1
      in fold (do_reg latch) startup_maps m2)"

text \<open>The whole initialisation; \<open>assign\<close> (the kernel's allocation of addresses) and \<open>scan\<close> (its search for devices) are parameters.\<close>

definition pcibios_init ::
  "latch \<Rightarrow> (bus_mem \<Rightarrow> bus_mem) \<Rightarrow> (bus_mem \<Rightarrow> pci_dev list \<times> bus_mem) \<Rightarrow> u8 \<Rightarrow> bus_mem \<Rightarrow> pci_dev list \<times> u8 \<times> bus_mem" where
  "pcibios_init latch assign scan pin0 m =
     (case scan (assign (danube_pci_startup latch m)) of (ds, m1) \<Rightarrow>
        pcibios_fixup_irqs latch ds (pin0, bus_write latch PCI_CR_PR_OFFSET (m1 PCI_CR_PR_OFFSET AND NOT 8) m1))"

text \<open>Requests of the external masters; \<open>polls\<close> has the values the arbiter register shows to the waiting loop, which
  has no result when none of them says that the bus is idle.\<close>

definition danube_disable_external_pci :: "latch \<Rightarrow> u32 list \<Rightarrow> bus_mem \<Rightarrow> bus_mem option" where
  "danube_disable_external_pci latch polls m =
     (let m1 = bus_write latch (PCI_CR_PR_OFFSET + 0x80) (m (PCI_CR_PR_OFFSET + 0x80) OR push_bit 12 3) m
      in if \<exists>v\<in>set polls. v AND 0x700000 = 0x300000 then Some m1 else None)"

definition danube_enable_external_pci :: "latch \<Rightarrow> bus_mem \<Rightarrow> bus_mem" where
  "danube_enable_external_pci latch m =
     bus_write latch (PCI_CR_PR_OFFSET + 0x80) (m (PCI_CR_PR_OFFSET + 0x80) AND NOT (push_bit 12 3)) m"

section \<open>Bytes and addresses\<close>

lemma cfg_base_low: "n < 24 \<Longrightarrow> \<not> bit PCI_CFG_BASE n"
proof -
  assume "n < 24"
  then have "\<not> bit (push_bit 24 (0xB7 :: u32)) n" by (simp add: bit_push_bit_iff del: push_bit_numeral)
  then show ?thesis by (simp add: PCI_CFG_BASE_def)
qed

lemma cfg_addr_devfn: "bus_number d = 0 \<Longrightarrow> drop_bit 8 (cfg_addr d reg) AND 0xFF = ucast (devfn d)"
  unfolding cfg_addr_def byte_masks
  by (rule bit_word_eqI) (auto simp: bit_simps cfg_base_low dest: bit_imp_le_length)

lemma cfg_addr_reg: "cfg_addr d reg AND 0xFF = reg AND 0xFC"
  unfolding cfg_addr_def byte_masks by (rule bit_word_eqI) (auto simp: bit_simps cfg_base_low)

lemma cfg_addr_inj:
  assumes "cfg_addr d reg = cfg_addr d' reg'" "bus_number d = 0" "bus_number d' = 0"
  shows "devfn d = devfn d' \<and> reg AND 0xFC = reg' AND 0xFC"
proof
  have e: "(ucast (devfn d) :: u32) = ucast (devfn d')" using assms cfg_addr_devfn [of d reg] cfg_addr_devfn [of d' reg'] by simp
  have "bit (devfn d) n = bit (devfn d') n" if "n < 8" for n
    using arg_cong [OF e, of "\<lambda>x. bit x n"] that by (simp add: bit_simps)
  then show "devfn d = devfn d'" by (intro bit_word_eqI) simp
  show "reg AND 0xFC = reg' AND 0xFC" using assms(1) cfg_addr_reg by metis
qed

lemma cfg_addr_bridge:
  assumes "\<not> no_slot d"
  shows "cfg_addr d reg \<noteq> PCI_CFG_BASE OR 4" "cfg_addr d reg \<noteq> PCI_CFG_BASE OR 0x6804"
proof -
  define b :: "u8 \<Rightarrow> pci_dev" where "b f = \<lparr>bus_number = 0, devfn = f, dev_irq = 0\<rparr>" for f
  have "PCI_CFG_BASE OR 4 = cfg_addr (b 0) 4" "PCI_CFG_BASE OR 0x6804 = cfg_addr (b 0x68) 4"
    by (simp_all add: cfg_addr_def b_def PCI_CFG_BASE_def)
  moreover have "devfn d \<noteq> 0" "devfn d \<noteq> 0x68" "bus_number d = 0" using assms by (auto simp: no_slot_def)
  ultimately show "cfg_addr d reg \<noteq> PCI_CFG_BASE OR 4" "cfg_addr d reg \<noteq> PCI_CFG_BASE OR 0x6804"
    using cfg_addr_inj [of d reg "b 0" 4] cfg_addr_inj [of d reg "b 0x68" 4] by (auto simp: b_def)
qed

section \<open>Reading and writing\<close>

text \<open>The word a device shows at a register.\<close>

definition cfg :: "bus_mem \<Rightarrow> pci_dev \<Rightarrow> u32 \<Rightarrow> u32" where
  "cfg m d reg = swab32 (m (cfg_addr d reg))"

text \<open>A register that keeps what is written to it.\<close>

definition plain_reg :: "latch \<Rightarrow> u32 \<Rightarrow> bool" where
  "plain_reg latch a \<longleftrightarrow> (\<forall>v w. latch a v w = w)"

lemma access_read:
  assumes "\<not> no_slot d" "danube_pci_config_access latch False d reg x m = (e, data, m')"
  shows "data = cfg m d reg \<and> (e \<noteq> 0 \<longleftrightarrow> data = 0xFFFFFFFF) \<and> (\<forall>a. a \<noteq> PCI_CFG_BASE OR 0x6804 \<longrightarrow> m' a = m a)"
  using assms by (auto simp: danube_pci_config_access_def Let_def cfg_def bus_write_def split: if_splits)

lemma access_write:
  assumes "\<not> no_slot d" "danube_pci_config_access latch True d reg x m = (e, data, m')"
  shows "(e \<noteq> 0 \<longleftrightarrow> x = 0xFFFFFFFF) \<and> (plain_reg latch (cfg_addr d reg) \<longrightarrow> cfg m' d reg = x)
    \<and> (\<forall>a. a \<noteq> cfg_addr d reg \<longrightarrow> a \<noteq> PCI_CFG_BASE OR 0x6804 \<longrightarrow> m' a = m a)"
  using assms cfg_addr_bridge [OF assms(1), of reg]
  by (auto simp: danube_pci_config_access_def Let_def cfg_def bus_write_def plain_reg_def split: if_splits)

lemma modify_config_effect:
  assumes s: "\<not> no_slot d" and p: "plain_reg latch (cfg_addr d reg)" and o1: "cfg m d reg \<noteq> 0xFFFFFFFF"
  obtains m' where "modify_config latch msk d reg v m
      = (if merge msk (byte_shift reg) v (cfg m d reg) = 0xFFFFFFFF then - 1 else 0, m')"
    "cfg m' d reg = merge msk (byte_shift reg) v (cfg m d reg)"
    "\<forall>a. a \<noteq> cfg_addr d reg \<longrightarrow> a \<noteq> PCI_CFG_BASE OR 0x6804 \<longrightarrow> m' a = m a"
proof -
  obtain e1 data m1 where a1: "danube_pci_config_access latch False d reg 0 m = (e1, data, m1)" by (metis prod_cases3)
  note r1 = access_read [OF s a1]
  let ?x = "merge msk (byte_shift reg) v data"
  obtain e2 z m2 where a2: "danube_pci_config_access latch True d reg ?x m1 = (e2, z, m2)" by (metis prod_cases3)
  note r2 = access_write [OF s a2]
  show ?thesis
    by (rule that [of m2]) (use a1 a2 r1 r2 p o1 in \<open>auto simp: modify_config_def\<close>)
qed


lemma low_bits_less: "unat (reg AND 3 :: u32) < 4"
proof -
  have "reg AND 3 \<le> (3 :: u32)" by (rule word_and_le1)
  then have "unat (reg AND 3) \<le> unat (3 :: u32)" by (simp only: word_le_nat_alt)
  then show ?thesis by simp
qed

lemma byte_shift_eq: "byte_shift reg = 8 * unat (reg AND 3)"
  using low_bits_less [of reg] by (simp add: byte_shift_def push_bit_eq_mult unat_word_ariths)

lemma byte_shift_cases: "byte_shift reg = 0 \<or> byte_shift reg = 8 \<or> byte_shift reg = 16 \<or> byte_shift reg = 24"
  using low_bits_less [of reg] unfolding byte_shift_eq by presburger

lemma byte_shift_same: "byte_shift reg = byte_shift reg' \<longleftrightarrow> reg AND 3 = reg' AND 3"
  by (simp add: byte_shift_eq word_unat_eq_iff)

lemma merged_byte:
  assumes "k = 0 \<or> k = 8 \<or> k = 16 \<or> k = 24" "k' = 0 \<or> k' = 8 \<or> k' = 16 \<or> k' = 24"
  shows "(ucast (drop_bit k' (merge 0xFF k (ucast (v :: u8)) data) AND 0xFF) :: u8) = (if k' = k then v else ucast (drop_bit k' data AND 0xFF))"
  unfolding merge_def byte_masks
  by (rule bit_word_eqI) (use assms in \<open>auto simp: bit_simps dest: bit_imp_le_length\<close>)

lemma merged_word:
  assumes "k = 0 \<or> k = 16" "k' = 0 \<or> k' = 16"
  shows "(ucast (drop_bit k' (merge 0xFFFF k (ucast (v :: u16)) data) AND 0xFFFF) :: u16) = (if k' = k then v else ucast (drop_bit k' data AND 0xFFFF))"
  unfolding merge_def byte_masks
  by (rule bit_word_eqI) (use assms in \<open>auto simp: bit_simps dest: bit_imp_le_length\<close>)


lemma read_byte_eq:
  assumes "\<not> no_slot d"
  obtains m' where "danube_pci_read_config_byte latch d reg x m = (if cfg m d reg = 0xFFFFFFFF then (- 1, x, m')
      else (0, ucast (drop_bit (byte_shift reg) (cfg m d reg) AND 0xFF), m'))"
    "\<forall>a. a \<noteq> PCI_CFG_BASE OR 0x6804 \<longrightarrow> m' a = m a"
proof -
  obtain e data m' where a: "danube_pci_config_access latch False d reg 0 m = (e, data, m')" by (metis prod_cases3)
  show ?thesis
    by (rule that [of m']) (use a access_read [OF assms a] in \<open>auto simp: danube_pci_read_config_byte_def\<close>)
qed

lemma cfg_cong_reg: "reg AND 0xFC = reg' AND 0xFC \<Longrightarrow> cfg m d reg = cfg m d reg'"
  by (simp add: cfg_def cfg_addr_def)

lemma cfg_frame:
  assumes "\<forall>a. a \<noteq> cfg_addr d reg \<longrightarrow> a \<noteq> PCI_CFG_BASE OR 0x6804 \<longrightarrow> m' a = m a" "\<not> no_slot d" "\<not> no_slot d'"
    "devfn d' \<noteq> devfn d \<or> reg' AND 0xFC \<noteq> reg AND 0xFC"
  shows "cfg m' d' reg' = cfg m d' reg'"
proof -
  have "cfg_addr d' reg' \<noteq> cfg_addr d reg" using cfg_addr_inj [of d' reg' d reg] assms(2-4) by (auto simp: no_slot_def)
  then show ?thesis using assms(1) cfg_addr_bridge(2) [OF assms(3)] by (simp add: cfg_def)
qed


text \<open>The test for a missing device is made on writes as well: storing all ones, with which the size of a base
  address register is found out, takes effect and is reported as a failure.\<close>

theorem all_ones_write_reported_failed:
  assumes "\<not> no_slot d" "plain_reg latch (cfg_addr d reg)" "reg AND 3 = 0"
  shows "\<exists>m'. danube_pci_write_config_dword latch d reg 0xFFFFFFFF m = (- 1, m') \<and> cfg m' d reg = 0xFFFFFFFF"
proof -
  obtain e z m' where a: "danube_pci_config_access latch True d reg 0xFFFFFFFF m = (e, z, m')" by (metis prod_cases3)
  then show ?thesis using access_write [OF assms(1) a] assms(2,3) by (simp add: danube_pci_write_config_dword_def)
qed

lemma write_dword_effect:
  assumes "\<not> no_slot d" "plain_reg latch (cfg_addr d reg)" "reg AND 3 = 0" "v \<noteq> 0xFFFFFFFF"
  shows "\<exists>m'. danube_pci_write_config_dword latch d reg v m = (0, m') \<and> cfg m' d reg = v"
proof -
  obtain e z m' where a: "danube_pci_config_access latch True d reg v m = (e, z, m')" by (metis prod_cases3)
  then show ?thesis using access_write [OF assms(1) a] assms(2-4) by (simp add: danube_pci_write_config_dword_def)
qed


section \<open>Assignment of interrupts\<close>

definition pin_of :: "bus_mem \<Rightarrow> pci_dev \<Rightarrow> u8" where
  "pin_of m d = ucast (drop_bit 8 (cfg m d PCI_INTERRUPT_PIN) AND 0xFF)"

definition line_of :: "bus_mem \<Rightarrow> pci_dev \<Rightarrow> u8" where
  "line_of m d = ucast (cfg m d PCI_INTERRUPT_LINE AND 0xFF)"

lemma same_word: "cfg m d PCI_INTERRUPT_PIN = cfg m d PCI_INTERRUPT_LINE" "cfg_addr d PCI_INTERRUPT_PIN = cfg_addr d PCI_INTERRUPT_LINE"
  by (simp_all add: cfg_def cfg_addr_def PCI_INTERRUPT_PIN_def PCI_INTERRUPT_LINE_def)

lemma shifts: "byte_shift PCI_INTERRUPT_PIN = 8" "byte_shift PCI_INTERRUPT_LINE = 0"
  by (simp_all add: byte_shift_eq PCI_INTERRUPT_PIN_def PCI_INTERRUPT_LINE_def)

lemma irq_independent [simp]:
  "no_slot (d\<lparr>dev_irq := i\<rparr>) = no_slot d" "cfg m (d\<lparr>dev_irq := i\<rparr>) reg = cfg m d reg" "cfg_addr (d\<lparr>dev_irq := i\<rparr>) reg = cfg_addr d reg"
  by (simp_all add: no_slot_def cfg_def cfg_addr_def)

lemma cfg_addr_not_ebu:
  assumes "\<not> no_slot d"
  shows "cfg_addr d reg \<noteq> DANUBE_EBU + 0x90" "cfg_addr d reg \<noteq> DANUBE_EBU + 0xA4"
proof -
  have "\<not> bit (devfn d) 19" using bit_imp_le_length [of "devfn d" 19] by auto
  moreover have "\<not> bit (0xFC :: u32) 27" "\<not> bit PCI_CFG_BASE 27" by (simp_all add: PCI_CFG_BASE_def)
  ultimately have "\<not> bit (cfg_addr d reg) 27" using assms by (simp add: cfg_addr_def no_slot_def bit_simps)
  moreover have "bit (DANUBE_EBU + 0x90) 27" "bit (DANUBE_EBU + 0xA4) 27" by (simp_all add: DANUBE_EBU_def)
  ultimately show "cfg_addr d reg \<noteq> DANUBE_EBU + 0x90" "cfg_addr d reg \<noteq> DANUBE_EBU + 0xA4" by auto
qed

lemma cfg_ebu:
  "\<not> no_slot d \<Longrightarrow> cfg (bus_write latch (DANUBE_EBU + 0x90) v m) d reg = cfg m d reg"
  "\<not> no_slot d \<Longrightarrow> cfg (bus_write latch (DANUBE_EBU + 0xA4) v m) d reg = cfg m d reg"
  using cfg_addr_not_ebu [of d reg] by (simp_all add: cfg_def bus_write_def)

lemma merged_not_ones: "merge 0xFF 0 26 x \<noteq> 0xFFFFFFFF"
proof
  assume "merge 0xFF 0 26 x = 0xFFFFFFFF"
  then have "bit (merge 0xFF 0 26 x) 0" by simp
  then show False by (simp add: merge_def bit_simps)
qed

lemma fixup_dev_effect:
  assumes s: "\<not> no_slot d" and w: "cfg m d PCI_INTERRUPT_LINE \<noteq> 0xFFFFFFFF" and p: "plain_reg latch (cfg_addr d PCI_INTERRUPT_LINE)"
  shows "\<exists>m'. fixup_dev latch d (pin0, m) = (d\<lparr>dev_irq := if pin_of m d = 1 then 26 else 0\<rparr>, pin_of m d, m')
    \<and> line_of m' d = (if pin_of m d = 1 then 26 else line_of m d)
    \<and> (\<forall>d'. \<not> no_slot d' \<longrightarrow> devfn d' \<noteq> devfn d \<longrightarrow> cfg m' d' PCI_INTERRUPT_LINE = cfg m d' PCI_INTERRUPT_LINE)"
proof -
  have s0: "\<not> no_slot (d\<lparr>dev_irq := 0\<rparr>)" using s by simp
  obtain m1 where r: "danube_pci_read_config_byte latch (d\<lparr>dev_irq := 0\<rparr>) PCI_INTERRUPT_PIN pin0 m = (0, pin_of m d, m1)"
    and f1: "\<forall>a. a \<noteq> PCI_CFG_BASE OR 0x6804 \<longrightarrow> m1 a = m a"
    using read_byte_eq [OF s0, of latch PCI_INTERRUPT_PIN pin0 m] w by (auto simp: pin_of_def same_word shifts)
  have c1: "cfg m1 d' reg = cfg m d' reg" if "\<not> no_slot d'" for d' reg
    using f1 cfg_addr_bridge(2) [OF that] by (simp add: cfg_def)
  show ?thesis
  proof (cases "pin_of m d = 1")
    case False
    then show ?thesis using r c1 s by (simp add: fixup_dev_def Let_def line_of_def)
  next
    case True
    define m2 where "m2 = bus_write latch (DANUBE_EBU + 0x90) (m1 (DANUBE_EBU + 0x90) OR 0xC) m1"
    define m3 where "m3 = bus_write latch (DANUBE_EBU + 0xA4) (m2 (DANUBE_EBU + 0xA4) OR 0x10) m2"
    have c3: "cfg m3 d' reg = cfg m d' reg" if "\<not> no_slot d'" for d' reg
      using that c1 by (simp add: m3_def m2_def cfg_ebu)
    let ?d = "d\<lparr>dev_irq := INT_NUM_IM0_IRL26\<rparr>"
    have s2: "\<not> no_slot ?d" and p2: "plain_reg latch (cfg_addr ?d PCI_INTERRUPT_LINE)" and w2: "cfg m3 ?d PCI_INTERRUPT_LINE \<noteq> 0xFFFFFFFF"
      using s p w c3 by simp_all
    obtain m4 where m4: "modify_config latch 0xFF ?d PCI_INTERRUPT_LINE (ucast (26 :: u8)) m3
          = (if merge 0xFF (byte_shift PCI_INTERRUPT_LINE) (ucast (26 :: u8)) (cfg m3 ?d PCI_INTERRUPT_LINE) = 0xFFFFFFFF then - 1 else 0, m4)"
        "cfg m4 ?d PCI_INTERRUPT_LINE = merge 0xFF (byte_shift PCI_INTERRUPT_LINE) (ucast (26 :: u8)) (cfg m3 ?d PCI_INTERRUPT_LINE)"
        "\<forall>a. a \<noteq> cfg_addr ?d PCI_INTERRUPT_LINE \<longrightarrow> a \<noteq> PCI_CFG_BASE OR 0x6804 \<longrightarrow> m4 a = m3 a"
      by (rule modify_config_effect [OF s2 p2 w2, of "0xFF" "ucast (26 :: u8)"])
    have l: "line_of m4 d = 26"
      using merged_byte [of 0 0 26 "cfg m3 d PCI_INTERRUPT_LINE"] m4(2) by (simp add: line_of_def shifts)
    have fr: "cfg m4 d' PCI_INTERRUPT_LINE = cfg m d' PCI_INTERRUPT_LINE" if "\<not> no_slot d'" "devfn d' \<noteq> devfn d" for d'
      using cfg_frame [OF m4(3) s2 that(1)] that c3 by simp
    have "fixup_dev latch d (pin0, m) = (d\<lparr>dev_irq := 26\<rparr>, 1, m4)"
      using r True m4(1)
      by (simp add: fixup_dev_def Let_def m2_def [symmetric] m3_def [symmetric] danube_pci_write_config_byte_def INT_NUM_IM0_IRL26_def)
    then show ?thesis using True l fr by (intro exI [of _ m4]) simp
  qed
qed

text \<open>Every device of the bus with interrupt pin A gets the interrupt number 26 and its line register says so; every other
  device has no interrupt and keeps its line register.  The devices are in different slots and answer.\<close>

theorem fixup_irqs_assigns:
  assumes "\<forall>d\<in>set ds. \<not> no_slot d \<and> cfg m d PCI_INTERRUPT_LINE \<noteq> 0xFFFFFFFF \<and> plain_reg latch (cfg_addr d PCI_INTERRUPT_LINE)"
    and "distinct (map devfn ds)"
  shows "\<exists>pin m'. pcibios_fixup_irqs latch ds (pin0, m)
      = (map (\<lambda>d. d\<lparr>dev_irq := if pin_of m d = 1 then 26 else 0\<rparr>) ds, pin, m')
    \<and> (\<forall>d\<in>set ds. line_of m' d = (if pin_of m d = 1 then 26 else line_of m d))
    \<and> (\<forall>d'. \<not> no_slot d' \<longrightarrow> devfn d' \<notin> devfn ` set ds \<longrightarrow> cfg m' d' PCI_INTERRUPT_LINE = cfg m d' PCI_INTERRUPT_LINE)"
  using assms
proof (induction ds arbitrary: pin0 m)
  case (Cons d ds)
  obtain m1 where m1: "fixup_dev latch d (pin0, m) = (d\<lparr>dev_irq := if pin_of m d = 1 then 26 else 0\<rparr>, pin_of m d, m1)"
    "line_of m1 d = (if pin_of m d = 1 then 26 else line_of m d)"
    "\<forall>d'. \<not> no_slot d' \<longrightarrow> devfn d' \<noteq> devfn d \<longrightarrow> cfg m1 d' PCI_INTERRUPT_LINE = cfg m d' PCI_INTERRUPT_LINE"
    using fixup_dev_effect [of d m latch pin0] Cons.prems(1) by auto
  have same: "cfg m1 e PCI_INTERRUPT_LINE = cfg m e PCI_INTERRUPT_LINE" if "e \<in> set ds" for e
  proof -
    have "devfn e \<noteq> devfn d" using Cons.prems(2) imageI [OF that, of devfn] by auto
    then show ?thesis using m1(3) Cons.prems(1) that by auto
  qed
  then have pins: "pin_of m1 e = pin_of m e" "line_of m1 e = line_of m e" if "e \<in> set ds" for e
    using that by (simp_all add: pin_of_def line_of_def same_word)
  obtain pin m' where ih: "pcibios_fixup_irqs latch ds (pin_of m d, m1)
        = (map (\<lambda>d. d\<lparr>dev_irq := if pin_of m1 d = 1 then 26 else 0\<rparr>) ds, pin, m')"
      "\<forall>d\<in>set ds. line_of m' d = (if pin_of m1 d = 1 then 26 else line_of m1 d)"
      "\<forall>d'. \<not> no_slot d' \<longrightarrow> devfn d' \<notin> devfn ` set ds \<longrightarrow> cfg m' d' PCI_INTERRUPT_LINE = cfg m1 d' PCI_INTERRUPT_LINE"
    using Cons.IH [of m1 "pin_of m d"] Cons.prems same by auto
  have "line_of m' d = line_of m1 d" using ih(3) Cons.prems by (simp add: line_of_def)
  moreover have "map (\<lambda>d. d\<lparr>dev_irq := if pin_of m1 d = 1 then 26 else 0\<rparr>) ds = map (\<lambda>d. d\<lparr>dev_irq := if pin_of m d = 1 then 26 else 0\<rparr>) ds"
    using pins by simp
  ultimately show ?case using m1 ih pins by (intro exI [of _ pin] exI [of _ m']) simp
qed simp

text \<open>A device that does not answer is treated with the pin of the device before it.\<close>

lemma silent_device_inherits_pin:
  assumes "no_slot d"
  shows "fst (fixup_dev latch d (1, m)) = d\<lparr>dev_irq := 26\<rparr>"
  using assms by (simp add: fixup_dev_def danube_pci_read_config_byte_def danube_pci_config_access_def Let_def INT_NUM_IM0_IRL26_def)

section \<open>The bridge after its set-up\<close>

text \<open>After the set-up the eight address windows map the memory range of \<open>pci_mem_resource\<close> without gap, each window starting where
  the one before ends and the last one ending with the range; the bridge answers, its reset line is
  released, it may be bus master and has memory and input/output enabled, its own requests are enabled and those of three external
  masters are masked.\<close>

theorem pci_startup_state:
  assumes "\<forall>a. plain_reg latch a" and "m' = danube_pci_startup latch m"
  shows "m' (PCI_CR_PR_OFFSET + 0xC0) = DANUBE_PCI_MEM_BASE
    \<and> (\<forall>i\<in>{1..7}. m' (PCI_CR_PR_OFFSET + 0xC0 + 4 * of_nat i) = m' (PCI_CR_PR_OFFSET + 0xC0 + 4 * of_nat (i - 1)) + 0x400000)
    \<and> m' (PCI_CR_PR_OFFSET + 0xDC) + 0x400000 = DANUBE_PCI_MEM_BASE + DANUBE_PCI_MEM_SIZE
    \<and> bit (m' (PCI_CR_PR_OFFSET + 0x30)) 24 \<and> bit (m' (DANUBE_GPIO + 0x40)) 5 \<and> m' (PCI_CS_PR_OFFSET + 4) AND 7 = 7
    \<and> m' (PCI_CR_PR_OFFSET + 0x80) AND 0xF3F01 = 0xE0001"
proof -
  have w: "bus_write latch a v x = x(a := v)" for a v x using assms(1) by (simp add: bus_write_def plain_reg_def)
  note addrs = PCI_CR_PR_OFFSET_def PCI_CS_PR_OFFSET_def DANUBE_CGU_def DANUBE_GPIO_def
  note regs = assms(2) danube_pci_startup_def startup_clocks_def startup_maps_def Let_def w addrs
  have win: "m' 0xBE1054C0 = 0x18000000" "m' 0xBE1054C4 = 0x18400000" "m' 0xBE1054C8 = 0x18800000" "m' 0xBE1054CC = 0x18C00000"
    "m' 0xBE1054D0 = 0x19000000" "m' 0xBE1054D4 = 0x19400000" "m' 0xBE1054D8 = 0x19800000" "m' 0xBE1054DC = 0x19C00000"
    by (simp_all add: regs)
  have ready: "bit (m' 0xBE105430) 24" using bit_exp_iff [where 'a = "32 word", of 24 24] by (simp add: regs bit_simps)
  have rst: "bit (m' 0xBE100B40) 5" using bit_exp_iff [where 'a = "32 word", of 5 5] by (simp add: regs bit_simps)
  have cmd: "m' 0xB7000004 AND 7 = 7" by (simp add: regs bit.conj_disj_distrib2)
  have arb: "m' 0xBE105480 = arbiter (m 0xBE105480)" by (simp add: regs)
  have arb2: "arbiter t AND 0xF3F01 = 0xE0001" for t
    unfolding arbiter_def Let_def by (simp add: bit.conj_disj_distrib2 and.assoc)
  have step: "m' (PCI_CR_PR_OFFSET + 0xC0 + 4 * of_nat i) = 0x18000000 + 0x400000 * of_nat i" if "i < 8" for i
  proof -
    have "i \<in> set [0..<8]" using that by simp
    then show ?thesis by (simp add: upt_rec) (auto simp: win addrs)
  qed
  have next_win: "m' (PCI_CR_PR_OFFSET + 0xC0 + 4 * of_nat i) = m' (PCI_CR_PR_OFFSET + 0xC0 + 4 * of_nat (i - 1)) + 0x400000"
    if i: "i \<in> {1..7}" for i
  proof -
    obtain j where j: "i = Suc j" "j < 7" using i by (cases i) auto
    then show ?thesis using step [of i] step [of j] by (simp add: algebra_simps)
  qed
  show ?thesis using win ready rst cmd arb arb2 next_win
    by (simp add: addrs DANUBE_PCI_MEM_BASE_def DANUBE_PCI_MEM_SIZE_def)
qed

section \<open>Concrete devices\<close>

definition demo_pci :: pci_dev where
  "demo_pci = \<lparr>bus_number = 0, devfn = 0x70, dev_irq = 0\<rparr>"

definition demo_bus :: bus_mem where
  "demo_bus = (\<lambda>a. if a = cfg_addr demo_pci PCI_INTERRUPT_LINE then swab32 0x00000100 else 0)"

lemma demo_pci_ok:
  "\<not> no_slot demo_pci" "cfg demo_bus demo_pci PCI_INTERRUPT_LINE = 0x100" "plain_reg (\<lambda>_ _ w. w) a"
  by (simp_all add: no_slot_def demo_pci_def cfg_def demo_bus_def plain_reg_def)


theorem all_ones_write_reported_failed_witness:
  "\<exists>m'. danube_pci_write_config_dword (\<lambda>_ _ w. w) demo_pci 0x10 0xFFFFFFFF demo_bus = (- 1, m') \<and> cfg m' demo_pci 0x10 = 0xFFFFFFFF"
  using all_ones_write_reported_failed [OF demo_pci_ok(1,3), of "0x10" demo_bus] by simp

theorem fixup_irqs_assigns_witness:
  "\<exists>pin m'. pcibios_fixup_irqs (\<lambda>_ _ w. w) [demo_pci] (0, demo_bus) = ([demo_pci\<lparr>dev_irq := 26\<rparr>], pin, m') \<and> line_of m' demo_pci = 26"
proof -
  have "pin_of demo_bus demo_pci = 1" using demo_pci_ok(2) by (simp add: pin_of_def same_word)
  then show ?thesis using fixup_irqs_assigns [of "[demo_pci]" demo_bus "\<lambda>_ _ w. w" 0] demo_pci_ok by auto
qed

theorem pci_startup_state_witness:
  "bit (danube_pci_startup (\<lambda>_ _ w. w) demo_bus (PCI_CR_PR_OFFSET + 0x30)) 24"
  using pci_startup_state [OF _ refl, of "\<lambda>_ _ w. w" demo_bus] demo_pci_ok(3) by blast

end
