(* ===== verification/Spec2Isabelle.thy ===== *)
theory Spec2Isabelle
  imports Deu_Cipher Wdt Led Mps_Chardev Mps_Skb Dma_Core Asc Pci
begin

text \<open>
  \<^bold>\<open>The program.\<close>  The repository holds the firmware of the second MIPS core (core 1) of the Infineon
  TwinPass-E, a Linux 2.4.31 system that runs the wireless interfaces of a router and exchanges network
  buffers and commands with core 0.  Its own code is under \<open>src/core1/source/kernel/ifx\<close>; the kernel and
  the user-space programs are vendored.  What core 1 adds to Linux is the multi processor system driver
  (MPS), which connects the two cores, and the support of the chip below it: interrupt controller, central
  DMA, PCI bridge, serial port, set-up of the board, and drivers for the clock unit, the timer unit, the watchdog, the port pins, the LED
  controller and the encryption unit.
  The development models the configuration that
  \<open>src/core1/config/kernel_config\<close> selects, on both sides of the link where the driver is the same source for both
  cores; the drivers for the clocks, the timers, the watchdog, the pins, the lights and the encryption unit, which it does not select, are
  modelled as they are compiled by default.

  \<^bold>\<open>How the parts work together.\<close>  The cores share an SRAM with four mailbox FIFOs, commands and data in
  both directions.  A core that sends writes a message to the FIFO of its direction and raises an
  interrupt; the handler on the other side moves the messages to a ring in its own memory, and a tasklet
  calls the function registered for the sequence number of each message.  Network buffers are passed by
  address.  Core 0 keeps pools of them for every service: rings from which core 1 takes fresh buffers and rings into
  which it puts used ones, which a timer of core 0 fills and empties.  What core 1 cannot do itself, it asks for
  with command messages and waits for the answer.  Peripherals of core 1 use the central DMA, whose channel
  interrupts, routed through the interrupt controller, schedule one tasklet that serves the pending channels by weight.
  Before all this the kernel of core 0 reads what the boot loader passed, leaves the command line and the entry address for
  core 1 in the memory they share, and keeps the address at which the MPS driver later releases core 1, which takes
  its entry address from there and its command line from the image that both run.  The smaller drivers call each other: the LED driver reserves
  port pins and uses a timer as its clock, the timer driver and the watchdog compute their periods from rates of the clock unit.

  \<^bold>\<open>Theories.\<close>
  \<^item> \<open>Prelude\<close>: C integers, error codes, 32-bit arithmetic on natural numbers with its wrap-around, word-addressed
    memory, uncached and physical addresses, byte order, the numbers of device calls.
  \<^item> \<open>Kstring\<close> (\<open>lib/string.c\<close>, \<open>lib/vsprintf.c\<close>, \<open>lib/cmdline.c\<close>): the string and number functions of the kernel that the
    drivers use, on character lists and on arrays with explicit bounds (a store outside gives \<open>None\<close>).  Shown: printed numbers
    are read back, in decimal and hexadecimal.
  \<^item> \<open>Board\<close> (\<open>basic/prom.c\<close>, \<open>basic/setup.c\<close>, \<open>basic/reset.c\<close>, and \<open>init_arch\<close> and the memory options of
    \<open>arch/mips/kernel/setup.c\<close>): the state \<open>board\<close> holds the variables the boot code of both cores sets.  Shown: the two kernels
    split the memory without overlap, the entry address reaches core 1, exactly when the command line is overrun, and that the
    clock functions agree with each other and with the period of the system timer.
  \<^item> \<open>Fifo_Spec\<close>: the contract of a queue as the locale \<open>lossless_queue\<close>; any interleaving of puts and gets
    delivers the accepted elements once and in order.  Interpreted by the mailbox FIFOs and by the buffer rings.
  \<^item> \<open>Mps_Fifo\<close> (\<open>mps_tpe_device.c\<close>, \<open>ifx_mpsdrv_fifo_*\<close>): a FIFO is its record \<open>mps_fifo\<close>, a region of the SRAM and the
    two offsets stored there.  Shown: refinement of the queue contract with wrap-around and refusals, acceptance after
    draining, no interference between FIFOs with disjoint footprints, and what a clear leaves behind.
  \<^item> \<open>Mps_Ring\<close> (\<open>mps_tpe_buffer.h\<close> and \<open>.c\<close>, \<open>mps_queue_*\<close>): circular buffers of addresses, their initialisation,
    release and top-up, with the kernel's allocator as a script of results (\<open>heap\<close>).
  \<^item> \<open>Mps_Pool\<close> (\<open>mps_tpe_buffer.c\<close>): the pools, allocation and release on core 1, book-keeping on core 0.  The locale
    \<open>pool_op\<close> states what every operation does to the multiset of buffers; its interpretations give conservation of buffers over
    all interleavings, safety of the timer, and exclusion by the book-keeping lock.
  \<^item> \<open>Mps_Device\<close> (\<open>mps_tpe_device.c\<close>): the state of one core is \<open>mps_node\<close>; set-up, reset, open and close, ready bits, send and
    receive, interrupt handlers, tasklets.  Shown: both cores set up the same four disjoint FIFOs; the effect of sends, interrupts and
    restarts; the interrupt mask agrees with the open devices.
  \<^item> \<open>Mps_Linux\<close> (\<open>mps_tpe_linux.c\<close>): commands and remote allocation, data and application messages, registration.
    Shown: a remote allocation travels to core 0 and back with its result; registered functions are found; what an
    interrupted request and the release of a data list leave behind.
  \<^item> \<open>Mps_Skb\<close> (\<open>mps_tpe_linux.c\<close>, lines 998 to 1530): the operations on network buffers that core 1 performs on pool buffers, over
    byte memory with \<open>sk_buff\<close> as a record of pointers and lengths.  Shown: the result of copies, and where the pointers and
    bytes end up wrong.
  \<^item> \<open>Mps_Chardev\<close> (\<open>mps_tpe_linux.c\<close>): the character device, the proc files with the parser of \<open>mps1_apps_ready\<close>, and the
    initialisation of the module, which establishes the state from which commands succeed.
  \<^item> \<open>Icu\<close> (\<open>basic/interrupt.c\<close> and what it uses of \<open>arch/mips/kernel/irq.c\<close>): registers of the five controller modules as
    functions of the module number; requesting, releasing, disabling and enabling of lines.  Shown: the bisection for the lowest bit equals a linear search, a dispatcher serves the lowest
    pending interrupt, disabling nests.
  \<^item> \<open>Dma_Core\<close> (\<open>basic/dma-core.c\<close>): channels, descriptor rings, interrupt handler, tasklet, devices, initialisation.  Shown: pending
    channels are always scheduled, the transmit ring releases every accepted buffer once, also over a close, the rings are
    disjoint; and what a frame that is too long does.
  \<^item> \<open>Asc\<close> (\<open>drivers/char/ifx_asc.c\<close>): the serial port of core 1 with the transmit ring of the serial core, the flip buffer of the
    terminal layer and the interrupt lines of \<open>Icu\<close>.  The ring and the transmit interrupt interpret \<open>lossless_queue\<close>.  Shown: characters
    are sent once and in order and transmission ends, reception stays inside its buffer and passes characters on, enabling and
    disabling of the transmit interrupt are paired, a failed start leaves nothing behind.
  \<^item> \<open>Pci\<close> (\<open>arch/mips/pci/ops-danube.c\<close>, \<open>basic/pci.c\<close>): configuration space, interrupts of the devices, set-up of the bridge.  Registers
    are a map from addresses to words; the parameter \<open>latch\<close> is what a device makes of a write.  Shown: bytes are written and read
    without touching anything else, the interrupts are assigned by pin, the address windows of the bridge cover the memory range.
  \<^item> \<open>U64\<close> and \<open>Gptu\<close> (\<open>drivers/char/danube_gptu.c\<close>): the timer unit, its 64-bit multiplication and division, and its
    interrupt lines in \<open>Icu\<close>.  Shown: when the arithmetic is exact; an invariant of the unit over all calls, interrupts and
    hardware events; which timer a request gets and what it leaves alone; that freeing undoes a request; that a frequency is
    turned into the nearest period.  Products are exact below \<open>2 ^ 48\<close>, which covers their use in \<open>Cgu\<close>, where the same arithmetic stands.
  \<^item> \<open>Cgu\<close> (\<open>drivers/char/danube_cgu.c\<close>): the rates of all clocks as functions of the registers of the clock unit; a function that returns no
    value, which happens for a bypassed loop, gives \<open>None\<close>.  Shown: the rates of the loops are the nearest to the exact ones, and
    agree with the tables of the boot code of \<open>Board\<close>.
  \<^item> \<open>Wdt\<close> (\<open>drivers/char/danube_wdt.c\<close>): the watchdog, with the processor rate of \<open>Cgu\<close>.  The locale \<open>register_change\<close> is the contract of an
    operation on the control register; six operations interpret it.  Shown: every change follows the password protocol, the reload value
    is exact, and some mode calls stop the watchdog.
  \<^item> \<open>Gpio\<close> (\<open>port/port.c\<close>): the owners of the port pins, the operations on pins, the device calls and the proc file.  The locale
    \<open>pin_operation\<close> states what an operation does to the bit of its pin; all sixteen operations interpret it.  Shown: a reserved pin
    is isolated from other modules, what a device call writes, and which pin numbers the bounds check lets through wrongly.
  \<^item> \<open>Led\<close> (\<open>drivers/char/danube_led.c\<close>): the driver of the LED controller on top of \<open>Gpio\<close> and \<open>Gptu\<close>.  The configuration call is the plan that its
    parameters make (\<open>make_plan\<close>, one function for each selectable operation), followed by timer, pins and registers.  The locale
    \<open>field_update\<close> states that a function replaces a field of a register; eleven functions interpret it.  Shown: which pins the driver owns and
    when the controller has power, over all interleavings with other users of pins and timers; every bit of the registers after a
    configuration; and that a timer once taken is not given back.
  \<^item> \<open>Deu_Hash\<close> (\<open>drivers/crypto/ifxdeu-sha1.c\<close>, \<open>ifxdeu-md5.c\<close>): the drivers of the hash engine.  The locale \<open>block_stream\<close> is the
    contract of a routine that takes pieces of a message and hands on whole blocks; both drivers interpret it.  The engine is
    a parameter: it records the words it is fed, and its digest registers are any function of them.  Shown: the engine gets
    exactly the padded message, however it was cut; and what a second use of a context and a second context do.
  \<^item> \<open>Deu_Cipher\<close> (\<open>drivers/crypto/ifxdeu-des.c\<close>, \<open>ifxdeu-aes.c\<close>): the drivers for DES, triple DES and AES; what the engine makes of a block is
    a parameter.  Shown: decryption restores what was encrypted in every mode of DES, the check for weak keys refuses exactly the sixteen known
    keys, and what requests of several AES blocks return.
  \<^item> \<open>Spec2Isabelle\<close> (this theory): the path of a network buffer from the sender on core 0 to the registered functions of core 1.

  \<^bold>\<open>Conventions.\<close>  Operations take and return the state explicitly; a NULL dereference, an access out of
  bounds or a kernel stop is a value of the type \<open>fault\<close> (\<open>skb_fault\<close>, \<open>dma_fault\<close>) in the left summand
  (\<open>prom_fault\<close>, \<open>gptu_fault\<close>, \<open>port_fault\<close>, \<open>hash_fault\<close>, \<open>led_fault\<close> in the theories of these parts).
  Functions of the kernel and of other drivers are parameters (the effect of a handler, the answers of \<open>request_irq\<close>) or
  scripts in the state (the addresses that allocations return).  Concurrency between the cores, tasklets and interrupts is
  expressed by step relations and runs over all their interleavings.

  \<^bold>\<open>Bounds and fuel.\<close>  \<open>mbx_drain\<close> has the size of the FIFO as fuel, more than the messages it can hold;
  \<open>mbx_dispatch\<close> the length of the ring and one; \<open>read_file\<close> the length of the text and one; \<open>reclaim\<close> the number of
  descriptors, which \<open>reclaim_ring\<close> shows to be enough; \<open>dma_loop\<close> is bounded by the budget of the source itself.
  \<open>irq_loop\<close> and \<open>do_IRQ\<close> take their fuel as an argument, since a handler may make its interrupt pending again for ever; one round is
  enough where the handlers leave the controller alone.  The start of the timer unit polls its power state as often as the source does, at
  most 999999 times; how often until it runs is the argument \<open>awake\<close>, as for the LED controller, whose update loop makes the hundred turns
  of the source.  The results say that the loops return, not only what holds if they do.

  \<^bold>\<open>Not modelled.\<close>  The vendored kernel and user-space programs beyond the functions above; variants that the
  configuration does not compile (kernel threads, interrupt coalescing and flow control of the MPS driver,
  the Ethernet variants of the DMA driver, the DMA variants of the encryption unit drivers); texts of version files; cleanup
  functions, which a built-in driver never runs (that of the timer unit, a module, is modelled); delays and cache maintenance;
  the debugger port and the emulator support of the board; what \<open>setup_arch\<close> does behind the memory map.  The registration of
  drivers with the serial core and the crypto layer only passes constants.  Of the drivers of the chip, those for SSC and EEPROM, MEI, flash and
  the network interfaces of core 0 are left out; the configuration of core 1 selects none of them, and what they do is mostly the
  exchange with devices and protocol stacks outside the repository's own code.
\<close>

text \<open>C1: End to end.  Whatever list of network buffers CPU0 passes to \<open>ifx_mps_data_send\<close>, however many the
  mailbox accepts, one data interrupt on CPU1 calls the functions registered there once for every
  accepted buffer, with its address and length, in the order of sending, and leaves the mailbox empty.\<close>

theorem buffers_reach_registered_functions:
  assumes s0: "cpu_id (nd s0) = MPS_CPU_0_ID" "dwstrm_fifo (wifi_mbx (dev (nd s0)) ! 1) = std_mailboxes ! 3"
      "drained (std_mailboxes ! 3) (sram (nd s0))"
    and send: "send_all ds s0 = Inr (rcs, s0')" and acc: "accepted ds rcs = sent"
    and s1: "cpu_id (nd s1) = MPS_CPU_1_ID" "dwstrm_fifo (wifi_mbx (dev (nd s1)) ! 1) = std_mailboxes ! 3"
      "dm_inv (rcvDataMsgQ (nd s1))" "dm_list (rcvDataMsgQ (nd s1)) = []"
    and mem: "upcoming (kmem (nd s1)) = ps @ rest" "length ps = length sent" "0 \<notin> set ps" "distinct ps"
    and reg: "\<forall>d\<in>set sent. callback_function (dev (nd s1)) (fst d) = ADDR_ifx_mbx_data_rcv_callback
      \<and> data_callback_funct s1 (fst d) \<noteq> 0"
  shows "\<exists>s1'. serve_data1 truesize net (sram (nd s0')) s1 = Inr s1' \<and> drained (std_mailboxes ! 3) (sram (nd s1'))
    \<and> data_calls s1' = data_calls s1 @ map (\<lambda>(seq, addr, len). (data_callback_funct s1 seq, addr, len)) sent"
proof -
  let ?f = "std_mailboxes ! 3"
  have f: "?f = mbx_fifo (data_mbx (cpu_id (nd s0))) (dev (nd s0))" "wf_fifo ?f" "min_space ?f = fifo_size ?f"
    using s0 std_mailboxes_wf by (simp_all add: data_mbx_def mbx_fifo_def mbx_dev_def std_mailboxes_def)
  have h: "fifo_holds ?f (sram (nd s0')) (map (data_entry 0) sent)"
    using send_all_holds [OF f(1,2) drained_holds [OF s0(3)] f(3) send] s0(1) acc by (simp add: MPS_CPU_0_ID_def)
  let ?n = "(nd s1)\<lparr>sram := sram (nd s0'), calls := []\<rparr>"
  have len: "length (map (data_entry 0) sent) \<le> 16"
    using fifo_holds_length [OF h] by (simp add: std_mailboxes_def fifo_words_def)
  have bit: "bit (0x20 :: u32) 5" by (simp add: bit_iff_odd)
  have "fifo_holds ?f (sram ?n) (map (data_entry 0) sent)" using h by simp
  from data1_served [OF _ f(2) this, of ps rest "0x20" truesize] s1 mem len bit obtain n1 n2 cs where
    i: "ifx_mpsdrv_data1_irq truesize 0x20 ?n = Inr n1" "ifx_mps_cpu1_do_DnData_tasklet n1 = Inr n2"
      "drained ?f (sram n2)" "cpu_id n2 = cpu_id (nd s1)" "list_all2 carries (map (data_entry 0) sent) cs"
      "calls n2 = invocations (callback_function (dev (nd s1))) cs"
    by (auto simp: MAX_MPS_DATAMSG_QLEN_def std_mailboxes_def)
  have "run_callbacks net (invocations (callback_function (dev (nd s1))) cs) (s1\<lparr>nd := n2\<rparr>)
     = Inr (s1\<lparr>nd := n2, data_calls := data_calls s1 @ map (\<lambda>(seq, addr, len). (data_callback_funct s1 seq, addr, len)) sent\<rparr>)"
    using data_callbacks_run [OF i(5), of "s1\<lparr>nd := n2\<rparr>" "nd s1" net] i(4) s1(1) reg
    by (simp add: MPS_CPU_0_ID_def MPS_CPU_1_ID_def)
  with i show ?thesis by (simp add: serve_data1_def)
qed

theorem buffers_reach_registered_functions_witness:
  "\<exists>s0' s1'. send_all [(0x14, 0x00100000, 64)] demo_sender = Inr ([0], s0')
    \<and> serve_data1 (\<lambda>_. 0) (\<lambda>_. 0) (sram (nd s0')) demo_receiver = Inr s1'
    \<and> data_calls s1' = [(0x80012340, 0x00100000, 64)]"
proof -
  obtain s0' where s: "send_all [(0x14, 0x00100000, 64)] demo_sender = Inr ([0], s0')" using demo_sent by blast
  have a: "accepted [(0x14 :: u8, 0x00100000 :: u32, 64 :: u32)] [0] = [(0x14, 0x00100000, 64)]"
    by (simp add: accepted_def)
  have r: "cpu_id (nd demo_receiver) = MPS_CPU_1_ID" "dwstrm_fifo (wifi_mbx (dev (nd demo_receiver)) ! 1) = std_mailboxes ! 3"
    "dm_inv (rcvDataMsgQ (nd demo_receiver))" "dm_list (rcvDataMsgQ (nd demo_receiver)) = []"
    "upcoming (kmem (nd demo_receiver)) = [1] @ [2, 3, 4, 5, 6, 7, 8, 9, 10]"
    by (simp_all add: demo_receiver_def demo_cpu0_def demo_linux_def demo_cmd_node_def demo_node_def MPS_CPU_1_ID_def
      dm_inv_def dm_list_def dm_ring_def ring_inv_def ring_list_def ring_len_def MAX_MPS_DATAMSG_QLEN_def)
  have c: "callback_function (dev (nd demo_receiver)) 0x14 = ADDR_ifx_mbx_data_rcv_callback"
    "data_callback_funct demo_receiver 0x14 = 0x80012340" "data_calls demo_receiver = []"
    by (simp_all add: demo_receiver_def demo_linux_def)
  from buffers_reach_registered_functions [OF demo_sender_ok s a r(1-5), of "\<lambda>_. 0" "\<lambda>_. 0"] c
  obtain s1' where "serve_data1 (\<lambda>_. 0) (\<lambda>_. 0) (sram (nd s0')) demo_receiver = Inr s1'"
    "data_calls s1' = [(0x80012340, 0x00100000, 64)]" by auto
  with s show ?thesis by blast
qed

end
